(* ===== verification/Prelude.thy ===== *)
theory Prelude
  imports Main "HOL-Library.AList" "HOL-Library.Word" "HOL-Library.Char_ord"
    "HOL-Library.List_Lexorder" "HOL-Library.Sublist"
begin

text \<open>
  Shared vocabulary of the development: fallible results (Go's \<open>(value, error)\<close> returns),
  computations that thread a state and may fail, the \<open>strings\<close> functions the sources use,
  Go maps as association lists, and the generic list lemmas the components rest on.
\<close>

named_theorems go_str \<open>unfolding rules of the modelled Go string functions\<close>
named_theorems comp_simps \<open>evaluation rules of fallible and state-passing computations\<close>

section \<open>Fallible and state-passing computations\<close>

text \<open>A Go function returning \<open>(T, error)\<close> is a sum: \<open>Inl\<close> is the error.\<close>

type_synonym ('e, 'a) result = "'e + 'a"

definition rbind :: "('e, 'a) result \<Rightarrow> ('a \<Rightarrow> ('e, 'b) result) \<Rightarrow> ('e, 'b) result" where
  "rbind r f = (case r of Inl e \<Rightarrow> Inl e | Inr a \<Rightarrow> f a)"

lemma rbind_simps [simp, comp_simps]:
  "rbind (Inl e) f = Inl e"
  "rbind (Inr a) f = f a"
  by (simp_all add: rbind_def)

lemma rbind_eq_Inr: "rbind r f = Inr b \<longleftrightarrow> (\<exists>a. r = Inr a \<and> f a = Inr b)"
  by (cases r) auto

lemma rbind_eq_Inl: "rbind r f = Inl e \<longleftrightarrow> r = Inl e \<or> (\<exists>a. r = Inr a \<and> f a = Inl e)"
  by (cases r) auto

text \<open>A method that reads and writes its receiver and may fail.\<close>

type_synonym ('s, 'e, 'a) comp = "'s \<Rightarrow> ('e, 'a) result \<times> 's"

definition ret :: "'a \<Rightarrow> ('s, 'e, 'a) comp" where
  "ret a s = (Inr a, s)"

definition failwith :: "'e \<Rightarrow> ('s, 'e, 'a) comp" where
  "failwith e s = (Inl e, s)"

definition lift :: "('e, 'a) result \<Rightarrow> ('s, 'e, 'a) comp" where
  "lift r s = (r, s)"

definition bnd :: "('s, 'e, 'a) comp \<Rightarrow> ('a \<Rightarrow> ('s, 'e, 'b) comp) \<Rightarrow> ('s, 'e, 'b) comp" where
  "bnd m f s = (case m s of (Inl e, s') \<Rightarrow> (Inl e, s') | (Inr a, s') \<Rightarrow> f a s')"

text \<open>The error of a computation rewritten on the way out, as \<open>fmt.Errorf("...: %w", err)\<close>.\<close>

definition wrapErr :: "('e \<Rightarrow> 'f) \<Rightarrow> ('s, 'e, 'a) comp \<Rightarrow> ('s, 'f, 'a) comp" where
  "wrapErr g m s = (case m s of (Inl e, s') \<Rightarrow> (Inl (g e), s') | (Inr a, s') \<Rightarrow> (Inr a, s'))"

lemma comp_eval [simp, comp_simps]:
  "ret a s = (Inr a, s)"
  "failwith e s = (Inl e, s)"
  "lift r s = (r, s)"
  by (simp_all add: ret_def failwith_def lift_def)

lemma bnd_run:
  "bnd m f s = (case fst (m s) of Inl e \<Rightarrow> (Inl e, snd (m s)) | Inr a \<Rightarrow> f a (snd (m s)))"
  by (simp add: bnd_def split: prod.splits sum.splits)

lemma bnd_known [comp_simps]:
  "m s = (Inl e, s') \<Longrightarrow> bnd m f s = (Inl e, s')"
  "m s = (Inr a, s') \<Longrightarrow> bnd m f s = f a s'"
  by (simp_all add: bnd_def)

lemma wrapErr_known [comp_simps]:
  "m s = (Inl e, s') \<Longrightarrow> wrapErr g m s = (Inl (g e), s')"
  "m s = (Inr a, s') \<Longrightarrow> wrapErr g m s = (Inr a, s')"
  by (simp_all add: wrapErr_def)

lemma fst_wrapErr:
  "fst (wrapErr g m s) = (case fst (m s) of Inl e \<Rightarrow> Inl (g e) | Inr a \<Rightarrow> Inr a)"
  by (simp add: wrapErr_def split: prod.splits sum.splits)

lemma snd_wrapErr: "snd (wrapErr g m s) = snd (m s)"
  by (simp add: wrapErr_def split: prod.splits sum.splits)

lemma bnd_InrE:
  assumes "bnd m f s = (Inr b, s'')"
  obtains a s' where "m s = (Inr a, s')" and "f a s' = (Inr b, s'')"
  using assms by (auto simp: bnd_def split: prod.splits sum.splits)

lemma bnd_errE:
  assumes "fst (bnd m f s) = Inl e"
  obtains "fst (m s) = Inl e" | a s' where "m s = (Inr a, s')" and "fst (f a s') = Inl e"
  using assms by (auto simp: bnd_def split: prod.splits sum.splits)

lemma wrapErr_InrE:
  assumes "wrapErr g m s = (Inr a, s')"
  obtains "m s = (Inr a, s')"
  using assms by (auto simp: wrapErr_def split: prod.splits sum.splits)

section \<open>Strings\<close>

text \<open>A Go string is a byte sequence: a list of \<^typ>\<open>char\<close>.\<close>

definition hasPrefix :: "string \<Rightarrow> string \<Rightarrow> bool" where
  "hasPrefix s p \<longleftrightarrow> take (length p) s = p"

definition hasSuffix :: "string \<Rightarrow> string \<Rightarrow> bool" where
  "hasSuffix s p \<longleftrightarrow> hasPrefix (rev s) (rev p)"

text \<open>\<open>strings.Index(s, c)\<close> split at the first occurrence of one byte: the part before and,
  when the byte occurs, the part after it (\<open>strings.Cut\<close> with a one-byte separator).\<close>

fun cut :: "char \<Rightarrow> string \<Rightarrow> string \<times> string option" where
  "cut c [] = ([], None)"
| "cut c (x # xs) =
     (if x = c then ([], Some xs)
      else (case cut c xs of (a, b) \<Rightarrow> (x # a, b)))"

definition containsAny :: "string \<Rightarrow> string \<Rightarrow> bool" where
  "containsAny s cs \<longleftrightarrow> list_ex (\<lambda>c. c \<in> set cs) s"

fun containsSub :: "string \<Rightarrow> string \<Rightarrow> bool" where
  "containsSub [] p = (p = [])"
| "containsSub (x # xs) p = (hasPrefix (x # xs) p \<or> containsSub xs p)"

definition trimSuffix :: "string \<Rightarrow> string \<Rightarrow> string" where
  "trimSuffix s p = (if hasSuffix s p then take (length s - length p) s else s)"

definition trimRight :: "char \<Rightarrow> string \<Rightarrow> string" where
  "trimRight c s = rev (dropWhile (\<lambda>x. x = c) (rev s))"

definition isSpace :: "char \<Rightarrow> bool" where
  "isSpace c \<longleftrightarrow> c \<in> set [CHR 0x09, CHR 0x0A, CHR 0x0B, CHR 0x0C, CHR 0x0D, CHR '' '']"

definition trimSpace :: "string \<Rightarrow> string" where
  "trimSpace s = rev (dropWhile isSpace (rev (dropWhile isSpace s)))"

abbreviation nul :: char where
  "nul \<equiv> CHR 0x00"

lemma hasPrefix_append [simp, go_str]: "hasPrefix (p @ s) p"
  by (simp add: hasPrefix_def)

lemma hasPrefix_iff: "hasPrefix s p \<longleftrightarrow> (\<exists>t. s = p @ t)"
  by (metis append_eq_conv_conj append_take_drop_id hasPrefix_append hasPrefix_def)

lemma hasSuffix_iff: "hasSuffix s p \<longleftrightarrow> (\<exists>t. s = t @ p)"
  unfolding hasSuffix_def hasPrefix_iff
  by (metis rev_append rev_rev_ident)

lemma hasSuffix_append [simp, go_str]: "hasSuffix (s @ p) p"
  by (auto simp: hasSuffix_iff)

lemma cut_None: "snd (cut c s) = None \<longleftrightarrow> c \<notin> set s"
  by (induction s) (auto split: prod.splits)

lemma cut_Some: "cut c s = (a, Some b) \<Longrightarrow> s = a @ c # b \<and> c \<notin> set a"
  by (induction s arbitrary: a b) (auto split: if_splits prod.splits)

lemma cut_append: "c \<notin> set a \<Longrightarrow> cut c (a @ c # b) = (a, Some b)"
  by (induction a) auto

lemma trimSuffix_append [go_str]: "trimSuffix (s @ p) p = s"
  by (simp add: trimSuffix_def)

text \<open>Decimal rendering, as \<open>%d\<close> and \<open>strconv.Itoa\<close> produce it.\<close>

fun natDigits :: "nat \<Rightarrow> string" where
  "natDigits n = (if n < 10 then [char_of (48 + n)] else natDigits (n div 10) @ [char_of (48 + n mod 10)])"

declare natDigits.simps [simp del]

definition itoa :: "int \<Rightarrow> string" where
  "itoa n = (if n < 0 then CHR ''-'' # natDigits (nat (- n)) else natDigits (nat n))"

text \<open>\<open>strconv.ParseInt(s, 10, 64)\<close>: an optional sign, decimal digits, and the 64-bit range.\<close>

definition isDigit :: "char \<Rightarrow> bool" where
  "isDigit c \<longleftrightarrow> 48 \<le> (of_char c :: nat) \<and> (of_char c :: nat) \<le> 57"

definition digitsVal :: "string \<Rightarrow> int" where
  "digitsVal s = foldl (\<lambda>a c. a * 10 + (of_char c - 48)) 0 s"

definition parseDigits :: "string \<Rightarrow> int option" where
  "parseDigits s = (if s \<noteq> [] \<and> list_all isDigit s then Some (digitsVal s) else None)"

definition int64Range :: "int \<Rightarrow> bool" where
  "int64Range n \<longleftrightarrow> - (2 ^ 63) \<le> n \<and> n < 2 ^ 63"

definition parseInt64 :: "string \<Rightarrow> int option" where
  "parseInt64 s =
     (case (case s of [] \<Rightarrow> None
        | c # cs \<Rightarrow> if c = CHR ''-'' then map_option uminus (parseDigits cs)
                   else if c = CHR ''+'' then parseDigits cs else parseDigits s) of
        None \<Rightarrow> None
      | Some n \<Rightarrow> if int64Range n then Some n else None)"

text \<open>\<open>strings.Join\<close>.\<close>

fun joinWith :: "string \<Rightarrow> string list \<Rightarrow> string" where
  "joinWith sep [] = []"
| "joinWith sep [x] = x"
| "joinWith sep (x # y # xs) = x @ sep @ joinWith sep (y # xs)"

section \<open>Go maps\<close>

text \<open>
  A Go map that is ranged over is an association list with distinct keys, its order being the
  (unspecified) iteration order; a map that is only indexed is a function to \<open>option\<close>.
\<close>

type_synonym ('k, 'v) gomap = "('k \<times> 'v) list"

definition gomap :: "('k, 'v) gomap \<Rightarrow> bool" where
  "gomap m \<longleftrightarrow> distinct (map fst m)"

abbreviation gget :: "('k, 'v) gomap \<Rightarrow> 'k \<Rightarrow> 'v option" where
  "gget m k \<equiv> map_of m k"

definition gset :: "'k \<Rightarrow> 'v \<Rightarrow> ('k, 'v) gomap \<Rightarrow> ('k, 'v) gomap" where
  "gset k v m = AList.update k v m"

lemma gget_gset [simp]: "gget (gset k v m) = (gget m)(k \<mapsto> v)"
  by (rule ext) (simp add: gset_def update_conv)

lemma gomap_gset [simp, intro]: "gomap m \<Longrightarrow> gomap (gset k v m)"
  by (simp add: gset_def gomap_def distinct_update)

lemma gomap_Nil [simp, intro]: "gomap []"
  by (simp add: gomap_def)

lemma gomap_filter [simp, intro]: "gomap m \<Longrightarrow> gomap (filter P m)"
  by (simp add: gomap_def distinct_map_filter)

lemma gomap_set: "gomap m \<Longrightarrow> (k, v) \<in> set m \<longleftrightarrow> gget m k = Some v"
  by (simp add: gomap_def)

lemma gget_filter_key:
  "gget (filter (\<lambda>(k, _). P k) m) k = (if P k then gget m k else None)"
  by (induction m) auto

text \<open>Building a Go map by assigning the rows of a query one after the other.\<close>

definition gofold :: "('r \<Rightarrow> 'k \<times> 'v) \<Rightarrow> 'r list \<Rightarrow> ('k, 'v) gomap" where
  "gofold f rows = foldl (\<lambda>m r. gset (fst (f r)) (snd (f r)) m) [] rows"

lemma gofold_snoc: "gofold f (rs @ [r]) = gset (fst (f r)) (snd (f r)) (gofold f rs)"
  by (simp add: gofold_def)

lemma gofold_Nil [simp]: "gofold f [] = []"
  by (simp add: gofold_def)

lemma gomap_gofold [simp, intro]: "gomap (gofold f rs)"
  by (induction rs rule: rev_induct) (auto simp: gofold_snoc)

lemma gget_gofold: "gget (gofold f rs) = map_of (map f (rev rs))"
proof (induction rs rule: rev_induct)
  case (snoc r rs)
  then show ?case by (cases "f r") (simp add: gofold_snoc)
qed simp

lemma gget_gofold_None: "gget (gofold f rs) k = None \<longleftrightarrow> k \<notin> (\<lambda>r. fst (f r)) ` set rs"
  by (simp add: gget_gofold map_of_eq_None_iff image_image)

lemma gget_gofold_Some: "gget (gofold f rs) k = Some v \<Longrightarrow> \<exists>r \<in> set rs. f r = (k, v)"
  by (force simp: gget_gofold dest: map_of_SomeD)

lemma gget_gofold_inj:
  assumes "r \<in> set rs" and "f r = (k, v)" and "\<And>r'. r' \<in> set rs \<Longrightarrow> fst (f r') = k \<Longrightarrow> snd (f r') = v"
  shows "gget (gofold f rs) k = Some v"
proof -
  from assms(1,2) have "k \<in> (\<lambda>r. fst (f r)) ` set rs" by force
  then obtain w where w: "gget (gofold f rs) k = Some w"
    by (cases "gget (gofold f rs) k") (auto simp: gget_gofold_None)
  from gget_gofold_Some [OF this] assms(3) w show ?thesis by force
qed

section \<open>Lists\<close>

lemma sum_list_nonneg_append:
  "(\<And>x. x \<in> set xs \<Longrightarrow> 0 \<le> f x) \<Longrightarrow> (0 :: int) \<le> sum_list (map f xs)"
  by (induction xs) auto

lemma find_SomeD: "find P xs = Some x \<Longrightarrow> x \<in> set xs \<and> P x"
  by (induction xs) (auto split: if_splits)

lemma distinct_list_all_nth: "list_all P xs \<longleftrightarrow> (\<forall>x \<in> set xs. P x)"
  by (simp add: list_all_iff)

lemma takeWhile_dropWhile_rev_split:
  "xs = rev (dropWhile P (rev xs)) @ rev (takeWhile P (rev xs))"
  by (metis rev_append rev_rev_ident takeWhile_dropWhile_id)

end
