(* ===== verification/Lru.thy ===== *)
theory Lru
  imports Prelude
begin

text \<open>
  The size-bounded cache of \<open>internal/cache/lru.go\<close>. The Go structure keeps a hash map from keys
  to elements of a doubly linked list; here \<open>entries\<close> maps keys to element identities and
  \<open>order\<close> is the list, front (most recently used) first. Every method holds the mutex for its
  whole body, so each is one state transition. A nil receiver, for which the methods do nothing,
  is not modelled: every cache of the program is built by \<open>NewLRU\<close>.
\<close>

section \<open>State and operations\<close>

record ('k, 'v) entry =
  ekey :: 'k
  evalue :: 'v
  esize :: int

record ('k, 'v) LRU =
  lname :: string
  maxBytes :: int
  sizeOf :: "'v \<Rightarrow> int"
  armed :: bool
  entries :: "'k \<Rightarrow> nat option"
  order :: "(nat \<times> ('k, 'v) entry) list"
  nextEl :: nat
  bytes :: int
  hits :: "64 word"
  misses :: "64 word"
  evictions :: "64 word"

definition NewLRU :: "string \<Rightarrow> int \<Rightarrow> ('v \<Rightarrow> int) \<Rightarrow> ('k, 'v) LRU" where
  "NewLRU nm mx sz = \<lparr>lname = nm, maxBytes = mx, sizeOf = sz, armed = True,
     entries = (\<lambda>_. None), order = [], nextEl = 0, bytes = 0,
     hits = 0, misses = 0, evictions = 0\<rparr>"

definition Purge :: "('k, 'v) LRU \<Rightarrow> ('k, 'v) LRU" where
  "Purge c = c\<lparr>entries := (\<lambda>_. None), order := [], bytes := 0\<rparr>"

definition SetArmed :: "bool \<Rightarrow> ('k, 'v) LRU \<Rightarrow> ('k, 'v) LRU" where
  "SetArmed b c = (let c' = c\<lparr>armed := b\<rparr> in if \<not> b then Purge c' else c')"

definition Enabled :: "('k, 'v) LRU \<Rightarrow> bool" where
  "Enabled c \<longleftrightarrow> maxBytes c > 0 \<and> armed c"

text \<open>\<open>list.MoveToFront\<close> and \<open>list.Remove\<close> by element identity.\<close>

definition listRemove :: "nat \<Rightarrow> (nat \<times> 'a) list \<Rightarrow> (nat \<times> 'a) list" where
  "listRemove i xs = filter (\<lambda>(j, _). j \<noteq> i) xs"

text \<open>
  A key is mapped to an element exactly while that element is on the list, so the inner
  \<open>None\<close> cases below are never taken (\<open>lru_inv\<close>).
\<close>

definition Get :: "'k \<Rightarrow> ('k, 'v) LRU \<Rightarrow> 'v option \<times> ('k, 'v) LRU" where
  "Get k c =
     (if \<not> Enabled c then (None, c)
      else case entries c k of
        None \<Rightarrow> (None, c\<lparr>misses := misses c + 1\<rparr>)
      | Some i \<Rightarrow> (case map_of (order c) i of
          None \<Rightarrow> (None, c)
        | Some e \<Rightarrow> (Some (evalue e),
            c\<lparr>order := (i, e) # listRemove i (order c), hits := hits c + 1\<rparr>)))"

function evictLocked :: "('k, 'v) LRU \<Rightarrow> ('k, 'v) LRU" where
  "evictLocked c =
     (if bytes c > maxBytes c then
        (if order c = [] then c
         else let e = snd (last (order c)) in
           evictLocked (c\<lparr>order := butlast (order c), entries := (entries c)(ekey e := None),
             bytes := bytes c - esize e, evictions := evictions c + 1\<rparr>))
      else c)"
  by pat_completeness auto
termination
  by (relation "measure (\<lambda>c. length (order c))") auto

declare evictLocked.simps [simp del]

definition Add :: "'k \<Rightarrow> 'v \<Rightarrow> ('k, 'v) LRU \<Rightarrow> ('k, 'v) LRU" where
  "Add k v c =
     (if \<not> Enabled c then c
      else let sz = sizeOf c v in
        if sz > maxBytes c then c
        else case entries c k of
          Some i \<Rightarrow> (case map_of (order c) i of
            None \<Rightarrow> c
          | Some e \<Rightarrow> evictLocked (c\<lparr>bytes := bytes c + (sz - esize e),
              order := (i, e\<lparr>evalue := v, esize := sz\<rparr>) # listRemove i (order c)\<rparr>))
        | None \<Rightarrow> evictLocked (c\<lparr>
              order := (nextEl c, \<lparr>ekey = k, evalue = v, esize = sz\<rparr>) # order c,
              nextEl := Suc (nextEl c),
              entries := (entries c)(k \<mapsto> nextEl c),
              bytes := bytes c + sz\<rparr>))"

definition Remove :: "'k \<Rightarrow> ('k, 'v) LRU \<Rightarrow> ('k, 'v) LRU" where
  "Remove k c =
     (case entries c k of
        None \<Rightarrow> c
      | Some i \<Rightarrow> (case map_of (order c) i of
          None \<Rightarrow> c
        | Some e \<Rightarrow> c\<lparr>bytes := bytes c - esize e, order := listRemove i (order c),
            entries := (entries c)(k := None)\<rparr>))"

record Stats =
  sName :: string
  sEntries :: nat
  sBytes :: int
  sMaxBytes :: int
  sHits :: "64 word"
  sMisses :: "64 word"
  sEvictions :: "64 word"

definition lruStats :: "('k, 'v) LRU \<Rightarrow> Stats" where
  "lruStats c = \<lparr>sName = lname c, sEntries = card (dom (entries c)), sBytes = bytes c,
     sMaxBytes = maxBytes c, sHits = hits c, sMisses = misses c, sEvictions = evictions c\<rparr>"

section \<open>The visible contents and the structural invariant\<close>

definition contents :: "('k, 'v) LRU \<Rightarrow> 'k \<Rightarrow> 'v option" where
  "contents c k = (case entries c k of None \<Rightarrow> None
     | Some i \<Rightarrow> map_option evalue (map_of (order c) i))"

abbreviation elSize :: "nat \<times> ('k, 'v) entry \<Rightarrow> int" where
  "elSize \<equiv> \<lambda>p. esize (snd p)"

abbreviation elKey :: "nat \<times> ('k, 'v) entry \<Rightarrow> 'k" where
  "elKey \<equiv> \<lambda>p. ekey (snd p)"

definition lru_inv :: "('k, 'v) LRU \<Rightarrow> bool" where
  "lru_inv c \<longleftrightarrow>
     distinct (map fst (order c)) \<and>
     distinct (map elKey (order c)) \<and>
     (\<forall>k i. entries c k = Some i \<longleftrightarrow> (\<exists>e. (i, e) \<in> set (order c) \<and> ekey e = k)) \<and>
     (\<forall>(i, e) \<in> set (order c). i < nextEl c \<and> esize e = sizeOf c (evalue e)) \<and>
     bytes c = sum_list (map elSize (order c)) \<and>
     (\<forall>v. 0 \<le> sizeOf c v) \<and> 0 \<le> maxBytes c"

definition within_bound :: "('k, 'v) LRU \<Rightarrow> bool" where
  "within_bound c \<longleftrightarrow> bytes c \<le> maxBytes c"

lemma map_of_order:
  "lru_inv c \<Longrightarrow> (i, e) \<in> set (order c) \<Longrightarrow> map_of (order c) i = Some e"
  by (simp add: lru_inv_def)

lemma order_unique:
  assumes "lru_inv c" and "(i, e) \<in> set (order c)" and "(j, e') \<in> set (order c)"
  shows "i = j \<Longrightarrow> e' = e" and "ekey e' = ekey e \<Longrightarrow> j = i"
proof -
  show "i = j \<Longrightarrow> e' = e" 
    using map_of_order [OF assms(1,2)] map_of_order [OF assms(1,3)] by simp
  have "entries c (ekey e) = Some i" "entries c (ekey e') = Some j"
    using assms by (auto simp: lru_inv_def)
  then show "ekey e' = ekey e \<Longrightarrow> j = i" by simp
qed

lemma entries_order:
  assumes "lru_inv c" and "entries c k = Some i"
  obtains e where "map_of (order c) i = Some e" "(i, e) \<in> set (order c)" "ekey e = k"
  using assms by (auto simp: lru_inv_def)

lemma entries_None:
  assumes "lru_inv c" and "entries c k = None" and "p \<in> set (order c)"
  shows "elKey p \<noteq> k"
proof
  assume "elKey p = k"
  moreover have "(fst p, snd p) \<in> set (order c)" using assms(3) by simp
  ultimately have "entries c k = Some (fst p)" using assms(1) unfolding lru_inv_def by blast
  with assms(2) show False by simp
qed

lemma listRemove_set: "set (listRemove i xs) = {p \<in> set xs. fst p \<noteq> i}"
  by (auto simp: listRemove_def)

lemma listRemove_distinct:
  "distinct (map f xs) \<Longrightarrow> distinct (map f (listRemove i xs))"
  by (simp add: listRemove_def distinct_map_filter)

lemma listRemove_sum:
  "distinct (map fst xs) \<Longrightarrow> (i, e) \<in> set xs \<Longrightarrow>
   sum_list (map (\<lambda>p. g (snd p)) (listRemove i xs)) = sum_list (map (\<lambda>p. g (snd p)) xs) - (g e :: int)"
proof (induction xs)
  case (Cons p xs)
  show ?case
  proof (cases "fst p = i")
    case True
    with Cons.prems(1) have "\<forall>q \<in> set xs. fst q \<noteq> i" by (auto simp: image_iff)
    then have "listRemove i xs = xs"
      by (auto simp: listRemove_def filter_id_conv)
    moreover from True Cons.prems have "p = (i, e)"
      by (cases p) (auto simp: image_iff)
    ultimately show ?thesis by (simp add: listRemove_def)
  next
    case False
    with Cons show ?thesis by (auto simp: listRemove_def split: prod.splits)
  qed
qed simp

section \<open>Eviction keeps the longest prefix that fits\<close>

text \<open>The abstract cache: most recently used first, cut to the prefix that fits the budget.\<close>

fun fit :: "('a \<Rightarrow> int) \<Rightarrow> int \<Rightarrow> 'a list \<Rightarrow> 'a list" where
  "fit sz b [] = []"
| "fit sz b (x # xs) = (if sz x \<le> b then x # fit sz (b - sz x) xs else [])"

lemma fit_all:
  "(\<And>x. x \<in> set xs \<Longrightarrow> 0 \<le> sz x) \<Longrightarrow> sum_list (map sz xs) \<le> b \<Longrightarrow> fit sz b xs = xs"
proof (induction xs arbitrary: b)
  case (Cons x xs)
  have "0 \<le> sum_list (map sz xs)"
    by (rule sum_list_nonneg_append) (simp add: Cons.prems(1))
  with Cons show ?case by simp
qed simp

lemma fit_drop_last:
  "(\<And>x. x \<in> set xs \<Longrightarrow> 0 \<le> sz x) \<Longrightarrow> b < sum_list (map sz (xs @ [y])) \<Longrightarrow>
   fit sz b (xs @ [y]) = fit sz b xs"
  by (induction xs arbitrary: b) auto

lemma fit_sum: "0 \<le> b \<Longrightarrow> sum_list (map sz (fit sz b xs)) \<le> b"
proof (induction xs arbitrary: b)
  case (Cons x xs)
  from Cons.IH [of "b - sz x"] Cons.prems show ?case by auto
qed simp

lemma fit_prefix: "prefix (fit sz b xs) xs"
  by (induction xs arbitrary: b) auto

lemma fit_set: "set (fit sz b xs) \<subseteq> set xs"
  by (rule set_mono_prefix [OF fit_prefix])

lemma fit_distinct: "distinct (map f xs) \<Longrightarrow> distinct (map f (fit sz b xs))"
  by (metis distinct_append fit_prefix map_append prefix_def)

lemma fit_maximal:
  assumes "\<And>x. x \<in> set xs \<Longrightarrow> 0 \<le> sz x" and "prefix ys xs" and "sum_list (map sz ys) \<le> b"
  shows "prefix ys (fit sz b xs)"
  using assms
proof (induction xs arbitrary: ys b)
  case (Cons x xs)
  show ?case
  proof (cases ys)
    case (Cons y ys')
    with Cons.prems(2) have y: "y = x" and p: "prefix ys' xs" by auto
    have "0 \<le> sum_list (map sz ys')"
    proof (rule sum_list_nonneg_append)
      fix z assume "z \<in> set ys'"
      with p show "0 \<le> sz z" by (meson Cons.prems(1) list.set_intros(2) set_mono_prefix subsetD)
    qed
    moreover have "prefix ys' (fit sz (b - sz x) xs)"
      using Cons.IH [OF _ p] Cons.prems(1,3) Cons y by simp
    ultimately show ?thesis using Cons Cons.prems(3) y by simp
  qed simp
qed simp

lemma map_butlast_last:
  "xs \<noteq> [] \<Longrightarrow> sum_list (map f xs) = sum_list (map f (butlast xs)) + (f (last xs) :: int)"
  by (induction xs rule: rev_induct) auto

lemma evict_keeps:
  "maxBytes (evictLocked c) = maxBytes c \<and> sizeOf (evictLocked c) = sizeOf c \<and>
   armed (evictLocked c) = armed c \<and> nextEl (evictLocked c) = nextEl c \<and>
   lname (evictLocked c) = lname c \<and> hits (evictLocked c) = hits c \<and>
   misses (evictLocked c) = misses c"
proof (induction c rule: evictLocked.induct)
  case (1 c)
  then show ?case by (subst (1 2 3 4 5 6 7) evictLocked.simps) (simp add: Let_def)
qed

lemmas evict_frame [simp] =
  evict_keeps [THEN conjunct1]
  evict_keeps [THEN conjunct2, THEN conjunct1]
  evict_keeps [THEN conjunct2, THEN conjunct2, THEN conjunct1]
  evict_keeps [THEN conjunct2, THEN conjunct2, THEN conjunct2, THEN conjunct1]

lemma inv_butlast:
  assumes "lru_inv c" and "order c \<noteq> []"
  shows "lru_inv (c\<lparr>order := butlast (order c),
           entries := (entries c)(ekey (snd (last (order c))) := None),
           bytes := bytes c - esize (snd (last (order c))), evictions := n\<rparr>)"
proof -
  obtain xs i e where xs: "order c = xs @ [(i, e)]"
    using assms(2) by (metis append_butlast_last_id surj_pair)
  have "\<And>k j. ((entries c)(ekey e := None)) k = Some j \<longleftrightarrow> (\<exists>e'. (j, e') \<in> set xs \<and> ekey e' = k)"
    using assms(1) unfolding lru_inv_def xs by (auto simp: image_iff)
  with assms(1) show ?thesis by (auto simp: lru_inv_def xs)
qed

lemma evict_inv_fit:
  "lru_inv c \<Longrightarrow> lru_inv (evictLocked c) \<and> within_bound (evictLocked c) \<and>
     order (evictLocked c) = fit elSize (maxBytes c) (order c)"
proof (induction c rule: evictLocked.induct)
  case (1 c)
  have nn: "\<And>x. x \<in> set (order c) \<Longrightarrow> 0 \<le> elSize x"
    using "1.prems" by (auto simp: lru_inv_def)
  have bs: "bytes c = sum_list (map elSize (order c))"
    using "1.prems" by (simp add: lru_inv_def)
  show ?case
  proof (cases "bytes c > maxBytes c \<and> order c \<noteq> []")
    case True
    let ?e = "snd (last (order c))"
    let ?c = "c\<lparr>order := butlast (order c), entries := (entries c)(ekey ?e := None),
             bytes := bytes c - esize ?e, evictions := evictions c + 1\<rparr>"
    have ev: "evictLocked c = evictLocked ?c"
      using True by (subst evictLocked.simps) (simp add: Let_def)
    have "fit elSize (maxBytes c) (order c) = fit elSize (maxBytes c) (butlast (order c))"
    proof -
      have sp: "order c = butlast (order c) @ [last (order c)]" using True by simp
      have "fit elSize (maxBytes c) (butlast (order c) @ [last (order c)])
          = fit elSize (maxBytes c) (butlast (order c))"
      proof (rule fit_drop_last)
        show "\<And>x. x \<in> set (butlast (order c)) \<Longrightarrow> 0 \<le> elSize x"
          using nn by (meson in_set_butlastD)
        show "maxBytes c < sum_list (map elSize (butlast (order c) @ [last (order c)]))"
          using True bs by (metis sp)
      qed
      then show ?thesis using sp by metis
    qed
    with "1.IH" [of ?e] inv_butlast [OF "1.prems"] True ev show ?thesis by simp
  next
    case False
    have "order c = [] \<Longrightarrow> bytes c = 0" using bs by simp
    moreover have "0 \<le> maxBytes c" using "1.prems" by (simp add: lru_inv_def)
    ultimately have le: "bytes c \<le> maxBytes c" using False by (cases "order c = []") simp_all
    have "evictLocked c = c" using le by (subst evictLocked.simps) simp
    moreover have "fit elSize (maxBytes c) (order c) = order c"
    proof (rule fit_all)
      show "sum_list (map elSize (order c)) \<le> maxBytes c" using le unfolding bs .
    qed (rule nn)
    ultimately show ?thesis using le "1.prems" by (simp add: within_bound_def)
  qed
qed

lemmas evict_inv = evict_inv_fit [THEN conjunct1]
lemmas evict_bound = evict_inv_fit [THEN conjunct2, THEN conjunct1]
lemmas evict_order = evict_inv_fit [THEN conjunct2, THEN conjunct2]

section \<open>Every operation keeps the invariant\<close>

lemma inv_moveToFront:
  assumes "lru_inv c" and "(i, e) \<in> set (order c)" and "ekey e' = ekey e"
    and "esize e' = sizeOf c (evalue e')"
  shows "lru_inv (c\<lparr>order := (i, e') # listRemove i (order c), hits := h,
           bytes := bytes c + (esize e' - esize e)\<rparr>)"
proof -
  have d: "distinct (map fst (order c))" "distinct (map elKey (order c))"
    using assms(1) by (auto simp: lru_inv_def)
  note uniq = order_unique(2) [OF assms(1,2)] and one = order_unique(1) [OF assms(1,2)]
  have ent: "\<And>k j. entries c k = Some j \<longleftrightarrow> (\<exists>e2. (j, e2) \<in> set (order c) \<and> ekey e2 = k)"
    using assms(1) by (auto simp: lru_inv_def)
  have "entries c k = Some j \<longleftrightarrow>
      (\<exists>e2. (j, e2) \<in> set ((i, e') # listRemove i (order c)) \<and> ekey e2 = k)" for k j
    using assms(2,3) by (cases "j = i") (auto simp: ent listRemove_set dest: one [OF _ refl])
  moreover have "distinct (map elKey ((i, e') # listRemove i (order c)))"
    using d(2) uniq assms(3) by (auto simp: listRemove_distinct listRemove_set)
  ultimately show ?thesis using assms d
    by (auto simp: lru_inv_def listRemove_distinct listRemove_set listRemove_sum)
qed

lemma inv_pushFront:
  assumes "lru_inv c" and "entries c k = None" and "sz = sizeOf c v"
  shows "lru_inv (c\<lparr>order := (nextEl c, \<lparr>ekey = k, evalue = v, esize = sz\<rparr>) # order c,
           nextEl := Suc (nextEl c), entries := (entries c)(k \<mapsto> nextEl c), bytes := bytes c + sz\<rparr>)"
proof -
  have fresh: "\<And>i e. (i, e) \<in> set (order c) \<Longrightarrow> i < nextEl c"
    and key: "\<And>i e. (i, e) \<in> set (order c) \<Longrightarrow> entries c (ekey e) = Some i"
    using assms(1) by (auto simp: lru_inv_def)
  from key assms(2) have nk: "\<And>i e. (i, e) \<in> set (order c) \<Longrightarrow> ekey e \<noteq> k" by force
  have "\<And>k' j. ((entries c)(k \<mapsto> nextEl c)) k' = Some j \<longleftrightarrow>
      (\<exists>e. (j, e) \<in> set ((nextEl c, \<lparr>ekey = k, evalue = v, esize = sz\<rparr>) # order c) \<and> ekey e = k')"
    using assms(1) fresh nk by (auto simp: lru_inv_def)
  moreover have "nextEl c \<notin> fst ` set (order c)" using fresh by force
  moreover have "k \<notin> elKey ` set (order c)" using nk by force
  ultimately show ?thesis using assms fresh
    by (auto simp: lru_inv_def less_Suc_eq)
qed

lemma inv_remove:
  assumes "lru_inv c" and "(i, e) \<in> set (order c)"
  shows "lru_inv (c\<lparr>bytes := bytes c - esize e, order := listRemove i (order c),
           entries := (entries c)(ekey e := None)\<rparr>)"
proof -
  have d: "distinct (map fst (order c))" "distinct (map elKey (order c))"
    and ent: "\<And>k j. entries c k = Some j \<longleftrightarrow> (\<exists>e2. (j, e2) \<in> set (order c) \<and> ekey e2 = k)"
    using assms(1) by (auto simp: lru_inv_def)
  note uniq = order_unique(2) [OF assms] and one = order_unique(1) [OF assms]
  have "((entries c)(ekey e := None)) k = Some j \<longleftrightarrow>
      (\<exists>e2. (j, e2) \<in> set (listRemove i (order c)) \<and> ekey e2 = k)" for k j
    using assms(2)
    by (cases "j = i"; cases "k = ekey e") (auto simp: listRemove_set ent dest: one [OF _ refl] uniq)
  with assms d show ?thesis
    by (auto simp: lru_inv_def listRemove_distinct listRemove_set listRemove_sum)
qed

lemma lru_inv_New: "0 \<le> mx \<Longrightarrow> (\<And>v. 0 \<le> sz v) \<Longrightarrow> lru_inv (NewLRU nm mx sz)"
  by (simp add: lru_inv_def NewLRU_def)

lemma lru_inv_Purge [intro]: "lru_inv c \<Longrightarrow> lru_inv (Purge c)"
  by (simp add: lru_inv_def Purge_def)

lemma lru_inv_SetArmed [intro]: "lru_inv c \<Longrightarrow> lru_inv (SetArmed b c)"
  by (simp add: lru_inv_def Purge_def SetArmed_def Let_def)

lemma lru_inv_counter [simp]: "lru_inv (c\<lparr>misses := n\<rparr>) = lru_inv c"
  by (simp add: lru_inv_def)

lemma lru_inv_Get [intro]:
  assumes "lru_inv c" shows "lru_inv (snd (Get k c))"
proof (cases "Enabled c \<and> entries c k \<noteq> None")
  case True
  then obtain i e where i: "entries c k = Some i" "map_of (order c) i = Some e" "(i, e) \<in> set (order c)"
    using assms by (auto elim: entries_order)
  have "esize e = sizeOf c (evalue e)" using assms i(3) by (auto simp: lru_inv_def)
  with inv_moveToFront [OF assms i(3) refl] i True show ?thesis by (simp add: Get_def)
qed (auto simp: Get_def assms)

lemma lru_inv_Remove [intro]:
  assumes "lru_inv c" shows "lru_inv (Remove k c)"
proof (cases "entries c k")
  case (Some i)
  with assms obtain e where "map_of (order c) i = Some e" "(i, e) \<in> set (order c)" "ekey e = k"
    by (auto elim: entries_order)
  with Some inv_remove [OF assms] show ?thesis by (auto simp: Remove_def)
qed (simp add: Remove_def assms)

text \<open>Before eviction, \<open>Add\<close> has moved or pushed the entry to the front.\<close>

definition addFront :: "'k \<Rightarrow> 'v \<Rightarrow> ('k, 'v) LRU \<Rightarrow> ('k, 'v) LRU" where
  "addFront k v c =
     (case entries c k of
        Some i \<Rightarrow> c\<lparr>bytes := bytes c + (sizeOf c v - esize (the (map_of (order c) i))),
          order := (i, the (map_of (order c) i)\<lparr>evalue := v, esize := sizeOf c v\<rparr>)
                     # listRemove i (order c)\<rparr>
      | None \<Rightarrow> c\<lparr>order := (nextEl c, \<lparr>ekey = k, evalue = v, esize = sizeOf c v\<rparr>) # order c,
          nextEl := Suc (nextEl c), entries := (entries c)(k \<mapsto> nextEl c),
          bytes := bytes c + sizeOf c v\<rparr>)"

lemma Add_addFront:
  assumes "lru_inv c"
  shows "Add k v c = (if Enabled c \<and> sizeOf c v \<le> maxBytes c then evictLocked (addFront k v c) else c)"
proof (cases "entries c k")
  case None
  then show ?thesis by (simp add: Add_def addFront_def Let_def)
next
  case (Some i)
  with assms obtain e where "map_of (order c) i = Some e" by (auto elim: entries_order)
  with Some show ?thesis by (simp add: Add_def addFront_def Let_def)
qed

lemma addFront_inv:
  assumes "lru_inv c" shows "lru_inv (addFront k v c)"
proof (cases "entries c k")
  case None
  with assms show ?thesis by (simp add: addFront_def inv_pushFront)
next
  case (Some i)
  with assms obtain e where e: "map_of (order c) i = Some e" "(i, e) \<in> set (order c)"
    by (auto elim: entries_order)
  have "c\<lparr>order := (i, e\<lparr>evalue := v, esize := sizeOf c v\<rparr>) # listRemove i (order c),
      hits := hits c, bytes := bytes c + (sizeOf c v - esize e)\<rparr> = addFront k v c"
    using Some e by (simp add: addFront_def)
  then show ?thesis
    using inv_moveToFront [OF assms e(2), of "e\<lparr>evalue := v, esize := sizeOf c v\<rparr>" "hits c"] by simp
qed

lemma addFront_frame [simp]:
  "maxBytes (addFront k v c) = maxBytes c" "sizeOf (addFront k v c) = sizeOf c"
  "armed (addFront k v c) = armed c"
  by (simp_all add: addFront_def split: option.splits)

lemma lru_inv_Add [intro]: "lru_inv c \<Longrightarrow> lru_inv (Add k v c)"
  by (simp add: Add_addFront addFront_inv evict_inv)

lemma within_bound_Add: "lru_inv c \<Longrightarrow> within_bound c \<Longrightarrow> within_bound (Add k v c)"
  by (simp add: Add_addFront addFront_inv evict_bound)

lemma Get_frame [simp]:
  "maxBytes (snd (Get k c)) = maxBytes c" "sizeOf (snd (Get k c)) = sizeOf c"
  "armed (snd (Get k c)) = armed c" "bytes (snd (Get k c)) = bytes c"
  by (simp_all add: Get_def split: option.splits)

lemma Add_frame [simp]:
  "lru_inv c \<Longrightarrow> maxBytes (Add k v c) = maxBytes c"
  "lru_inv c \<Longrightarrow> sizeOf (Add k v c) = sizeOf c"
  "lru_inv c \<Longrightarrow> armed (Add k v c) = armed c"
  by (simp_all add: Add_addFront)

lemma Remove_frame [simp]:
  "maxBytes (Remove k c) = maxBytes c" "sizeOf (Remove k c) = sizeOf c" "armed (Remove k c) = armed c"
  by (simp_all add: Remove_def split: option.splits)

lemma Purge_frame [simp]:
  "maxBytes (Purge c) = maxBytes c" "sizeOf (Purge c) = sizeOf c" "armed (Purge c) = armed c"
  by (simp_all add: Purge_def)

lemma SetArmed_frame [simp]:
  "maxBytes (SetArmed b c) = maxBytes c" "sizeOf (SetArmed b c) = sizeOf c" "armed (SetArmed b c) = b"
  by (simp_all add: SetArmed_def Let_def)

lemma within_bound_Remove: "lru_inv c \<Longrightarrow> within_bound c \<Longrightarrow> within_bound (Remove k c)"
proof (cases "entries c k")
  case (Some i)
  assume inv: "lru_inv c" and wb: "within_bound c"
  from inv Some obtain e where e: "map_of (order c) i = Some e" "(i, e) \<in> set (order c)"
    by (auto elim: entries_order)
  have "0 \<le> esize e" using inv e(2) by (auto simp: lru_inv_def)
  with Some e wb show ?thesis by (simp add: Remove_def within_bound_def)
qed (simp add: Remove_def)

section \<open>Refinement of an abstract recency list\<close>

text \<open>
  What the cache promises: a list of key/value pairs, most recently used first, in which a key
  occurs once; adding puts the pair in front and keeps the longest prefix within the budget.
\<close>

definition recency :: "('k, 'v) LRU \<Rightarrow> ('k \<times> 'v) list" where
  "recency c = map (\<lambda>p. (elKey p, evalue (snd p))) (order c)"

definition spec_get :: "'k \<Rightarrow> ('k \<times> 'v) list \<Rightarrow> 'v option \<times> ('k \<times> 'v) list" where
  "spec_get k xs = (map_of xs k, case map_of xs k of None \<Rightarrow> xs
     | Some v \<Rightarrow> (k, v) # filter (\<lambda>p. fst p \<noteq> k) xs)"

definition spec_add :: "('v \<Rightarrow> int) \<Rightarrow> int \<Rightarrow> 'k \<Rightarrow> 'v \<Rightarrow> ('k \<times> 'v) list \<Rightarrow> ('k \<times> 'v) list" where
  "spec_add sz mx k v xs =
     (if sz v > mx then xs
      else fit (\<lambda>p. sz (snd p)) mx ((k, v) # filter (\<lambda>p. fst p \<noteq> k) xs))"

definition spec_remove :: "'k \<Rightarrow> ('k \<times> 'v) list \<Rightarrow> ('k \<times> 'v) list" where
  "spec_remove k xs = filter (\<lambda>p. fst p \<noteq> k) xs"

lemma map_fit:
  "(\<And>x. x \<in> set xs \<Longrightarrow> sz x = sz' (f x)) \<Longrightarrow> map f (fit sz b xs) = fit sz' b (map f xs)"
  by (induction xs arbitrary: b) auto

lemma recency_distinct: "lru_inv c \<Longrightarrow> distinct (map fst (recency c))"
  by (simp add: lru_inv_def recency_def comp_def)

lemma contents_recency: 
  assumes "lru_inv c" shows "contents c = map_of (recency c)"
proof (rule ext)
  fix k
  show "contents c k = map_of (recency c) k"
  proof (cases "entries c k")
    case None
    have "k \<notin> elKey ` set (order c)" using entries_None [OF assms None] by auto
    then have "map_of (recency c) k = None"
      by (simp add: recency_def map_of_eq_None_iff image_image)
    with None show ?thesis by (simp add: contents_def)
  next
    case (Some i)
    with assms obtain e where e: "map_of (order c) i = Some e" "(i, e) \<in> set (order c)" "ekey e = k"
      by (auto elim: entries_order)
    then have "(k, evalue e) \<in> set (recency c)" by (force simp: recency_def)
    with recency_distinct [OF assms] have "map_of (recency c) k = Some (evalue e)" by simp
    with Some e show ?thesis by (simp add: contents_def)
  qed
qed

lemma recency_listRemove:
  assumes "lru_inv c" and "(i, e) \<in> set (order c)"
  shows "map (\<lambda>p. (elKey p, evalue (snd p))) (listRemove i (order c))
       = filter (\<lambda>p. fst p \<noteq> ekey e) (recency c)"
proof -
  have "(case p of (j, _) \<Rightarrow> j \<noteq> i) = (elKey p \<noteq> ekey e)" if "p \<in> set (order c)" for p
    using that order_unique [OF assms, of "fst p" "snd p"] by (cases p) auto
  then have "listRemove i (order c) = filter (\<lambda>p. elKey p \<noteq> ekey e) (order c)"
    unfolding listRemove_def by (rule filter_cong [OF refl])
  then show ?thesis by (simp add: recency_def filter_map comp_def)
qed

lemma recency_addFront:
  assumes "lru_inv c"
  shows "recency (addFront k v c) = (k, v) # filter (\<lambda>p. fst p \<noteq> k) (recency c)"
proof (cases "entries c k")
  case None
  with assms have "\<And>p. p \<in> set (order c) \<Longrightarrow> elKey p \<noteq> k" by (rule entries_None)
  then have "filter (\<lambda>p. fst p \<noteq> k) (recency c) = recency c"
    by (auto simp: recency_def filter_id_conv)
  with None show ?thesis by (simp add: addFront_def recency_def)
next
  case (Some i)
  with assms obtain e where e: "map_of (order c) i = Some e" "(i, e) \<in> set (order c)" "ekey e = k"
    by (auto elim: entries_order)
  with Some recency_listRemove [OF assms e(2)] show ?thesis
    by (simp add: addFront_def recency_def)
qed

lemma recency_evict:
  assumes "lru_inv c"
  shows "recency (evictLocked c) = fit (\<lambda>p. sizeOf c (snd p)) (maxBytes c) (recency c)"
  unfolding recency_def evict_order [OF assms]
  by (rule map_fit) (use assms in \<open>auto simp: lru_inv_def\<close>)

lemma recency_Add:
  assumes "lru_inv c" and "Enabled c"
  shows "recency (Add k v c) = spec_add (sizeOf c) (maxBytes c) k v (recency c)"
  using assms
  by (simp add: Add_addFront recency_evict [OF addFront_inv] recency_addFront spec_add_def)

lemma recency_Get:
  assumes "lru_inv c" and "Enabled c"
  shows "fst (Get k c) = map_of (recency c) k \<and> recency (snd (Get k c)) = snd (spec_get k (recency c))"
proof (cases "entries c k")
  case None
  with contents_recency [OF assms(1)] have "map_of (recency c) k = None"
    by (metis contents_def option.simps(4))
  with None assms(2) show ?thesis by (simp add: Get_def spec_get_def recency_def)
next
  case (Some i)
  with assms obtain e where e: "map_of (order c) i = Some e" "(i, e) \<in> set (order c)" "ekey e = k"
    by (auto elim: entries_order)
  with Some have "map_of (recency c) k = Some (evalue e)"
    using contents_recency [OF assms(1), symmetric] by (simp add: contents_def)
  with Some e assms(2) recency_listRemove [OF assms(1) e(2)] show ?thesis
    by (simp add: Get_def spec_get_def) (simp add: recency_def)
qed

lemma recency_Remove:
  assumes "lru_inv c" shows "recency (Remove k c) = spec_remove k (recency c)"
proof (cases "entries c k")
  case None
  with assms have "\<And>p. p \<in> set (order c) \<Longrightarrow> elKey p \<noteq> k" by (rule entries_None)
  then have "filter (\<lambda>p. fst p \<noteq> k) (recency c) = recency c"
    by (auto simp: recency_def filter_id_conv)
  with None show ?thesis by (simp add: Remove_def spec_remove_def)
next
  case (Some i)
  with assms obtain e where e: "map_of (order c) i = Some e" "(i, e) \<in> set (order c)" "ekey e = k"
    by (auto elim: entries_order)
  with Some recency_listRemove [OF assms e(2)] show ?thesis
    by (simp add: Remove_def spec_remove_def) (simp add: recency_def)
qed

section \<open>The cache interface\<close>

text \<open>
  What a reader of a cache may rely on: a hit is an entry of the cache, looking up adds nothing,
  and adding adds at most the pair that was added. A cache may forget anything at any time.
\<close>

locale lossy_cache =
  fixes get :: "'k \<Rightarrow> 'c \<Rightarrow> 'v option \<times> 'c"
    and add :: "'k \<Rightarrow> 'v \<Rightarrow> 'c \<Rightarrow> 'c"
    and view :: "'c \<Rightarrow> 'k \<Rightarrow> 'v option"
    and invar :: "'c \<Rightarrow> bool"
  assumes get_hit: "invar c \<Longrightarrow> fst (get k c) = Some v \<Longrightarrow> view c k = Some v"
    and get_view: "invar c \<Longrightarrow> view (snd (get k c)) \<subseteq>\<^sub>m view c"
    and add_view: "invar c \<Longrightarrow> view (add k v c) j = Some w \<Longrightarrow> view c j = Some w \<or> j = k \<and> w = v"
    and invar_get: "invar c \<Longrightarrow> invar (snd (get k c))"
    and invar_add: "invar c \<Longrightarrow> invar (add k v c)"
begin

lemma hit_is_true:
  "invar c \<Longrightarrow> view c \<subseteq>\<^sub>m truth \<Longrightarrow> get k c = (Some v, c') \<Longrightarrow> truth k = Some v"
  using get_hit [of c k v] by (auto simp: map_le_def dom_def)

lemma get_true:
  "invar c \<Longrightarrow> view c \<subseteq>\<^sub>m truth \<Longrightarrow> get k c = (r, c') \<Longrightarrow> invar c' \<and> view c' \<subseteq>\<^sub>m truth"
  using get_view [of c k] invar_get [of c k] by (auto intro: map_le_trans)

lemma add_true:
  assumes "invar c" and "view c \<subseteq>\<^sub>m truth" and "truth k = Some v"
  shows "invar (add k v c) \<and> view (add k v c) \<subseteq>\<^sub>m truth"
proof -
  have "truth j = Some w" if "view (add k v c) j = Some w" for j w
    using add_view [OF assms(1) that] assms(2,3) by (auto simp: map_le_def dom_def)
  with invar_add [OF assms(1)] show ?thesis by (auto simp: map_le_def dom_def)
qed

end

lemma disabled_Get: "\<not> Enabled c \<Longrightarrow> Get k c = (None, c)"
  by (simp add: Get_def)

lemma map_of_filter_key: "map_of (filter (\<lambda>p. fst p \<noteq> k) xs) j = (if j = k then None else map_of xs j)"
  by (induction xs) auto

lemma contents_Get:
  assumes "lru_inv c" shows "contents (snd (Get k c)) = contents c"
proof (cases "Enabled c")
  case True
  have "map_of (recency (snd (Get k c))) j = map_of (recency c) j" for j
    using recency_Get [OF assms True, of k]
    by (auto simp: spec_get_def map_of_filter_key split: option.splits)
  then show ?thesis using contents_recency assms lru_inv_Get by (metis ext)
qed (simp add: disabled_Get)

lemma contents_Add:
  assumes "lru_inv c" and "contents (Add k v c) j = Some w"
  shows "contents c j = Some w \<or> j = k \<and> w = v"
proof (cases "Enabled c \<and> sizeOf c v \<le> maxBytes c")
  case True
  have "(j, w) \<in> set (recency (Add k v c))"
    using assms(2) map_of_SomeD by (fastforce simp: contents_recency [OF lru_inv_Add [OF assms(1)]])
  with True have "(j, w) \<in> set ((k, v) # filter (\<lambda>p. fst p \<noteq> k) (recency c))"
    using recency_Add [OF assms(1), of k v] fit_set by (force simp: spec_add_def)
  then show ?thesis
    by (auto simp: contents_recency [OF assms(1)] recency_distinct [OF assms(1)])
next
  case False
  with assms show ?thesis by (auto simp: Add_addFront)
qed

interpretation lru: lossy_cache Get Add contents lru_inv
proof unfold_locales
  fix c :: "('k, 'v) LRU" and k v
  assume inv: "lru_inv c" and hit: "fst (Get k c) = Some v"
  then have "Enabled c" using disabled_Get by fastforce
  with recency_Get [OF inv this, of k] hit show "contents c k = Some v"
    by (simp add: contents_recency [OF inv])
qed (auto simp: contents_Get dest: contents_Add)

section \<open>Properties\<close>

text \<open>A client drives the cache through the exported methods, in any order.\<close>

datatype ('k, 'v) lruOp = OpGet 'k | OpAdd 'k 'v | OpRemove 'k | OpPurge | OpArm bool

fun lruStep :: "('k, 'v) lruOp \<Rightarrow> ('k, 'v) LRU \<Rightarrow> ('k, 'v) LRU" where
  "lruStep (OpGet k) c = snd (Get k c)"
| "lruStep (OpAdd k v) c = Add k v c"
| "lruStep (OpRemove k) c = Remove k c"
| "lruStep OpPurge c = Purge c"
| "lruStep (OpArm b) c = SetArmed b c"

definition lruRun :: "('k, 'v) lruOp list \<Rightarrow> ('k, 'v) LRU \<Rightarrow> ('k, 'v) LRU" where
  "lruRun ops c = foldl (\<lambda>c op. lruStep op c) c ops"

lemma lruRun_induct:
  assumes "P c" and "\<And>c op. P c \<Longrightarrow> P (lruStep op c)" shows "P (lruRun ops c)"
  using assms(1) by (induction ops arbitrary: c) (auto simp: lruRun_def assms(2))

definition quiet :: "('k, 'v) LRU \<Rightarrow> bool" where
  "quiet c \<longleftrightarrow> (armed c \<or> recency c = [])"

lemma quiet_step:
  assumes "lru_inv c" and "quiet c" shows "quiet (lruStep op c)"
proof (cases "armed c")
  case True
  then show ?thesis
    using assms by (cases op) (auto simp: quiet_def SetArmed_def Purge_def recency_def Let_def)
next
  case False
  with assms have "recency c = []" by (simp add: quiet_def)
  moreover from False have "Get k c = (None, c)" "Add k v c = c" for k v
    by (simp_all add: Get_def Add_def Enabled_def)
  ultimately show ?thesis using recency_Remove [OF assms(1)]
    by (cases op) (auto simp: quiet_def SetArmed_def Purge_def spec_remove_def recency_def Let_def)
qed

lemma lruStep_inv:
  "lru_inv c \<and> within_bound c \<and> quiet c \<Longrightarrow>
   lru_inv (lruStep op c) \<and> within_bound (lruStep op c) \<and> quiet (lruStep op c)"
  using quiet_step [of c op]
  by (cases op) (auto simp: within_bound_Add within_bound_Remove,
      auto simp: within_bound_def Purge_def SetArmed_def Let_def lru_inv_def)

text \<open>
  C12. Over every sequence of operations on a new cache, the key map and the recency list describe
  the same entries, the byte count is the sum of the resident sizes and never exceeds the
  configured bound, and a disarmed cache is empty and answers nothing.
\<close>

theorem lru_always_bounded:
  assumes "0 \<le> mx" and "\<And>v. 0 \<le> sz v"
  shows "let c = lruRun ops (NewLRU nm mx sz) in
    lru_inv c \<and> bytes c = sum_list (map (\<lambda>p. sz (snd p)) (recency c)) \<and> bytes c \<le> mx \<and>
    (\<not> armed c \<longrightarrow> recency c = [] \<and> (\<forall>k. fst (Get k c) = None))"
proof -
  let ?I = "\<lambda>c. lru_inv c \<and> within_bound c \<and> quiet c"
  define c where "c = lruRun ops (NewLRU nm mx sz)"
  have "?I (NewLRU nm mx sz)"
    using assms by (simp add: lru_inv_New within_bound_def quiet_def) (simp add: NewLRU_def)
  then have I: "?I c" unfolding c_def by (rule lruRun_induct) (rule lruStep_inv)
  have "maxBytes c = mx \<and> sizeOf c = sz \<and> lru_inv c" unfolding c_def
  proof (rule lruRun_induct)
    show "maxBytes (NewLRU nm mx sz) = mx \<and> sizeOf (NewLRU nm mx sz) = sz \<and> lru_inv (NewLRU nm mx sz)"
      using assms by (simp add: lru_inv_New) (simp add: NewLRU_def)
  next
    fix c :: "('b, 'a) LRU" and op
    assume "maxBytes c = mx \<and> sizeOf c = sz \<and> lru_inv c"
    then show "maxBytes (lruStep op c) = mx \<and> sizeOf (lruStep op c) = sz \<and> lru_inv (lruStep op c)"
      by (cases op) auto
  qed
  moreover from this have "bytes c = sum_list (map (\<lambda>p. sz (snd p)) (recency c))"
    by (simp add: lru_inv_def recency_def comp_def case_prod_unfold cong: map_cong)
  ultimately show ?thesis using I
    by (auto simp: Let_def c_def [symmetric] within_bound_def quiet_def Get_def Enabled_def)
qed

theorem lru_always_bounded_witness:
  "let c = lruRun [OpAdd 1 5, OpAdd 2 4, OpGet 1, OpAdd (3::nat) 3] (NewLRU ''t'' 10 (\<lambda>v::nat. int v)) in
    lru_inv c \<and> bytes c \<le> 10 \<and> recency c = [(3, 3), (1, 5)]"
proof -
  have "recency (lruRun [OpAdd 1 5, OpAdd 2 4, OpGet 1, OpAdd (3::nat) 3]
      (NewLRU ''t'' 10 (\<lambda>v::nat. int v))) = [(3, 3), (1, 5)]"
    by (simp add: lruRun_def NewLRU_def Add_def Get_def Enabled_def evictLocked.simps listRemove_def
        recency_def Let_def)
  with lru_always_bounded [of 10 "\<lambda>v::nat. int v"
      "[OpAdd 1 5, OpAdd 2 4, OpGet 1, OpAdd (3::nat) 3]" "''t''"]
  show ?thesis by (simp add: Let_def)
qed

text \<open>
  C13. The linked list and hash map implement the abstract recency list: a lookup returns the
  resident value and moves it to the front, an addition puts the entry in front and drops the
  shortest suffix that makes the rest fit, a removal deletes exactly that key.
\<close>

theorem lru_refines_recency:
  assumes "lru_inv c" and "Enabled c"
  shows "fst (Get k c) = fst (spec_get k (recency c)) \<and>
    recency (snd (Get k c)) = snd (spec_get k (recency c)) \<and>
    recency (Add k v c) = spec_add (sizeOf c) (maxBytes c) k v (recency c) \<and>
    recency (Remove k c) = spec_remove k (recency c)"
  using recency_Get [OF assms, of k] recency_Add [OF assms] recency_Remove [OF assms(1)]
  by (simp_all add: spec_get_def)

theorem lru_refines_recency_witness:
  "recency (Add 2 True (Add (1::nat) False (NewLRU ''t'' 2 (\<lambda>_. 1)))) = [(2, True), (1, False)]"
proof -
  let ?n = "NewLRU ''t'' 2 (\<lambda>_. 1) :: (nat, bool) LRU"
  have n: "lru_inv ?n" "Enabled ?n" by (simp_all add: lru_inv_New) (simp add: NewLRU_def Enabled_def)
  then have a: "lru_inv (Add 1 False ?n)" "Enabled (Add 1 False ?n)"
    by (auto simp: Enabled_def)
  have "recency (Add 1 False ?n) = [(1, False)]"
    using lru_refines_recency [OF n, of 1 False] by (simp add: spec_add_def) (simp add: NewLRU_def recency_def)
  then show ?thesis
    using lru_refines_recency [OF a, of 2 True] n(1)
    by (simp add: spec_add_def) (simp add: NewLRU_def)
qed

end
