(* ===== verification/CacheStores.thy ===== *)
theory CacheStores
  imports Lru "HOL-Library.Multiset"
begin

text \<open>
  The rest of \<open>internal/cache\<close>: the size settings and their defaults (\<open>stores.go\<close>), the key under
  which an auth chain is cached, and the per-request trace of cache outcomes (\<open>trace.go\<close>).
  The hash \<open>sha256\<close> is a parameter of the key; everything shown holds for any hash.
\<close>

section \<open>Settings\<close>

record Settings =
  StateGroupsMB :: int
  EventsMB :: int
  EventStateGroupsMB :: int
  AuthChainsMB :: int
  FilteredStateMB :: int

definition DefaultSettings :: Settings where
  "DefaultSettings = \<lparr>StateGroupsMB = 512, EventsMB = 128, EventStateGroupsMB = 32,
     AuthChainsMB = 64, FilteredStateMB = 64\<rparr>"

definition WithDefaults :: "Settings \<Rightarrow> Settings" where
  "WithDefaults s =
     (let d = DefaultSettings;
          s = (if StateGroupsMB s = 0 then s\<lparr>StateGroupsMB := StateGroupsMB d\<rparr> else s);
          s = (if EventsMB s = 0 then s\<lparr>EventsMB := EventsMB d\<rparr> else s);
          s = (if EventStateGroupsMB s = 0 then s\<lparr>EventStateGroupsMB := EventStateGroupsMB d\<rparr> else s);
          s = (if AuthChainsMB s = 0 then s\<lparr>AuthChainsMB := AuthChainsMB d\<rparr> else s);
          s = (if FilteredStateMB s = 0 then s\<lparr>FilteredStateMB := FilteredStateMB d\<rparr> else s)
      in s)"

text \<open>The error names one offending field; the source ranges over a Go map, so which one is
  unspecified when several offend, and the model takes the first in source order.\<close>

definition SettingsValidate :: "Settings \<Rightarrow> string option" where
  "SettingsValidate s =
     map_option fst (find (\<lambda>(_, v). v < -1)
       [(''state_groups_mb'', StateGroupsMB s), (''events_mb'', EventsMB s),
        (''event_state_groups_mb'', EventStateGroupsMB s), (''filtered_state_mb'', FilteredStateMB s),
        (''auth_chains_mb'', AuthChainsMB s)])"

text \<open>\<open>int64(n) << 20\<close> on a 64-bit int: the shift drops the high bits.\<close>

definition MB :: "int \<Rightarrow> int" where
  "MB n = (if n < 0 then 0 else sint (push_bit 20 (word_of_int n :: 64 word)))"

definition AnyEnabled :: "Settings \<Rightarrow> bool" where
  "AnyEnabled s \<longleftrightarrow> StateGroupsMB s > 0 \<or> EventsMB s > 0 \<or> EventStateGroupsMB s > 0 \<or>
     AuthChainsMB s > 0 \<or> FilteredStateMB s > 0"

lemma MB_no_wrap:
  assumes "0 \<le> n" and "n < 2 ^ 43" shows "MB n = n * 2 ^ 20"
proof -
  have lt: "n * 2 ^ 20 < (2::int) ^ 63" using assms by (simp add: mult_less_cancel_right)
  have "push_bit 20 (word_of_int n :: 64 word) = word_of_int (n * 2 ^ 20)"
    by (simp add: push_bit_eq_mult of_int_power mult.commute)
  then have "MB n = signed_take_bit 63 (n * 2 ^ 20)"
    using assms(1) by (simp only: MB_def sint_sbintrunc' not_less [symmetric] if_False) simp
  also have "\<dots> = n * 2 ^ 20"
    using lt assms by (intro signed_take_bit_int_eq_self) auto
  finally show ?thesis .
qed

lemma WithDefaults_fields:
  "StateGroupsMB (WithDefaults s) = (if StateGroupsMB s = 0 then 512 else StateGroupsMB s)"
  "EventsMB (WithDefaults s) = (if EventsMB s = 0 then 128 else EventsMB s)"
  "EventStateGroupsMB (WithDefaults s) = (if EventStateGroupsMB s = 0 then 32 else EventStateGroupsMB s)"
  "AuthChainsMB (WithDefaults s) = (if AuthChainsMB s = 0 then 64 else AuthChainsMB s)"
  "FilteredStateMB (WithDefaults s) = (if FilteredStateMB s = 0 then 64 else FilteredStateMB s)"
  by (simp_all add: WithDefaults_def DefaultSettings_def Let_def)

section \<open>The auth chain key\<close>

text \<open>\<open>binary.BigEndian.PutUint64\<close>.\<close>

fun beBytes :: "nat \<Rightarrow> nat \<Rightarrow> nat list" where
  "beBytes 0 n = []"
| "beBytes (Suc k) n = beBytes k (n div 256) @ [n mod 256]"

definition putUint64 :: "nat \<Rightarrow> string" where
  "putUint64 n = map char_of (beBytes 8 n)"

definition authChainPreimage :: "string \<Rightarrow> string list \<Rightarrow> string" where
  "authChainPreimage roomID eventIDs =
     roomID @ [nul] @ concat (map (\<lambda>i. putUint64 (length i) @ i) (sort eventIDs))"

definition AuthChainKey :: "(string \<Rightarrow> string) \<Rightarrow> string \<Rightarrow> string list \<Rightarrow> string" where
  "AuthChainKey sha256 roomID eventIDs = sha256 (authChainPreimage roomID eventIDs)"

lemma length_beBytes [simp]: "length (beBytes k n) = k"
  by (induction k arbitrary: n) auto

lemma beBytes_small: "b \<in> set (beBytes k n) \<Longrightarrow> b < 256"
  by (induction k arbitrary: n) auto

lemma beBytes_decode: "foldl (\<lambda>a b. a * 256 + b) 0 (beBytes k n) = n mod 256 ^ k"
proof (induction k arbitrary: n)
  case (Suc k)
  show ?case by (simp add: Suc mod_mult2_eq mult.commute)
qed simp

lemma map_char_of_inj:
  assumes "map char_of xs = (map char_of ys :: string)"
    and "\<And>x. x \<in> set xs \<Longrightarrow> x < 256" and "\<And>y. y \<in> set ys \<Longrightarrow> y < (256::nat)"
  shows "xs = ys"
proof -
  have "map of_char (map char_of xs :: string) = map of_char (map char_of ys :: string)"
    using assms(1) by simp
  have "map of_char (map char_of zs :: string) = zs"
    if "\<And>z. z \<in> set zs \<Longrightarrow> z < (256::nat)" for zs
    using that by (induction zs) (auto simp: of_char_of)
  from this [OF assms(2)] this [OF assms(3)] show ?thesis
    using \<open>map of_char (map char_of xs :: string) = _\<close> by (metis (mono_tags))
qed

lemma putUint64_inj:
  assumes "putUint64 m = putUint64 n" and "m < 2 ^ 64" and "n < 2 ^ 64" shows "m = n"
proof -
  have "beBytes 8 m = beBytes 8 n"
    using assms(1) unfolding putUint64_def by (rule map_char_of_inj) (auto dest: beBytes_small)
  then have "m mod 256 ^ 8 = n mod 256 ^ 8" by (metis beBytes_decode)
  with assms(2,3) show ?thesis by simp
qed

lemma length_putUint64 [simp]: "length (putUint64 n) = 8"
  by (simp add: putUint64_def)

lemma framed_inj:
  assumes "concat (map (\<lambda>i. putUint64 (length i) @ i) xs) = concat (map (\<lambda>i. putUint64 (length i) @ i) ys)"
    and "\<forall>i \<in> set xs \<union> set ys. length i < 2 ^ 64"
  shows "xs = ys"
  using assms
proof (induction xs arbitrary: ys)
  case Nil
  then show ?case by (cases ys) (auto dest: arg_cong [of _ _ length])
next
  case (Cons x xs)
  from Cons.prems(1) obtain y ys' where ys: "ys = y # ys'"
    by (cases ys) (auto dest: arg_cong [of _ _ length])
  with Cons.prems(1) have "putUint64 (length x) = putUint64 (length y)"
    and rest: "x @ concat (map (\<lambda>i. putUint64 (length i) @ i) xs)
             = y @ concat (map (\<lambda>i. putUint64 (length i) @ i) ys')"
    by (auto simp: append_eq_append_conv)
  then have "length x = length y" using Cons.prems(2) ys by (auto intro: putUint64_inj)
  with rest Cons.IH [of ys'] Cons.prems(2) ys show ?case by simp
qed

text \<open>
  The auth chain cache key depends on the room and the multiset of event IDs and on nothing
  else, and what is hashed separates any two different questions: equal preimages mean the same
  room and the same IDs, whatever the order they were given in.
\<close>

theorem authChainPreimage_exact:
  assumes "nul \<notin> set r" and "nul \<notin> set r'"
    and "\<forall>i \<in> set ids \<union> set ids'. length i < 2 ^ 64"
  shows "authChainPreimage r ids = authChainPreimage r' ids' \<longleftrightarrow> r = r' \<and> mset ids = mset ids'"
proof
  assume eq: "authChainPreimage r ids = authChainPreimage r' ids'"
  have "cut nul (authChainPreimage r ids) =
      (r, Some (concat (map (\<lambda>i. putUint64 (length i) @ i) (sort ids))))"
    using assms(1) by (simp add: authChainPreimage_def cut_append)
  moreover have "cut nul (authChainPreimage r' ids') =
      (r', Some (concat (map (\<lambda>i. putUint64 (length i) @ i) (sort ids'))))"
    using assms(2) by (simp add: authChainPreimage_def cut_append)
  ultimately have r: "r = r'" and c: "concat (map (\<lambda>i. putUint64 (length i) @ i) (sort ids))
      = concat (map (\<lambda>i. putUint64 (length i) @ i) (sort ids'))"
    using eq by auto
  from c have "sort ids = sort ids'" by (rule framed_inj) (use assms(3) in simp)
  then have "mset ids = mset ids'" by (metis mset_sort)
  with r show "r = r' \<and> mset ids = mset ids'" by simp
next
  assume "r = r' \<and> mset ids = mset ids'"
  moreover then have "sort ids = sort ids'" by (metis properties_for_sort mset_sort sorted_sort)
  ultimately show "authChainPreimage r ids = authChainPreimage r' ids'"
    by (simp add: authChainPreimage_def)
qed

theorem authChainPreimage_exact_witness:
  "authChainPreimage ''!r'' [''$b'', ''$a''] = authChainPreimage ''!r'' [''$a'', ''$b''] \<and>
   authChainPreimage ''!r'' [''$a'', ''$b''] \<noteq> authChainPreimage ''!r'' [''$a$b'']"
proof -
  have "length i < 2 ^ 64" if "i \<in> {''$a'', ''$b'', ''$a$b''}" for i :: string
    using that by auto
  then show ?thesis
    using authChainPreimage_exact [of "''!r''" "''!r''" "[''$b'', ''$a'']" "[''$a'', ''$b'']"]
      authChainPreimage_exact [of "''!r''" "''!r''" "[''$a'', ''$b'']" "[''$a$b'']"]
    by (simp add: add_mset_commute)
qed

section \<open>The request trace\<close>

text \<open>A request without a trace (\<open>ctx.Value\<close> is nil) has \<open>None\<close>; counts are per cache name.\<close>

record Trace =
  counts :: "(string, int \<times> int) gomap"
  joined :: bool

definition WithTrace :: Trace where
  "WithTrace = \<lparr>counts = [], joined = False\<rparr>"

definition RecordN :: "string \<Rightarrow> int \<Rightarrow> int \<Rightarrow> Trace option \<Rightarrow> Trace option" where
  "RecordN name h l ot =
     (case ot of None \<Rightarrow> None
      | Some t \<Rightarrow> if l = 0 then Some t
          else let c = (case gget (counts t) name of None \<Rightarrow> (0, 0) | Some c \<Rightarrow> c)
               in Some (t\<lparr>counts := gset name (fst c + h, snd c + l) (counts t)\<rparr>))"

definition Record :: "string \<Rightarrow> bool \<Rightarrow> Trace option \<Rightarrow> Trace option" where
  "Record name hit = RecordN name (if hit then 1 else 0) 1"

definition MarkJoined :: "Trace option \<Rightarrow> Trace option" where
  "MarkJoined = map_option (\<lambda>t. t\<lparr>joined := True\<rparr>)"

definition Summary :: "Trace option \<Rightarrow> string" where
  "Summary ot = (case ot of None \<Rightarrow> ''''
     | Some t \<Rightarrow> if joined t then ''joined''
         else let h = sum_list (map (fst \<circ> snd) (counts t)); l = sum_list (map (snd \<circ> snd) (counts t))
              in if l = 0 then '''' else if h = l then ''hit'' else if h = 0 then ''miss'' else ''partial'')"

definition Detail :: "Trace option \<Rightarrow> string" where
  "Detail ot = (case ot of None \<Rightarrow> ''''
     | Some t \<Rightarrow> joinWith '' '' (map (\<lambda>n. let c = the (gget (counts t) n)
         in n @ ''='' @ itoa (fst c) @ ''/'' @ itoa (snd c)) (sort (map fst (counts t)))))"

definition recordAll :: "(string \<times> int \<times> int) list \<Rightarrow> Trace option \<Rightarrow> Trace option" where
  "recordAll rs t = foldl (\<lambda>t (n, h, l). RecordN n h l t) t rs"

lemma sum_AList_update:
  "gomap m \<Longrightarrow> sum_list (map (f \<circ> snd) (gset k v m)) =
     sum_list (map (f \<circ> snd) m) - (case gget m k of None \<Rightarrow> 0 | Some w \<Rightarrow> f w) + (f v :: int)"
  unfolding gset_def gomap_def
  by (induction m) (auto simp: map_of_eq_None_iff split: option.splits)

definition totals :: "Trace option \<Rightarrow> int \<times> int" where
  "totals ot = (case ot of None \<Rightarrow> (0, 0)
     | Some t \<Rightarrow> (sum_list (map (fst \<circ> snd) (counts t)), sum_list (map (snd \<circ> snd) (counts t))))"

definition traced :: "Trace option \<Rightarrow> bool" where
  "traced ot \<longleftrightarrow> (\<exists>t. ot = Some t \<and> gomap (counts t))"

lemma RecordN_totals:
  assumes "traced ot" and "l = 0 \<longrightarrow> h = 0"
  shows "traced (RecordN n h l ot) \<and>
    totals (RecordN n h l ot) = (fst (totals ot) + h, snd (totals ot) + l)"
proof -
  obtain t where t: "ot = Some t" "gomap (counts t)" using assms(1) by (auto simp: traced_def)
  then show ?thesis using assms(2)
    by (auto simp: RecordN_def traced_def totals_def Let_def sum_AList_update split: option.splits)
qed

lemma recordAll_totals:
  "traced ot \<Longrightarrow> \<forall>(n, h, l) \<in> set rs. l = 0 \<longrightarrow> h = 0 \<Longrightarrow>
   traced (recordAll rs ot) \<and> totals (recordAll rs ot) =
     (fst (totals ot) + sum_list (map (\<lambda>(n, h, l). h) rs), snd (totals ot) + sum_list (map (\<lambda>(n, h, l). l) rs))"
proof (induction rs arbitrary: ot)
  case (Cons r rs)
  obtain n h l where r: "r = (n, h, l)" by (cases r)
  with Cons.prems have "traced (RecordN n h l ot)"
    and "totals (RecordN n h l ot) = (fst (totals ot) + h, snd (totals ot) + l)"
    using RecordN_totals [of ot l h n] by auto
  with Cons.IH [of "RecordN n h l ot"] Cons.prems r show ?case by (simp add: recordAll_def)
qed (simp add: recordAll_def)

end
