(* ===== verification/GoJson.thy ===== *)
theory GoJson
  imports Prelude
begin

text \<open>
  JSON values and what \<open>encoding/json\<close> does with them. A document is its syntax tree with members in
  the order written and number literals kept as text; bytes that are not JSON are \<open>Junk\<close>.

  Decoding into a struct follows the Go package: a member fills a field when its name equals the
  field's name \<^emph>\<open>or equals it up to case folding\<close>, members are applied in document order so that
  the last one wins, \<open>null\<close> leaves a field as it is, and a value of the wrong type makes the
  whole call return an error.
\<close>

datatype json =
    JNull
  | JBool bool
  | JNum string
  | JStr string
  | JArr "json list"
  | JObj "(string \<times> json) list"

datatype raw = Doc json | Junk string

section \<open>Field names\<close>

text \<open>
  \<open>foldName\<close>: ASCII letters fold to upper case, and so do the two non-ASCII letters whose simple
  folding is ASCII, LONG S (bytes C5 BF) and KELVIN SIGN (bytes E2 84 AA). No other character folds
  into ASCII, and every field name of the program is ASCII.
\<close>

definition upChar :: "char \<Rightarrow> char" where
  "upChar c = (let n = (of_char c :: nat) in if 97 \<le> n \<and> n \<le> 122 then char_of (n - 32) else c)"

fun foldName :: "string \<Rightarrow> string" where
  "foldName (a # b # c # xs) =
     (if a = CHR 0xE2 \<and> b = CHR 0x84 \<and> c = CHR 0xAA then CHR ''K'' # foldName xs
      else if a = CHR 0xC5 \<and> b = CHR 0xBF then CHR ''S'' # foldName (c # xs)
      else upChar a # foldName (b # c # xs))"
| "foldName [a, b] =
     (if a = CHR 0xC5 \<and> b = CHR 0xBF then [CHR ''S''] else upChar a # foldName [b])"
| "foldName [a] = [upChar a]"
| "foldName [] = []"

definition fieldVals :: "string \<Rightarrow> (string \<times> json) list \<Rightarrow> json list" where
  "fieldVals f ms = map snd (filter (\<lambda>(k, _). foldName k = foldName f) ms)"

section \<open>Decoding\<close>

text \<open>The members a struct decode runs over; \<open>null\<close> decodes into a struct as nothing at all.\<close>

definition topObj :: "raw \<Rightarrow> (string \<times> json) list option" where
  "topObj r = (case r of Doc (JObj ms) \<Rightarrow> Some ms | Doc JNull \<Rightarrow> Some [] | _ \<Rightarrow> None)"

text \<open>A string field.\<close>

fun decodeString :: "json list \<Rightarrow> string \<Rightarrow> string option" where
  "decodeString [] acc = Some acc"
| "decodeString (JStr s # vs) acc = decodeString vs s"
| "decodeString (JNull # vs) acc = decodeString vs acc"
| "decodeString (_ # vs) acc = None"

text \<open>A nested struct field: its members, over every occurrence of the field.\<close>

fun innerObjs :: "json list \<Rightarrow> (string \<times> json) list option" where
  "innerObjs [] = Some []"
| "innerObjs (JObj ms # vs) = map_option (\<lambda>r. ms @ r) (innerObjs vs)"
| "innerObjs (JNull # vs) = innerObjs vs"
| "innerObjs (_ # vs) = None"

text \<open>A \<open>map[string]json.RawMessage\<close> field: object members are assigned by exact key, \<open>null\<close>
  resets the map.\<close>

fun decodeMap :: "json list \<Rightarrow> (string, json) gomap \<Rightarrow> (string, json) gomap option" where
  "decodeMap [] acc = Some acc"
| "decodeMap (JObj ms # vs) acc = decodeMap vs (foldl (\<lambda>m (k, v). gset k v m) acc ms)"
| "decodeMap (JNull # vs) acc = decodeMap vs []"
| "decodeMap (_ # vs) acc = None"

definition unmarshalStr :: "string \<Rightarrow> raw \<Rightarrow> string option" where
  "unmarshalStr f r = Option.bind (topObj r) (\<lambda>ms. decodeString (fieldVals f ms) '''')"

definition unmarshalInner :: "string \<Rightarrow> raw \<Rightarrow> (string \<times> json) list option" where
  "unmarshalInner f r = Option.bind (topObj r) (\<lambda>ms. innerObjs (fieldVals f ms))"

definition unmarshalInnerStr :: "string \<Rightarrow> string \<Rightarrow> raw \<Rightarrow> string option" where
  "unmarshalInnerStr f g r =
     Option.bind (unmarshalInner f r) (\<lambda>ms. decodeString (fieldVals g ms) '''')"

definition unmarshalMap :: "string \<Rightarrow> raw \<Rightarrow> (string, json) gomap option" where
  "unmarshalMap f r = Option.bind (topObj r) (\<lambda>ms. decodeMap (fieldVals f ms) [])"

text \<open>A \<open>json.RawMessage\<close> field holds the last occurrence, \<open>None\<close> when there is none.\<close>

definition lastVal :: "string \<Rightarrow> (string \<times> json) list \<Rightarrow> json option" where
  "lastVal f ms = (case fieldVals f ms of [] \<Rightarrow> None | vs \<Rightarrow> Some (last vs))"

definition unmarshalRaw :: "string \<Rightarrow> raw \<Rightarrow> json option option" where
  "unmarshalRaw f r = map_option (lastVal f) (topObj r)"

text \<open>\<open>json.Marshal\<close> of a map: members in key order.\<close>

definition marshalMap :: "(string, json) gomap \<Rightarrow> json" where
  "marshalMap m = JObj (map (\<lambda>k. (k, the (gget m k))) (sort (map fst m)))"

section \<open>Third-party JSON access\<close>

text \<open>
  \<open>gjson\<close>, \<open>sjson\<close> and mautrix's per-version redaction are not part of the repository: they are
  the parameters of the definitions that use them, collected in one record.
  \<^item> \<open>gjsonGet body path\<close>: the value at a path, \<open>None\<close> when \<open>Exists()\<close> is false;
  \<^item> \<open>sjsonSetRaw body key value\<close>: the body with a top-level member replaced or added;
  \<^item> \<open>sjsonSetStr body path s\<close>: the body with the string at a path replaced;
  \<^item> \<open>redactPDU v1 version body\<close>: decoding the body as \<open>pdu.RoomV1PDU\<close> (\<open>v1\<close>) or \<open>pdu.PDU\<close>,
    \<open>Redact(version)\<close>, and re-encoding.
\<close>

record lib =
  gjsonGet :: "raw \<Rightarrow> string \<Rightarrow> json option"
  sjsonSetRaw :: "raw \<Rightarrow> string \<Rightarrow> json \<Rightarrow> (string, raw) result"
  sjsonSetStr :: "raw \<Rightarrow> string \<Rightarrow> string \<Rightarrow> (string, raw) result"
  redactPDU :: "bool \<Rightarrow> string \<Rightarrow> raw \<Rightarrow> (string, raw) result"

text \<open>\<open>gjson.Result.Str\<close> is empty for anything but a string.\<close>

definition strOf :: "json option \<Rightarrow> string" where
  "strOf v = (case v of Some (JStr s) \<Rightarrow> s | _ \<Rightarrow> '''')"

text \<open>
  Documented behaviour of \<open>sjson\<close> the theorems name as a hypothesis: setting a top-level key of an
  object yields an object with that key set and every other key as it was.
\<close>

definition sets_members :: "lib \<Rightarrow> bool" where
  "sets_members lb \<longleftrightarrow> (\<forall>ms k v. \<exists>ms'. sjsonSetRaw lb (Doc (JObj ms)) k v = Inr (Doc (JObj ms')) \<and>
     map_of ms' k = Some v \<and>
     (\<forall>k'. k' \<noteq> k \<longrightarrow> filter (\<lambda>(j, _). j = k') ms' = filter (\<lambda>(j, _). j = k') ms))"

section \<open>Lemmas\<close>

lemma fieldVals_Nil [simp]: "fieldVals f [] = []"
  by (simp add: fieldVals_def)

lemma fieldVals_Cons [simp]:
  "fieldVals f ((k, v) # ms) = (if foldName k = foldName f then v # fieldVals f ms else fieldVals f ms)"
  by (simp add: fieldVals_def)

lemma fieldVals_append [simp]: "fieldVals f (xs @ ys) = fieldVals f xs @ fieldVals f ys"
  by (simp add: fieldVals_def)

lemma decodeString_snoc:
  "decodeString (vs @ [JStr s]) acc = (if decodeString vs acc = None then None else Some s)"
  by (induction vs acc rule: decodeString.induct) auto

lemma gomap_foldl_gset: "gomap m \<Longrightarrow> gomap (foldl (\<lambda>m (k, v). gset k v m) m ms)"
  by (induction ms arbitrary: m) auto

lemma decodeMap_gomap: "decodeMap vs acc = Some m \<Longrightarrow> gomap acc \<Longrightarrow> gomap m"
  by (induction vs acc rule: decodeMap.induct) (auto simp: gomap_foldl_gset)

lemma unmarshalMap_gomap: "unmarshalMap f r = Some m \<Longrightarrow> gomap m"
  by (auto simp: unmarshalMap_def bind_eq_Some_conv intro: decodeMap_gomap)

lemma map_of_map_the: "map_of (map (\<lambda>k. (k, f k)) ks) k = (if k \<in> set ks then Some (f k) else None)"
  by (induction ks) auto

lemma marshalMap_lookup:
  obtains ms where "marshalMap m = JObj ms" and "map_of ms = gget m" and "gomap m \<Longrightarrow> distinct (map fst ms)"
proof
  show "marshalMap m = JObj (map (\<lambda>k. (k, the (gget m k))) (sort (map fst m)))"
    by (simp add: marshalMap_def)
  show "map_of (map (\<lambda>k. (k, the (gget m k))) (sort (map fst m))) = gget m"
  proof
    show "map_of (map (\<lambda>k. (k, the (gget m k))) (sort (map fst m))) k = gget m k" for k
      using map_of_eq_None_iff [of m k] by (cases "gget m k") (auto simp: map_of_map_the)
  qed
  show "gomap m \<Longrightarrow> distinct (map fst (map (\<lambda>k. (k, the (gget m k))) (sort (map fst m))))"
    by (simp add: comp_def gomap_def)
qed

section \<open>A concrete library\<close>

text \<open>
  A reference instance of the library record, to evaluate definitions on concrete documents.  Paths
  have one or two segments, which is all the program uses.
\<close>

definition refGet :: "raw \<Rightarrow> string \<Rightarrow> json option" where
  "refGet r path =
     (case r of
        Doc (JObj ms) \<Rightarrow>
          (case cut (CHR ''.'') path of
             (k, None) \<Rightarrow> map_of ms k
           | (k, Some p) \<Rightarrow> (case map_of ms k of Some (JObj ms') \<Rightarrow> map_of ms' p | _ \<Rightarrow> None))
      | _ \<Rightarrow> None)"

definition refSetRaw :: "raw \<Rightarrow> string \<Rightarrow> json \<Rightarrow> (string, raw) result" where
  "refSetRaw r k v = (case r of Doc (JObj ms) \<Rightarrow> Inr (Doc (JObj (AList.update k v ms))) | _ \<Rightarrow> Inl ''not an object'')"

definition refSetStr :: "raw \<Rightarrow> string \<Rightarrow> string \<Rightarrow> (string, raw) result" where
  "refSetStr r path v =
     (case r of
        Doc (JObj ms) \<Rightarrow>
          (case cut (CHR ''.'') path of
             (k, None) \<Rightarrow> Inr (Doc (JObj (AList.update k (JStr v) ms)))
           | (k, Some p) \<Rightarrow>
               (case map_of ms k of
                  Some (JObj ms') \<Rightarrow> Inr (Doc (JObj (AList.update k (JObj (AList.update p (JStr v) ms')) ms)))
                | _ \<Rightarrow> Inr (Doc (JObj (AList.update k (JObj [(p, JStr v)]) ms)))))
      | _ \<Rightarrow> Inl ''not an object'')"

definition refRedact :: "bool \<Rightarrow> string \<Rightarrow> raw \<Rightarrow> (string, raw) result" where
  "refRedact v1 version r =
     (case r of
        Doc (JObj ms) \<Rightarrow>
          Inr (Doc (JObj (filter (\<lambda>(k, _). k \<in> set [''type'', ''room_id'', ''sender'', ''depth'', ''hashes'']) ms @
            [(''content'', JObj [])])))
      | _ \<Rightarrow> Inl ''not an event'')"

definition refLib :: lib where
  "refLib = \<lparr>gjsonGet = refGet, sjsonSetRaw = refSetRaw, sjsonSetStr = refSetStr, redactPDU = refRedact\<rparr>"

lemma refLib_sets_members: "sets_members refLib"
proof -
  have "filter (\<lambda>(j, _). j = k') (AList.update k v ms) = filter (\<lambda>(j, _). j = k') ms"
    if "k' \<noteq> k" for k k' :: string and v :: json and ms
    using that by (induction ms) auto
  then show ?thesis
    by (auto simp: sets_members_def refLib_def refSetRaw_def update_conv')
qed

end
