(* ===== verification/Database.thy ===== *)
theory Database
  imports GoJson
begin

text \<open>
  The tables of Synapse's database that \<open>internal/store\<close> reads, and its SQL statements as
  functions from the tables to the rows they return, in one theory so that every statement can
  be compared with its text.  A table is its list of rows; the order of the rows is the order
  in which the server happens to deliver them, so a theorem about an arbitrary database covers
  every delivery order.  A statement may fail before its first row or after some of its rows
  (\<open>qfault\<close>): the connection, the request's deadline and scan errors.
\<close>

section \<open>Errors and faults\<close>

datatype storeError =
    ErrNotFound
  | ErrNoChainCoverIndex string
  | InvalidName string
  | QueryError string string
  | FnError string

datatype qfault = QueryFault string | RowsFault nat string

section \<open>Tables\<close>

record eventsRow =
  ev_id :: string
  ev_room :: string
  ev_type :: string
  ev_state_key :: "string option"
  ev_sender :: string
  ev_outlier :: bool
  ev_stream :: int

record eventJsonRow =
  ej_id :: string
  ej_json :: raw
  ej_meta :: raw
  ej_format :: "int option"

record redactionsRow =
  rd_id :: string
  rd_redacts :: "string option"
  rd_recheck :: "bool option"

record banRow =
  bn_room :: string
  bn_user :: string
  bn_event :: string
  bn_end :: "int option"

record currentStateRow =
  cs_event :: string
  cs_room :: string
  cs_type :: string
  cs_key :: string
  cs_membership :: "string option"

record stateRow =
  sr_group :: int
  sr_type :: string
  sr_key :: string
  sr_event :: string

record linkRow =
  lk_ochain :: int
  lk_oseq :: int
  lk_tchain :: int
  lk_tseq :: int

record ServerKeyJSON =
  KeyID :: string
  FromServer :: string
  ValidUntilMS :: int
  KeyJSON :: raw

record database =
  t_events :: "eventsRow list"
  t_event_json :: "eventJsonRow list"
  t_rooms :: "(string \<times> string option \<times> bool option) list"
  t_rejections :: "(string \<times> string) list"
  t_redactions :: "redactionsRow list"
  t_bans :: "banRow list"
  t_event_groups :: "(string \<times> int option) list"
  t_group_edges :: "(int \<times> int) list"
  t_group_state :: "stateRow list"
  t_chains :: "(string \<times> int \<times> int) list"
  t_links :: "linkRow list"
  t_event_auth :: "(string \<times> string) list"
  t_event_edges :: "(string \<times> string \<times> bool) list"
  t_current :: "currentStateRow list"
  t_partial :: "string list"
  t_erased :: "string list"
  t_keys :: "(string \<times> ServerKeyJSON) list"
  faults :: "string \<Rightarrow> qfault option"

section \<open>Running a statement\<close>

text \<open>
  The rows delivered before the end or the failure, and the failure.  \<open>queryRow\<close> is
  \<open>pool.QueryRow(...).Scan\<close>: the first row, with \<open>pgx.ErrNoRows\<close> as \<open>None\<close>.
\<close>

definition deliver :: "database \<Rightarrow> string \<Rightarrow> 'r list \<Rightarrow> 'r list \<times> storeError option" where
  "deliver d q rows =
     (case faults d q of
        None \<Rightarrow> (rows, None)
      | Some (QueryFault e) \<Rightarrow> ([], Some (QueryError q e))
      | Some (RowsFault n e) \<Rightarrow> (take n rows, Some (QueryError q e)))"

definition queryRows :: "database \<Rightarrow> string \<Rightarrow> 'r list \<Rightarrow> (storeError, 'r list) result" where
  "queryRows d q rows =
     (case deliver d q rows of (rs, None) \<Rightarrow> Inr rs | (_, Some e) \<Rightarrow> Inl e)"

definition queryRow :: "database \<Rightarrow> string \<Rightarrow> 'r list \<Rightarrow> (storeError, 'r option) result" where
  "queryRow d q rows =
     (case faults d q of
        None \<Rightarrow> Inr (case rows of [] \<Rightarrow> None | r # _ \<Rightarrow> Some r)
      | Some (QueryFault e) \<Rightarrow> Inl (QueryError q e)
      | Some (RowsFault n e) \<Rightarrow> Inl (QueryError q e))"

definition noFaults :: "database \<Rightarrow> bool" where
  "noFaults d \<longleftrightarrow> faults d = (\<lambda>_. None)"

lemma queryRows_Inr: "queryRows d q rows = Inr rs \<Longrightarrow> rs = rows"
  by (auto simp: queryRows_def deliver_def split: option.splits qfault.splits)

lemma queryRow_Inr: "queryRow d q rows = Inr r \<Longrightarrow> r = (case rows of [] \<Rightarrow> None | x # _ \<Rightarrow> Some x)"
  by (auto simp: queryRow_def split: option.splits qfault.splits)

lemma queryRows_ok [simp]: "noFaults d \<Longrightarrow> queryRows d q rows = Inr rows"
  by (simp add: queryRows_def deliver_def noFaults_def)

lemma queryRow_ok [simp]: "noFaults d \<Longrightarrow> queryRow d q rows = Inr (case rows of [] \<Rightarrow> None | x # _ \<Rightarrow> Some x)"
  by (simp add: queryRow_def noFaults_def)

lemma deliver_ok [simp]: "noFaults d \<Longrightarrow> deliver d q rows = (rows, None)"
  by (simp add: deliver_def noFaults_def)

lemma deliver_None: "deliver d q rows = (rs, None) \<Longrightarrow> rs = rows"
  by (auto simp: deliver_def split: option.splits qfault.splits)

lemma deliver_prefix: "\<exists>n. fst (deliver d q rows) = take n rows"
proof (cases "faults d q")
  case None
  then show ?thesis by (intro exI [of _ "length rows"]) (simp add: deliver_def)
next
  case (Some f)
  then show ?thesis by (cases f) (auto simp: deliver_def intro: exI [of _ 0])
qed

section \<open>Event statements\<close>

text \<open>\<open>eventQuery\<close>: events joined with their JSON, left-joined with rooms and rejections.\<close>

record eventQueryRow =
  q_event :: eventsRow
  q_json :: eventJsonRow
  q_version :: "string option"
  q_reason :: "string option"

definition leftJoin :: "'a list \<Rightarrow> 'a option list" where
  "leftJoin xs = (if xs = [] then [None] else map Some xs)"

definition eventQuery :: "database \<Rightarrow> string list \<Rightarrow> eventQueryRow list" where
  "eventQuery d ids =
     concat (map (\<lambda>e.
       concat (map (\<lambda>j.
         concat (map (\<lambda>r.
           map (\<lambda>x. \<lparr>q_event = e, q_json = j, q_version = Option.bind r (\<lambda>p. fst (snd p)),
                     q_reason = map_option snd x\<rparr>)
             (leftJoin (filter (\<lambda>(i, _). i = ev_id e) (t_rejections d))))
           (leftJoin (filter (\<lambda>(i, _, _). i = ev_room e) (t_rooms d)))))
         (filter (\<lambda>j. ej_id j = ev_id e) (t_event_json d))))
       (filter (\<lambda>e. ev_id e \<in> set ids) (t_events d)))"

definition redactionsQuery :: "database \<Rightarrow> string list \<Rightarrow> redactionsRow list" where
  "redactionsQuery d ids =
     filter (\<lambda>r. case rd_redacts r of None \<Rightarrow> False | Some t \<Rightarrow> t \<in> set ids) (t_redactions d)"

definition bansQuery :: "database \<Rightarrow> string list \<Rightarrow> string list \<Rightarrow> banRow list" where
  "bansQuery d rooms users =
     filter (\<lambda>b. (bn_room b, bn_user b) \<in> set (zip rooms users)) (t_bans d)"

definition targetsQuery :: "database \<Rightarrow> string list \<Rightarrow> eventsRow list" where
  "targetsQuery d ids = filter (\<lambda>e. ev_id e \<in> set ids) (t_events d)"

section \<open>State statements\<close>

text \<open>
  The recursive part of \<open>stateGroupQuery\<close>: \<open>UNION ALL\<close> joins the rows of the last round with
  the edges until a round adds nothing.  A cycle in the edges makes it run for ever, which is
  \<open>None\<close> here: after more rounds than there are edges, a round that is not empty repeats a
  group.
\<close>

definition prevGroups :: "database \<Rightarrow> int list \<Rightarrow> int list" where
  "prevGroups d gs = concat (map (\<lambda>g. map snd (filter (\<lambda>(a, _). a = g) (t_group_edges d))) gs)"

fun sgsRounds :: "database \<Rightarrow> nat \<Rightarrow> int list \<Rightarrow> int list option" where
  "sgsRounds d 0 gs = (if gs = [] then Some [] else None)"
| "sgsRounds d (Suc n) gs =
     (if gs = [] then Some []
      else map_option (\<lambda>r. gs @ r) (sgsRounds d n (prevGroups d gs)))"

definition sgs :: "database \<Rightarrow> int \<Rightarrow> int list option" where
  "sgs d g = sgsRounds d (Suc (length (t_group_edges d))) [g]"

text \<open>\<open>DISTINCT ON (type, state_key) \<dots> ORDER BY \<dots> state_group DESC\<close>: per key the first row of
  the highest group.\<close>

record StateKey =
  Type :: string
  StateKey :: string

definition keyOf :: "stateRow \<Rightarrow> StateKey" where
  "keyOf r = \<lparr>Type = sr_type r, StateKey = sr_key r\<rparr>"

definition newest :: "stateRow list \<Rightarrow> string" where
  "newest rows = sr_event (hd (filter (\<lambda>r. list_all (\<lambda>r'. sr_group r' \<le> sr_group r) rows) rows))"

definition distinctOn :: "stateRow list \<Rightarrow> (StateKey \<times> string) list" where
  "distinctOn rows =
     map (\<lambda>k. (k, newest (filter (\<lambda>r. keyOf r = k) rows))) (remdups (map keyOf rows))"

definition groupRows :: "database \<Rightarrow> int list \<Rightarrow> stateRow list" where
  "groupRows d gs = filter (\<lambda>r. sr_group r \<in> set gs) (t_group_state d)"

text \<open>\<open>state_key LIKE '%:server'\<close> for a server name without wildcards is a suffix test.\<close>

definition stateGroupQuery :: "database \<Rightarrow> int \<Rightarrow> (StateKey \<times> string) list option" where
  "stateGroupQuery d g = map_option (\<lambda>gs. distinctOn (groupRows d gs)) (sgs d g)"

definition stateGroupFilteredQuery :: "database \<Rightarrow> int \<Rightarrow> string list \<Rightarrow> (StateKey \<times> string) list option" where
  "stateGroupFilteredQuery d g types =
     map_option (\<lambda>gs. distinctOn (filter (\<lambda>r. sr_type r \<in> set types) (groupRows d gs))) (sgs d g)"

definition stateGroupMemberQuery :: "database \<Rightarrow> int \<Rightarrow> string \<Rightarrow> (StateKey \<times> string) list option" where
  "stateGroupMemberQuery d g server =
     map_option (\<lambda>gs. distinctOn (filter (\<lambda>r. sr_type r = ''m.room.member'' \<and>
        hasSuffix (sr_key r) (CHR '':'' # server)) (groupRows d gs))) (sgs d g)"

text \<open>A statement that does not end is ended by the request's deadline.\<close>

definition queryLoop :: "database \<Rightarrow> string \<Rightarrow> 'r list option \<Rightarrow> (storeError, 'r list) result" where
  "queryLoop d q res =
     (case res of None \<Rightarrow> Inl (QueryError q ''context deadline exceeded'') | Some rows \<Rightarrow> queryRows d q rows)"

lemma queryLoop_Inr: "queryLoop d q res = Inr rows \<Longrightarrow> res = Some rows"
  by (auto simp: queryLoop_def dest: queryRows_Inr split: option.splits)

section \<open>Auth chain, edge, room and key statements\<close>

definition chainPositionsQuery :: "database \<Rightarrow> string list \<Rightarrow> (string \<times> int \<times> int) list" where
  "chainPositionsQuery d ids = filter (\<lambda>(e, _, _). e \<in> set ids) (t_chains d)"

definition linksQuery :: "database \<Rightarrow> int list \<Rightarrow> linkRow list" where
  "linksQuery d ids = filter (\<lambda>l. lk_ochain l \<in> set ids) (t_links d)"

definition chainEventsQuery :: "database \<Rightarrow> (int \<times> int) list \<Rightarrow> string list" where
  "chainEventsQuery d lims =
     concat (map (\<lambda>(e, c, n). map (\<lambda>_. e) (filter (\<lambda>(c', m). c' = c \<and> n \<le> m) lims)) (t_chains d))"

definition eventAuthQuery :: "database \<Rightarrow> string list \<Rightarrow> string list" where
  "eventAuthQuery d ids =
     concat (map (\<lambda>(e, a). map (\<lambda>_. a) (filter (\<lambda>x. ev_id x = a) (t_events d)))
       (filter (\<lambda>(e, _). e \<in> set ids) (t_event_auth d)))"

definition startEventsQuery :: "database \<Rightarrow> string list \<Rightarrow> string \<Rightarrow> string list" where
  "startEventsQuery d ids room =
     map ev_id (filter (\<lambda>e. ev_id e \<in> set ids \<and> ev_room e = room) (t_events d))"

definition prevEventsQuery :: "database \<Rightarrow> string \<Rightarrow> string \<Rightarrow> nat \<Rightarrow> string list" where
  "prevEventsQuery d eid room lim =
     take lim (sort (concat (map (\<lambda>(_, p, _). map (\<lambda>_. p) (filter (\<lambda>e. ev_id e = p \<and> ev_room e = room) (t_events d)))
       (filter (\<lambda>(e, _, st). e = eid \<and> \<not> st) (t_event_edges d)))))"

definition joinedQuery :: "database \<Rightarrow> string \<Rightarrow> string \<Rightarrow> string list" where
  "joinedQuery d room host =
     map cs_key (filter (\<lambda>c. cs_membership c = Some ''join'' \<and> cs_type c = ''m.room.member'' \<and>
       cs_room c = room \<and> hasSuffix (cs_key c) (CHR '':'' # host)) (t_current d))"

definition currentEventQuery :: "database \<Rightarrow> string \<Rightarrow> string \<Rightarrow> string \<Rightarrow> (string \<times> raw) list" where
  "currentEventQuery d room typ key =
     concat (map (\<lambda>c. map (\<lambda>j. (cs_event c, ej_json j)) (filter (\<lambda>j. ej_id j = cs_event c) (t_event_json d)))
       (filter (\<lambda>c. cs_room c = room \<and> cs_type c = typ \<and> cs_key c = key) (t_current d)))"

definition serverKeysQuery :: "database \<Rightarrow> string \<Rightarrow> int \<Rightarrow> ServerKeyJSON list" where
  "serverKeysQuery d server validAt =
     rev (sort_key ValidUntilMS (rev (map snd (filter (\<lambda>(s, k). s = server \<and> validAt < ValidUntilMS k) (t_keys d)))))"

section \<open>State group resolution\<close>

lemma distinctOn_keys: "map fst (distinctOn rows) = remdups (map keyOf rows)"
  by (simp add: distinctOn_def comp_def)

lemma gomap_distinctOn [simp, intro]: "gomap (distinctOn rows)"
  by (simp add: gomap_def distinctOn_keys)

lemma gget_distinctOn:
  "gget (distinctOn rows) k =
     (if k \<in> keyOf ` set rows then Some (newest (filter (\<lambda>r. keyOf r = k) rows)) else None)"
  by (simp add: distinctOn_def map_of_map_the)

text \<open>A filter on the key commutes with the selection of the newest row.\<close>

lemma distinctOn_filter:
  "distinctOn (filter (\<lambda>r. P (keyOf r)) rows) = filter (\<lambda>(k, _). P k) (distinctOn rows)"
proof -
  have "newest (filter (\<lambda>r. keyOf r = k) (filter (\<lambda>r. P (keyOf r)) rows)) = newest (filter (\<lambda>r. keyOf r = k) rows)"
    if "P k" for k
    using that by (auto simp: filter_filter intro!: arg_cong [of _ _ newest] filter_cong)
  moreover have "remdups (map keyOf (filter (\<lambda>r. P (keyOf r)) rows)) = filter P (remdups (map keyOf rows))"
    by (metis (no_types, lifting) filter_cong filter_map comp_apply remdups_filter)
  ultimately show ?thesis
    unfolding distinctOn_def by (auto simp: filter_map comp_def)
qed

text \<open>
  Synapse writes a state group with at most one predecessor, which exists already and so has a
  smaller number, and at most one row per key in a group.
\<close>

definition edges_ok :: "database \<Rightarrow> bool" where
  "edges_ok d \<longleftrightarrow> distinct (map fst (t_group_edges d)) \<and> list_all (\<lambda>(g, p). p < g) (t_group_edges d)"

definition rows_ok :: "database \<Rightarrow> bool" where
  "rows_ok d \<longleftrightarrow> distinct (map (\<lambda>r. (sr_group r, keyOf r)) (t_group_state d))"

definition prevGroup :: "database \<Rightarrow> int \<Rightarrow> int option" where
  "prevGroup d g = map_of (t_group_edges d) g"

definition delta :: "database \<Rightarrow> int \<Rightarrow> StateKey \<Rightarrow> string option" where
  "delta d g k = map_of (map (\<lambda>r. ((sr_group r, keyOf r), sr_event r)) (t_group_state d)) (g, k)"

lemma filter_fst_map_of:
  "distinct (map fst xs) \<Longrightarrow>
     map snd (filter (\<lambda>(a, _). a = g) xs) = (case map_of xs g of None \<Rightarrow> [] | Some v \<Rightarrow> [v])"
proof (induction xs)
  case (Cons x xs)
  then show ?case by (cases x) (auto simp: map_of_eq_None_iff [symmetric] split: option.splits)
qed simp

lemma prevGroups_single:
  "edges_ok d \<Longrightarrow> prevGroups d [g] = (case prevGroup d g of None \<Rightarrow> [] | Some p \<Rightarrow> [p])"
  by (simp add: prevGroups_def prevGroup_def edges_ok_def filter_fst_map_of)

lemma prevGroup_less: "edges_ok d \<Longrightarrow> prevGroup d g = Some p \<Longrightarrow> p < g"
  by (force simp: edges_ok_def prevGroup_def list_all_iff dest: map_of_SomeD)

lemma sgsRounds_mono: "sgsRounds d n gs = Some r \<Longrightarrow> n \<le> m \<Longrightarrow> sgsRounds d m gs = Some r"
proof (induction d n gs arbitrary: r m rule: sgsRounds.induct)
  case (1 d gs)
  then show ?case by (cases m) (auto split: if_splits)
next
  case (2 d n gs)
  then obtain m' where m: "m = Suc m'" "n \<le> m'" by (cases m) auto
  show ?case
  proof (cases "gs = []")
    case False
    with 2(2) obtain r' where "sgsRounds d n (prevGroups d gs) = Some r'" "r = gs @ r'" by auto
    with 2(1) [OF False] m False show ?thesis by simp
  qed (use 2(2) m in simp)
qed

abbreviation edgesUpTo :: "database \<Rightarrow> int \<Rightarrow> nat" where
  "edgesUpTo d g \<equiv> length (filter (\<lambda>(a, _). a \<le> g) (t_group_edges d))"

lemma edgesUpTo_step:
  assumes "edges_ok d" and "prevGroup d g = Some p"
  shows "edgesUpTo d p < edgesUpTo d g"
proof -
  have mem: "(g, p) \<in> set (t_group_edges d)" and less: "p < g"
    using assms prevGroup_less by (auto simp: prevGroup_def dest: map_of_SomeD)
  have "length (filter (\<lambda>(a, _). a \<le> p) xs) < length (filter (\<lambda>(a, _). a \<le> g) xs)"
    if "(g, p) \<in> set xs" for xs :: "(int \<times> int) list"
    using that
  proof (induction xs)
    case (Cons x xs)
    have "length (filter (\<lambda>(a, _). a \<le> p) xs) \<le> length (filter (\<lambda>(a, _). a \<le> g) xs)"
      by (induction xs) (use less in auto)
    with Cons less show ?case by (cases x) auto
  qed simp
  with mem show ?thesis by blast
qed

lemma sgsRounds_enough:
  assumes "edges_ok d" and "edgesUpTo d g < n"
  shows "\<exists>r. sgsRounds d n [g] = Some r"
  using assms(2)
proof (induction n arbitrary: g)
  case (Suc n)
  show ?case
  proof (cases "prevGroup d g")
    case None
    then show ?thesis by (cases n) (simp_all add: prevGroups_single [OF assms(1)])
  next
    case (Some p)
    with Suc.prems edgesUpTo_step [OF assms(1) Some] have "edgesUpTo d p < n" by simp
    from Suc.IH [OF this] Some show ?thesis by (auto simp: prevGroups_single [OF assms(1)])
  qed
qed simp

lemma sgs_ends: "edges_ok d \<Longrightarrow> \<exists>r. sgs d g = Some r"
  unfolding sgs_def by (rule sgsRounds_enough) (auto simp: le_imp_less_Suc)

lemma sgs_chain:
  assumes "edges_ok d"
  shows "sgs d g = Some (g # (case prevGroup d g of None \<Rightarrow> [] | Some p \<Rightarrow> the (sgs d p)))"
proof (cases "prevGroup d g")
  case None
  then show ?thesis
    using sgs_ends [OF assms, of g] by (cases "length (t_group_edges d)") (auto simp: sgs_def prevGroups_single [OF assms])
next
  case (Some p)
  from sgsRounds_enough [OF assms, of g "Suc (length (t_group_edges d))"]
  obtain r where r: "sgsRounds d (length (t_group_edges d)) [p] = Some r"
    using Some by (auto simp: prevGroups_single [OF assms] le_imp_less_Suc)
  then have "sgs d p = Some r" unfolding sgs_def by (rule sgsRounds_mono) simp
  moreover have "sgs d g = Some (g # r)"
    using r Some by (simp add: sgs_def prevGroups_single [OF assms])
  ultimately show ?thesis using Some by simp
qed

lemma sgs_le:
  assumes "edges_ok d"
  shows "x \<in> set (the (sgs d g)) \<Longrightarrow> x \<le> g"
proof (induction "edgesUpTo d g" arbitrary: g rule: less_induct)
  case less
  show ?case
  proof (cases "prevGroup d g")
    case None
    with less(2) show ?thesis by (simp add: sgs_chain [OF assms, of g])
  next
    case (Some p)
    with less(2) have "x = g \<or> x \<in> set (the (sgs d p))"
      by (simp add: sgs_chain [OF assms, of g])
    with less(1) [OF edgesUpTo_step [OF assms Some]] prevGroup_less [OF assms Some] show ?thesis by force
  qed
qed

lemma newest_top:
  assumes "r \<in> set rows" and "\<And>r'. r' \<in> set rows \<Longrightarrow> r' \<noteq> r \<Longrightarrow> sr_group r' < sr_group r"
  shows "newest rows = sr_event r"
proof -
  let ?top = "filter (\<lambda>r. list_all (\<lambda>r'. sr_group r' \<le> sr_group r) rows) rows"
  have "r \<in> set ?top" using assms by (auto simp: list_all_iff) (metis order.strict_implies_order order_refl)
  then have "hd ?top \<in> set ?top" by (cases ?top) auto
  then have "sr_group r \<le> sr_group (hd ?top)" "hd ?top \<in> set rows"
    using assms(1) by (auto simp: list_all_iff)
  with assms(2) have "hd ?top = r" by force
  then show ?thesis by (simp add: newest_def)
qed

lemma delta_Some:
  assumes "rows_ok d"
  shows "delta d g k = Some e \<longleftrightarrow> (\<exists>r \<in> set (t_group_state d). sr_group r = g \<and> keyOf r = k \<and> sr_event r = e)"
proof -
  have "distinct (map fst (map (\<lambda>r. ((sr_group r, keyOf r), sr_event r)) (t_group_state d)))"
    using assms by (simp add: rows_ok_def comp_def)
  from map_of_eq_Some_iff [OF this] show ?thesis by (auto simp: delta_def image_iff)
qed

lemma rows_ok_unique:
  "rows_ok d \<Longrightarrow> r \<in> set (t_group_state d) \<Longrightarrow> r' \<in> set (t_group_state d) \<Longrightarrow>
     sr_group r = sr_group r' \<Longrightarrow> keyOf r = keyOf r' \<Longrightarrow> r = r'"
  unfolding rows_ok_def distinct_map by (auto dest: inj_onD)

text \<open>The delta of a group wins over everything its predecessors say of the key.\<close>

lemma distinctOn_delta:
  assumes "rows_ok d" and "\<And>x. x \<in> set gs \<Longrightarrow> x < g"
  shows "gget (distinctOn (groupRows d (g # gs))) k =
    (case delta d g k of Some e \<Rightarrow> Some e | None \<Rightarrow> gget (distinctOn (groupRows d gs)) k)"
proof (cases "delta d g k")
  case (Some e)
  then obtain r where r: "r \<in> set (t_group_state d)" "sr_group r = g" "keyOf r = k" "sr_event r = e"
    using delta_Some [OF assms(1)] by auto
  let ?rows = "filter (\<lambda>r. keyOf r = k) (groupRows d (g # gs))"
  have "newest ?rows = sr_event r"
  proof (rule newest_top)
    show "r \<in> set ?rows" using r by (simp add: groupRows_def)
    fix r' assume "r' \<in> set ?rows" "r' \<noteq> r"
    then have "sr_group r' \<noteq> g" "sr_group r' \<in> set (g # gs)"
      using rows_ok_unique [OF assms(1), of r' r] r by (auto simp: groupRows_def)
    with assms(2) r(2) show "sr_group r' < sr_group r" by auto
  qed
  moreover have "k \<in> keyOf ` set (groupRows d (g # gs))" using r by (auto simp: groupRows_def)
  ultimately show ?thesis using Some r(4) by (simp add: gget_distinctOn)
next
  case None
  then have no: "r \<notin> set (t_group_state d) \<or> sr_group r \<noteq> g" if "keyOf r = k" for r
    using delta_Some [OF assms(1), of g k] that by fastforce
  have "filter (\<lambda>r. keyOf r = k) (groupRows d (g # gs)) = filter (\<lambda>r. keyOf r = k) (groupRows d gs)"
    unfolding groupRows_def filter_filter by (rule filter_cong) (use no in auto)
  moreover have "k \<in> keyOf ` set (groupRows d (g # gs)) \<longleftrightarrow> k \<in> keyOf ` set (groupRows d gs)"
    using no by (auto simp: groupRows_def)
  ultimately show ?thesis using None by (simp add: gget_distinctOn)
qed

end
