(* ===== verification/StoreCaches.thy ===== *)
theory StoreCaches
  imports Lru CacheStores Database
begin

text \<open>
  \<open>internal/store/cache.go\<close>: the five caches of the store and the operations on all of them,
  with the type of stored events (\<open>internal/store/event.go\<close>).  The state a store operation
  threads is the caches plus the trace its request's context carries.  The byte length of a
  stored document, which the cache sizes count, is the parameter \<open>blen\<close>: documents are syntax
  trees here.
\<close>

section \<open>Data\<close>

record Event =
  EventID :: string
  RoomID :: string
  EType :: string
  EStateKey :: "string option"
  RoomVersion :: string
  EJSON :: raw
  InternalMetadata :: raw
  StreamOrdering :: int
  Outlier :: bool
  FormatVersion :: int
  RejectedReason :: string
  RedactedBy :: string

definition IsRedacted :: "Event \<Rightarrow> bool" where
  "IsRedacted e \<longleftrightarrow> RedactedBy e \<noteq> ''''"

definition IsStateEvent :: "Event \<Rightarrow> bool" where
  "IsStateEvent e \<longleftrightarrow> EStateKey e \<noteq> None"

type_synonym stateMap = "(StateKey, string) gomap"
type_synonym eventMap = "(string, Event) gomap"

record FilteredStateKey =
  Group :: int
  Filter :: string

record store =
  stateGroups :: "(int, stateMap) LRU"
  events :: "(string, Event) LRU"
  eventStateGroup :: "(string, int) LRU"
  authChains :: "(string, string list) LRU"
  filteredState :: "(FilteredStateKey, stateMap) LRU"
  trace :: "Trace option"

type_synonym 'a storeOp = "(store, storeError, 'a) comp"

section \<open>Operations on all caches\<close>

definition sizeOfStateMap :: "stateMap \<Rightarrow> int" where
  "sizeOfStateMap m =
     sum_list (map (\<lambda>(k, v). int (length (Type k) + length (StateKey k) + length v + 64)) m)"

definition sizeOfEvent :: "(raw \<Rightarrow> nat) \<Rightarrow> Event \<Rightarrow> int" where
  "sizeOfEvent blen e =
     int (blen (EJSON e) + blen (InternalMetadata e) + length (EventID e) +
       length (RoomID e) + length (EType e) + length (RoomVersion e) + 128)"

definition sizeOfIDs :: "string list \<Rightarrow> int" where
  "sizeOfIDs ids = sum_list (map (\<lambda>i. int (length i + 16)) ids)"

definition newCaches :: "(raw \<Rightarrow> nat) \<Rightarrow> Settings \<Rightarrow> store" where
  "newCaches blen s =
     (let s = WithDefaults s in
      \<lparr>stateGroups = NewLRU ''state_groups'' (MB (StateGroupsMB s)) sizeOfStateMap,
       events = NewLRU ''events'' (MB (EventsMB s)) (sizeOfEvent blen),
       eventStateGroup = NewLRU ''event_state_groups'' (MB (EventStateGroupsMB s)) (\<lambda>_. 64),
       authChains = NewLRU ''auth_chains'' (MB (AuthChainsMB s)) sizeOfIDs,
       filteredState = NewLRU ''filtered_state'' (MB (FilteredStateMB s)) sizeOfStateMap,
       trace = None\<rparr>)"

definition CacheStats :: "store \<Rightarrow> Stats list" where
  "CacheStats s =
     [lruStats (stateGroups s), lruStats (events s), lruStats (eventStateGroup s),
      lruStats (authChains s), lruStats (filteredState s)]"

definition SetCachesArmed :: "bool \<Rightarrow> store \<Rightarrow> store" where
  "SetCachesArmed b s =
     s\<lparr>stateGroups := SetArmed b (stateGroups s),
       events := SetArmed b (events s),
       eventStateGroup := SetArmed b (eventStateGroup s),
       authChains := SetArmed b (authChains s),
       filteredState := SetArmed b (filteredState s)\<rparr>"

definition PurgeCaches :: "store \<Rightarrow> store" where
  "PurgeCaches s =
     s\<lparr>stateGroups := Purge (stateGroups s),
       events := Purge (events s),
       eventStateGroup := Purge (eventStateGroup s),
       authChains := Purge (authChains s),
       filteredState := Purge (filteredState s)\<rparr>"

definition DropEvent :: "string \<Rightarrow> store \<Rightarrow> store" where
  "DropEvent eid s =
     s\<lparr>events := Remove eid (events s), eventStateGroup := Remove eid (eventStateGroup s)\<rparr>"

definition CachesArmed :: "store \<Rightarrow> bool" where
  "CachesArmed s \<longleftrightarrow> armed (events s)"

text \<open>\<open>cache.Record\<close> and \<open>cache.RecordN\<close> on the request's context.\<close>

definition traceN :: "string \<Rightarrow> int \<Rightarrow> int \<Rightarrow> store \<Rightarrow> store" where
  "traceN nm h l s = s\<lparr>trace := RecordN nm h l (trace s)\<rparr>"

definition trace1 :: "string \<Rightarrow> bool \<Rightarrow> store \<Rightarrow> store" where
  "trace1 nm hit s = s\<lparr>trace := Record nm hit (trace s)\<rparr>"

section \<open>Honest caches\<close>

text \<open>
  A cache is honest for a partial function when every entry it holds is that function's value.
  The lemmas are the client's view of the interface \<open>lossy_cache\<close>.
\<close>

definition honest :: "('k \<Rightarrow> 'v option) \<Rightarrow> ('k, 'v) LRU \<Rightarrow> bool" where
  "honest truth c \<longleftrightarrow> lru_inv c \<and> contents c \<subseteq>\<^sub>m truth"

lemma honest_hit: "honest truth c \<Longrightarrow> Get k c = (Some v, c') \<Longrightarrow> truth k = Some v"
  unfolding honest_def by (blast intro: lru.hit_is_true)

lemma honest_Get: "honest truth c \<Longrightarrow> honest truth (snd (Get k c))"
  unfolding honest_def by (cases "Get k c") (auto dest: lru.get_true)

lemma honest_Get': "honest truth c \<Longrightarrow> Get k c = (r, c') \<Longrightarrow> honest truth c'"
  by (metis honest_Get snd_conv)

lemma honest_Add: "honest truth c \<Longrightarrow> truth k = Some v \<Longrightarrow> honest truth (Add k v c)"
  unfolding honest_def by (blast dest: lru.add_true)

lemma contents_Purge [simp]: "contents (Purge c) = (\<lambda>_. None)"
  by (auto simp: contents_def Purge_def)

lemma contents_SetArmed: "contents (SetArmed b c) = (if b then contents c else (\<lambda>_. None))"
  by (rule ext) (simp add: SetArmed_def Let_def contents_def Purge_def split: option.split)

lemma honest_Purge: "lru_inv c \<Longrightarrow> honest truth (Purge c)"
  by (auto simp: honest_def)

lemma honest_SetArmed: "honest truth c \<Longrightarrow> honest truth (SetArmed b c)"
  by (auto simp: honest_def contents_SetArmed)

lemma contents_Remove:
  "lru_inv c \<Longrightarrow> contents (Remove k c) = (contents c)(k := None)"
proof -
  assume inv: "lru_inv c"
  have "map_of (recency (Remove k c)) j = ((map_of (recency c))(k := None)) j" for j
    using recency_Remove [OF inv, of k] by (simp add: spec_remove_def map_of_filter_key)
  then show ?thesis using contents_recency inv lru_inv_Remove by (metis ext)
qed

lemma honest_Remove: "honest truth c \<Longrightarrow> honest truth (Remove k c)"
  by (auto simp: honest_def contents_Remove map_le_def)

lemma sizes_nonneg: "0 \<le> sizeOfStateMap m" "0 \<le> sizeOfEvent blen e" "0 \<le> sizeOfIDs ids"
  unfolding sizeOfStateMap_def sizeOfEvent_def sizeOfIDs_def
  by (auto intro!: sum_list_nonneg)

end
