(* ===== verification/StoreEvents.thy ===== *)
theory StoreEvents
  imports StoreCaches
begin

text \<open>
  Loading events: \<open>internal/store/event.go\<close>, \<open>redaction.go\<close> and \<open>redactionauth.go\<close>.  Stored events
  come from the cache or the database and redactions are decided on every load, from the database,
  so that nothing about a redaction is ever cached.
\<close>

section \<open>Stored events\<close>

definition mkEvent :: "eventQueryRow \<Rightarrow> Event" where
  "mkEvent r =
     \<lparr>EventID = ev_id (q_event r), RoomID = ev_room (q_event r), EType = ev_type (q_event r),
      EStateKey = ev_state_key (q_event r),
      RoomVersion = (case q_version r of None \<Rightarrow> '''' | Some v \<Rightarrow> v),
      EJSON = ej_json (q_json r), InternalMetadata = ej_meta (q_json r),
      StreamOrdering = ev_stream (q_event r), Outlier = ev_outlier (q_event r),
      FormatVersion = (case ej_format (q_json r) of None \<Rightarrow> 1 | Some f \<Rightarrow> f),
      RejectedReason = (case q_reason r of None \<Rightarrow> '''' | Some x \<Rightarrow> x),
      RedactedBy = ''''\<rparr>"

text \<open>The loop that serves what is cached and collects the rest.\<close>

fun fromCache :: "string list \<Rightarrow> eventMap \<Rightarrow> string list \<Rightarrow> store \<Rightarrow> (eventMap \<times> string list) \<times> store" where
  "fromCache [] out missing s = ((out, missing), s)"
| "fromCache (eid # ids) out missing s =
     (case Get eid (events s) of
        (Some ev, c) \<Rightarrow> fromCache ids (gset eid ev out) missing (s\<lparr>events := c\<rparr>)
      | (None, c) \<Rightarrow> fromCache ids out (missing @ [eid]) (s\<lparr>events := c\<rparr>))"

text \<open>The loop over the rows.\<close>

fun scanEvents :: "bool \<Rightarrow> eventQueryRow list \<Rightarrow> eventMap \<Rightarrow> store \<Rightarrow> eventMap \<times> store" where
  "scanEvents populate [] out s = (out, s)"
| "scanEvents populate (r # rows) out s =
     (let e = mkEvent r in
      scanEvents populate rows (gset (EventID e) e out)
        (if populate then s\<lparr>events := Add (EventID e) e (events s)\<rparr> else s))"

definition getEventsRawOpt :: "database \<Rightarrow> string list \<Rightarrow> bool \<Rightarrow> eventMap storeOp" where
  "getEventsRawOpt d eventIDs populateCache s =
     (if eventIDs = [] then (Inr [], s)
      else
        let ((out, missing), s) =
              (if Enabled (events s) then fromCache eventIDs [] [] s else (([], eventIDs), s));
            s = traceN ''events'' (int (length eventIDs) - int (length missing)) (int (length eventIDs)) s
        in if missing = [] then (Inr out, s)
           else
             let (rows, err) = deliver d ''get events'' (eventQuery d missing);
                 (out, s) = scanEvents populateCache rows out s
             in (case err of Some e \<Rightarrow> (Inl e, s) | None \<Rightarrow> (Inr out, s)))"

definition getEventsRaw :: "database \<Rightarrow> string list \<Rightarrow> eventMap storeOp" where
  "getEventsRaw d eventIDs = getEventsRawOpt d eventIDs True"

definition HasEvent :: "database \<Rightarrow> string \<Rightarrow> (storeError, bool) result" where
  "HasEvent d eid =
     rbind (queryRow d ''has event'' (filter (\<lambda>e. ev_id e = eid) (t_events d)))
       (\<lambda>r. Inr (r \<noteq> None))"

section \<open>Redactions\<close>

record redactionRow =
  RedactionID :: string
  Recheck :: bool

definition mkRedaction :: "redactionsRow \<Rightarrow> redactionRow" where
  "mkRedaction r = \<lparr>RedactionID = rd_id r, Recheck = (rd_recheck r = Some True)\<rparr>"

text \<open>Appending to \<open>out[*redacts]\<close>.\<close>

fun groupRedactions :: "redactionsRow list \<Rightarrow> (string, redactionRow list) gomap \<Rightarrow> (string, redactionRow list) gomap" where
  "groupRedactions [] out = out"
| "groupRedactions (r # rows) out =
     groupRedactions rows
       (case rd_redacts r of None \<Rightarrow> out
        | Some t \<Rightarrow> gset t ((case gget out t of None \<Rightarrow> [] | Some l \<Rightarrow> l) @ [mkRedaction r]) out)"

definition getRedactions :: "database \<Rightarrow> string list \<Rightarrow> (storeError, (string, redactionRow list) gomap) result" where
  "getRedactions d eventIDs =
     (if eventIDs = [] then Inr []
      else rbind (queryRows d ''get redactions'' (redactionsQuery d eventIDs))
        (\<lambda>rows. Inr (groupRedactions rows [])))"

definition senderOfEvent :: "raw \<Rightarrow> string" where
  "senderOfEvent r = (case unmarshalStr ''sender'' r of None \<Rightarrow> '''' | Some s \<Rightarrow> s)"

definition senderDomain :: "raw \<Rightarrow> string" where
  "senderDomain r =
     (case unmarshalStr ''sender'' r of None \<Rightarrow> ''''
      | Some s \<Rightarrow> (case snd (cut (CHR '':'') s) of None \<Rightarrow> '''' | Some dm \<Rightarrow> dm))"

record banRedaction =
  RedactingEventID :: string
  EndOrdering :: int

definition mkBan :: "banRow \<Rightarrow> banRedaction" where
  "mkBan b = \<lparr>RedactingEventID = bn_event b, EndOrdering = (case bn_end b of None \<Rightarrow> 0 | Some n \<Rightarrow> n)\<rparr>"

definition banKey :: "string \<Rightarrow> string \<Rightarrow> string" where
  "banKey room user = room @ [nul] @ user"

definition getBanRedactions :: "database \<Rightarrow> string list \<Rightarrow> string list \<Rightarrow> (storeError, (string, banRedaction) gomap) result" where
  "getBanRedactions d rooms users =
     (if rooms = [] then Inr []
      else rbind (queryRows d ''ban redactions'' (bansQuery d rooms users))
        (\<lambda>rows. Inr (gofold (\<lambda>b. (banKey (bn_room b) (bn_user b), mkBan b)) rows)))"

definition banAppliesTo :: "banRedaction \<Rightarrow> Event \<Rightarrow> bool" where
  "banAppliesTo br ev =
     (if EType ev = ''m.room.create'' then False
      else if EndOrdering br \<noteq> 0 \<and> StreamOrdering ev \<ge> EndOrdering br then False
      else True)"

text \<open>The second loop of \<open>shouldRedact\<close>: redactions that still need authorising.\<close>

fun recheckedBy :: "Event \<Rightarrow> redactionRow list \<Rightarrow> eventMap \<Rightarrow> string option" where
  "recheckedBy ev [] reds = None"
| "recheckedBy ev (r # rows) reds =
     (case gget reds (RedactionID r) of
        None \<Rightarrow> recheckedBy ev rows reds
      | Some red \<Rightarrow>
          if RejectedReason red \<noteq> '''' then recheckedBy ev rows reds
          else if RoomID red \<noteq> RoomID ev then recheckedBy ev rows reds
          else if senderDomain (EJSON red) \<noteq> senderDomain (EJSON ev) then recheckedBy ev rows reds
          else Some (RedactionID r))"

definition shouldRedact :: "Event \<Rightarrow> redactionRow list \<Rightarrow> eventMap \<Rightarrow> string option" where
  "shouldRedact ev rows redactionEvents =
     (case find (\<lambda>r. \<not> Recheck r) rows of
        Some r \<Rightarrow> Some (RedactionID r)
      | None \<Rightarrow> recheckedBy ev rows redactionEvents)"

text \<open>The body of the last loop of \<open>applyRedactions\<close>, for one event.\<close>

definition banFor :: "(string, banRedaction) gomap \<Rightarrow> (string, string) gomap \<Rightarrow> string \<Rightarrow> Event \<Rightarrow> string option" where
  "banFor bans senders eid ev =
     (case gget bans (banKey (RoomID ev) (case gget senders eid of None \<Rightarrow> '''' | Some x \<Rightarrow> x)) of
        Some br \<Rightarrow> if banAppliesTo br ev then Some (RedactingEventID br) else None
      | None \<Rightarrow> None)"

definition redactOne ::
  "(string, redactionRow list) gomap \<Rightarrow> eventMap \<Rightarrow> (string, banRedaction) gomap \<Rightarrow> (string, string) gomap
     \<Rightarrow> string \<Rightarrow> Event \<Rightarrow> Event" where
  "redactOne redactions redactionEvents bans senders eid ev =
     (case gget redactions eid of
        None \<Rightarrow>
          (case banFor bans senders eid ev of
             Some by \<Rightarrow> ev\<lparr>RedactedBy := by\<rparr>
           | None \<Rightarrow> ev)
      | Some rows \<Rightarrow>
          if EType ev = ''m.room.create'' then ev
          else (case shouldRedact ev rows redactionEvents of
                  Some by \<Rightarrow> ev\<lparr>RedactedBy := by\<rparr>
                | None \<Rightarrow>
                    (case banFor bans senders eid ev of
                       Some by \<Rightarrow> ev\<lparr>RedactedBy := by\<rparr>
                     | None \<Rightarrow> ev)))"

definition applyRedactions :: "database \<Rightarrow> eventMap \<Rightarrow> eventMap storeOp" where
  "applyRedactions d evs =
     (if evs = [] then ret []
      else
        bnd (lift (getRedactions d (map fst evs))) (\<lambda>redactions.
        let needed = concat (map (\<lambda>(_, rows). map RedactionID (filter Recheck rows)) redactions) in
        bnd (if needed \<noteq> [] then getEventsRaw d needed else ret []) (\<lambda>redactionEvents.
        let withSender = filter (\<lambda>(_, ev). senderOfEvent (EJSON ev) \<noteq> '''') evs;
            senders = map (\<lambda>(eid, ev). (eid, senderOfEvent (EJSON ev))) withSender;
            rooms = map (\<lambda>(_, ev). RoomID ev) withSender;
            users = map (\<lambda>(_, ev). senderOfEvent (EJSON ev)) withSender in
        bnd (lift (getBanRedactions d rooms users)) (\<lambda>bans.
        ret (map (\<lambda>(eid, ev). (eid, redactOne redactions redactionEvents bans senders eid ev)) evs)))))"

section \<open>The exported loads\<close>

definition GetEvents :: "database \<Rightarrow> string list \<Rightarrow> eventMap storeOp" where
  "GetEvents d eventIDs = bnd (getEventsRaw d eventIDs) (applyRedactions d)"

definition GetEvent :: "database \<Rightarrow> string \<Rightarrow> Event storeOp" where
  "GetEvent d eid =
     bnd (GetEvents d [eid]) (\<lambda>evs.
       case gget evs eid of None \<Rightarrow> failwith ErrNotFound | Some ev \<Rightarrow> ret ev)"

definition DefaultEventBatch :: nat where
  "DefaultEventBatch = 1000"

text \<open>
  \<open>GetEventsBatched\<close>: \<open>fn\<close> is a computation on the caller's own state, so the pair of the two states
  is threaded; the request's context ending (\<open>ctx.Err\<close>) is \<open>cancelled n\<close> before the \<open>n\<close>-th chunk.
\<close>

function batches :: "database \<Rightarrow> (nat \<Rightarrow> storeError option) \<Rightarrow> nat \<Rightarrow> nat \<Rightarrow> string list
    \<Rightarrow> (eventMap \<Rightarrow> ('u, storeError, unit) comp) \<Rightarrow> (store \<times> 'u, storeError, unit) comp" where
  "batches d cancelled n batch ids fn su =
     (if ids = [] \<or> batch = 0 then (Inr (), su)
      else case cancelled n of Some e \<Rightarrow> (Inl e, su)
      | None \<Rightarrow>
        (case bnd (getEventsRawOpt d (take batch ids) False) (applyRedactions d) (fst su) of
           (Inl e, s) \<Rightarrow> (Inl e, (s, snd su))
         | (Inr evs, s) \<Rightarrow>
             (case fn evs (snd su) of
                (Inl e, u) \<Rightarrow> (Inl e, (s, u))
              | (Inr _, u) \<Rightarrow> batches d cancelled (Suc n) batch (drop batch ids) fn (s, u))))"
  by pat_completeness auto
termination
  by (relation "measure (\<lambda>(_, _, _, _, ids, _, _). length ids)") auto

declare batches.simps [simp del]

definition GetEventsBatched :: "database \<Rightarrow> (nat \<Rightarrow> storeError option) \<Rightarrow> string list \<Rightarrow> int
    \<Rightarrow> (eventMap \<Rightarrow> ('u, storeError, unit) comp) \<Rightarrow> (store \<times> 'u, storeError, unit) comp" where
  "GetEventsBatched d cancelled ids batch fn =
     batches d cancelled 0 (if batch \<le> 0 then DefaultEventBatch else nat batch) ids fn"

section \<open>Redaction events that are withheld\<close>

definition redactsTarget :: "lib \<Rightarrow> raw \<Rightarrow> string option" where
  "redactsTarget lb body =
     (if strOf (gjsonGet lb body ''redacts'') \<noteq> '''' then Some (strOf (gjsonGet lb body ''redacts''))
      else if strOf (gjsonGet lb body ''content.redacts'') \<noteq> '''' then Some (strOf (gjsonGet lb body ''content.redacts''))
      else None)"

text \<open>A \<open>*bool\<close> field: \<open>null\<close> sets the pointer to nil.\<close>

fun decodeBoolPtr :: "json list \<Rightarrow> bool option \<Rightarrow> bool option option" where
  "decodeBoolPtr [] acc = Some acc"
| "decodeBoolPtr (JBool b # vs) acc = decodeBoolPtr vs (Some b)"
| "decodeBoolPtr (JNull # vs) acc = decodeBoolPtr vs None"
| "decodeBoolPtr (_ # vs) acc = None"

definition needsRedactionRecheck :: "raw \<Rightarrow> bool" where
  "needsRedactionRecheck meta =
     (case Option.bind (topObj meta) (\<lambda>ms. decodeBoolPtr (fieldVals ''recheck_redaction'' ms) None) of
        Some (Some b) \<Rightarrow> b
      | _ \<Rightarrow> False)"

definition domainOf :: "string \<Rightarrow> string" where
  "domainOf i = (case snd (cut (CHR '':'') i) of None \<Rightarrow> '''' | Some dm \<Rightarrow> dm)"

text \<open>The five rules, for one redaction event with its target and what the database holds of it.\<close>

definition withholds :: "Event \<Rightarrow> eventsRow option \<Rightarrow> bool" where
  "withholds ev original =
     (case original of
        None \<Rightarrow> True
      | Some orig \<Rightarrow>
          if ev_type orig = ''m.room.create'' then True
          else if ev_room orig \<noteq> RoomID ev then True
          else needsRedactionRecheck (InternalMetadata ev) \<and>
               domainOf (ev_sender orig) \<noteq> domainOf (senderOfEvent (EJSON ev)))"

definition untargeted :: "lib \<Rightarrow> eventMap \<Rightarrow> (string, bool) gomap" where
  "untargeted lb evs =
     map (\<lambda>(eid, _). (eid, True))
       (filter (\<lambda>(_, ev). EType ev = ''m.room.redaction'' \<and> redactsTarget lb (EJSON ev) = None) evs)"

definition redactionTargets :: "lib \<Rightarrow> eventMap \<Rightarrow> (string \<times> Event \<times> string) list" where
  "redactionTargets lb evs =
     map (\<lambda>(eid, ev). (eid, ev, the (redactsTarget lb (EJSON ev))))
       (filter (\<lambda>(_, ev). EType ev = ''m.room.redaction'' \<and> redactsTarget lb (EJSON ev) \<noteq> None) evs)"

definition WithheldRedactions :: "lib \<Rightarrow> database \<Rightarrow> eventMap \<Rightarrow> (storeError, (string, bool) gomap) result" where
  "WithheldRedactions lb d evs =
     (let targets = redactionTargets lb evs;
          wanted = map (\<lambda>(_, _, t). t) targets
      in if wanted = [] then Inr (untargeted lb evs)
         else rbind (queryRows d ''redaction targets'' (targetsQuery d wanted)) (\<lambda>rows.
           let found = gofold (\<lambda>e. (ev_id e, e)) rows in
           Inr (untargeted lb evs @ map (\<lambda>(eid, _, _). (eid, True))
             (filter (\<lambda>(_, ev, t). withholds ev (gget found t)) targets))))"

section \<open>What the database says of an event\<close>

text \<open>The keys Synapse's schema declares unique, and that a Postgres text holds no NUL byte.\<close>

definition db_keys :: "database \<Rightarrow> bool" where
  "db_keys d \<longleftrightarrow>
     distinct (map ev_id (t_events d)) \<and> distinct (map ej_id (t_event_json d)) \<and>
     distinct (map fst (t_rooms d)) \<and> distinct (map fst (t_rejections d)) \<and>
     list_all (\<lambda>e. nul \<notin> set (ev_room e)) (t_events d) \<and>
     list_all (\<lambda>b. nul \<notin> set (bn_room b)) (t_bans d)"

definition eventTruth :: "database \<Rightarrow> string \<Rightarrow> Event option" where
  "eventTruth d eid = map_option mkEvent (find (\<lambda>r. ev_id (q_event r) = eid) (eventQuery d [eid]))"

definition joinedRow :: "database \<Rightarrow> eventQueryRow \<Rightarrow> bool" where
  "joinedRow d r \<longleftrightarrow>
     q_event r \<in> set (t_events d) \<and> q_json r \<in> set (t_event_json d) \<and> ej_id (q_json r) = ev_id (q_event r) \<and>
     (\<exists>x \<in> set (leftJoin (filter (\<lambda>(i, _, _). i = ev_room (q_event r)) (t_rooms d))).
        q_version r = Option.bind x (\<lambda>p. fst (snd p))) \<and>
     (\<exists>x \<in> set (leftJoin (filter (\<lambda>(i, _). i = ev_id (q_event r)) (t_rejections d))).
        q_reason r = map_option snd x)"

lemma eventQuery_mem:
  "r \<in> set (eventQuery d ids) \<longleftrightarrow> joinedRow d r \<and> ev_id (q_event r) \<in> set ids"
  by (cases r) (auto simp: eventQuery_def joinedRow_def)

lemma distinct_filter_key:
  "distinct (map f xs) \<Longrightarrow> x \<in> set xs \<Longrightarrow> y \<in> set xs \<Longrightarrow> f x = f y \<Longrightarrow> x = y"
  by (simp add: distinct_map inj_on_def)

lemma leftJoin_unique:
  assumes "distinct (map fst xs)" and "x \<in> set (leftJoin (filter (\<lambda>p. fst p = k) xs))"
    and "y \<in> set (leftJoin (filter (\<lambda>p. fst p = k) xs))"
  shows "x = y"
  using assms distinct_filter_key [OF assms(1)] by (auto simp: leftJoin_def split: if_splits)

lemma joinedRow_unique:
  assumes "db_keys d" and "joinedRow d r" and "joinedRow d r'" and id: "ev_id (q_event r) = ev_id (q_event r')"
  shows "r = r'"
proof -
  have e: "q_event r = q_event r'"
    using assms distinct_filter_key [of ev_id "t_events d"] by (auto simp: db_keys_def joinedRow_def)
  have j: "q_json r = q_json r'"
    using assms distinct_filter_key [of ej_id "t_event_json d"] by (auto simp: db_keys_def joinedRow_def)
  have f: "(\<lambda>(i, _, _). i = k) = (\<lambda>p :: string \<times> string option \<times> bool option. fst p = k)"
    "(\<lambda>(i, _). i = k) = (\<lambda>p :: string \<times> string. fst p = k)" for k by auto
  have "q_version r = q_version r'"
    using assms(1-3) leftJoin_unique [of "t_rooms d"] e unfolding joinedRow_def f db_keys_def by metis
  moreover have "q_reason r = q_reason r'"
    using assms(1-3) leftJoin_unique [of "t_rejections d"] e unfolding joinedRow_def f db_keys_def by metis
  ultimately show ?thesis using e j by (cases r; cases r') simp
qed

lemma eventTruth_row:
  assumes "db_keys d" and "joinedRow d r"
  shows "eventTruth d (ev_id (q_event r)) = Some (mkEvent r)"
proof (cases "find (\<lambda>x. ev_id (q_event x) = ev_id (q_event r)) (eventQuery d [ev_id (q_event r)])")
  case None
  with assms(2) show ?thesis by (auto simp: find_None_iff eventQuery_mem)
next
  case (Some x)
  then have "x \<in> set (eventQuery d [ev_id (q_event r)])" by (metis find_Some_iff nth_mem)
  then have "x = r" using joinedRow_unique [OF assms(1) _ assms(2)] by (auto simp: eventQuery_mem)
  with Some show ?thesis by (simp add: eventTruth_def)
qed

lemma eventTruth_Some:
  assumes "eventTruth d eid = Some e"
  obtains r where "joinedRow d r" and "ev_id (q_event r) = eid" and "e = mkEvent r"
proof -
  from assms obtain r where r: "find (\<lambda>r. ev_id (q_event r) = eid) (eventQuery d [eid]) = Some r" "e = mkEvent r"
    by (auto simp: eventTruth_def)
  then have "r \<in> set (eventQuery d [eid])" by (metis find_Some_iff nth_mem)
  with that r(2) show thesis by (auto simp: eventQuery_mem)
qed

lemma mkEvent_sel [simp]:
  "EventID (mkEvent r) = ev_id (q_event r)" "RoomID (mkEvent r) = ev_room (q_event r)"
  "RedactedBy (mkEvent r) = ''''" "EType (mkEvent r) = ev_type (q_event r)"
  by (simp_all add: mkEvent_def)

lemma eventTruth_id: "eventTruth d eid = Some e \<Longrightarrow> EventID e = eid \<and> RedactedBy e = ''''"
  by (auto elim: eventTruth_Some)

section \<open>Loading is transparent to the cache\<close>

definition otherCaches where
  "otherCaches s = (stateGroups s, eventStateGroup s, authChains s, filteredState s)"

abbreviation eventsHonest :: "database \<Rightarrow> store \<Rightarrow> bool" where
  "eventsHonest d s \<equiv> honest (eventTruth d) (events s)"

lemma traceN_sel [simp]:
  "events (traceN nm h l s) = events s" "otherCaches (traceN nm h l s) = otherCaches s"
  by (simp_all add: traceN_def otherCaches_def)

lemma otherCaches_events [simp]: "otherCaches (s\<lparr>events := c\<rparr>) = otherCaches s"
  by (simp add: otherCaches_def)

lemma fromCache_spec:
  assumes "eventsHonest d s" and "fromCache ids out missing s = ((out', missing'), s')"
  shows "eventsHonest d s' \<and> otherCaches s' = otherCaches s \<and> (gomap out \<longrightarrow> gomap out') \<and>
    (\<forall>x. x \<in> set missing \<longrightarrow> x \<in> set missing') \<and>
    (\<forall>x. x \<in> set missing' \<longrightarrow> x \<in> set missing \<or> x \<in> set ids) \<and>
    (\<forall>x. gget out' x = gget out x \<or> x \<in> set ids \<and> gget out' x = eventTruth d x) \<and>
    (\<forall>x \<in> set ids. x \<in> set missing' \<or> gget out' x = eventTruth d x)"
  using assms
proof (induction ids out missing s rule: fromCache.induct)
  case (2 eid ids out missing s)
  obtain r c where g: "Get eid (events s) = (r, c)" by fastforce
  have hon: "eventsHonest d (s\<lparr>events := c\<rparr>)"
    using honest_Get' [OF 2(3) g] by simp
  show ?case
  proof (cases r)
    case None
    have run: "fromCache ids out (missing @ [eid]) (s\<lparr>events := c\<rparr>) = ((out', missing'), s')"
      using 2(4) g None by simp
    from 2(1) [OF g [symmetric] None hon run] show ?thesis by auto
  next
    case (Some ev)
    have t: "eventTruth d eid = Some ev" using honest_hit [OF 2(3)] g Some by simp
    have run: "fromCache ids (gset eid ev out) missing (s\<lparr>events := c\<rparr>) = ((out', missing'), s')"
      using 2(4) g Some by simp
    from 2(2) [OF g [symmetric] Some hon run] have
      ih: "eventsHonest d s'" "otherCaches s' = otherCaches s" "gomap (gset eid ev out) \<longrightarrow> gomap out'"
        "\<forall>x. x \<in> set missing \<longrightarrow> x \<in> set missing'"
        "\<forall>x. x \<in> set missing' \<longrightarrow> x \<in> set missing \<or> x \<in> set ids"
        "\<forall>x. gget out' x = ((gget out)(eid \<mapsto> ev)) x \<or> x \<in> set ids \<and> gget out' x = eventTruth d x"
        "\<forall>x \<in> set ids. x \<in> set missing' \<or> gget out' x = eventTruth d x" by auto
    have "gget out' x = gget out x \<or> x \<in> set (eid # ids) \<and> gget out' x = eventTruth d x" for x
      using ih(6) [rule_format, of x] t by (cases "x = eid") auto
    moreover have "x \<in> set missing' \<or> gget out' x = eventTruth d x" if "x \<in> set (eid # ids)" for x
      using ih(6) [rule_format, of x] ih(7) t that by (cases "x = eid") auto
    ultimately show ?thesis using ih by auto
  qed
qed auto

lemma scanEvents_spec:
  assumes "db_keys d" and "eventsHonest d s" and "\<And>r. r \<in> set rows \<Longrightarrow> joinedRow d r"
    and "scanEvents populate rows out s = (out', s')"
  shows "eventsHonest d s' \<and> otherCaches s' = otherCaches s \<and> (gomap out \<longrightarrow> gomap out') \<and>
    (\<forall>x. gget out' x = (if x \<in> (\<lambda>r. ev_id (q_event r)) ` set rows then eventTruth d x else gget out x))"
  using assms(2-4)
proof (induction rows arbitrary: out s)
  case (Cons r rows)
  let ?e = "mkEvent r" and ?s = "if populate then s\<lparr>events := Add (EventID (mkEvent r)) (mkEvent r) (events s)\<rparr> else s"
  have t: "eventTruth d (ev_id (q_event r)) = Some ?e"
    using eventTruth_row [OF assms(1)] Cons.prems(2) by simp
  then have "eventsHonest d ?s" using Cons.prems(1) honest_Add by auto
  moreover have "scanEvents populate rows (gset (EventID ?e) ?e out) ?s = (out', s')"
    using Cons.prems(3) by (simp add: Let_def)
  ultimately have "eventsHonest d s' \<and> otherCaches s' = otherCaches ?s \<and> (gomap (gset (EventID ?e) ?e out) \<longrightarrow> gomap out') \<and>
    (\<forall>x. gget out' x = (if x \<in> (\<lambda>r. ev_id (q_event r)) ` set rows then eventTruth d x
       else gget (gset (EventID ?e) ?e out) x))"
    using Cons.IH Cons.prems(2) by simp
  with t show ?case by auto
qed simp

text \<open>
  What a load returns: when it returns at all, exactly the requested events the database holds;
  without database faults it always returns; and in every case the cache stays honest and the
  other caches stay as they were.
\<close>

lemma getEventsRawOpt_spec:
  assumes "db_keys d" and "eventsHonest d s"
  shows "eventsHonest d (snd (getEventsRawOpt d ids populate s)) \<and>
    otherCaches (snd (getEventsRawOpt d ids populate s)) = otherCaches s \<and>
    (\<forall>out. fst (getEventsRawOpt d ids populate s) = Inr out \<longrightarrow>
       gomap out \<and> (\<forall>x. gget out x = (if x \<in> set ids then eventTruth d x else None))) \<and>
    (noFaults d \<longrightarrow> (\<exists>out. fst (getEventsRawOpt d ids populate s) = Inr out))"
proof (cases "ids = []")
  case False
  let ?start = "if Enabled (events s) then fromCache ids [] [] s else (([], ids), s)"
  obtain out1 missing s1 where st: "?start = ((out1, missing), s1)" by (metis surj_pair)
  have one: "eventsHonest d s1 \<and> otherCaches s1 = otherCaches s \<and> gomap out1 \<and>
      (\<forall>x. x \<in> set missing \<longrightarrow> x \<in> set ids) \<and>
      (\<forall>x. gget out1 x = None \<or> x \<in> set ids \<and> gget out1 x = eventTruth d x) \<and>
      (\<forall>x \<in> set ids. x \<in> set missing \<or> gget out1 x = eventTruth d x)"
    using st assms(2) fromCache_spec [OF assms(2), of ids "[]" "[]" out1 missing s1] by (auto split: if_splits)
  let ?s2 = "traceN ''events'' (int (length ids) - int (length missing)) (int (length ids)) s1"
  show ?thesis
  proof (cases "missing = []")
    case True
    have "getEventsRawOpt d ids populate s = (Inr out1, ?s2)"
      using False True st by (simp add: getEventsRawOpt_def)
    moreover have "gget out1 x = (if x \<in> set ids then eventTruth d x else None)" for x
      using one True by (cases "x \<in> set ids") auto
    ultimately show ?thesis using one by simp
  next
    case miss: False
    obtain rows err where del: "deliver d ''get events'' (eventQuery d missing) = (rows, err)" by fastforce
    obtain out2 s3 where sc: "scanEvents populate rows out1 ?s2 = (out2, s3)" by fastforce
    have run: "getEventsRawOpt d ids populate s = (case err of Some e \<Rightarrow> (Inl e, s3) | None \<Rightarrow> (Inr out2, s3))"
      using False miss st del sc by (simp add: getEventsRawOpt_def)
    have sub: "set rows \<subseteq> set (eventQuery d missing)"
      using deliver_prefix [of d "''get events''" "eventQuery d missing"] del set_take_subset by fastforce
    have two: "eventsHonest d s3 \<and> otherCaches s3 = otherCaches ?s2 \<and> (gomap out1 \<longrightarrow> gomap out2) \<and>
        (\<forall>x. gget out2 x = (if x \<in> (\<lambda>r. ev_id (q_event r)) ` set rows then eventTruth d x else gget out1 x))"
      using sub one by (intro scanEvents_spec [OF assms(1) _ _ sc]) (auto simp: eventQuery_mem)
    have full: "gget out2 x = (if x \<in> set ids then eventTruth d x else None)" if "err = None" for x
    proof -
      have rows: "rows = eventQuery d missing" using del deliver_None that by blast
      have in_rows: "x \<in> (\<lambda>r. ev_id (q_event r)) ` set rows \<longleftrightarrow> x \<in> set missing \<and> eventTruth d x \<noteq> None"
        using eventTruth_row [OF assms(1)] unfolding rows
        by (force simp: eventQuery_mem elim!: eventTruth_Some)
      have "gget out1 x = None \<or> x \<in> set ids \<and> gget out1 x = eventTruth d x"
        and "x \<in> set ids \<Longrightarrow> x \<in> set missing \<or> gget out1 x = eventTruth d x"
        and "x \<in> set missing \<Longrightarrow> x \<in> set ids"
        and "gget out2 x = (if x \<in> (\<lambda>r. ev_id (q_event r)) ` set rows then eventTruth d x else gget out1 x)"
        using one two by auto
      with in_rows show ?thesis by (cases "x \<in> set ids"; cases "x \<in> set missing") auto
    qed
    show ?thesis using one two full run by (auto simp: del split: option.splits)
       (use del in \<open>simp add: deliver_ok\<close>)
  qed
qed (use assms in \<open>simp add: getEventsRawOpt_def\<close>)

section \<open>Redaction decisions\<close>

text \<open>
  The decision as a function of the database alone: a redaction already authorised applies;
  otherwise the first one we hold that was not rejected, is in the same room and comes from the same
  server; otherwise a ban that redacts its user's events; the creation event is never redacted.
\<close>

definition redactionRows :: "database \<Rightarrow> string \<Rightarrow> redactionRow list" where
  "redactionRows d eid = map mkRedaction (filter (\<lambda>r. rd_redacts r = Some eid) (t_redactions d))"

definition authorised :: "database \<Rightarrow> Event \<Rightarrow> redactionRow \<Rightarrow> bool" where
  "authorised d ev r =
     (case eventTruth d (RedactionID r) of None \<Rightarrow> False
      | Some red \<Rightarrow> RejectedReason red = '''' \<and> RoomID red = RoomID ev \<and>
          senderDomain (EJSON red) = senderDomain (EJSON ev))"

definition banOf :: "database \<Rightarrow> string \<Rightarrow> string \<Rightarrow> banRedaction option" where
  "banOf d room user =
     (if user = '''' then None
      else map_option mkBan (find (\<lambda>b. bn_room b = room \<and> bn_user b = user) (rev (t_bans d))))"

definition redactionOf :: "database \<Rightarrow> Event \<Rightarrow> string option" where
  "redactionOf d ev =
     (if EType ev = ''m.room.create'' then None
      else case find (\<lambda>r. \<not> Recheck r) (redactionRows d (EventID ev)) of
        Some r \<Rightarrow> Some (RedactionID r)
      | None \<Rightarrow>
        (case find (authorised d ev) (redactionRows d (EventID ev)) of
           Some r \<Rightarrow> Some (RedactionID r)
         | None \<Rightarrow>
           (case banOf d (RoomID ev) (senderOfEvent (EJSON ev)) of
              Some br \<Rightarrow> if banAppliesTo br ev then Some (RedactingEventID br) else None
            | None \<Rightarrow> None)))"

definition servedEvent :: "database \<Rightarrow> Event \<Rightarrow> Event" where
  "servedEvent d ev = (case redactionOf d ev of None \<Rightarrow> ev | Some by \<Rightarrow> ev\<lparr>RedactedBy := by\<rparr>)"

lemma gget_groupRedactions:
  "gget (groupRedactions rows out) t =
     (let l = map mkRedaction (filter (\<lambda>r. rd_redacts r = Some t) rows)
      in if l = [] then gget out t else Some ((case gget out t of None \<Rightarrow> [] | Some x \<Rightarrow> x) @ l))"
  by (induction rows out rule: groupRedactions.induct) (auto simp: Let_def split: option.splits)

lemma gomap_groupRedactions: "gomap out \<Longrightarrow> gomap (groupRedactions rows out)"
  by (induction rows out rule: groupRedactions.induct) (auto split: option.splits)

lemma getRedactions_spec:
  assumes "getRedactions d ids = Inr reds"
  shows "gomap reds \<and> (\<forall>x \<in> set ids. gget reds x = (if redactionRows d x = [] then None else Some (redactionRows d x)))"
proof (cases "ids = []")
  case False
  then have r: "reds = groupRedactions (redactionsQuery d ids) []"
    using assms by (auto simp: getRedactions_def rbind_eq_Inr dest: queryRows_Inr)
  have "filter (\<lambda>r. rd_redacts r = Some x) (redactionsQuery d ids) = filter (\<lambda>r. rd_redacts r = Some x) (t_redactions d)"
    if "x \<in> set ids" for x
    unfolding redactionsQuery_def filter_filter by (rule filter_cong) (use that in auto)
  then show ?thesis unfolding r by (simp add: gget_groupRedactions gomap_groupRedactions redactionRows_def Let_def)
qed (use assms in \<open>auto simp: getRedactions_def\<close>)

lemma find_cong_filter: "(\<And>x. P x \<Longrightarrow> Q x) \<Longrightarrow> find P (rev (filter Q xs)) = find P (rev xs)"
proof -
  assume imp: "\<And>x. P x \<Longrightarrow> Q x"
  have "find P (filter Q ys) = find P ys" for ys by (induction ys) (use imp in auto)
  then show ?thesis by (simp add: rev_filter)
qed

lemma banKey_inj: "nul \<notin> set r \<Longrightarrow> nul \<notin> set r' \<Longrightarrow> banKey r u = banKey r' u' \<longleftrightarrow> r = r' \<and> u = u'"
  by (metis banKey_def append_Cons append_Nil cut_append option.inject prod.inject)

lemma gget_bans:
  assumes "\<And>b. b \<in> set rows \<Longrightarrow> nul \<notin> set (bn_room b)" and "nul \<notin> set room"
  shows "gget (gofold (\<lambda>b. (banKey (bn_room b) (bn_user b), mkBan b)) rows) (banKey room user) =
    map_option mkBan (find (\<lambda>b. bn_room b = room \<and> bn_user b = user) (rev rows))"
proof -
  have "map_of (map (\<lambda>b. (banKey (bn_room b) (bn_user b), mkBan b)) xs) (banKey room user) =
      map_option mkBan (find (\<lambda>b. bn_room b = room \<and> bn_user b = user) xs)"
    if "set xs \<subseteq> set rows" for xs
    using that assms by (induction xs) (auto simp: banKey_inj)
  from this [of "rev rows"] show ?thesis by (simp add: gget_gofold)
qed

lemma getBanRedactions_spec:
  assumes "db_keys d" and "getBanRedactions d rooms users = Inr bans" and "nul \<notin> set room"
    and "length rooms = length users" and "user \<noteq> '''' \<longrightarrow> (room, user) \<in> set (zip rooms users)"
    and "'''' \<notin> set users"
  shows "gget bans (banKey room user) = banOf d room user"
proof (cases "rooms = []")
  case True
  with assms show ?thesis by (auto simp: getBanRedactions_def banOf_def)
next
  case False
  let ?P = "\<lambda>b. bn_room b = room \<and> bn_user b = user"
  have "bans = gofold (\<lambda>b. (banKey (bn_room b) (bn_user b), mkBan b)) (bansQuery d rooms users)"
    using assms(2) False by (auto simp: getBanRedactions_def rbind_eq_Inr dest: queryRows_Inr)
  then have b: "gget bans (banKey room user) = map_option mkBan (find ?P (rev (bansQuery d rooms users)))"
    using assms(1,3) gget_bans [of "bansQuery d rooms users" room user]
    by (auto simp: db_keys_def bansQuery_def list_all_iff)
  show ?thesis
  proof (cases "user = ''''")
    case True
    have "find ?P (rev (bansQuery d rooms users)) = None"
      using assms(6) True by (auto simp: find_None_iff bansQuery_def dest: set_zip_rightD)
    with b True show ?thesis by (simp add: banOf_def)
  next
    case False
    with assms(5) have "find ?P (rev (bansQuery d rooms users)) = find ?P (rev (t_bans d))"
      unfolding bansQuery_def by (intro find_cong_filter) auto
    with b False show ?thesis by (simp add: banOf_def)
  qed
qed

lemma recheckedBy_spec:
  assumes "\<And>r. r \<in> set rows \<Longrightarrow> gget reds (RedactionID r) = eventTruth d (RedactionID r)"
  shows "recheckedBy ev rows reds = map_option RedactionID (find (authorised d ev) rows)"
  using assms by (induction rows) (auto simp: authorised_def split: option.splits)

lemma redactOne_spec:
  assumes rows: "gget redactions (EventID ev) =
      (if redactionRows d (EventID ev) = [] then None else Some (redactionRows d (EventID ev)))"
    and reds: "\<And>r. r \<in> set (redactionRows d (EventID ev)) \<Longrightarrow> Recheck r \<Longrightarrow>
      gget redactionEvents (RedactionID r) = eventTruth d (RedactionID r)"
    and bans: "gget bans (banKey (RoomID ev) (case gget senders (EventID ev) of None \<Rightarrow> '''' | Some x \<Rightarrow> x)) =
      banOf d (RoomID ev) (senderOfEvent (EJSON ev))"
  shows "redactOne redactions redactionEvents bans senders (EventID ev) ev = servedEvent d ev"
proof -
  let ?rows = "redactionRows d (EventID ev)"
  have ban: "banFor bans senders (EventID ev) ev =
      (case banOf d (RoomID ev) (senderOfEvent (EJSON ev)) of
         Some br \<Rightarrow> if banAppliesTo br ev then Some (RedactingEventID br) else None | None \<Rightarrow> None)"
    by (simp add: banFor_def bans)
  have none: "banFor bans senders (EventID ev) ev = None" if "EType ev = ''m.room.create''"
    using that by (simp add: ban banAppliesTo_def split: option.splits)
  have should: "shouldRedact ev ?rows redactionEvents =
      (case find (\<lambda>r. \<not> Recheck r) ?rows of Some r \<Rightarrow> Some (RedactionID r)
       | None \<Rightarrow> map_option RedactionID (find (authorised d ev) ?rows))"
  proof (cases "find (\<lambda>r. \<not> Recheck r) ?rows")
    case None
    then have "recheckedBy ev ?rows redactionEvents = map_option RedactionID (find (authorised d ev) ?rows)"
      using reds by (intro recheckedBy_spec) (auto simp: find_None_iff)
    with None show ?thesis by (simp add: shouldRedact_def)
  qed (simp add: shouldRedact_def)
  have spec: "redactionOf d ev =
      (if EType ev = ''m.room.create'' then None
       else case shouldRedact ev ?rows redactionEvents of Some by \<Rightarrow> Some by
            | None \<Rightarrow> banFor bans senders (EventID ev) ev)"
    unfolding redactionOf_def should ban by (simp split: option.split)
  show ?thesis
  proof (cases "?rows = []")
    case True
    then have "shouldRedact ev ?rows redactionEvents = None" by (simp add: shouldRedact_def)
    with True none show ?thesis
      by (cases "banFor bans senders (EventID ev) ev") (auto simp: redactOne_def rows servedEvent_def spec)
  next
    case False
    then show ?thesis
      by (simp add: redactOne_def rows servedEvent_def spec split: option.split)
  qed
qed

lemma load_needed:
  assumes "db_keys d" and "eventsHonest d s"
  shows "let load = (if needed \<noteq> [] then getEventsRaw d needed else ret []) in
    eventsHonest d (snd (load s)) \<and> otherCaches (snd (load s)) = otherCaches s \<and>
    (\<forall>out. fst (load s) = Inr out \<longrightarrow> (\<forall>x \<in> set needed. gget out x = eventTruth d x)) \<and>
    (noFaults d \<longrightarrow> (\<exists>out. fst (load s) = Inr out))"
  using getEventsRawOpt_spec [OF assms, of needed True] assms(2)
  by (cases "needed = []") (simp_all add: getEventsRaw_def)

lemma gget_senders:
  assumes "distinct (map fst xs)" and "(k, v) \<in> set xs"
  shows "(case map_of (map (\<lambda>(k, v). (k, f v)) (filter (\<lambda>(_, v). f v \<noteq> []) xs)) k of None \<Rightarrow> [] | Some x \<Rightarrow> x) = f v"
proof (cases "f v = []")
  case True
  have "(k, w) \<notin> set (map (\<lambda>(k, v). (k, f v)) (filter (\<lambda>(_, v). f v \<noteq> []) xs))" for w
    using assms True by (auto dest: eq_key_imp_eq_value)
  then have "map_of (map (\<lambda>(k, v). (k, f v)) (filter (\<lambda>(_, v). f v \<noteq> []) xs)) k = None"
    by (metis map_of_SomeD not_None_eq)
  with True show ?thesis by simp
next
  case False
  have "distinct (map fst (map (\<lambda>(k, v). (k, f v)) (filter (\<lambda>(_, v). f v \<noteq> []) xs)))"
    using distinct_map_filter [OF assms(1), of "\<lambda>(_, v). f v \<noteq> []"] by (simp add: comp_def split_def)
  moreover have "(k, f v) \<in> set (map (\<lambda>(k, v). (k, f v)) (filter (\<lambda>(_, v). f v \<noteq> []) xs))"
    using assms(2) False by force
  ultimately show ?thesis by (simp add: map_of_is_SomeI)
qed

lemma applyRedactions_spec:
  assumes keys: "db_keys d" and hon: "eventsHonest d s"
    and evs: "gomap evs" "\<And>eid ev. (eid, ev) \<in> set evs \<Longrightarrow> eventTruth d eid = Some ev"
  shows "eventsHonest d (snd (applyRedactions d evs s)) \<and>
    otherCaches (snd (applyRedactions d evs s)) = otherCaches s \<and>
    (\<forall>out. fst (applyRedactions d evs s) = Inr out \<longrightarrow> out = map (\<lambda>(eid, ev). (eid, servedEvent d ev)) evs) \<and>
    (noFaults d \<longrightarrow> (\<exists>out. fst (applyRedactions d evs s) = Inr out))"
proof (cases "evs = []")
  case True
  then show ?thesis using hon by (simp add: applyRedactions_def)
next
  case ne: False
  show ?thesis
  proof (cases "getRedactions d (map fst evs)")
    case (Inl e)
    moreover have "\<not> noFaults d" using Inl ne by (auto simp: getRedactions_def)
    ultimately show ?thesis using hon ne by (simp add: applyRedactions_def bnd_run)
  next
    case (Inr reds)
    note rs = getRedactions_spec [OF Inr]
    let ?needed = "concat (map (\<lambda>(_, rows). map RedactionID (filter Recheck rows)) reds)"
    let ?load = "if ?needed \<noteq> [] then getEventsRaw d ?needed else ret []"
    have load: "eventsHonest d (snd (?load s)) \<and> otherCaches (snd (?load s)) = otherCaches s \<and>
        (\<forall>out. fst (?load s) = Inr out \<longrightarrow> (\<forall>x \<in> set ?needed. gget out x = eventTruth d x)) \<and>
        (noFaults d \<longrightarrow> (\<exists>out. fst (?load s) = Inr out))"
      using load_needed [OF keys hon, of ?needed] unfolding Let_def .
    let ?ws = "filter (\<lambda>(_, ev). senderOfEvent (EJSON ev) \<noteq> '''') evs"
    let ?senders = "map (\<lambda>(eid, ev). (eid, senderOfEvent (EJSON ev))) ?ws"
    let ?rooms = "map (\<lambda>(_, ev). RoomID ev) ?ws"
    let ?users = "map (\<lambda>(_, ev). senderOfEvent (EJSON ev)) ?ws"
    have final: "map (\<lambda>(eid, ev). (eid, redactOne reds rel bans ?senders eid ev)) evs =
        map (\<lambda>(eid, ev). (eid, servedEvent d ev)) evs"
      if rel: "\<forall>x \<in> set ?needed. gget rel x = eventTruth d x" and bans: "getBanRedactions d ?rooms ?users = Inr bans" for rel bans
    proof -
      have "redactOne reds rel bans ?senders eid ev = servedEvent d ev" if mem: "(eid, ev) \<in> set evs" for eid ev
      proof -
      have id: "EventID ev = eid" using eventTruth_id evs(2) [OF mem] by blast
      have rows: "gget reds eid = (if redactionRows d eid = [] then None else Some (redactionRows d eid))"
        using rs mem by force
      have "gget rel (RedactionID r) = eventTruth d (RedactionID r)"
        if "r \<in> set (redactionRows d eid)" "Recheck r" for r
      proof -
        have "(eid, redactionRows d eid) \<in> set reds" using rows that(1) by (auto dest: map_of_SomeD split: if_splits)
        then have "RedactionID r \<in> set ?needed" using that by force
        with rel show ?thesis by blast
      qed
      moreover have "(case gget ?senders eid of None \<Rightarrow> '''' | Some x \<Rightarrow> x) = senderOfEvent (EJSON ev)"
        using evs(1) mem by (intro gget_senders) (auto simp: gomap_def)
      moreover have "gget bans (banKey (RoomID ev) (senderOfEvent (EJSON ev))) = banOf d (RoomID ev) (senderOfEvent (EJSON ev))"
      proof (rule getBanRedactions_spec [OF keys bans])
        show "nul \<notin> set (RoomID ev)"
          using keys evs(2) [OF mem] by (auto elim!: eventTruth_Some simp: db_keys_def list_all_iff joinedRow_def)
        have "zip ?rooms ?users = map (\<lambda>(_, ev). (RoomID ev, senderOfEvent (EJSON ev))) ?ws"
          by (simp add: zip_map_map zip_same_conv_map split_def)
        then show "senderOfEvent (EJSON ev) \<noteq> '''' \<longrightarrow> (RoomID ev, senderOfEvent (EJSON ev)) \<in> set (zip ?rooms ?users)"
          using mem by force
      qed auto
      ultimately show ?thesis
        using redactOne_spec [of reds ev d rel bans ?senders] rows by (simp add: id)
      qed
      then show ?thesis by auto
    qed
    have run: "applyRedactions d evs s =
        bnd ?load (\<lambda>rel. bnd (lift (getBanRedactions d ?rooms ?users)) (\<lambda>bans.
          ret (map (\<lambda>(eid, ev). (eid, redactOne reds rel bans ?senders eid ev)) evs))) s"
      using ne Inr by (simp add: applyRedactions_def bnd_run Let_def)
    have ban_ok: "noFaults d \<Longrightarrow> \<exists>b. getBanRedactions d ?rooms ?users = Inr b"
      by (simp add: getBanRedactions_def)
    obtain r s' where l: "?load s = (r, s')" by fastforce
    have s': "eventsHonest d s'" "otherCaches s' = otherCaches s" using load l by auto
    show ?thesis
    proof (cases r)
      case (Inl e)
      with load l have "\<not> noFaults d" by auto
      moreover have "applyRedactions d evs s = (Inl e, s')"
        unfolding run by (rule bnd_known(1)) (use l Inl in simp)
      ultimately show ?thesis using s' by simp
    next
      case rel: (Inr rel)
      have run2: "applyRedactions d evs s = bnd (lift (getBanRedactions d ?rooms ?users)) (\<lambda>bans.
          ret (map (\<lambda>(eid, ev). (eid, redactOne reds rel bans ?senders eid ev)) evs)) s'"
        unfolding run by (rule bnd_known(2)) (use l rel in simp)
      have "\<forall>x \<in> set ?needed. gget rel x = eventTruth d x"
        using load l rel by (metis fst_conv)
      note fin = final [OF this]
      show ?thesis
      proof (cases "getBanRedactions d ?rooms ?users")
        case (Inl e)
        with run2 have "applyRedactions d evs s = (Inl e, s')"
          by (simp add: bnd_def)
        with s' ban_ok Inl show ?thesis by auto
      next
        case (Inr bans)
        with run2 fin [OF Inr]
        have "applyRedactions d evs s = (Inr (map (\<lambda>(eid, ev). (eid, servedEvent d ev)) evs), s')"
          by (simp add: bnd_def)
        with s' show ?thesis by simp
      qed
    qed
  qed
qed

lemma gget_map_value: "gget (map (\<lambda>(k, v). (k, f v)) m) k = map_option f (gget m k)"
  by (induction m) auto

lemma gomap_map_value: "gomap m \<Longrightarrow> gomap (map (\<lambda>(k, v). (k, f v)) m)"
  by (simp add: gomap_def comp_def split_def)

lemma loaded_then_redacted:
  assumes keys: "db_keys d" and hon: "eventsHonest d s"
  shows "let r = bnd (getEventsRawOpt d ids populate) (applyRedactions d) s in
    eventsHonest d (snd r) \<and> otherCaches (snd r) = otherCaches s \<and>
    (\<forall>out. fst r = Inr out \<longrightarrow>
       gomap out \<and> (\<forall>x. gget out x = (if x \<in> set ids then map_option (servedEvent d) (eventTruth d x) else None))) \<and>
    (noFaults d \<longrightarrow> (\<exists>out. fst r = Inr out))"
proof -
  note raw = getEventsRawOpt_spec [OF keys hon, of ids populate]
  obtain r s1 where r: "getEventsRawOpt d ids populate s = (r, s1)" by fastforce
  show ?thesis
  proof (cases r)
    case (Inl e)
    with r have run: "bnd (getEventsRawOpt d ids populate) (applyRedactions d) s = (Inl e, s1)"
      by (simp add: bnd_def)
    from raw show ?thesis unfolding run Let_def by (simp add: r Inl)
  next
    case (Inr evs)
    with r have run: "bnd (getEventsRawOpt d ids populate) (applyRedactions d) s = applyRedactions d evs s1"
      by (simp add: bnd_def)
    from raw have one: "eventsHonest d s1" "otherCaches s1 = otherCaches s" "gomap evs"
      "\<forall>x. gget evs x = (if x \<in> set ids then eventTruth d x else None)" by (simp_all add: r Inr)
    have "eventTruth d eid = Some ev" if "(eid, ev) \<in> set evs" for eid ev
      using that one(3,4) by (metis gomap_set option.distinct(1))
    from applyRedactions_spec [OF keys one(1,3) this] one show ?thesis
      unfolding run Let_def by (auto simp: gget_map_value gomap_map_value)
  qed
qed

section \<open>Properties\<close>


definition sampleDb :: database where
  "sampleDb =
     \<lparr>t_events =
        [\<lparr>ev_id = ''$m'', ev_room = ''!r'', ev_type = ''m.room.message'', ev_state_key = None,
          ev_sender = ''@u:a'', ev_outlier = False, ev_stream = 5\<rparr>,
         \<lparr>ev_id = ''$red'', ev_room = ''!r'', ev_type = ''m.room.redaction'', ev_state_key = None,
          ev_sender = ''@v:a'', ev_outlier = False, ev_stream = 6\<rparr>],
      t_event_json =
        [\<lparr>ej_id = ''$m'', ej_json = Doc (JObj [(''sender'', JStr ''@u:a'')]), ej_meta = Doc (JObj []), ej_format = Some 3\<rparr>,
         \<lparr>ej_id = ''$red'', ej_json = Doc (JObj [(''sender'', JStr ''@v:a'')]), ej_meta = Doc (JObj []), ej_format = Some 3\<rparr>],
      t_rooms = [(''!r'', Some ''10'', Some True)], t_rejections = [],
      t_redactions = [\<lparr>rd_id = ''$red'', rd_redacts = Some ''$m'', rd_recheck = Some True\<rparr>],
      t_bans = [], t_event_groups = [], t_group_edges = [], t_group_state = [], t_chains = [], t_links = [],
      t_event_auth = [], t_event_edges = [], t_current = [], t_partial = [], t_erased = [], t_keys = [],
      faults = (\<lambda>_. None)\<rparr>"

definition freshStore :: store where
  "freshStore = newCaches (\<lambda>_. 100) DefaultSettings"

lemma sampleDb_ok: "db_keys sampleDb" "noFaults sampleDb"
  by (simp_all add: sampleDb_def db_keys_def noFaults_def)

lemma MB_nonneg: "0 \<le> MB 512" "0 \<le> MB 128" "0 \<le> MB 32" "0 \<le> MB 64"
  by (simp_all add: MB_no_wrap)

lemma contents_New [simp]: "contents (NewLRU nm mx sz) = (\<lambda>_. None)"
  by (auto simp: contents_def NewLRU_def)

lemma freshStore_inv:
  "lru_inv (stateGroups freshStore)" "lru_inv (events freshStore)" "lru_inv (eventStateGroup freshStore)"
  "lru_inv (authChains freshStore)" "lru_inv (filteredState freshStore)"
  by (auto simp: freshStore_def newCaches_def Let_def WithDefaults_fields DefaultSettings_def
      intro!: lru_inv_New MB_nonneg sizes_nonneg)

lemma freshStore_empty:
  "contents (stateGroups freshStore) = (\<lambda>_. None)" "contents (events freshStore) = (\<lambda>_. None)"
  "contents (eventStateGroup freshStore) = (\<lambda>_. None)" "contents (authChains freshStore) = (\<lambda>_. None)"
  "contents (filteredState freshStore) = (\<lambda>_. None)"
  by (simp_all add: freshStore_def newCaches_def Let_def)

lemma freshStore_honest: "honest truth (events freshStore)"
  by (simp add: honest_def freshStore_inv freshStore_empty)

lemma sample_redaction:
  "map_option (\<lambda>e. RedactedBy (servedEvent sampleDb e)) (eventTruth sampleDb ''$m'') = Some ''$red''"
  by (simp add: eventTruth_def eventQuery_def sampleDb_def leftJoin_def mkEvent_def servedEvent_def redactionOf_def
      redactionRows_def mkRedaction_def authorised_def senderDomain_def unmarshalStr_def topObj_def)


text \<open>The only errors of a load are database faults.\<close>

definition dbError :: "storeError \<Rightarrow> bool" where
  "dbError e \<longleftrightarrow> (\<exists>q x. e = QueryError q x)"

lemma queryRows_err: "queryRows d q rows = Inl e \<Longrightarrow> dbError e"
  by (auto simp: queryRows_def deliver_def dbError_def split: option.splits qfault.splits)

lemma queryRow_err: "queryRow d q rows = Inl e \<Longrightarrow> dbError e"
  by (auto simp: queryRow_def dbError_def split: option.splits qfault.splits)

lemma deliver_err: "deliver d q rows = (rs, Some e) \<Longrightarrow> dbError e"
  by (auto simp: deliver_def dbError_def split: option.splits qfault.splits)

lemma getEventsRawOpt_err:
  assumes "fst (getEventsRawOpt d ids p s) = Inl e"
  shows "dbError e"
  using assms deliver_err unfolding getEventsRawOpt_def Let_def
  by (auto split: if_splits prod.splits option.splits)

lemma applyRedactions_err:
  assumes "fst (applyRedactions d evs s) = Inl e"
  shows "dbError e"
proof -
  have red: "dbError e" if "getRedactions d ids = Inl e" for ids
    using that queryRows_err by (auto simp: getRedactions_def rbind_eq_Inl split: if_splits)
  have ban: "dbError e" if "getBanRedactions d rs us = Inl e" for rs us
    using that queryRows_err by (auto simp: getBanRedactions_def rbind_eq_Inl split: if_splits)
  have load: "dbError e" if "fst (getEventsRaw d n s) = Inl e" for n s
    using that getEventsRawOpt_err by (auto simp: getEventsRaw_def)
  show ?thesis
    using assms unfolding applyRedactions_def Let_def
    by (auto split: if_splits elim!: bnd_errE dest: red ban load)
qed

lemma GetEvents_err: "fst (GetEvents d ids s) = Inl e \<Longrightarrow> dbError e"
  unfolding GetEvents_def getEventsRaw_def bnd_run
  by (auto dest: getEventsRawOpt_err applyRedactions_err split: sum.splits)

lemma GetEvent_spec:
  assumes "db_keys d" and "eventsHonest d s"
  shows "eventsHonest d (snd (GetEvent d eid s)) \<and> otherCaches (snd (GetEvent d eid s)) = otherCaches s \<and>
    (\<forall>ev. fst (GetEvent d eid s) = Inr ev \<longrightarrow> (\<exists>e. eventTruth d eid = Some e \<and> ev = servedEvent d e)) \<and>
    (fst (GetEvent d eid s) = Inl ErrNotFound \<longrightarrow> eventTruth d eid = None) \<and>
    (noFaults d \<longrightarrow> fst (GetEvent d eid s) =
       (case eventTruth d eid of None \<Rightarrow> Inl ErrNotFound | Some e \<Rightarrow> Inr (servedEvent d e)))"
proof -
  obtain r s1 where r: "GetEvents d [eid] s = (r, s1)" by fastforce
  note ev = loaded_then_redacted [OF assms, of "[eid]" True, folded getEventsRaw_def, folded GetEvents_def, unfolded r Let_def]
  show ?thesis
  proof (cases r)
    case (Inl e)
    have "e \<noteq> ErrNotFound"
      using r Inl GetEvents_err [of d "[eid]" s e] by (auto simp: dbError_def)
    with ev Inl r show ?thesis by (simp add: GetEvent_def bnd_def)
  next
    case (Inr out)
    then have "gget out eid = map_option (servedEvent d) (eventTruth d eid)" using ev by simp
    with ev Inr r show ?thesis
      by (cases "eventTruth d eid") (simp_all add: GetEvent_def bnd_def)
  qed
qed

text \<open>The chunks \<open>GetEventsBatched\<close> cuts.\<close>

function chunks :: "nat \<Rightarrow> 'a list \<Rightarrow> 'a list list" where
  "chunks n xs = (if xs = [] \<or> n = 0 then [] else take n xs # chunks n (drop n xs))"
  by pat_completeness auto
termination
  by (relation "measure (\<lambda>(_, xs). length xs)") auto

declare chunks.simps [simp del]

lemma chunks_concat: "0 < n \<Longrightarrow> concat (chunks n xs) = xs"
proof (induction n xs rule: chunks.induct)
  case (1 n xs)
  then show ?case by (subst chunks.simps) auto
qed

lemma chunks_bound: "c \<in> set (chunks n xs) \<Longrightarrow> length c \<le> n \<and> c \<noteq> []"
proof (induction n xs rule: chunks.induct)
  case (1 n xs)
  then show ?case by (subst (asm) (2) chunks.simps) (auto split: if_splits)
qed

abbreviation collect :: "eventMap \<Rightarrow> (eventMap list, storeError, unit) comp" where
  "collect m \<equiv> \<lambda>u. (Inr (), u @ [m])"

definition exactFor :: "database \<Rightarrow> eventMap \<Rightarrow> string list \<Rightarrow> bool" where
  "exactFor d m ids \<longleftrightarrow>
     (\<forall>x. gget m x = (if x \<in> set ids then map_option (servedEvent d) (eventTruth d x) else None))"

lemma batches_spec:
  assumes "db_keys d" and "eventsHonest d s" and "0 < batch"
    and "batches d cancelled n batch ids collect (s, u) = (Inr (), (s', u'))"
  shows "\<exists>ms. u' = u @ ms \<and> list_all2 (exactFor d) ms (chunks batch ids) \<and> eventsHonest d s'"
  using assms(2,4)
proof (induction "length ids" arbitrary: ids n s u rule: less_induct)
  case less
  show ?case
  proof (cases "ids = []")
    case True
    with less(3) have "u' = u" "s' = s" by (simp_all add: batches.simps)
    with True less(2) show ?thesis by (auto simp: chunks.simps)
  next
    case False
    let ?b = "bnd (getEventsRawOpt d (take batch ids) False) (applyRedactions d) s"
    obtain r s1 where b: "?b = (r, s1)" by fastforce
    note spec = loaded_then_redacted [OF assms(1) less(2), of "take batch ids" False, unfolded b Let_def]
    from less(3) False assms(3) b obtain evs where r: "r = Inr evs"
      and rest: "batches d cancelled (Suc n) batch (drop batch ids) collect (s1, u @ [evs]) = (Inr (), (s', u'))"
      by (subst (asm) batches.simps) (auto split: option.splits sum.splits)
    have "length (drop batch ids) < length ids" using False assms(3) by simp
    from less(1) [OF this _ rest] spec obtain ms where
      "u' = u @ evs # ms" "list_all2 (exactFor d) ms (chunks batch (drop batch ids))" "eventsHonest d s'" by auto
    moreover have "exactFor d evs (take batch ids)" using spec r by (simp add: exactFor_def)
    ultimately show ?thesis using False assms(3) by (subst chunks.simps) auto
  qed
qed

text \<open>Loading in chunks loses nothing: when \<open>GetEventsBatched\<close> succeeds, its callback has seen
  consecutive chunks of the requested IDs, in order, none longer than the batch size, and for each
  chunk exactly the events and redaction marks \<open>GetEvents\<close> would give.\<close>

theorem GetEventsBatched_exact:
  assumes "db_keys d" and "honest (eventTruth d) (events s)"
    and "GetEventsBatched d cancelled ids batch collect (s, []) = (Inr (), (s', ms))"
  shows "\<exists>cs. concat cs = ids \<and> list_all2 (exactFor d) ms cs \<and>
    (\<forall>c \<in> set cs. int (length c) \<le> (if batch \<le> 0 then 1000 else batch) \<and> c \<noteq> []) \<and>
    honest (eventTruth d) (events s')"
proof -
  let ?b = "if batch \<le> 0 then DefaultEventBatch else nat batch"
  have pos: "0 < ?b" by (simp add: DefaultEventBatch_def)
  have "batches d cancelled 0 ?b ids collect (s, []) = (Inr (), (s', ms))"
    using assms(3) by (simp add: GetEventsBatched_def)
  from batches_spec [OF assms(1,2) pos this] obtain "list_all2 (exactFor d) ms (chunks ?b ids)"
    and "eventsHonest d s'" by auto
  moreover have "int (length c) \<le> (if batch \<le> 0 then 1000 else batch) \<and> c \<noteq> []" if "c \<in> set (chunks ?b ids)" for c
    using chunks_bound [OF that] by (auto simp: DefaultEventBatch_def)
  ultimately show ?thesis using chunks_concat [OF pos] by blast
qed

lemma batches_ok:
  assumes "db_keys d" and "eventsHonest d s" and "0 < batch" and "noFaults d"
  shows "fst (batches d (\<lambda>_. None) n batch ids collect (s, u)) = Inr ()"
  using assms(2)
proof (induction "length ids" arbitrary: ids n s u rule: less_induct)
  case less
  obtain r s1 where b: "bnd (getEventsRawOpt d (take batch ids) False) (applyRedactions d) s = (r, s1)" by fastforce
  note spec = loaded_then_redacted [OF assms(1) less(2), of "take batch ids" False, unfolded b Let_def]
  then obtain evs where "r = Inr evs" "eventsHonest d s1" using assms(4) by auto
  with less(1) [of "drop batch ids" s1] assms(3) b show ?case by (subst batches.simps) simp
qed

theorem GetEventsBatched_exact_witness:
  "\<exists>m. exactFor sampleDb m [''$m''] \<and> gget m ''$m'' \<noteq> None"
proof -
  let ?run = "GetEventsBatched sampleDb (\<lambda>_. None) [''$m''] 2 collect (freshStore, [])"
  have "fst ?run = Inr ()"
    unfolding GetEventsBatched_def by (rule batches_ok) (simp_all add: sampleDb_ok freshStore_honest)
  then obtain s' ms where run: "?run = (Inr (), (s', ms))" by (metis prod.collapse)
  from GetEventsBatched_exact [OF sampleDb_ok(1) freshStore_honest run] obtain cs where
    cs: "concat cs = [''$m'']" "list_all2 (exactFor sampleDb) ms cs" "\<forall>c \<in> set cs. c \<noteq> []" by auto
  from cs(1,3) have "cs = [[''$m'']]" by (cases cs) (auto simp: append_eq_Cons_conv)
  with cs(2) obtain m where "exactFor sampleDb m [''$m'']" by (auto simp: list_all2_Cons2)
  moreover from this sample_redaction have "gget m ''$m'' \<noteq> None" by (auto simp: exactFor_def)
  ultimately show ?thesis by blast
qed

text \<open>What the database holds of a redaction's target.\<close>

definition originalOf :: "database \<Rightarrow> string \<Rightarrow> eventsRow option" where
  "originalOf d eid = find (\<lambda>e. ev_id e = eid) (t_events d)"

lemma gget_found:
  assumes "distinct (map ev_id (t_events d))" and "t \<in> set wanted"
  shows "gget (gofold (\<lambda>e. (ev_id e, e)) (targetsQuery d wanted)) t = originalOf d t"
proof (cases "originalOf d t")
  case None
  then have "t \<notin> (\<lambda>e. fst (ev_id e, e)) ` set (targetsQuery d wanted)"
    by (auto simp: originalOf_def find_None_iff targetsQuery_def)
  with None gget_gofold_None [of "\<lambda>e. (ev_id e, e)" "targetsQuery d wanted" t] show ?thesis by simp
next
  case (Some x)
  then have x: "x \<in> set (t_events d)" "ev_id x = t"
    unfolding originalOf_def by (auto dest: find_SomeD)
  have "gget (gofold (\<lambda>e. (ev_id e, e)) (targetsQuery d wanted)) t = Some x"
  proof (rule gget_gofold_inj)
    show "x \<in> set (targetsQuery d wanted)" using x assms(2) by (simp add: targetsQuery_def)
    fix r' assume "r' \<in> set (targetsQuery d wanted)" and "fst (ev_id r', r') = t"
    with x show "snd (ev_id r', r') = x"
      using distinct_filter_key [OF assms(1)] by (auto simp: targetsQuery_def)
  qed (simp add: x)
  with Some show ?thesis by simp
qed

lemma redactionTargets_mem:
  "(i, e, t) \<in> set (redactionTargets lb evs) \<longleftrightarrow>
     (i, e) \<in> set evs \<and> EType e = ''m.room.redaction'' \<and> redactsTarget lb (EJSON e) = Some t"
  by (auto simp: redactionTargets_def image_iff intro!: bexI [of _ "(i, e)"])

lemma gget_flags:
  "list_all snd (m :: (string, bool) gomap) \<Longrightarrow> gget m k = Some True \<longleftrightarrow> (k, True) \<in> set m"
  by (induct m) auto

lemma Withheld_mem:
  assumes "distinct (map ev_id (t_events d))" and "WithheldRedactions lb d evs = Inr out"
  shows "gget out eid = Some True \<longleftrightarrow> (eid, True) \<in> set (untargeted lb evs) \<or>
      (\<exists>e t. (eid, e, t) \<in> set (redactionTargets lb evs) \<and> withholds e (originalOf d t))"
proof (cases "redactionTargets lb evs = []")
  case True
  then have out: "out = untargeted lb evs" using assms(2) by (simp add: WithheldRedactions_def)
  then have "gget out eid = Some True \<longleftrightarrow> (eid, True) \<in> set out"
    by (intro gget_flags) (auto simp: untargeted_def list_all_iff)
  with out True show ?thesis by simp
next
  case False
  let ?ts = "redactionTargets lb evs"
  let ?found = "gofold (\<lambda>e. (ev_id e, e)) (targetsQuery d (map (\<lambda>(_, _, t). t) ?ts))"
  have out: "out = untargeted lb evs @ map (\<lambda>(eid, _, _). (eid, True)) (filter (\<lambda>(_, ev, t). withholds ev (gget ?found t)) ?ts)"
    using assms(2) False by (auto simp: WithheldRedactions_def Let_def rbind_eq_Inr dest: queryRows_Inr)
  then have flags: "gget out eid = Some True \<longleftrightarrow> (eid, True) \<in> set out"
    by (intro gget_flags) (auto simp: untargeted_def list_all_iff)
  have "gget ?found t = originalOf d t" if "(i, e, t) \<in> set ?ts" for i e t
    using that by (intro gget_found [OF assms(1)]) force
  then have "(eid, True) \<in> set (map (\<lambda>(eid, _, _). (eid, True)) (filter (\<lambda>(_, ev, t). withholds ev (gget ?found t)) ?ts)) \<longleftrightarrow>
      (\<exists>e t. (eid, e, t) \<in> set ?ts \<and> withholds e (originalOf d t))"
    by force
  with flags out show ?thesis by simp
qed

text \<open>A redaction event is withheld exactly when it names no target, or its target is unknown,
  is a room creation, is in another room, or still has to be authorised and comes from another
  server than the redaction; no other event is withheld.\<close>

theorem WithheldRedactions_exact:
  assumes "db_keys d" and "gomap evs" and "WithheldRedactions lb d evs = Inr out" and "(eid, ev) \<in> set evs"
  shows "gget out eid = Some True \<longleftrightarrow>
    EType ev = ''m.room.redaction'' \<and>
    (case redactsTarget lb (EJSON ev) of
       None \<Rightarrow> True
     | Some t \<Rightarrow>
        (case originalOf d t of
           None \<Rightarrow> True
         | Some orig \<Rightarrow> ev_type orig = ''m.room.create'' \<or> ev_room orig \<noteq> RoomID ev \<or>
             needsRedactionRecheck (InternalMetadata ev) \<and>
             domainOf (ev_sender orig) \<noteq> domainOf (senderOfEvent (EJSON ev))))"
proof -
  have keys: "distinct (map ev_id (t_events d))" using assms(1) by (simp add: db_keys_def)
  have same: "(eid, e) \<in> set evs \<Longrightarrow> e = ev" for e
    using assms(2,4) by (metis gomap_set option.inject)
  have un: "(eid, True) \<in> set (untargeted lb evs) \<longleftrightarrow> EType ev = ''m.room.redaction'' \<and> redactsTarget lb (EJSON ev) = None"
  proof
    assume "(eid, True) \<in> set (untargeted lb evs)"
    then obtain e where "(eid, e) \<in> set evs" "EType e = ''m.room.redaction'' \<and> redactsTarget lb (EJSON e) = None"
      by (auto simp: untargeted_def)
    with same show "EType ev = ''m.room.redaction'' \<and> redactsTarget lb (EJSON ev) = None" by blast
  qed (use assms(4) in \<open>auto simp: untargeted_def image_iff intro!: bexI [of _ "(eid, ev)"]\<close>)
  have tg: "(eid, e, t) \<in> set (redactionTargets lb evs) \<longleftrightarrow>
      e = ev \<and> EType ev = ''m.room.redaction'' \<and> redactsTarget lb (EJSON ev) = Some t" for e t
    unfolding redactionTargets_mem using assms(4) same by blast
  have "gget out eid = Some True \<longleftrightarrow> (eid, True) \<in> set (untargeted lb evs) \<or>
      (\<exists>e t. (eid, e, t) \<in> set (redactionTargets lb evs) \<and> withholds e (originalOf d t))"
    by (rule Withheld_mem [OF keys assms(3)])
  then have "gget out eid = Some True \<longleftrightarrow> EType ev = ''m.room.redaction'' \<and>
      (case redactsTarget lb (EJSON ev) of None \<Rightarrow> True | Some t \<Rightarrow> withholds ev (originalOf d t))"
    unfolding un tg by (cases "redactsTarget lb (EJSON ev)") auto
  moreover have "withholds ev x = (case x of None \<Rightarrow> True
      | Some orig \<Rightarrow> ev_type orig = ''m.room.create'' \<or> ev_room orig \<noteq> RoomID ev \<or>
          needsRedactionRecheck (InternalMetadata ev) \<and>
          domainOf (ev_sender orig) \<noteq> domainOf (senderOfEvent (EJSON ev)))" for x
    by (cases x) (simp_all add: withholds_def)
  ultimately show ?thesis by (simp only:)
qed

lemma Withheld_ok: "noFaults d \<Longrightarrow> \<exists>out. WithheldRedactions lb d evs = Inr out"
  by (auto simp: WithheldRedactions_def Let_def)

definition redactionEv :: "string \<Rightarrow> (string \<times> json) list \<Rightarrow> Event" where
  "redactionEv eid ms =
     \<lparr>EventID = eid, RoomID = ''!r'', EType = ''m.room.redaction'', EStateKey = None, RoomVersion = ''10'',
      EJSON = Doc (JObj ms), InternalMetadata = Doc (JObj []), StreamOrdering = 7, Outlier = False,
      FormatVersion = 3, RejectedReason = '''', RedactedBy = ''''\<rparr>"

theorem WithheldRedactions_exact_witness:
  "\<exists>out. WithheldRedactions refLib sampleDb
       [(''$a'', redactionEv ''$a'' [(''redacts'', JStr ''$m'')]), (''$b'', redactionEv ''$b'' [])] = Inr out \<and>
     gget out ''$a'' \<noteq> Some True \<and> gget out ''$b'' = Some True"
proof -
  let ?evs = "[(''$a'', redactionEv ''$a'' [(''redacts'', JStr ''$m'')]), (''$b'', redactionEv ''$b'' [])]"
  obtain out where out: "WithheldRedactions refLib sampleDb ?evs = Inr out"
    using Withheld_ok [OF sampleDb_ok(2)] by blast
  have m: "gomap ?evs" by (simp add: gomap_def)
  have ev: "redactsTarget refLib (EJSON (redactionEv ''$a'' [(''redacts'', JStr ''$m'')])) = Some ''$m''"
    "redactsTarget refLib (EJSON (redactionEv ''$b'' [])) = None"
    by (simp_all add: redactsTarget_def refLib_def refGet_def redactionEv_def strOf_def)
  from WithheldRedactions_exact [OF sampleDb_ok(1) m out, of "''$a''" "redactionEv ''$a'' [(''redacts'', JStr ''$m'')]"]
    WithheldRedactions_exact [OF sampleDb_ok(1) m out, of "''$b''" "redactionEv ''$b'' []"] ev out
  show ?thesis
    by (auto simp: redactionEv_def originalOf_def sampleDb_def needsRedactionRecheck_def topObj_def)
qed

end
