(* ===== verification/Acl.thy ===== *)
theory Acl
  imports GoJson
begin

text \<open>
  Server ACLs (\<open>internal/matrixstate/acl.go\<close>), the visibility rule
  (\<open>internal/matrixstate/visibility.go\<close>) and the errors of the endpoints
  (\<open>internal/matrixstate/errors.go\<close>).  A compiled glob is the list of its regular expression's
  pieces, anchored on both sides; names and globs are taken as ASCII, where a byte is a character.
  A dot of a Go regular expression does not match a newline, and a repetition count above 1000
  does not compile.
\<close>

section \<open>Glob compilation and matching\<close>

datatype piece = Lit string | Exactly nat | AtLeast nat

definition isWild :: "char \<Rightarrow> bool" where
  "isWild c \<longleftrightarrow> c = CHR ''*'' \<or> c = CHR ''?''"

definition marks :: "string \<Rightarrow> nat" where
  "marks run = length (filter (\<lambda>c. c = CHR ''?'') run)"

definition litPiece :: "string \<Rightarrow> piece list" where
  "litPiece lit = (if lit = [] then [] else [Lit lit])"

definition wildPiece :: "string \<Rightarrow> piece list" where
  "wildPiece run =
     (if CHR ''*'' \<in> set run then [AtLeast (marks run)]
      else if marks run > 0 then [Exactly (marks run)] else [])"

function globPieces :: "string \<Rightarrow> piece list" where
  "globPieces glob =
     (if glob = [] then []
      else
        let lit = takeWhile (\<lambda>c. \<not> isWild c) glob;
            rest = dropWhile (\<lambda>c. \<not> isWild c) glob;
            run = takeWhile isWild rest
        in litPiece lit @ wildPiece run @ globPieces (dropWhile isWild rest))"
  by pat_completeness auto
termination
proof (relation "measure length", goal_cases)
  case (2 glob lit rest run)
  show ?case
  proof (cases glob)
    case (Cons c cs)
    have "length (dropWhile isWild (dropWhile (\<lambda>c. \<not> isWild c) (c # cs))) \<le> length cs"
      by (cases "isWild c") (auto intro: order_trans [OF length_dropWhile_le])
    with Cons 2 show ?thesis by simp
  qed (use 2 in simp)
qed simp

declare globPieces.simps [simp del]

definition compilable :: "piece list \<Rightarrow> bool" where
  "compilable ps \<longleftrightarrow> list_all (\<lambda>p. case p of Lit _ \<Rightarrow> True | Exactly n \<Rightarrow> n \<le> 1000 | AtLeast n \<Rightarrow> n \<le> 1000) ps"

definition globToRegex :: "string \<Rightarrow> piece list option" where
  "globToRegex glob = (let ps = globPieces glob in if compilable ps then Some ps else None)"

text \<open>Case-insensitive comparison of ASCII characters.\<close>

definition foldEq :: "char \<Rightarrow> char \<Rightarrow> bool" where
  "foldEq c d \<longleftrightarrow> upChar c = upChar d"

definition dot :: "char \<Rightarrow> bool" where
  "dot c \<longleftrightarrow> c \<noteq> CHR 0x0A"

fun litMatch :: "string \<Rightarrow> string \<Rightarrow> string option" where
  "litMatch [] s = Some s"
| "litMatch (c # cs) [] = None"
| "litMatch (c # cs) (d # s) = (if foldEq c d then litMatch cs s else None)"

text \<open>\<open>MatchString\<close> of the anchored expression.\<close>

fun matchesRe :: "piece list \<Rightarrow> string \<Rightarrow> bool" where
  "matchesRe [] s = (s = [])"
| "matchesRe (Lit l # ps) s = (case litMatch l s of None \<Rightarrow> False | Some r \<Rightarrow> matchesRe ps r)"
| "matchesRe (Exactly n # ps) s =
     (n \<le> length s \<and> list_all dot (take n s) \<and> matchesRe ps (drop n s))"
| "matchesRe (AtLeast n # ps) s =
     list_ex (\<lambda>k. list_all dot (take k s) \<and> matchesRe ps (drop k s)) [n..<Suc (length s)]"

text \<open>What a Matrix glob means, character by character.\<close>

fun globMatch :: "string \<Rightarrow> string \<Rightarrow> bool" where
  "globMatch [] s = (s = [])"
| "globMatch (g # gs) s =
     (if g = CHR ''*'' then globMatch gs s \<or> (case s of [] \<Rightarrow> False | c # cs \<Rightarrow> dot c \<and> globMatch (g # gs) cs)
      else case s of [] \<Rightarrow> False
        | c # cs \<Rightarrow> (if g = CHR ''?'' then dot c else foldEq g c) \<and> globMatch gs cs)"

lemma globMatch_star:
  "globMatch (CHR ''*'' # gs) s \<longleftrightarrow> (\<exists>k \<le> length s. list_all dot (take k s) \<and> globMatch gs (drop k s))"
proof (induction s)
  case Nil
  then show ?case by simp
next
  case (Cons c s)
  have "globMatch (CHR ''*'' # gs) (c # s) \<longleftrightarrow> globMatch gs (c # s) \<or> dot c \<and> globMatch (CHR ''*'' # gs) s" by simp
  also have "\<dots> \<longleftrightarrow> (\<exists>k \<le> length (c # s). list_all dot (take k (c # s)) \<and> globMatch gs (drop k (c # s)))" (is "_ \<longleftrightarrow> ?r")
  proof
    assume "globMatch gs (c # s) \<or> dot c \<and> globMatch (CHR ''*'' # gs) s"
    then show ?r
    proof
      assume "dot c \<and> globMatch (CHR ''*'' # gs) s"
      with Cons obtain k where "k \<le> length s" "list_all dot (take k s)" "globMatch gs (drop k s)" "dot c" by auto
      then show ?r by (intro exI [of _ "Suc k"]) simp
    qed (auto intro: exI [of _ 0])
  next
    assume ?r
    then obtain k where "k \<le> length (c # s)" "list_all dot (take k (c # s))" "globMatch gs (drop k (c # s))" by blast
    with Cons show "globMatch gs (c # s) \<or> dot c \<and> globMatch (CHR ''*'' # gs) s" by (cases k) auto
  qed
  finally show ?case .
qed

lemma globMatch_mark: "globMatch (CHR ''?'' # gs) s \<longleftrightarrow> (\<exists>c cs. s = c # cs \<and> dot c \<and> globMatch gs cs)"
  by (cases s) auto

lemma globMatch_lit:
  "list_all (\<lambda>c. \<not> isWild c) l \<Longrightarrow>
     globMatch (l @ gs) s \<longleftrightarrow> (case litMatch l s of None \<Rightarrow> False | Some r \<Rightarrow> globMatch gs r)"
  by (induction l s rule: litMatch.induct) (auto simp: isWild_def)

text \<open>A run of wildcards consumes as many characters as it has question marks, or more if it has a
  star.\<close>

definition runLen :: "string \<Rightarrow> nat \<Rightarrow> bool" where
  "runLen run k \<longleftrightarrow> (if CHR ''*'' \<in> set run then marks run \<le> k else k = marks run)"

lemma globMatch_run:
  assumes "list_all isWild run"
  shows "globMatch (run @ gs) s \<longleftrightarrow>
    (\<exists>k \<le> length s. runLen run k \<and> list_all dot (take k s) \<and> globMatch gs (drop k s))"
  using assms
proof (induction run arbitrary: s)
  case Nil
  then show ?case by (simp add: runLen_def marks_def)
next
  case (Cons w run)
  from Cons.prems consider "w = CHR ''*''" | "w = CHR ''?''" by (auto simp: isWild_def)
  then show ?case
  proof cases
    case 1
    have "globMatch ((w # run) @ gs) s \<longleftrightarrow>
        (\<exists>j \<le> length s. list_all dot (take j s) \<and> (\<exists>k \<le> length (drop j s). runLen run k \<and>
          list_all dot (take k (drop j s)) \<and> globMatch gs (drop k (drop j s))))"
      using 1 Cons by (simp add: globMatch_star del: globMatch.simps)
    also have "\<dots> \<longleftrightarrow> (\<exists>k \<le> length s. runLen (w # run) k \<and> list_all dot (take k s) \<and> globMatch gs (drop k s))"
      (is "?l \<longleftrightarrow> ?r")
    proof
      assume ?l
      then obtain j k where "j \<le> length s" "k \<le> length s - j" "runLen run k" "list_all dot (take j s)"
        "list_all dot (take k (drop j s))" "globMatch gs (drop k (drop j s))" by auto
      then show ?r using 1
        by (intro exI [of _ "j + k"]) (auto simp: take_add add.commute runLen_def marks_def split: if_splits)
    next
      assume ?r
      then obtain k where k: "k \<le> length s" "marks run \<le> k" "list_all dot (take k s)" "globMatch gs (drop k s)"
        using 1 by (auto simp: runLen_def marks_def)
      let ?j = "k - marks run"
      have "take k s = take ?j s @ take (marks run) (drop ?j s)" using k(2) by (simp flip: take_add)
      with k show ?l by (intro exI [of _ ?j]) (auto intro!: exI [of _ "marks run"] simp: runLen_def)
    qed
    finally show ?thesis .
  next
    case 2
    have "globMatch ((w # run) @ gs) s \<longleftrightarrow>
        (\<exists>c cs. s = c # cs \<and> dot c \<and> (\<exists>k \<le> length cs. runLen run k \<and> list_all dot (take k cs) \<and> globMatch gs (drop k cs)))"
      using 2 Cons by (simp add: globMatch_mark del: globMatch.simps)
    also have "\<dots> \<longleftrightarrow> (\<exists>k \<le> length s. runLen (w # run) k \<and> list_all dot (take k s) \<and> globMatch gs (drop k s))"
      (is "?l \<longleftrightarrow> ?r")
    proof
      assume ?l
      then obtain c cs k where "s = c # cs" "dot c" "k \<le> length cs" "runLen run k" "list_all dot (take k cs)" "globMatch gs (drop k cs)"
        by blast
      then show ?r using 2 by (intro exI [of _ "Suc k"]) (auto simp: runLen_def marks_def)
    next
      assume ?r
      then obtain k where k: "k \<le> length s" "runLen (w # run) k" "list_all dot (take k s)" "globMatch gs (drop k s)" by blast
      with 2 obtain k' where "k = Suc k'" "runLen run k'" by (cases k) (auto simp: runLen_def marks_def split: if_splits)
      with k show ?l by (cases s) auto
    qed
    finally show ?thesis .
  qed
qed

lemma matchesRe_lit: "matchesRe (litPiece l @ ps) s \<longleftrightarrow> (case litMatch l s of None \<Rightarrow> False | Some r \<Rightarrow> matchesRe ps r)"
  by (auto simp: litPiece_def)

lemma matchesRe_wild:
  "matchesRe (wildPiece run @ ps) s \<longleftrightarrow>
     (\<exists>k \<le> length s. runLen run k \<and> list_all dot (take k s) \<and> matchesRe ps (drop k s))"
proof (cases "CHR ''*'' \<in> set run")
  case True
  have "k \<in> set [n..<Suc (length s)] \<longleftrightarrow> n \<le> k \<and> k \<le> length s" for k n by auto
  with True show ?thesis
    unfolding wildPiece_def runLen_def by (simp only: if_True append.simps matchesRe.simps list_ex_iff) blast
next
  case False
  then show ?thesis by (auto simp: wildPiece_def runLen_def)
qed

lemma globPieces_match: "matchesRe (globPieces glob) s \<longleftrightarrow> globMatch glob s"
proof (induction glob arbitrary: s rule: globPieces.induct)
  case (1 glob)
  show ?case
  proof (cases "glob = []")
    case False
    let ?lit = "takeWhile (\<lambda>c. \<not> isWild c) glob" and ?rest = "dropWhile (\<lambda>c. \<not> isWild c) glob"
    let ?run = "takeWhile isWild ?rest" and ?gs = "dropWhile isWild ?rest"
    have lit: "list_all (\<lambda>c. \<not> isWild c) ?lit" and run: "list_all isWild ?run"
      by (auto simp: list_all_iff dest: set_takeWhileD)
    have ih: "matchesRe (globPieces ?gs) r \<longleftrightarrow> globMatch ?gs r" for r
      using 1 [OF False refl refl refl] .
    have "matchesRe (wildPiece ?run @ globPieces ?gs) r \<longleftrightarrow> globMatch (?run @ ?gs) r" for r
      by (simp only: matchesRe_wild globMatch_run [OF run] ih)
    then have "matchesRe (litPiece ?lit @ wildPiece ?run @ globPieces ?gs) s \<longleftrightarrow> globMatch (?lit @ ?run @ ?gs) s"
      by (simp only: matchesRe_lit globMatch_lit [OF lit])
    moreover have "globPieces glob = litPiece ?lit @ wildPiece ?run @ globPieces ?gs"
      using False by (subst globPieces.simps) (simp add: Let_def)
    ultimately show ?thesis by simp
  qed (simp add: globPieces.simps)
qed

section \<open>IP literals\<close>

text \<open>\<open>net.ParseIP\<close>, as far as \<open>To4() != nil\<close> needs it: dotted IPv4, and IPv6 with the prefix that maps
  IPv4 addresses.\<close>

fun splitAt :: "char \<Rightarrow> string \<Rightarrow> string list" where
  "splitAt c [] = [[]]"
| "splitAt c (x # xs) =
     (if x = c then [] # splitAt c xs else case splitAt c xs of [] \<Rightarrow> [[x]] | w # ws \<Rightarrow> (x # w) # ws)"

definition octet :: "string \<Rightarrow> int option" where
  "octet w =
     (case parseDigits w of
        None \<Rightarrow> None
      | Some n \<Rightarrow> if n \<le> 255 \<and> (hd w = CHR ''0'' \<longrightarrow> length w = 1) then Some n else None)"

definition parseIPv4 :: "string \<Rightarrow> int list option" where
  "parseIPv4 s =
     (let os = map octet (splitAt (CHR ''.'') s) in
      if length os = 4 \<and> list_all (\<lambda>x. x \<noteq> None) os then Some (map the os) else None)"

definition hexVal :: "char \<Rightarrow> int option" where
  "hexVal c =
     (let n = (of_char c :: int) in
      if 48 \<le> n \<and> n \<le> 57 then Some (n - 48)
      else if 97 \<le> n \<and> n \<le> 102 then Some (n - 87)
      else if 65 \<le> n \<and> n \<le> 70 then Some (n - 55) else None)"

definition hexGroup :: "string \<Rightarrow> int option" where
  "hexGroup w =
     (if w = [] \<or> length w > 4 \<or> list_ex (\<lambda>c. hexVal c = None) w then None
      else Some (foldl (\<lambda>a c. a * 16 + the (hexVal c)) 0 w))"

definition hexGroups :: "string list \<Rightarrow> int list option" where
  "hexGroups ws =
     (let gs = map hexGroup ws in if list_all (\<lambda>x. x \<noteq> None) gs then Some (map the gs) else None)"

text \<open>Sixteen-bit groups, the last two possibly written as an IPv4 address.\<close>

definition groupsTail :: "string list \<Rightarrow> int list option" where
  "groupsTail ws =
     (if ws \<noteq> [] \<and> CHR ''.'' \<in> set (last ws)
      then (case (hexGroups (butlast ws), parseIPv4 (last ws)) of
              (Some gs, Some [a, b, c, d]) \<Rightarrow> Some (gs @ [a * 256 + b, c * 256 + d])
            | _ \<Rightarrow> None)
      else hexGroups ws)"

fun cutEllipsis :: "string \<Rightarrow> (string \<times> string) option" where
  "cutEllipsis (a # b # s) =
     (if a = CHR '':'' \<and> b = CHR '':'' then Some ([], s)
      else map_option (\<lambda>(x, y). (a # x, y)) (cutEllipsis (b # s)))"
| "cutEllipsis _ = None"

definition groupList :: "string \<Rightarrow> string list" where
  "groupList s = (if s = [] then [] else splitAt (CHR '':'') s)"

definition parseIPv6 :: "string \<Rightarrow> int list option" where
  "parseIPv6 s =
     (case cutEllipsis s of
        None \<Rightarrow> (case groupsTail (groupList s) of
                   Some gs \<Rightarrow> if length gs = 8 then Some gs else None | None \<Rightarrow> None)
      | Some (l, r) \<Rightarrow>
          (case (hexGroups (groupList l), groupsTail (groupList r)) of
             (Some ls, Some rs) \<Rightarrow>
               if length ls + length rs < 8
               then Some (ls @ replicate (8 - length ls - length rs) 0 @ rs) else None
           | _ \<Rightarrow> None))"

definition isIPv4Literal :: "string \<Rightarrow> bool" where
  "isIPv4Literal s =
     (case find (\<lambda>c. c \<in> set ''.:%'') s of
        Some c \<Rightarrow>
          if c = CHR ''.'' then parseIPv4 s \<noteq> None
          else if c = CHR '':'' then
            (case parseIPv6 s of
               Some gs \<Rightarrow> list_all (\<lambda>g. g = 0) (take 5 gs) \<and> gs ! 5 = 0xFFFF
             | None \<Rightarrow> False)
          else False
      | None \<Rightarrow> False)"

section \<open>The access rule\<close>

record ServerACL =
  allowIPLiterals :: bool
  allow :: "piece list list"
  deny :: "piece list list"

text \<open>Compiling a list of globs: what is not a list is no globs, what is not a string is skipped.\<close>

definition compileGlobs :: "json option \<Rightarrow> piece list list" where
  "compileGlobs v =
     (case v of
        Some (JArr items) \<Rightarrow>
          map the (filter (\<lambda>x. x \<noteq> None)
            (map (\<lambda>i. case i of JStr s \<Rightarrow> globToRegex s | _ \<Rightarrow> None) items))
      | _ \<Rightarrow> [])"

text \<open>Decoding \<open>null\<close> into a \<open>bool\<close> succeeds and leaves it false.\<close>

definition ParseServerACL :: "raw \<Rightarrow> ServerACL option" where
  "ParseServerACL r =
     (case unmarshalInner ''content'' r of
        None \<Rightarrow> None
      | Some ms \<Rightarrow>
          Some \<lparr>allowIPLiterals = (case lastVal ''allow_ip_literals'' ms of
                    Some (JBool b) \<Rightarrow> b | Some JNull \<Rightarrow> False | _ \<Rightarrow> True),
                allow = compileGlobs (lastVal ''allow'' ms),
                deny = compileGlobs (lastVal ''deny'' ms)\<rparr>)"

definition Allowed :: "ServerACL option \<Rightarrow> string \<Rightarrow> bool" where
  "Allowed oa server =
     (case oa of
        None \<Rightarrow> True
      | Some a \<Rightarrow>
          if \<not> allowIPLiterals a \<and> hasPrefix server ''['' then False
          else if \<not> allowIPLiterals a \<and> isIPv4Literal server then False
          else if list_ex (\<lambda>re. matchesRe re server) (deny a) then False
          else if list_ex (\<lambda>re. matchesRe re server) (allow a) then True
          else False)"

text \<open>The globs of a list that compile.\<close>

definition globsOf :: "json option \<Rightarrow> string list" where
  "globsOf v =
     (case v of
        Some (JArr items) \<Rightarrow>
          concat (map (\<lambda>i. case i of JStr s \<Rightarrow> if compilable (globPieces s) then [s] else [] | _ \<Rightarrow> []) items)
      | _ \<Rightarrow> [])"

lemma compileGlobs_globsOf: "compileGlobs v = map globPieces (globsOf v)"
proof -
  have "map the (filter (\<lambda>x. x \<noteq> None) (map (\<lambda>i. case i of JStr s \<Rightarrow> globToRegex s | _ \<Rightarrow> None) items)) =
      map globPieces (concat (map (\<lambda>i. case i of JStr s \<Rightarrow> if compilable (globPieces s) then [s] else [] | _ \<Rightarrow> []) items))"
    for items by (induction items) (auto simp: globToRegex_def Let_def split: json.splits)
  then show ?thesis by (simp add: compileGlobs_def globsOf_def split: option.split json.split)
qed

lemma matches_any: "list_ex (\<lambda>re. matchesRe re s) (compileGlobs v) \<longleftrightarrow> (\<exists>g \<in> set (globsOf v). globMatch g s)"
  by (auto simp: compileGlobs_globsOf list_ex_iff globPieces_match)

text \<open>C19. The ACL decides by the meaning of its globs: compiled into collapsed regular expressions or
  read character by character, they match the same names, so a server is allowed exactly when it is
  no forbidden IP literal, no deny glob matches its name and some allow glob does, deny winning over
  allow and an empty allow list banning everyone; a room without an ACL admits every server.\<close>

theorem acl_decides_by_globs:
  "Allowed (ParseServerACL r) server =
     (case unmarshalInner ''content'' r of
        None \<Rightarrow> True
      | Some ms \<Rightarrow>
          (lastVal ''allow_ip_literals'' ms \<notin> {Some (JBool False), Some JNull} \<or>
             (\<forall>t. server \<noteq> CHR ''['' # t) \<and> \<not> isIPv4Literal server) \<and>
          (\<forall>g. g \<in> set (globsOf (lastVal ''deny'' ms)) \<longrightarrow> \<not> globMatch g server) \<and>
          (\<exists>g. g \<in> set (globsOf (lastVal ''allow'' ms)) \<and> globMatch g server))"
proof (cases "unmarshalInner ''content'' r")
  case None
  then show ?thesis by (simp add: ParseServerACL_def Allowed_def)
next
  case (Some ms)
  have ip: "(case lastVal ''allow_ip_literals'' ms of Some (JBool b) \<Rightarrow> b | Some JNull \<Rightarrow> False | _ \<Rightarrow> True) \<longleftrightarrow>
      lastVal ''allow_ip_literals'' ms \<notin> {Some (JBool False), Some JNull}"
    by (auto split: option.splits json.splits)
  have br: "hasPrefix server ''['' \<longleftrightarrow> (\<exists>t. server = CHR ''['' # t)" by (auto simp: hasPrefix_iff)
  from Some show ?thesis
    by (simp add: ParseServerACL_def Allowed_def matches_any br) (use ip in auto)
qed

text \<open>
  Decoded as the code does it, a \<open>null\<close> for \<open>allow_ip_literals\<close> is not ignored: it forbids IP
  literals.
\<close>

lemma acl_null_forbids_ip:
  "\<not> Allowed (ParseServerACL (Doc (JObj [(''content'', JObj [(''allow_ip_literals'', JNull), (''allow'', JArr [JStr ''*''])])]))) ''1.2.3.4''"
  by code_simp

text \<open>
  The rule expects a name without its port: with the port left on, a deny glob for the host does not
  match and a wildcard allow does.
\<close>

lemma acl_port_bypass:
  "\<not> Allowed (ParseServerACL (Doc (JObj [(''content'', JObj [(''deny'', JArr [JStr ''evil'']), (''allow'', JArr [JStr ''*''])])]))) ''evil'' \<and>
   Allowed (ParseServerACL (Doc (JObj [(''content'', JObj [(''deny'', JArr [JStr ''evil'']), (''allow'', JArr [JStr ''*''])])]))) ''evil:8448''"
proof -
  let ?ms = "[(''deny'', JArr [JStr ''evil'']), (''allow'', JArr [JStr ''*''])]"
  have d: "lastVal ''deny'' ?ms = Some (JArr [JStr ''evil''])" and a: "lastVal ''allow'' ?ms = Some (JArr [JStr ''*''])"
    and i: "lastVal ''allow_ip_literals'' ?ms = None" and c: "unmarshalInner ''content'' (Doc (JObj [(''content'', JObj ?ms)])) = Some ?ms"
    by code_simp+
  have g: "globsOf (Some (JArr [JStr ''evil''])) = [''evil'']" "globsOf (Some (JArr [JStr ''*''])) = [''*'']"
    by code_simp+
  have m: "globMatch ''evil'' ''evil''" "\<not> globMatch ''evil'' ''evil:8448''" "globMatch ''*'' ''evil:8448''"
    by (simp_all add: foldEq_def dot_def)
  show ?thesis
    by (simp add: ParseServerACL_def Allowed_def matches_any d a i c g m foldEq_def dot_def)
qed

theorem acl_decides_by_globs_witness:
  "\<not> globMatch ''evil'' ''good'' \<and>
   Allowed (ParseServerACL (Doc (JObj [(''content'', JObj [(''deny'', JArr [JStr ''evil'']), (''allow'', JArr [JStr ''*''])])]))) ''good''"
proof -
  let ?ms = "[(''deny'', JArr [JStr ''evil'']), (''allow'', JArr [JStr ''*''])]"
  have v: "lastVal ''deny'' ?ms = Some (JArr [JStr ''evil''])" "lastVal ''allow'' ?ms = Some (JArr [JStr ''*''])"
    "lastVal ''allow_ip_literals'' ?ms = None" "unmarshalInner ''content'' (Doc (JObj [(''content'', JObj ?ms)])) = Some ?ms"
    "globsOf (Some (JArr [JStr ''evil''])) = [''evil'']" "globsOf (Some (JArr [JStr ''*''])) = [''*'']"
    by code_simp+
  have "upChar (CHR ''e'') \<noteq> upChar (CHR ''g'')" by code_simp
  then have m: "\<not> globMatch ''evil'' ''good''" "globMatch ''*'' ''good''"
    by (simp_all add: foldEq_def dot_def)
  show ?thesis
    using acl_decides_by_globs [of "Doc (JObj [(''content'', JObj ?ms)])" "''good''"] m by (simp add: v)
qed

section \<open>Visibility\<close>

record Membership =
  mUserID :: string
  mMembership :: string

definition HistoryVisibilityShared :: string where "HistoryVisibilityShared = ''shared''"
definition HistoryVisibilityInvited :: string where "HistoryVisibilityInvited = ''invited''"
definition HistoryVisibilityJoined :: string where "HistoryVisibilityJoined = ''joined''"

fun visibleByMembership :: "string \<Rightarrow> Membership list \<Rightarrow> bool" where
  "visibleByMembership hv [] = False"
| "visibleByMembership hv (m # ms) =
     (if mMembership m = ''invite'' then
        (if hv = HistoryVisibilityInvited then True else visibleByMembership hv ms)
      else if mMembership m = ''join'' then True
      else visibleByMembership hv ms)"

definition eventVisibleToServer ::
  "string \<Rightarrow> string \<Rightarrow> string \<Rightarrow> (string, bool) gomap \<Rightarrow> bool \<Rightarrow> Membership list \<Rightarrow> bool" where
  "eventVisibleToServer sender targetServer historyVisibility erasedSenders partialStateInvisible memberships =
     (if gget erasedSenders sender = Some True then False
      else if partialStateInvisible then False
      else if historyVisibility \<noteq> HistoryVisibilityInvited \<and> historyVisibility \<noteq> HistoryVisibilityJoined then True
      else visibleByMembership historyVisibility memberships)"

text \<open>\<open>domainOf\<close> of \<open>visibility.go\<close>.\<close>

definition serverOf :: "string \<Rightarrow> string" where
  "serverOf i = (case snd (cut (CHR '':'') i) of None \<Rightarrow> '''' | Some dm \<Rightarrow> dm)"

lemma visibleByMembership_iff:
  "visibleByMembership hv ms \<longleftrightarrow>
     (\<exists>m \<in> set ms. mMembership m = ''join'' \<or> mMembership m = ''invite'' \<and> hv = HistoryVisibilityInvited)"
  by (induction ms) auto

section \<open>Errors\<close>

record MatrixError =
  Status :: int
  ErrCode :: string
  Message :: string

definition errHostNotInRoom :: MatrixError where
  "errHostNotInRoom = \<lparr>Status = 403, ErrCode = ''M_FORBIDDEN'', Message = ''Host not in room.''\<rparr>"

definition errPartialState :: MatrixError where
  "errPartialState = \<lparr>Status = 403, ErrCode = ''M_UNABLE_DUE_TO_PARTIAL_STATE'',
     Message = ''Unable to authorise you right now; room is partial-stated here.''\<rparr>"

definition errServerBanned :: MatrixError where
  "errServerBanned = \<lparr>Status = 403, ErrCode = ''M_FORBIDDEN'', Message = ''Server is banned from room''\<rparr>"

definition errEventNotFound :: "string \<Rightarrow> MatrixError" where
  "errEventNotFound eid = \<lparr>Status = 404, ErrCode = ''M_NOT_FOUND'', Message = ''Could not find event '' @ eid\<rparr>"

definition errEventNotInRoom :: "string \<Rightarrow> string \<Rightarrow> MatrixError" where
  "errEventNotInRoom eid room = \<lparr>Status = 404, ErrCode = ''M_NOT_FOUND'',
     Message = ''Could not find event '' @ eid @ '' in room '' @ room\<rparr>"

definition errStateNotKnown :: "string \<Rightarrow> MatrixError" where
  "errStateNotKnown eid = \<lparr>Status = 404, ErrCode = ''M_NOT_FOUND'', Message = ''State not known at event '' @ eid\<rparr>"

definition ErrBadJSON :: MatrixError where
  "ErrBadJSON = \<lparr>Status = 400, ErrCode = ''M_NOT_JSON'', Message = ''Content not JSON.''\<rparr>"

definition ErrorResponse :: "MatrixError \<Rightarrow> json \<times> int" where
  "ErrorResponse e = (JObj [(''errcode'', JStr (ErrCode e)), (''error'', JStr (Message e))], Status e)"

end
