(* ===== verification/PduJson.thy ===== *)
theory PduJson
  imports StoreEvents Acl
begin

text \<open>
  \<open>internal/matrixstate/event.go\<close>, the part that works on documents: how a stored event becomes
  what goes on the wire.  Redaction itself is mautrix's \<open>Redact\<close>, a parameter (\<open>redactPDU\<close>), as
  are \<open>gjson\<close> and \<open>sjson\<close>; the theorems name what they rely on of \<open>sjson\<close> as \<open>sets_members\<close>.
\<close>

section \<open>Definitions\<close>

text \<open>Subtraction on \<open>int64\<close>, which wraps.\<close>

definition wrap64 :: "int \<Rightarrow> int" where
  "wrap64 n = (n + 2 ^ 63) mod 2 ^ 64 - 2 ^ 63"

text \<open>\<open>json.Unmarshal\<close> into an \<open>int64\<close>: \<open>null\<close> leaves the zero, and a literal with a fraction or an
  exponent is an error.\<close>

definition unmarshalInt64 :: "json \<Rightarrow> int option" where
  "unmarshalInt64 v = (case v of JNum s \<Rightarrow> parseInt64 s | JNull \<Rightarrow> Some 0 | _ \<Rightarrow> None)"

definition unpadEventHash :: "lib \<Rightarrow> raw \<Rightarrow> raw \<times> json option" where
  "unpadEventHash lb body =
     (case gjsonGet lb body ''hashes'' of
        None \<Rightarrow> (body, None)
      | Some hashes \<Rightarrow>
          (let sha = gjsonGet lb body ''hashes.sha256'' in
           if sha = None \<or> \<not> hasSuffix (strOf sha) ''='' then (body, None)
           else (case sjsonSetStr lb body ''hashes.sha256'' (trimRight (CHR ''='') (strOf sha)) of
                   Inl _ \<Rightarrow> (body, None)
                 | Inr fixed \<Rightarrow> (fixed, Some hashes))))"

definition prunedUnsignedFields :: "string list" where
  "prunedUnsignedFields = [''age_ts'', ''replaces_state'']"

text \<open>The loop shared by the two functions that rebuild \<open>unsigned\<close> from a list of fields.\<close>

definition keepFields :: "string list \<Rightarrow> (string, json) gomap \<Rightarrow> (string, json) gomap" where
  "keepFields fs m = fold (\<lambda>f u. case gget m f of Some v \<Rightarrow> gset f v u | None \<Rightarrow> u) fs []"

definition restorePrunedUnsigned :: "lib \<Rightarrow> raw \<Rightarrow> raw \<Rightarrow> (string, raw) result" where
  "restorePrunedUnsigned lb original redacted =
     (case unmarshalMap ''unsigned'' original of
        None \<Rightarrow> Inl ''parse stored unsigned''
      | Some u \<Rightarrow> sjsonSetRaw lb redacted ''unsigned'' (marshalMap (keepFields prunedUnsignedFields u)))"

text \<open>\<open>id.RoomV0\<close> is the empty version.\<close>

definition usesV1EventFormat :: "string \<Rightarrow> bool" where
  "usesV1EventFormat v \<longleftrightarrow> v \<in> set ['''', ''1'', ''2'']"

definition redactEvent :: "lib \<Rightarrow> Event \<Rightarrow> (string, raw) result" where
  "redactEvent lb ev =
     (let roomVersion = (if RoomVersion ev = '''' then ''1'' else RoomVersion ev);
          (source, padded) = unpadEventHash lb (EJSON ev) in
      rbind (redactPDU lb (usesV1EventFormat roomVersion) roomVersion source) (\<lambda>redacted.
      rbind (case padded of None \<Rightarrow> Inr redacted | Some h \<Rightarrow> sjsonSetRaw lb redacted ''hashes'' h) (\<lambda>redacted.
      restorePrunedUnsigned lb (EJSON ev) redacted)))"

definition persistedUnsignedFields :: "string list" where
  "persistedUnsignedFields =
     [''age_ts'', ''replaces_state'', ''invite_room_state'', ''knock_room_state'', ''prev_content'', ''prev_sender'']"

definition ageOf :: "int option \<Rightarrow> (string, json) gomap \<Rightarrow> (string, json) gomap" where
  "ageOf nowMS u =
     (case (gget u ''age_ts'', nowMS) of
        (Some v, Some now) \<Rightarrow>
          (case unmarshalInt64 v of
             Some ageTS \<Rightarrow> AList.delete ''age_ts'' (gset ''age'' (JNum (itoa (wrap64 (now - ageTS)))) u)
           | None \<Rightarrow> u)
      | _ \<Rightarrow> u)"

definition applyPDUJSONRulesAt :: "lib \<Rightarrow> raw \<Rightarrow> int option \<Rightarrow> (string, raw) result" where
  "applyPDUJSONRulesAt lb body nowMS =
     (case unmarshalMap ''unsigned'' body of
        None \<Rightarrow> Inl ''unmarshal''
      | Some u \<Rightarrow> sjsonSetRaw lb body ''unsigned'' (marshalMap (ageOf nowMS (keepFields persistedUnsignedFields u))))"

definition applyPDUJSONRules :: "lib \<Rightarrow> raw \<Rightarrow> int \<Rightarrow> (string, raw) result" where
  "applyPDUJSONRules lb body nowMS = applyPDUJSONRulesAt lb body (Some nowMS)"

definition senderOf :: "raw \<Rightarrow> (string, string) result" where
  "senderOf body = (case unmarshalStr ''sender'' body of None \<Rightarrow> Inl ''parse sender'' | Some s \<Rightarrow> Inr s)"

definition historyVisibilityOf :: "raw \<Rightarrow> string" where
  "historyVisibilityOf body =
     (case unmarshalInnerStr ''content'' ''history_visibility'' body of None \<Rightarrow> '''' | Some v \<Rightarrow> v)"

definition membershipOf :: "raw \<Rightarrow> string" where
  "membershipOf body =
     (case unmarshalInnerStr ''content'' ''membership'' body of None \<Rightarrow> '''' | Some v \<Rightarrow> v)"

text \<open>\<open>replacesState\<close> of \<open>stateids.go\<close>.\<close>

definition replacesState :: "raw \<Rightarrow> string" where
  "replacesState body =
     (case unmarshalInnerStr ''unsigned'' ''replaces_state'' body of None \<Rightarrow> '''' | Some v \<Rightarrow> v)"

text \<open>\<open>depthInCanonicalRange\<close> of \<open>state.go\<close>, on the raw token of the last \<open>depth\<close>.\<close>

definition depthInCanonicalRange :: "raw \<Rightarrow> bool" where
  "depthInCanonicalRange body =
     (case unmarshalRaw ''depth'' body of
        Some (Some (JStr _)) \<Rightarrow> True
      | Some (Some (JNum s)) \<Rightarrow>
          (case parseInt64 s of None \<Rightarrow> False | Some n \<Rightarrow> - (2 ^ 53) + 1 \<le> n \<and> n \<le> 2 ^ 53 - 1)
      | Some (Some _) \<Rightarrow> False
      | _ \<Rightarrow> True)"

section \<open>Lemmas\<close>

lemma wrap64_id: "int64Range n \<Longrightarrow> wrap64 n = n"
  by (simp add: wrap64_def int64Range_def)

lemma keepFields_fold:
  "gget (fold (\<lambda>f u. case gget m f of Some v \<Rightarrow> gset f v u | None \<Rightarrow> u) fs acc) k =
     (if k \<in> set fs \<and> gget m k \<noteq> None then gget m k else gget acc k)"
  by (induction fs arbitrary: acc) (auto split: option.splits)

lemma gget_keepFields: "gget (keepFields fs m) k = (if k \<in> set fs then gget m k else None)"
  unfolding keepFields_def keepFields_fold by (cases "gget m k") auto

lemma gomap_keepFields: "gomap (keepFields fs m)"
proof -
  have "gomap acc \<Longrightarrow> gomap (fold (\<lambda>f u. case gget m f of Some v \<Rightarrow> gset f v u | None \<Rightarrow> u) fs acc)" for acc
    by (induction fs arbitrary: acc) (auto split: option.splits)
  then show ?thesis by (simp add: keepFields_def)
qed

lemma gget_delete: "gget (AList.delete k m) = (gget m)(k := None)"
  by (rule ext) (simp add: delete_conv)

lemma gget_ageOf:
  "gget (ageOf nowMS u) k =
     (case (Option.bind (gget u ''age_ts'') unmarshalInt64, nowMS) of
        (Some ts, Some now) \<Rightarrow>
          if k = ''age_ts'' then None
          else if k = ''age'' then Some (JNum (itoa (wrap64 (now - ts)))) else gget u k
      | _ \<Rightarrow> gget u k)"
  by (auto simp: ageOf_def gget_delete split: option.split)

text \<open>Setting a member of a document that may not be an object at all.\<close>

lemma sets_membersE:
  assumes "sets_members lb"
  obtains ms' where "sjsonSetRaw lb (Doc (JObj ms)) k v = Inr (Doc (JObj ms'))" and "map_of ms' k = Some v"
    and "\<And>k'. k' \<noteq> k \<Longrightarrow> filter (\<lambda>(j, _). j = k') ms' = filter (\<lambda>(j, _). j = k') ms"
  using assms unfolding sets_members_def by meson

lemma map_of_same_filter:
  assumes "filter (\<lambda>(j, _). j = k) xs = filter (\<lambda>(j, _). j = k) ys"
  shows "map_of xs k = map_of ys k"
proof -
  have "map_of zs k = map_of (filter (\<lambda>(j, _). j = k) zs) k" for zs :: "('a \<times> 'b) list"
    by (induction zs) auto
  with assms show ?thesis by metis
qed

section \<open>Properties\<close>


text \<open>Redaction as the library documents it: whatever decodes comes back as an object.\<close>

definition redacts_to_objects :: "lib \<Rightarrow> bool" where
  "redacts_to_objects lb \<longleftrightarrow> (\<forall>v1 v r out. redactPDU lb v1 v r = Inr out \<longrightarrow> (\<exists>ms. out = Doc (JObj ms)))"


definition messageEv :: Event where
  "messageEv = \<lparr>EventID = ''$m'', RoomID = ''!r'', EType = ''m.room.message'', EStateKey = None, RoomVersion = ''10'',
     EJSON = Doc (JObj [(''type'', JStr ''m.room.message''), (''sender'', JStr ''@u:a''),
       (''hashes'', JObj [(''sha256'', JStr ''x='')]), (''content'', JObj [(''body'', JStr ''secret'')]),
       (''unsigned'', JObj [(''age_ts'', JNum ''5''), (''age'', JNum ''9'')])]),
     InternalMetadata = Doc (JObj []), StreamOrdering = 1, Outlier = False, FormatVersion = 3,
     RejectedReason = '''', RedactedBy = ''''\<rparr>"

definition messageRedacted :: raw where
  "messageRedacted = Doc (JObj [(''type'', JStr ''m.room.message''), (''sender'', JStr ''@u:a''),
     (''hashes'', JObj [(''sha256'', JStr ''x='')]), (''content'', JObj []),
     (''unsigned'', JObj [(''age_ts'', JNum ''5'')])])"

lemma messageEv_redacted: "redactEvent refLib messageEv = Inr messageRedacted"
  by code_simp

lemma refLib_redacts: "redacts_to_objects refLib"
  by (auto simp: redacts_to_objects_def refLib_def refRedact_def split: raw.splits json.splits)



text \<open>
  Field names are matched without regard to case and the last match wins, so an event can carry a
  value under the exact name and have another one read.
\<close>

lemma membership_case_shadow:
  "membershipOf (Doc (JObj [(''content'', JObj [(''membership'', JStr ''leave''), (''Membership'', JStr ''join'')])])) = ''join''"
  by code_simp

lemma depth_dropped_kept:
  "depthInCanonicalRange (Doc (JObj [(''depth'', JNum ''9007199254740991'')]))"
  "\<not> depthInCanonicalRange (Doc (JObj [(''depth'', JNum ''9007199254740992'')]))"
  "\<not> depthInCanonicalRange (Doc (JObj [(''depth'', JNum ''1.0'')]))"
  "depthInCanonicalRange (Doc (JObj []))"
  by code_simp+

end
