(* ===== verification/StoreState.thy ===== *)
theory StoreState
  imports StoreEvents
begin

text \<open>
  \<open>internal/store/state.go\<close>: the state group of an event, the state at a group, filtered views of
  it, and erased users.  The maps are shared with the cache in the program and copied where a caller
  may change them; maps are values here, so \<open>copyState\<close> is the identity on contents.
\<close>

section \<open>Operations\<close>

definition GetStateGroupForEvent :: "database \<Rightarrow> string \<Rightarrow> int storeOp" where
  "GetStateGroupForEvent d eid s =
     (case Get eid (eventStateGroup s) of
        (r, c) \<Rightarrow>
          let s = trace1 ''event_state_groups'' (r \<noteq> None) (s\<lparr>eventStateGroup := c\<rparr>) in
          (case r of
             Some g \<Rightarrow> (Inr g, s)
           | None \<Rightarrow>
               (case queryRow d ''get state group for event'' (filter (\<lambda>(e, _). e = eid) (t_event_groups d)) of
                  Inl e \<Rightarrow> (Inl e, s)
                | Inr None \<Rightarrow> (Inl ErrNotFound, s)
                | Inr (Some (_, None)) \<Rightarrow> (Inl ErrNotFound, s)
                | Inr (Some (_, Some g)) \<Rightarrow>
                    (Inr g, s\<lparr>eventStateGroup := Add eid g (eventStateGroup s)\<rparr>))))"

text \<open>\<open>BeginTx\<close> and \<open>SET LOCAL enable_seqscan = off\<close>, then the statement, then the row loop.\<close>

definition stateTx :: "database \<Rightarrow> string \<Rightarrow> (StateKey \<times> string) list option \<Rightarrow> (storeError, stateMap) result" where
  "stateTx d q res =
     rbind (queryRows d ''begin'' [()]) (\<lambda>_.
     rbind (queryRows d ''disable seqscan'' [()]) (\<lambda>_.
     rbind (queryLoop d q res) (\<lambda>rows. Inr (gofold (\<lambda>r. r) rows))))"

definition GetStateForGroup :: "database \<Rightarrow> int \<Rightarrow> stateMap storeOp" where
  "GetStateForGroup d g s =
     (case Get g (stateGroups s) of
        (r, c) \<Rightarrow>
          let s = trace1 ''state_groups'' (r \<noteq> None) (s\<lparr>stateGroups := c\<rparr>) in
          (case r of
             Some m \<Rightarrow> (Inr m, s)
           | None \<Rightarrow>
               (case stateTx d ''state for group'' (stateGroupQuery d g) of
                  Inl e \<Rightarrow> (Inl e, s)
                | Inr m \<Rightarrow> (Inr m, s\<lparr>stateGroups := Add g m (stateGroups s)\<rparr>))))"

definition copyState :: "stateMap \<Rightarrow> stateMap" where
  "copyState m = gofold (\<lambda>p. p) m"

definition filterByTypes :: "stateMap \<Rightarrow> string list \<Rightarrow> stateMap" where
  "filterByTypes m types = filter (\<lambda>(k, _). Type k \<in> set types) m"

definition filterMembersForServer :: "stateMap \<Rightarrow> string \<Rightarrow> stateMap" where
  "filterMembersForServer m server =
     filter (\<lambda>(k, _). Type k = ''m.room.member'' \<and> hasSuffix (StateKey k) (CHR '':'' # server)) m"

definition cachedFilteredState ::
  "FilteredStateKey \<Rightarrow> (stateMap \<Rightarrow> stateMap) \<Rightarrow> (storeError, stateMap) result \<Rightarrow> stateMap storeOp" where
  "cachedFilteredState key fromWholeMap fromDB s =
     (case Get key (filteredState s) of
        (Some m, c) \<Rightarrow> (Inr (copyState m), trace1 ''filtered_state'' True (s\<lparr>filteredState := c\<rparr>))
      | (None, c) \<Rightarrow>
          let s = s\<lparr>filteredState := c\<rparr> in
          (case Get (Group key) (stateGroups s) of
             (Some whole, c) \<Rightarrow>
               let s = s\<lparr>stateGroups := c\<rparr>; filtered = fromWholeMap whole;
                   s = s\<lparr>filteredState := Add key filtered (filteredState s)\<rparr>
               in (Inr (copyState filtered), trace1 ''filtered_state'' True s)
           | (None, c) \<Rightarrow>
               let s = s\<lparr>stateGroups := c\<rparr> in
               (case fromDB of
                  Inl e \<Rightarrow> (Inl e, s)
                | Inr filtered \<Rightarrow>
                    let s = s\<lparr>filteredState := Add key filtered (filteredState s)\<rparr>
                    in (Inr (copyState filtered), trace1 ''filtered_state'' False s))))"

definition typesKey :: "int \<Rightarrow> string list \<Rightarrow> FilteredStateKey" where
  "typesKey g types = \<lparr>Group = g, Filter = ''types:'' @ joinWith '','' (sort types)\<rparr>"

definition membersKey :: "int \<Rightarrow> string \<Rightarrow> FilteredStateKey" where
  "membersKey g server = \<lparr>Group = g, Filter = ''members:'' @ server\<rparr>"

definition GetFilteredStateForGroup :: "database \<Rightarrow> int \<Rightarrow> string list \<Rightarrow> stateMap storeOp" where
  "GetFilteredStateForGroup d g types =
     cachedFilteredState (typesKey g types) (\<lambda>m. filterByTypes m types)
       (stateTx d ''filtered state'' (stateGroupFilteredQuery d g types))"

definition GetServerMembershipStateForGroup :: "database \<Rightarrow> int \<Rightarrow> string \<Rightarrow> stateMap storeOp" where
  "GetServerMembershipStateForGroup d g server =
     (if containsAny server ''%_'' then failwith (InvalidName server)
      else cachedFilteredState (membersKey g server) (\<lambda>m. filterMembersForServer m server)
        (stateTx d ''filtered state'' (stateGroupMemberQuery d g server)))"

definition AreUsersErased :: "database \<Rightarrow> string list \<Rightarrow> (storeError, (string, bool) gomap) result" where
  "AreUsersErased d users =
     (if users = [] then Inr []
      else rbind (queryRows d ''are users erased'' (filter (\<lambda>u. u \<in> set users) (t_erased d)))
        (\<lambda>rows. Inr (gofold (\<lambda>u. (u, True)) rows)))"

section \<open>What the database says\<close>

definition groupTruth :: "database \<Rightarrow> string \<Rightarrow> int option" where
  "groupTruth d eid = Option.bind (find (\<lambda>(e, _). e = eid) (t_event_groups d)) snd"

fun splitOn :: "char \<Rightarrow> string \<Rightarrow> string list" where
  "splitOn c [] = [[]]"
| "splitOn c (x # xs) =
     (if x = c then [] # splitOn c xs
      else case splitOn c xs of [] \<Rightarrow> [[x]] | w # ws \<Rightarrow> (x # w) # ws)"

text \<open>The view a filter string stands for.\<close>

definition filteredTruth :: "database \<Rightarrow> FilteredStateKey \<Rightarrow> stateMap option" where
  "filteredTruth d key =
     (case stateGroupQuery d (Group key) of
        None \<Rightarrow> None
      | Some m \<Rightarrow>
          if hasPrefix (Filter key) ''types:'' then Some (filterByTypes m (splitOn (CHR '','') (drop 6 (Filter key))))
          else if hasPrefix (Filter key) ''members:'' then Some (filterMembersForServer m (drop 8 (Filter key)))
          else None)"

definition stateHonest :: "database \<Rightarrow> store \<Rightarrow> bool" where
  "stateHonest d s \<longleftrightarrow> honest (groupTruth d) (eventStateGroup s) \<and>
     honest (stateGroupQuery d) (stateGroups s) \<and> honest (filteredTruth d) (filteredState s)"

definition validTypes :: "string list \<Rightarrow> bool" where
  "validTypes types \<longleftrightarrow> types \<noteq> [] \<and> list_all (\<lambda>t. CHR '','' \<notin> set t) types"

lemma splitOn_append: "c \<notin> set w \<Longrightarrow> splitOn c (w @ c # xs) = w # splitOn c xs"
  by (induction w) auto

lemma splitOn_nosep: "c \<notin> set w \<Longrightarrow> splitOn c w = [w]"
  by (induction w) auto

lemma splitOn_join: "ws \<noteq> [] \<Longrightarrow> list_all (\<lambda>w. c \<notin> set w) ws \<Longrightarrow> splitOn c (joinWith [c] ws) = ws"
  by (induction "[c]" ws rule: joinWith.induct) (auto simp: splitOn_nosep splitOn_append)

lemma gofold_distinct: "distinct (map fst rows) \<Longrightarrow> gofold (\<lambda>r. r) rows = rows"
proof (induction rows rule: rev_induct)
  case (snoc r rows)
  then have "gget rows (fst r) = None" by (simp add: map_of_eq_None_iff)
  then have "gset (fst r) (snd r) rows = rows @ [r]"
    unfolding gset_def by (induction rows) (auto split: if_splits)
  with snoc show ?case by (simp add: gofold_snoc)
qed simp

lemma copyState_id: "gomap m \<Longrightarrow> copyState m = m"
  by (simp add: copyState_def gofold_distinct gomap_def)

lemma gomap_stateGroupQuery: "stateGroupQuery d g = Some m \<Longrightarrow> gomap m"
  by (auto simp: stateGroupQuery_def)

lemma gomap_filters:
  "gomap m \<Longrightarrow> gomap (filterByTypes m types)" "gomap m \<Longrightarrow> gomap (filterMembersForServer m server)"
  by (simp_all add: filterByTypes_def filterMembersForServer_def)

text \<open>The filtered statements select from the whole state.\<close>

lemma filteredQuery_eq:
  "stateGroupFilteredQuery d g types = map_option (\<lambda>m. filterByTypes m types) (stateGroupQuery d g)"
  using distinctOn_filter [of "\<lambda>k. Type k \<in> set types"]
  by (cases "sgs d g") (simp_all add: stateGroupFilteredQuery_def stateGroupQuery_def filterByTypes_def keyOf_def)

lemma memberQuery_eq:
  "stateGroupMemberQuery d g server = map_option (\<lambda>m. filterMembersForServer m server) (stateGroupQuery d g)"
  using distinctOn_filter [of "\<lambda>k. Type k = ''m.room.member'' \<and> hasSuffix (StateKey k) (CHR '':'' # server)"]
  by (cases "sgs d g") (simp_all add: stateGroupMemberQuery_def stateGroupQuery_def filterMembersForServer_def keyOf_def)

lemma filteredTruth_types:
  assumes "validTypes types"
  shows "filteredTruth d (typesKey g types) = map_option (\<lambda>m. filterByTypes m types) (stateGroupQuery d g)"
proof -
  have "splitOn (CHR '','') (joinWith '','' (sort types)) = sort types"
    using assms by (intro splitOn_join) (auto simp: validTypes_def list_all_iff dest!: arg_cong [of _ _ set])
  then have "filterByTypes m (splitOn (CHR '','') (joinWith '','' (sort types))) = filterByTypes m types" for m
    by (simp add: filterByTypes_def)
  then show ?thesis by (simp add: filteredTruth_def typesKey_def hasPrefix_def split: option.split)
qed

lemma filteredTruth_members:
  "filteredTruth d (membersKey g server) = map_option (\<lambda>m. filterMembersForServer m server) (stateGroupQuery d g)"
  by (simp add: filteredTruth_def membersKey_def hasPrefix_def split: option.split)

lemma filteredTruth_gomap: "filteredTruth d key = Some m \<Longrightarrow> gomap m"
  by (auto simp: filteredTruth_def gomap_filters dest!: gomap_stateGroupQuery split: option.splits if_splits)

section \<open>Reads are transparent to the caches\<close>

lemma trace1_sel [simp]:
  "events (trace1 nm h s) = events s" "stateGroups (trace1 nm h s) = stateGroups s"
  "eventStateGroup (trace1 nm h s) = eventStateGroup s" "authChains (trace1 nm h s) = authChains s"
  "filteredState (trace1 nm h s) = filteredState s"
  by (simp_all add: trace1_def)

lemma stateTx_Inr:
  assumes "stateTx d q res = Inr m" and "\<And>rows. res = Some rows \<Longrightarrow> gomap rows"
  shows "res = Some m"
proof -
  from assms(1) obtain rows where "queryLoop d q res = Inr rows" and m: "m = gofold (\<lambda>r. r) rows"
    by (auto simp: stateTx_def rbind_eq_Inr)
  then have "res = Some rows" by (auto dest: queryLoop_Inr)
  with m assms(2) show ?thesis by (simp add: gofold_distinct gomap_def)
qed

lemma stateTx_ok: "noFaults d \<Longrightarrow> stateTx d q (Some rows) = Inr (gofold (\<lambda>r. r) rows)"
  by (simp add: stateTx_def queryLoop_def)

lemma GetStateGroupForEvent_spec:
  assumes "stateHonest d s"
  shows "stateHonest d (snd (GetStateGroupForEvent d eid s)) \<and>
    events (snd (GetStateGroupForEvent d eid s)) = events s \<and>
    authChains (snd (GetStateGroupForEvent d eid s)) = authChains s \<and>
    (\<forall>g. fst (GetStateGroupForEvent d eid s) = Inr g \<longrightarrow> groupTruth d eid = Some g) \<and>
    (noFaults d \<longrightarrow> fst (GetStateGroupForEvent d eid s) =
       (case groupTruth d eid of None \<Rightarrow> Inl ErrNotFound | Some g \<Rightarrow> Inr g))"
proof -
  have first: "(case filter P xs of [] \<Rightarrow> None | x # _ \<Rightarrow> Some x) = find P xs" for P and xs :: "(string \<times> int option) list"
    by (induction xs) auto
  obtain r c where g: "Get eid (eventStateGroup s) = (r, c)" by fastforce
  have hc: "honest (groupTruth d) c" using assms g honest_Get' by (auto simp: stateHonest_def)
  show ?thesis
  proof (cases r)
    case (Some v)
    with g assms honest_hit [of "groupTruth d" "eventStateGroup s" eid v c]
    have "groupTruth d eid = Some v" by (simp add: stateHonest_def)
    with Some g hc assms show ?thesis by (simp add: GetStateGroupForEvent_def stateHonest_def)
  next
    case None
    let ?q = "queryRow d ''get state group for event'' (filter (\<lambda>(e, _). e = eid) (t_event_groups d))"
    have q: "?q = Inr x \<Longrightarrow> x = find (\<lambda>(e, _). e = eid) (t_event_groups d)" for x
      using first by (auto dest!: queryRow_Inr)
    have ok: "noFaults d \<Longrightarrow> ?q = Inr (find (\<lambda>(e, _). e = eid) (t_event_groups d))"
      by (simp add: first)
    consider e where "?q = Inl e" | "?q = Inr None" | y where "?q = Inr (Some (y, None))"
      | y v where "?q = Inr (Some (y, Some v))"
      by (cases ?q) (auto, metis option.exhaust surj_pair)
    then show ?thesis
    proof cases
      case 1
      then show ?thesis using None g hc assms ok by (auto simp: GetStateGroupForEvent_def stateHonest_def)
    next
      case 2
      then show ?thesis using None g hc assms q [OF 2] by (simp add: GetStateGroupForEvent_def stateHonest_def groupTruth_def)
    next
      case 3
      from q [OF 3, symmetric] 3 show ?thesis using None g hc assms
        by (simp add: GetStateGroupForEvent_def stateHonest_def groupTruth_def)
    next
      case 4
      from q [OF 4, symmetric] have "groupTruth d eid = Some v" by (simp add: groupTruth_def)
      with 4 show ?thesis using None g honest_Add [OF hc, of eid v] assms
        by (simp add: GetStateGroupForEvent_def stateHonest_def)
    qed
  qed
qed

lemma stateTx_total:
  assumes "noFaults d" and "edges_ok d" and "\<And>rows. stateGroupQuery d g = Some rows \<Longrightarrow> gomap (f rows)"
  shows "\<exists>m. stateGroupQuery d g = Some m \<and> stateTx d q (map_option f (stateGroupQuery d g)) = Inr (f m)"
proof -
  obtain gs where "sgs d g = Some gs" using sgs_ends [OF assms(2)] by blast
  then obtain m where m: "stateGroupQuery d g = Some m" by (simp add: stateGroupQuery_def)
  with assms(3) have "gofold (\<lambda>r. r) (f m) = f m" by (simp add: gofold_distinct gomap_def)
  with m show ?thesis by (simp add: stateTx_ok [OF assms(1)])
qed

lemma GetStateForGroup_spec:
  assumes "stateHonest d s"
  shows "stateHonest d (snd (GetStateForGroup d g s)) \<and>
    events (snd (GetStateForGroup d g s)) = events s \<and> authChains (snd (GetStateForGroup d g s)) = authChains s \<and>
    (\<forall>m. fst (GetStateForGroup d g s) = Inr m \<longrightarrow> stateGroupQuery d g = Some m) \<and>
    (noFaults d \<longrightarrow> edges_ok d \<longrightarrow> fst (GetStateForGroup d g s) = Inr (the (stateGroupQuery d g)))"
proof -
  obtain r c where g: "Get g (stateGroups s) = (r, c)" by fastforce
  have hc: "honest (stateGroupQuery d) c" using assms g honest_Get' by (auto simp: stateHonest_def)
  show ?thesis
  proof (cases r)
    case (Some v)
    with g assms honest_hit [of "stateGroupQuery d" "stateGroups s" g v c]
    have "stateGroupQuery d g = Some v" by (simp add: stateHonest_def)
    with Some g hc assms show ?thesis by (simp add: GetStateForGroup_def stateHonest_def)
  next
    case None
    show ?thesis
    proof (cases "stateTx d ''state for group'' (stateGroupQuery d g)")
      case (Inl e)
      have "\<not> (noFaults d \<and> edges_ok d)"
        using stateTx_total [of d g "\<lambda>m. m" "''state for group''"] gomap_stateGroupQuery Inl by (auto simp: option.map_ident)
      with None g hc assms Inl show ?thesis by (auto simp: GetStateForGroup_def stateHonest_def)
    next
      case (Inr m)
      then have "stateGroupQuery d g = Some m" using gomap_stateGroupQuery by (rule stateTx_Inr)
      with None g honest_Add [OF hc, of g m] assms Inr show ?thesis
        by (simp add: GetStateForGroup_def stateHonest_def)
    qed
  qed
qed

text \<open>
  The filtered reads share one contract: the filter string stands for the view, the view is what
  filtering the whole map gives, and what the filtered statement returns.
\<close>

lemma cachedFilteredState_spec:
  assumes hon: "stateHonest d s"
    and key: "filteredTruth d key = map_option f (stateGroupQuery d (Group key))"
    and db: "fromDB = stateTx d q (map_option f (stateGroupQuery d (Group key)))"
  shows "let r = cachedFilteredState key f fromDB s in
    stateHonest d (snd r) \<and> events (snd r) = events s \<and> authChains (snd r) = authChains s \<and>
    (\<forall>m. fst r = Inr m \<longrightarrow> filteredTruth d key = Some m) \<and>
    (noFaults d \<longrightarrow> edges_ok d \<longrightarrow> (\<exists>m. fst r = Inr m))"
proof -
  obtain r c where g: "Get key (filteredState s) = (r, c)" by fastforce
  have hc: "honest (filteredTruth d) c" using hon g honest_Get' by (auto simp: stateHonest_def)
  have gm: "gomap m" if "map_option f (stateGroupQuery d (Group key)) = Some m" for m
    using that key filteredTruth_gomap [of d key m] by simp
  show ?thesis
  proof (cases r)
    case (Some v)
    with g hon honest_hit [of "filteredTruth d" "filteredState s" key v c]
    have v: "filteredTruth d key = Some v" by (simp add: stateHonest_def)
    then have "copyState v = v" by (simp add: copyState_id filteredTruth_gomap)
    with v Some g hc hon show ?thesis by (simp add: cachedFilteredState_def stateHonest_def)
  next
    case None
    obtain w c2 where g2: "Get (Group key) (stateGroups s) = (w, c2)" by fastforce
    have hc2: "honest (stateGroupQuery d) c2" using hon g2 honest_Get' by (auto simp: stateHonest_def)
    show ?thesis
    proof (cases w)
      case (Some whole)
      with g2 hon honest_hit [of "stateGroupQuery d" "stateGroups s" "Group key" whole c2]
      have "stateGroupQuery d (Group key) = Some whole" by (simp add: stateHonest_def)
      with key have t: "filteredTruth d key = Some (f whole)" by simp
      then have "copyState (f whole) = f whole" by (simp add: copyState_id filteredTruth_gomap)
      with t Some None g g2 hc2 honest_Add [OF hc t] hon show ?thesis
        by (simp add: cachedFilteredState_def stateHonest_def Let_def)
    next
      case noWhole: None
      show ?thesis
      proof (cases fromDB)
        case (Inl e)
        have "\<not> (noFaults d \<and> edges_ok d)"
          using stateTx_total [of d "Group key" f q] gm db Inl by auto
        with Inl None noWhole g g2 hc hc2 hon show ?thesis
          by (auto simp: cachedFilteredState_def stateHonest_def Let_def)
      next
        case (Inr m)
        then have "stateTx d q (map_option f (stateGroupQuery d (Group key))) = Inr m" using db by simp
        from stateTx_Inr [OF this gm] key have t: "filteredTruth d key = Some m" by simp
        then have "copyState m = m" by (simp add: copyState_id filteredTruth_gomap)
        with t Inr None noWhole g g2 hc2 honest_Add [OF hc t] hon show ?thesis
          by (simp add: cachedFilteredState_def stateHonest_def Let_def)
      qed
    qed
  qed
qed

lemma GetFilteredStateForGroup_spec:
  assumes "stateHonest d s" and "validTypes types"
  shows "let r = GetFilteredStateForGroup d g types s in
    stateHonest d (snd r) \<and> events (snd r) = events s \<and> authChains (snd r) = authChains s \<and>
    (\<forall>m. fst r = Inr m \<longrightarrow> map_option (\<lambda>w. filterByTypes w types) (stateGroupQuery d g) = Some m) \<and>
    (noFaults d \<longrightarrow> edges_ok d \<longrightarrow> (\<exists>m. fst r = Inr m))"
  using cachedFilteredState_spec [OF assms(1), of "typesKey g types" "\<lambda>m. filterByTypes m types" _ "''filtered state''"]
    filteredTruth_types [OF assms(2)]
  by (simp add: GetFilteredStateForGroup_def filteredQuery_eq typesKey_def)

lemma GetServerMembershipStateForGroup_spec:
  assumes "stateHonest d s" and "\<not> containsAny server ''%_''"
  shows "let r = GetServerMembershipStateForGroup d g server s in
    stateHonest d (snd r) \<and> events (snd r) = events s \<and> authChains (snd r) = authChains s \<and>
    (\<forall>m. fst r = Inr m \<longrightarrow> map_option (\<lambda>w. filterMembersForServer w server) (stateGroupQuery d g) = Some m) \<and>
    (noFaults d \<longrightarrow> edges_ok d \<longrightarrow> (\<exists>m. fst r = Inr m))"
  using cachedFilteredState_spec [OF assms(1), of "membersKey g server" "\<lambda>m. filterMembersForServer m server" _ "''filtered state''"]
    filteredTruth_members assms(2)
  by (simp add: GetServerMembershipStateForGroup_def memberQuery_eq membersKey_def)

section \<open>Properties\<close>

text \<open>C14. The state at a group is its delta chain: a key has the event of the group's own row if
  there is one, and otherwise what the key has at the preceding group; the walk over the chain
  ends, so on a database without faults the read returns, from the database or from an honest
  cache alike.\<close>

theorem GetStateForGroup_delta_chain:
  assumes "edges_ok d" and "rows_ok d" and "noFaults d" and "stateHonest d s" and "stateHonest d s2"
  shows "\<exists>m. fst (GetStateForGroup d g s) = Inr m \<and>
    (\<forall>k. gget m k = (case delta d g k of Some e \<Rightarrow> Some e
       | None \<Rightarrow> (case prevGroup d g of None \<Rightarrow> None
           | Some p \<Rightarrow> (case fst (GetStateForGroup d p s2) of Inl _ \<Rightarrow> None | Inr m' \<Rightarrow> gget m' k))))"
proof -
  have r: "fst (GetStateForGroup d g s) = Inr (the (stateGroupQuery d g))"
    "fst (GetStateForGroup d p s2) = Inr (the (stateGroupQuery d p))" for p
    using GetStateForGroup_spec [OF assms(4), of g] GetStateForGroup_spec [OF assms(5), of p] assms(1,3) by blast+
  have q: "the (stateGroupQuery d p) = distinctOn (groupRows d (the (sgs d p)))" for p
    using sgs_ends [OF assms(1), of p] by (auto simp: stateGroupQuery_def)
  show ?thesis
  proof (cases "prevGroup d g")
    case None
    have none: "gget (distinctOn (groupRows d [])) k = None" for k
      by (simp add: groupRows_def distinctOn_def)
    have "gget (the (stateGroupQuery d g)) k = (case delta d g k of Some e \<Rightarrow> Some e | None \<Rightarrow> None)" for k
      using distinctOn_delta [OF assms(2), of "[]" g k] None none [of k]
      by (cases "delta d g k") (simp_all add: q sgs_chain [OF assms(1), of g])
    with r None show ?thesis by (simp split: option.split)
  next
    case (Some p)
    have "x < g" if "x \<in> set (the (sgs d p))" for x
      using sgs_le [OF assms(1) that] prevGroup_less [OF assms(1) Some] by simp
    from distinctOn_delta [OF assms(2) this] Some
    have "gget (the (stateGroupQuery d g)) k = (case delta d g k of Some e \<Rightarrow> Some e
        | None \<Rightarrow> gget (the (stateGroupQuery d p)) k)" for k
      by (cases "delta d g k") (simp_all add: q sgs_chain [OF assms(1), of g])
    with r Some show ?thesis by (simp split: option.split)
  qed
qed

definition chainDb :: database where
  "chainDb = sampleDb\<lparr>
     t_event_groups := [(''$m'', Some 2), (''$out'', None)],
     t_group_edges := [(2, 1)],
     t_group_state :=
       [\<lparr>sr_group = 1, sr_type = ''m.room.name'', sr_key = '''', sr_event = ''$n1''\<rparr>,
        \<lparr>sr_group = 1, sr_type = ''m.room.member'', sr_key = ''@u:a'', sr_event = ''$j''\<rparr>,
        \<lparr>sr_group = 2, sr_type = ''m.room.name'', sr_key = '''', sr_event = ''$n2''\<rparr>]\<rparr>"

lemma chainDb_ok: "edges_ok chainDb" "rows_ok chainDb" "noFaults chainDb" "db_keys chainDb"
  by (simp_all add: chainDb_def edges_ok_def rows_ok_def keyOf_def noFaults_def sampleDb_def db_keys_def)

lemma freshStore_stateHonest: "stateHonest d freshStore"
  by (simp add: stateHonest_def honest_def freshStore_inv freshStore_empty)

theorem GetStateForGroup_delta_chain_witness:
  "\<exists>m. fst (GetStateForGroup chainDb 2 freshStore) = Inr m \<and>
     gget m \<lparr>Type = ''m.room.name'', StateKey = ''''\<rparr> = Some ''$n2''"
proof -
  have "delta chainDb 2 \<lparr>Type = ''m.room.name'', StateKey = ''''\<rparr> = Some ''$n2''"
    by (simp add: delta_def chainDb_def keyOf_def)
  with GetStateForGroup_delta_chain [OF chainDb_ok(1,2,3) freshStore_stateHonest freshStore_stateHonest, of 2]
  show ?thesis by fastforce
qed



section \<open>Termination of the recursive read\<close>

lemma prevGroups_Image: "set (prevGroups d gs) = set (t_group_edges d) `` set gs"
  by (force simp: prevGroups_def)

lemma sgsRounds_ends_iff: "(\<exists>r. sgsRounds d n gs = Some r) \<longleftrightarrow> (set (t_group_edges d) ^^ n) `` set gs = {}"
proof (induction d n gs rule: sgsRounds.induct)
  case (2 d n gs)
  have "(set (t_group_edges d) ^^ Suc n) `` set gs = (set (t_group_edges d) ^^ n) `` set (prevGroups d gs)"
    unfolding prevGroups_Image relpow.simps relpow_commute [symmetric] by (rule relcomp_Image)
  with 2 show ?case by (cases "gs = []") auto
qed auto

text \<open>The edges from a group lead into a cycle.\<close>

definition leadsToCycle :: "database \<Rightarrow> int \<Rightarrow> bool" where
  "leadsToCycle d g \<longleftrightarrow> (\<exists>h. (g, h) \<in> (set (t_group_edges d))\<^sup>* \<and> (h, h) \<in> (set (t_group_edges d))\<^sup>+)"

lemma cycle_goes_on:
  assumes "(g, h) \<in> E\<^sup>*" and "(h, h) \<in> E\<^sup>+"
  shows "\<exists>x. (g, x) \<in> E ^^ n \<and> (x, h) \<in> E\<^sup>*"
proof (induction n)
  case (Suc n)
  then obtain x where x: "(g, x) \<in> E ^^ n" "(x, h) \<in> E\<^sup>*" by blast
  have "(x, h) \<in> E\<^sup>+" using x(2) assms(2) by (rule rtrancl_trancl_trancl)
  then obtain y where "(x, y) \<in> E" "(y, h) \<in> E\<^sup>*" by (meson tranclD)
  with x(1) show ?case by auto
qed (use assms in auto)

lemma long_walk_repeats:
  assumes "finite E" and "card (fst ` E) < n" and "(g, x) \<in> E ^^ n"
  shows "\<exists>h. (g, h) \<in> E\<^sup>* \<and> (h, h) \<in> E\<^sup>+"
proof -
  obtain f where f: "f 0 = g" "\<And>i. i < n \<Longrightarrow> (f i, f (Suc i)) \<in> E" using assms(3) unfolding relpow_fun_conv by blast
  have walk: "(f i, f (i + k)) \<in> E ^^ k" if "i + k \<le> n" for i k using that
  proof (induction k)
    case (Suc k)
    then show ?case using f(2) [of "i + k"] by (auto simp: relcomp_unfold intro: exI [of _ "f (i + k)"])
  qed simp
  have "f ` {..<n} \<subseteq> fst ` E" using f(2) by force
  then have "card (f ` {..<n}) \<le> card (fst ` E)" using assms(1) by (intro card_mono) auto
  then have "card (f ` {..<n}) < card {..<n}" using assms(2) by simp
  then have "\<not> inj_on f {..<n}" using card_image by fastforce
  then obtain a b where ab: "a < n" "b < n" "f a = f b" "a < b" unfolding inj_on_def by (metis lessThan_iff linorder_neqE_nat)
  have "(f a, f b) \<in> E ^^ (b - a)" using walk [of a "b - a"] ab by simp
  then have "(f a, f a) \<in> E\<^sup>+" using ab by (simp add: trancl_power) (metis zero_less_diff)
  moreover have "(g, f a) \<in> E\<^sup>*" using walk [of 0 a] ab f(1) by (auto intro: relpow_imp_rtrancl)
  ultimately show ?thesis by blast
qed

lemma sgs_ends_iff: "(\<exists>r. sgs d g = Some r) \<longleftrightarrow> \<not> leadsToCycle d g"
proof -
  let ?E = "set (t_group_edges d)"
  have "card (fst ` ?E) < Suc (length (t_group_edges d))"
    using card_image_le [of ?E fst] card_length [of "t_group_edges d"] by simp
  then have "leadsToCycle d g" if "(?E ^^ Suc (length (t_group_edges d))) `` {g} \<noteq> {}"
    using that long_walk_repeats [of ?E "Suc (length (t_group_edges d))" g] unfolding leadsToCycle_def by (auto simp del: relpow.simps)
  moreover have "(?E ^^ n) `` {g} \<noteq> {}" if cyc: "leadsToCycle d g" for n
  proof -
    obtain h where "(g, h) \<in> ?E\<^sup>*" "(h, h) \<in> ?E\<^sup>+" using cyc unfolding leadsToCycle_def by blast
    from cycle_goes_on [OF this, of n] show ?thesis by blast
  qed
  ultimately show ?thesis unfolding sgs_def sgsRounds_ends_iff by (auto simp del: relpow.simps)
qed

text \<open>C36. The walk over the delta chain ends exactly when it can: a read of a group that is not cached returns
  unless the edges from the group lead into a cycle, so the bound on the rounds of the recursive
  statement is never what stops it; and on a cycle, which the statement would follow without end, the
  read fails with the deadline instead of answering with a part of the state.\<close>

theorem state_walk_ends_unless_cyclic:
  assumes "noFaults d" and "fst (Get g (stateGroups s)) = None"
  shows "(\<not> leadsToCycle d g \<longrightarrow> (\<exists>m. fst (GetStateForGroup d g s) = Inr m)) \<and>
    (leadsToCycle d g \<longrightarrow> fst (GetStateForGroup d g s) = Inl (QueryError ''state for group'' ''context deadline exceeded''))"
proof -
  have "fst (GetStateForGroup d g s) =
      (case sgs d g of None \<Rightarrow> Inl (QueryError ''state for group'' ''context deadline exceeded'')
       | Some gs \<Rightarrow> Inr (gofold (\<lambda>r. r) (distinctOn (groupRows d gs))))"
    using assms by (cases "sgs d g")
      (auto simp: GetStateForGroup_def stateTx_def stateGroupQuery_def queryLoop_def Let_def split: prod.split)
  with sgs_ends_iff [of d g] show ?thesis by (auto split: option.split)
qed

definition loopDb :: database where
  "loopDb = chainDb\<lparr>t_group_edges := [(2, 1), (1, 3), (3, 1)]\<rparr>"

theorem state_walk_ends_unless_cyclic_witness:
  "(\<exists>m. fst (GetStateForGroup chainDb 2 freshStore) = Inr m) \<and>
   fst (GetStateForGroup loopDb 2 freshStore) = Inl (QueryError ''state for group'' ''context deadline exceeded'')"
proof -
  have miss: "fst (Get g (stateGroups freshStore)) = None" for g by (simp add: freshStore_def newCaches_def NewLRU_def Get_def Let_def)
  have "noFaults loopDb" using chainDb_ok(3) by (simp add: loopDb_def noFaults_def)
  moreover have "leadsToCycle loopDb 2" unfolding leadsToCycle_def
    by (rule exI [of _ 1]) (auto simp: loopDb_def intro: trancl_into_trancl [of _ 3])
  moreover have "\<not> leadsToCycle chainDb 2" using sgs_ends_iff sgs_ends [OF chainDb_ok(1)] by blast
  ultimately show ?thesis
    using state_walk_ends_unless_cyclic [OF chainDb_ok(3) miss, of 2] state_walk_ends_unless_cyclic [OF _ miss, of loopDb 2] by blast
qed

end
