(* ===== verification/AuthChain.thy ===== *)
theory AuthChain
  imports StoreState
begin

text \<open>
  \<open>internal/store/authchain.go\<close>: the auth chain of a set of events, by the chain cover index or, where
  the index does not cover an event, by a breadth-first walk over \<open>event_auth\<close>.  The two loops are
  defined with their termination proofs; the theorems show that both compute the same set, the events
  reachable over one or more auth edges, and that the cache in front of the index never changes it.
\<close>

section \<open>The cover index\<close>

text \<open>Indexing a Go \<open>map[int64]int64\<close>: a missing key reads as zero.\<close>

definition get0 :: "(int, int) gomap \<Rightarrow> int \<Rightarrow> int" where
  "get0 m c = (case gget m c of None \<Rightarrow> 0 | Some n \<Rightarrow> n)"

definition eventChainsOf :: "(string \<times> int \<times> int) list \<Rightarrow> (int, int) gomap" where
  "eventChainsOf rows = foldl (\<lambda>m (_, c, n). if n > get0 m c then gset c n m else m) [] rows"

text \<open>One row of the links of a generation.\<close>

definition followLink :: "(int, int) gomap \<Rightarrow> linkRow \<Rightarrow> (int, int) gomap \<times> (int, int) gomap
    \<Rightarrow> (int, int) gomap \<times> (int, int) gomap" where
  "followLink frontier l rn =
     (if lk_oseq l > get0 frontier (lk_ochain l) then rn
      else if lk_tseq l > get0 (fst rn) (lk_tchain l) then
        (gset (lk_tchain l) (lk_tseq l) (fst rn),
         if lk_tseq l > get0 (snd rn) (lk_tchain l) then gset (lk_tchain l) (lk_tseq l) (snd rn) else snd rn)
      else rn)"

definition generation :: "(int, int) gomap \<Rightarrow> linkRow list \<Rightarrow> (int, int) gomap
    \<Rightarrow> (int, int) gomap \<times> (int, int) gomap" where
  "generation frontier rows reachable = foldl (\<lambda>rn l. followLink frontier l rn) (reachable, []) rows"

lemma get0_Nil [simp]: "get0 [] c = 0"
  by (simp add: get0_def)

lemma get0_gset [simp]: "get0 (gset k v m) c = (if c = k then v else get0 m c)"
  by (simp add: get0_def)

text \<open>What a generation does to the furthest points reached.\<close>

definition genInv :: "(int, int) gomap \<Rightarrow> (int, int) gomap \<times> (int, int) gomap \<Rightarrow> bool" where
  "genInv r0 rn \<longleftrightarrow>
     (\<forall>c. get0 r0 c \<le> get0 (fst rn) c) \<and>
     (\<forall>c. get0 (fst rn) c \<noteq> get0 r0 c \<longrightarrow> get0 (snd rn) c = get0 (fst rn) c) \<and>
     (\<forall>c. get0 (snd rn) c = 0 \<or> get0 (snd rn) c = get0 (fst rn) c) \<and>
     (\<forall>c n. gget (snd rn) c = Some n \<longrightarrow> get0 r0 c < n)"

lemma genInv_start: "genInv r0 (r0, [])"
  by (simp add: genInv_def)

lemma genInv_follow:
  assumes "genInv r0 rn" and "\<And>c. 0 \<le> get0 r0 c"
  shows "genInv r0 (followLink f l rn)"
proof (cases "lk_oseq l > get0 f (lk_ochain l) \<or> \<not> lk_tseq l > get0 (fst rn) (lk_tchain l)")
  case True
  with assms(1) show ?thesis by (auto simp: followLink_def)
next
  case False
  let ?t = "lk_tchain l" and ?n = "lk_tseq l"
  have up: "get0 r0 ?t < ?n" "get0 (fst rn) ?t < ?n" using False assms(1) by (auto simp: genInv_def intro: le_less_trans)
  have "get0 (snd rn) ?t < ?n"
    using assms up by (auto simp: genInv_def) (metis le_less_trans)
  with False have "followLink f l rn = (gset ?t ?n (fst rn), gset ?t ?n (snd rn))"
    by (simp add: followLink_def)
  with assms(1) up show ?thesis by (auto simp: genInv_def less_imp_le)
qed

lemma genInv_generation:
  assumes "\<And>c. 0 \<le> get0 r0 c"
  shows "genInv r0 (generation f rows r0)"
proof -
  have "genInv r0 (foldl (\<lambda>rn l. followLink f l rn) rn rows)" if "genInv r0 rn" for rn
    using that
  proof (induction rows arbitrary: rn)
    case (Cons a rows)
    from Cons.IH [OF genInv_follow [OF Cons.prems assms]] show ?case by simp
  qed simp
  from this [OF genInv_start] show ?thesis by (simp add: generation_def)
qed

lemma followLink_mono: "get0 (fst rn) c \<le> get0 (fst (followLink f l rn)) c"
  by (auto simp: followLink_def)

lemma foldl_follow_mono: "get0 (fst rn) c \<le> get0 (fst (foldl (\<lambda>rn l. followLink f l rn) rn rows)) c"
proof (induction rows arbitrary: rn)
  case (Cons a rows)
  from order_trans [OF followLink_mono Cons.IH] show ?case by simp
qed simp

lemma generation_covers:
  assumes "l \<in> set rows" and "lk_oseq l \<le> get0 f (lk_ochain l)"
  shows "lk_tseq l \<le> get0 (fst (generation f rows r0)) (lk_tchain l)"
proof -
  have "lk_tseq l \<le> get0 (fst (foldl (\<lambda>rn l. followLink f l rn) rn rows)) (lk_tchain l)" for rn
    using assms(1)
  proof (induction rows arbitrary: rn)
    case (Cons a rows)
    show ?case
    proof (cases "a = l")
      case True
      have "lk_tseq l \<le> get0 (fst (followLink f l rn)) (lk_tchain l)"
        using assms(2) by (auto simp: followLink_def)
      with True foldl_follow_mono [of "followLink f l rn" "lk_tchain l" f rows] show ?thesis by simp
    qed (use Cons in simp)
  qed simp
  then show ?thesis by (simp add: generation_def)
qed

lemma generation_next:
  assumes "gget (snd (generation f rows r0)) c = Some n"
  shows "\<exists>l \<in> set rows. lk_tchain l = c \<and> lk_tseq l = n \<and> lk_oseq l \<le> get0 f (lk_ochain l)"
proof -
  have "\<exists>l \<in> set rows. lk_tchain l = c \<and> lk_tseq l = n \<and> lk_oseq l \<le> get0 f (lk_ochain l)"
    if "gget (snd (foldl (\<lambda>rn l. followLink f l rn) rn rows)) c = Some n" and "gget (snd rn) c \<noteq> Some n" for rn
    using that
  proof (induction rows arbitrary: rn)
    case (Cons a rows)
    show ?case
    proof (cases "gget (snd (followLink f a rn)) c = Some n")
      case True
      with Cons.prems(2) have "lk_tchain a = c \<and> lk_tseq a = n \<and> lk_oseq a \<le> get0 f (lk_ochain a)"
        by (auto simp: followLink_def split: if_splits)
      then show ?thesis by auto
    qed (use Cons in auto)
  qed simp
  from this [of "(r0, [])"] assms show ?thesis by (simp add: generation_def)
qed

lemma generation_reach:
  assumes "gget (fst (generation f rows r0)) c = Some n"
  shows "gget r0 c = Some n \<or>
    (\<exists>l \<in> set rows. lk_tchain l = c \<and> lk_tseq l = n \<and> lk_oseq l \<le> get0 f (lk_ochain l))"
proof -
  have "gget (fst rn) c = Some n \<or>
    (\<exists>l \<in> set rows. lk_tchain l = c \<and> lk_tseq l = n \<and> lk_oseq l \<le> get0 f (lk_ochain l))"
    if "gget (fst (foldl (\<lambda>rn l. followLink f l rn) rn rows)) c = Some n" for rn
    using that
  proof (induction rows arbitrary: rn)
    case (Cons a rows)
    from Cons.IH [of "followLink f a rn"] Cons.prems
    consider "gget (fst (followLink f a rn)) c = Some n" |
      "\<exists>l \<in> set rows. lk_tchain l = c \<and> lk_tseq l = n \<and> lk_oseq l \<le> get0 f (lk_ochain l)" by fastforce
    then show ?case
      by cases (auto simp: followLink_def split: if_splits)
  qed simp
  from this [of "(r0, [])"] assms show ?thesis by (simp add: generation_def)
qed

text \<open>How many links still lead further than what has been reached: the loop's measure.\<close>

definition unreached :: "database \<Rightarrow> (int, int) gomap \<Rightarrow> nat" where
  "unreached d r = length (filter (\<lambda>l. get0 r (lk_tchain l) < lk_tseq l) (t_links d))"

lemma length_filter_le_cong:
  "(\<And>x. x \<in> set xs \<Longrightarrow> Q x \<Longrightarrow> P x) \<Longrightarrow> length (filter Q xs) \<le> length (filter P xs)"
  by (induction xs) (auto simp: le_SucI)

lemma length_filter_less:
  assumes "\<And>x. x \<in> set xs \<Longrightarrow> Q x \<Longrightarrow> P x" and "x \<in> set xs" and "P x" and "\<not> Q x"
  shows "length (filter Q xs) < length (filter P xs)"
  using assms
proof (induction xs)
  case (Cons y ys)
  have le: "length (filter Q ys) \<le> length (filter P ys)"
    using Cons.prems(1) by (intro length_filter_le_cong) simp
  show ?case
  proof (cases "x = y")
    case True
    with Cons.prems(3,4) le show ?thesis by simp
  next
    case False
    with Cons.prems(2) have "x \<in> set ys" by simp
    with Cons.IH Cons.prems(1,3,4) have "length (filter Q ys) < length (filter P ys)" by simp
    with Cons.prems(1) show ?thesis by simp
  qed
qed simp

lemma unreached_decreases:
  assumes "snd (generation f (linksQuery d ids) r0) \<noteq> []"
  shows "unreached d (fst (generation f (linksQuery d ids) r0)) < unreached d r0"
proof -
  let ?g = "generation f (linksQuery d ids) r0"
  have mono: "get0 r0 c \<le> get0 (fst ?g) c" for c
    using foldl_follow_mono [of "(r0, [])" c f "linksQuery d ids"] by (simp add: generation_def)
  have new: "\<exists>l \<in> set (linksQuery d ids). get0 r0 (lk_tchain l) < lk_tseq l \<and> lk_tseq l \<le> get0 (fst ?g) (lk_tchain l)"
  proof -
    have "\<exists>l \<in> set rows. get0 r0 (lk_tchain l) < lk_tseq l \<and>
        lk_tseq l \<le> get0 (fst (foldl (\<lambda>rn l. followLink f l rn) rn rows)) (lk_tchain l)"
      if "snd (foldl (\<lambda>rn l. followLink f l rn) rn rows) \<noteq> []" and "snd rn = []"
        and "\<And>c. get0 r0 c \<le> get0 (fst rn) c" for rn rows
      using that
    proof (induction rows arbitrary: rn)
      case (Cons a rows)
      let ?m = "followLink f a rn"
      show ?case
      proof (cases "snd ?m = []")
        case True
        have "get0 r0 c \<le> get0 (fst ?m) c" for c using Cons.prems(3) followLink_mono order_trans by blast
        with Cons.IH [of ?m] True Cons.prems(1) show ?thesis by auto
      next
        case False
        then have "?m = (gset (lk_tchain a) (lk_tseq a) (fst rn), snd ?m)" and "get0 (fst rn) (lk_tchain a) < lk_tseq a"
          using Cons.prems(2) by (auto simp: followLink_def split: if_splits)
        then have "get0 r0 (lk_tchain a) < lk_tseq a" and "lk_tseq a \<le> get0 (fst ?m) (lk_tchain a)"
          using Cons.prems(3) [of "lk_tchain a"] by (auto, metis fst_conv get0_gset order_refl)
        moreover from this(2) have "lk_tseq a \<le> get0 (fst (foldl (\<lambda>rn l. followLink f l rn) ?m rows)) (lk_tchain a)"
          using foldl_follow_mono order_trans by blast
        ultimately show ?thesis by auto
      qed
    qed simp
    from this [of "(r0, [])"] assms show ?thesis by (simp add: generation_def)
  qed
  then obtain l where l: "l \<in> set (t_links d)" "get0 r0 (lk_tchain l) < lk_tseq l" "lk_tseq l \<le> get0 (fst ?g) (lk_tchain l)"
    by (auto simp: linksQuery_def)
  show ?thesis unfolding unreached_def
  proof (rule length_filter_less)
    show "l \<in> set (t_links d)" and "get0 r0 (lk_tchain l) < lk_tseq l" by (fact l)+
    show "\<not> get0 (fst ?g) (lk_tchain l) < lk_tseq l" using l(3) by simp
  qed (use mono in \<open>auto intro: le_less_trans\<close>)
qed

lemma generation_mono: "get0 r0 c \<le> get0 (fst (generation f rows r0)) c"
  using foldl_follow_mono [of "(r0, [])" c f rows] by (simp add: generation_def)

lemma unreached_mono: "unreached d (fst (generation f rows r0)) \<le> unreached d r0"
  unfolding unreached_def
  by (intro length_filter_le_cong) (rule le_less_trans [OF generation_mono])

text \<open>\<open>materialiseChains\<close>: a generation per round until no chain was reached further.\<close>

function chainLoop :: "database \<Rightarrow> (int, int) gomap \<Rightarrow> (int, int) gomap \<Rightarrow> (storeError, (int, int) gomap) result" where
  "chainLoop d reachable frontier =
     (if frontier = [] then Inr reachable
      else case queryRows d ''auth chain links'' (linksQuery d (map fst frontier)) of
        Inl e \<Rightarrow> Inl e
      | Inr rows \<Rightarrow> chainLoop d (fst (generation frontier rows reachable)) (snd (generation frontier rows reachable)))"
  by pat_completeness auto
termination
proof (relation "measures [\<lambda>(d, r, f). unreached d r, \<lambda>(_, _, f). if f = [] then 0 else 1]", goal_cases)
  case (2 d r f rows)
  then have rows: "rows = linksQuery d (map fst f)" by (auto dest: queryRows_Inr)
  show ?case
  proof (cases "snd (generation f rows r) = []")
    case True
    with 2 unreached_mono [of d f rows r] show ?thesis by (auto simp: split_beta)
  next
    case False
    with unreached_decreases [of f d "map fst f" r] rows show ?thesis by (auto simp: split_beta)
  qed
qed simp

declare chainLoop.simps [simp del]

definition materialiseChains :: "database \<Rightarrow> (int, int) gomap \<Rightarrow> (storeError, (int, int) gomap) result" where
  "materialiseChains d eventChains = chainLoop d [] eventChains"

text \<open>Step 3: an event reaches what precedes it in its own chain.\<close>

definition ownChains :: "(int, int) gomap \<Rightarrow> (int, int) gomap \<Rightarrow> (int, int) gomap" where
  "ownChains eventChains chns =
     foldl (\<lambda>m (c, n). if n \<le> 1 then m else if n - 1 > get0 m c then gset c (n - 1) m else m) chns eventChains"

text \<open>Steps 1 to 4 on the database; \<open>None\<close> inside the result is the answer that is not cached.\<close>

definition coverChain :: "database \<Rightarrow> string \<Rightarrow> string list \<Rightarrow> (storeError, string list option) result" where
  "coverChain d roomID eventIDs =
     rbind (queryRows d ''auth chain positions'' (chainPositionsQuery d eventIDs)) (\<lambda>rows.
     let seen = map fst rows; eventChains = eventChainsOf rows in
     if list_ex (\<lambda>i. i \<notin> set seen) eventIDs then Inl (ErrNoChainCoverIndex roomID)
     else rbind (materialiseChains d eventChains) (\<lambda>chns.
       let chns = ownChains eventChains chns in
       if chns = [] then Inr None
       else rbind (queryRows d ''auth chain events'' (chainEventsQuery d chns)) (\<lambda>out. Inr (Some out))))"

definition GetAuthChainIDs :: "(string \<Rightarrow> string) \<Rightarrow> database \<Rightarrow> string \<Rightarrow> string list \<Rightarrow> string list storeOp" where
  "GetAuthChainIDs sha256 d roomID eventIDs s =
     (if eventIDs = [] then (Inr [], s)
      else
        let key = AuthChainKey sha256 roomID eventIDs in
        (case Get key (authChains s) of
           (r, c) \<Rightarrow>
             let s = trace1 ''auth_chains'' (r \<noteq> None) (s\<lparr>authChains := c\<rparr>) in
             (case r of
                Some ids \<Rightarrow> (Inr ids, s)
              | None \<Rightarrow>
                  (case coverChain d roomID eventIDs of
                     Inl e \<Rightarrow> (Inl e, s)
                   | Inr None \<Rightarrow> (Inr [], s)
                   | Inr (Some out) \<Rightarrow> (Inr out, s\<lparr>authChains := Add key out (authChains s)\<rparr>)))))"

section \<open>The recursive walk\<close>

definition authChainBatch :: nat where
  "authChainBatch = 100"

fun authBatches :: "database \<Rightarrow> string list list \<Rightarrow> (storeError, string list) result" where
  "authBatches d [] = Inr []"
| "authBatches d (c # cs) =
     rbind (queryRows d ''recursive auth chain'' (eventAuthQuery d c)) (\<lambda>rows.
     rbind (authBatches d cs) (\<lambda>rest. Inr (rows @ rest)))"

lemma authBatches_Inr: "authBatches d cs = Inr rows \<Longrightarrow> rows = concat (map (eventAuthQuery d) cs)"
  by (induction cs arbitrary: rows) (auto simp: rbind_eq_Inr dest: queryRows_Inr)

lemma eventAuthQuery_mem:
  "a \<in> set (eventAuthQuery d ids) \<longleftrightarrow> (\<exists>e \<in> set ids. (e, a) \<in> set (t_event_auth d)) \<and> a \<in> ev_id ` set (t_events d)"
  by (force simp: eventAuthQuery_def)

lemma authBatches_mem:
  assumes "authBatches d (chunks authChainBatch ids) = Inr rows"
  shows "a \<in> set rows \<longleftrightarrow> (\<exists>e \<in> set ids. (e, a) \<in> set (t_event_auth d)) \<and> a \<in> ev_id ` set (t_events d)"
proof -
  have "concat (chunks authChainBatch ids) = ids" by (simp add: chunks_concat authChainBatch_def)
  then have "set ids = (\<Union>c \<in> set (chunks authChainBatch ids). set c)" by (metis set_concat)
  with authBatches_Inr [OF assms] show ?thesis by (auto simp: eventAuthQuery_mem)
qed

text \<open>Sets of IDs are lists without duplicates, in the order Go would range over them.\<close>

function authWalk :: "database \<Rightarrow> string list \<Rightarrow> string list \<Rightarrow> (storeError, string list) result" where
  "authWalk d results front =
     (if front = [] then Inr results
      else case authBatches d (chunks authChainBatch front) of
        Inl e \<Rightarrow> Inl e
      | Inr rows \<Rightarrow>
          let new = filter (\<lambda>i. i \<notin> set results) (remdups rows)
          in authWalk d (results @ new) new)"
  by pat_completeness auto
termination
proof (relation "measures [\<lambda>(d, res, _). length (filter (\<lambda>i. i \<notin> set res) (map ev_id (t_events d))),
    \<lambda>(_, _, f). if f = [] then 0 else 1]", goal_cases)
  case (2 d res front rows new)
  let ?ids = "map ev_id (t_events d)"
  show ?case
  proof (cases "new = []")
    case True
    with 2 show ?thesis by simp
  next
    case False
    then obtain x where x: "x \<in> set new" by (cases new) auto
    then have "x \<in> set rows" "x \<notin> set res" using 2 by auto
    moreover have "x \<in> set ?ids" using authBatches_mem [of d front rows x] 2 \<open>x \<in> set rows\<close> by auto
    ultimately have "length (filter (\<lambda>i. i \<notin> set (res @ new)) ?ids) < length (filter (\<lambda>i. i \<notin> set res) ?ids)"
      using x by (intro length_filter_less [of ?ids _ _ x]) auto
    then show ?thesis by simp
  qed
qed simp

declare authWalk.simps [simp del]

definition GetAuthChainIDsRecursive :: "database \<Rightarrow> string list \<Rightarrow> (storeError, string list) result" where
  "GetAuthChainIDsRecursive d eventIDs = authWalk d [] (remdups eventIDs)"

definition GetAuthChainIDsWithFallback ::
  "(string \<Rightarrow> string) \<Rightarrow> database \<Rightarrow> string \<Rightarrow> string list \<Rightarrow> (string list \<times> bool) storeOp" where
  "GetAuthChainIDsWithFallback sha256 d roomID eventIDs s =
     (case GetAuthChainIDs sha256 d roomID eventIDs s of
        (Inl (ErrNoChainCoverIndex room), s') \<Rightarrow>
          (case GetAuthChainIDsRecursive d eventIDs of Inl e \<Rightarrow> (Inl e, s') | Inr ids \<Rightarrow> (Inr (ids, True), s'))
      | (Inl e, s') \<Rightarrow> (Inl e, s')
      | (Inr ids, s') \<Rightarrow> (Inr (ids, False), s'))"

section \<open>Correctness of the walk\<close>

definition authEdges :: "database \<Rightarrow> (string \<times> string) set" where
  "authEdges d = {(e, a). (e, a) \<in> set (t_event_auth d) \<and> a \<in> ev_id ` set (t_events d)}"

definition authAncestors :: "database \<Rightarrow> string set \<Rightarrow> string set" where
  "authAncestors d S = (authEdges d)\<^sup>+ `` S"

lemma authWalk_sound:
  assumes "authWalk d results front = Inr out" and "distinct results" and "distinct front"
    and "set front \<subseteq> S \<union> set results" and "set results \<subseteq> authAncestors d S"
    and "\<And>x y. x \<in> S \<union> set results \<Longrightarrow> x \<notin> set front \<Longrightarrow> (x, y) \<in> authEdges d \<Longrightarrow> y \<in> set results"
  shows "distinct out \<and> set out = authAncestors d S"
  using assms
proof (induction d results front rule: authWalk.induct)
  case (1 d results front)
  show ?case
  proof (cases "front = []")
    case True
    with 1(2) have out: "out = results" by (simp add: authWalk.simps)
    have "y \<in> set results" if "(x, y) \<in> (authEdges d)\<^sup>+" and "x \<in> S" for x y
      using that by (induction rule: trancl_induct) (use 1(7) True in auto)
    with out 1(3,6) show ?thesis by (auto simp: authAncestors_def)
  next
    case False
    with 1(2) obtain rows where rows: "authBatches d (chunks authChainBatch front) = Inr rows"
      by (auto simp: authWalk.simps [of d results front] split: sum.splits)
    let ?new = "filter (\<lambda>i. i \<notin> set results) (remdups rows)"
    have mem: "a \<in> set rows \<longleftrightarrow> (\<exists>e \<in> set front. (e, a) \<in> authEdges d)" for a
      using authBatches_mem [OF rows] by (auto simp: authEdges_def)
    have run: "authWalk d (results @ ?new) ?new = Inr out"
      using 1(2) False rows by (simp add: authWalk.simps [of d results front] Let_def)
    have anc: "set ?new \<subseteq> authAncestors d S"
    proof
      fix a assume "a \<in> set ?new"
      then obtain e where e: "e \<in> set front" "(e, a) \<in> authEdges d" using mem by auto
      with 1(5,6) have "e \<in> S \<or> e \<in> authAncestors d S" by auto
      with e(2) show "a \<in> authAncestors d S" unfolding authAncestors_def by (auto intro: trancl_into_trancl)
    qed
    show ?thesis
    proof (rule 1(1) [OF False rows refl run])
      show "y \<in> set (results @ ?new)"
        if "x \<in> S \<union> set (results @ ?new)" "x \<notin> set ?new" "(x, y) \<in> authEdges d" for x y
        using that 1(7) [of x y] mem [of y] by (cases "x \<in> set front") auto
    qed (use 1(3,6) anc in auto)
  qed
qed

lemma authBatches_ok: "noFaults d \<Longrightarrow> \<exists>rows. authBatches d cs = Inr rows"
  by (induction cs) auto

lemma authWalk_ok: "noFaults d \<Longrightarrow> \<exists>out. authWalk d results front = Inr out"
proof (induction d results front rule: authWalk.induct)
  case (1 d results front)
  show ?case
  proof (cases "front = []")
    case False
    obtain rows where rows: "authBatches d (chunks authChainBatch front) = Inr rows"
      using authBatches_ok [OF 1(2)] by blast
    from 1(1) [OF False rows refl 1(2)] False rows show ?thesis by (subst authWalk.simps) (simp add: Let_def)
  qed (simp add: authWalk.simps)
qed

lemma recursive_exact:
  "GetAuthChainIDsRecursive d ids = Inr out \<Longrightarrow> distinct out \<and> set out = authAncestors d (set ids)"
  unfolding GetAuthChainIDsRecursive_def by (rule authWalk_sound) auto

section \<open>Correctness of the cover index\<close>

text \<open>The points a set of starting points reaches over one or more links.\<close>

inductive linked :: "database \<Rightarrow> (int \<Rightarrow> int) \<Rightarrow> int \<Rightarrow> int \<Rightarrow> bool" for d E where
  direct: "l \<in> set (t_links d) \<Longrightarrow> lk_oseq l \<le> E (lk_ochain l) \<Longrightarrow> linked d E (lk_tchain l) (lk_tseq l)"
| onward: "linked d E c n \<Longrightarrow> l \<in> set (t_links d) \<Longrightarrow> lk_ochain l = c \<Longrightarrow> lk_oseq l \<le> n \<Longrightarrow>
    linked d E (lk_tchain l) (lk_tseq l)"

definition links_pos :: "database \<Rightarrow> bool" where
  "links_pos d \<longleftrightarrow> list_all (\<lambda>l. 0 < lk_oseq l \<and> 0 < lk_tseq l) (t_links d)"

text \<open>The loop's invariant: what is reached is linked, and a link whose origin is reached has been
  followed or is on the frontier.\<close>

definition loopInv :: "database \<Rightarrow> (int \<Rightarrow> int) \<Rightarrow> (int, int) gomap \<Rightarrow> (int, int) gomap \<Rightarrow> bool" where
  "loopInv d E r f \<longleftrightarrow>
     (\<forall>c. 0 \<le> get0 r c) \<and>
     (\<forall>c n. gget r c = Some n \<longrightarrow> linked d E c n) \<and>
     (\<forall>c n. gget f c = Some n \<longrightarrow> n = E c \<or> linked d E c n) \<and>
     (\<forall>l \<in> set (t_links d). lk_oseq l \<le> E (lk_ochain l) \<or> lk_oseq l \<le> get0 r (lk_ochain l) \<longrightarrow>
        lk_tseq l \<le> get0 r (lk_tchain l) \<or> lk_oseq l \<le> get0 f (lk_ochain l))"

lemma followable_linked:
  assumes "loopInv d E r f" and "links_pos d" and l: "l \<in> set (t_links d)" and "lk_oseq l \<le> get0 f (lk_ochain l)"
  shows "linked d E (lk_tchain l) (lk_tseq l)"
proof -
  have "0 < lk_oseq l" using assms(2) l by (auto simp: links_pos_def list_all_iff)
  with assms(4) obtain n where n: "gget f (lk_ochain l) = Some n" "lk_oseq l \<le> n"
    by (auto simp: get0_def split: option.splits)
  with assms(1) have "n = E (lk_ochain l) \<or> linked d E (lk_ochain l) n" by (auto simp: loopInv_def)
  with l n show ?thesis by (metis linked.direct linked.onward)
qed

lemma loopInv_generation:
  assumes inv: "loopInv d E r f" and pos: "links_pos d"
    and g: "generation f (linksQuery d (map fst f)) r = (r', f')"
  shows "loopInv d E r' f'"
proof -
  let ?rows = "linksQuery d (map fst f)"
  have nn: "\<And>c. 0 \<le> get0 r c" using inv by (simp add: loopInv_def)
  have gi: "genInv r (r', f')" using genInv_generation [OF nn, of f ?rows] g by simp
  have sub: "l \<in> set (t_links d)" if "l \<in> set ?rows" for l using that by (simp add: linksQuery_def)
  have 1: "0 \<le> get0 r' c" for c using gi nn [of c] by (auto simp: genInv_def intro: order_trans)
  have 2: "linked d E c n" if "gget r' c = Some n" for c n
    using generation_reach [of f ?rows r c n] that g inv followable_linked [OF inv pos sub]
    by (auto simp: loopInv_def)
  have 3: "linked d E c n" if "gget f' c = Some n" for c n
    using generation_next [of f ?rows r c n] that g followable_linked [OF inv pos sub] by auto
  have 4: "lk_tseq l \<le> get0 r' (lk_tchain l) \<or> lk_oseq l \<le> get0 f' (lk_ochain l)"
    if l: "l \<in> set (t_links d)" and o: "lk_oseq l \<le> E (lk_ochain l) \<or> lk_oseq l \<le> get0 r' (lk_ochain l)" for l
  proof (cases "lk_oseq l \<le> E (lk_ochain l) \<or> lk_oseq l \<le> get0 r (lk_ochain l)")
    case True
    with inv l have "lk_tseq l \<le> get0 r (lk_tchain l) \<or> lk_oseq l \<le> get0 f (lk_ochain l)" by (auto simp: loopInv_def)
    then show ?thesis
    proof
      assume "lk_tseq l \<le> get0 r (lk_tchain l)"
      with gi show ?thesis by (auto simp: genInv_def intro: order_trans)
    next
      assume f: "lk_oseq l \<le> get0 f (lk_ochain l)"
      have "0 < lk_oseq l" using pos l by (auto simp: links_pos_def list_all_iff)
      with f have "lk_ochain l \<in> set (map fst f)"
        by (auto simp: get0_def dest!: map_of_SomeD split: option.splits) force
      with l have "l \<in> set ?rows" by (simp add: linksQuery_def)
      from generation_covers [OF this f, of r] g show ?thesis by simp
    qed
  next
    case False
    with o gi have "get0 f' (lk_ochain l) = get0 r' (lk_ochain l)" by (auto simp: genInv_def)
    with o False show ?thesis by simp
  qed
  from 1 2 3 4 show ?thesis by (auto simp: loopInv_def)
qed

lemma chainLoop_correct:
  assumes "chainLoop d r f = Inr out" and "loopInv d E r f" and "links_pos d"
  shows "(\<forall>c n. gget out c = Some n \<longrightarrow> linked d E c n) \<and> (\<forall>c n. linked d E c n \<longrightarrow> n \<le> get0 out c)"
  using assms
proof (induction d r f rule: chainLoop.induct)
  case (1 d r f)
  show ?case
  proof (cases "f = []")
    case True
    with 1(2) have out: "out = r" by (simp add: chainLoop.simps)
    have cov: "lk_tseq l \<le> get0 r (lk_tchain l)"
      if "l \<in> set (t_links d)" "lk_oseq l \<le> E (lk_ochain l) \<or> lk_oseq l \<le> get0 r (lk_ochain l)" for l
    proof -
      have "0 < lk_oseq l" using 1(4) that(1) by (auto simp: links_pos_def list_all_iff)
      with that 1(3) True show ?thesis by (force simp: loopInv_def)
    qed
    have "n \<le> get0 r c" if "linked d E c n" for c n
      using that
    proof induction
      case (onward c n l)
      from onward.IH onward.hyps(3,4) cov [OF onward.hyps(2)] show ?case by simp
    qed (simp add: cov)
    with out 1(3) show ?thesis by (auto simp: loopInv_def)
  next
    case False
    with 1(2) obtain rows where q: "queryRows d ''auth chain links'' (linksQuery d (map fst f)) = Inr rows"
      by (auto simp: chainLoop.simps [of d r f] split: sum.splits)
    then have rows: "rows = linksQuery d (map fst f)" by (rule queryRows_Inr)
    have "chainLoop d (fst (generation f rows r)) (snd (generation f rows r)) = Inr out"
      using 1(2) False q by (simp add: chainLoop.simps [of d r f])
    from 1(1) [OF False q this loopInv_generation [OF 1(3,4)] 1(4)] rows show ?thesis by simp
  qed
qed

lemma chainLoop_ok: "noFaults d \<Longrightarrow> \<exists>out. chainLoop d r f = Inr out"
proof (induction d r f rule: chainLoop.induct)
  case (1 d r f)
  show ?case
  proof (cases "f = []")
    case False
    with 1 show ?thesis by (subst chainLoop.simps) simp
  qed (simp add: chainLoop.simps)
qed

subsection \<open>Start points and results\<close>

lemma eventChainsOf_snoc:
  "eventChainsOf (rows @ [(e, c, n)]) =
     (if n > get0 (eventChainsOf rows) c then gset c n (eventChainsOf rows) else eventChainsOf rows)"
  by (simp add: eventChainsOf_def)

lemma eventChainsOf_props:
  "gomap (eventChainsOf rows) \<and> (\<forall>c. 0 \<le> get0 (eventChainsOf rows) c) \<and>
   (\<forall>c n. gget (eventChainsOf rows) c = Some n \<longrightarrow> (\<exists>e. (e, c, n) \<in> set rows)) \<and>
   (\<forall>e c n. (e, c, n) \<in> set rows \<longrightarrow> n \<le> get0 (eventChainsOf rows) c)"
proof (induction rows rule: rev_induct)
  case Nil
  then show ?case by (simp add: eventChainsOf_def)
next
  case (snoc r rows)
  obtain e c n where r: "r = (e, c, n)" by (cases r)
  show ?case
  proof (cases "n > get0 (eventChainsOf rows) c")
    case True
    have "0 \<le> get0 (eventChainsOf rows) c" using snoc by blast
    with True have "0 \<le> n" by simp
    with snoc True r show ?thesis by (fastforce simp: eventChainsOf_snoc split: if_splits)
  next
    case False
    with snoc r show ?thesis by (simp add: eventChainsOf_snoc) blast
  qed
qed

lemma get0_ownChains:
  assumes "gomap E"
  shows "get0 (ownChains E m) c =
    (case gget E c of None \<Rightarrow> get0 m c | Some n \<Rightarrow> if 1 < n \<and> get0 m c < n - 1 then n - 1 else get0 m c)"
  using assms unfolding ownChains_def gomap_def
proof (induction E arbitrary: m)
  case (Cons p E)
  obtain c' n where p: "p = (c', n)" by fastforce
  from Cons.prems p have "map_of E c' = None" by (auto simp: map_of_eq_None_iff)
  with Cons p show ?case by (cases "c = c'") (auto split: option.splits)
qed simp

lemma gomap_ownChains: "gomap m \<Longrightarrow> gomap (ownChains E m)"
  unfolding ownChains_def by (induction E arbitrary: m) auto

lemma gomap_generation:
  assumes "gomap r"
  shows "gomap (fst (generation f rows r))"
proof -
  have "gomap (fst (foldl (\<lambda>rn l. followLink f l rn) rn rows))" if "gomap (fst rn)" for rn
    using that
  proof (induction rows arbitrary: rn)
    case (Cons a rows)
    have "gomap (fst (followLink f a rn))" using Cons.prems by (auto simp: followLink_def)
    from Cons.IH [OF this] show ?case by simp
  qed simp
  from this [of "(r, [])"] assms show ?thesis by (simp add: generation_def)
qed

lemma gomap_chainLoop: "chainLoop d r f = Inr out \<Longrightarrow> gomap r \<Longrightarrow> gomap out"
proof (induction d r f rule: chainLoop.induct)
  case (1 d r f)
  then show ?case
    by (cases "f = []")
      (simp add: chainLoop.simps, auto simp: chainLoop.simps [of d r f] gomap_generation split: sum.splits)
qed

lemma chainEventsQuery_mem:
  assumes "gomap chns"
  shows "e \<in> set (chainEventsQuery d chns) \<longleftrightarrow> (\<exists>c n m. (e, c, n) \<in> set (t_chains d) \<and> gget chns c = Some m \<and> n \<le> m)"
proof -
  have "e \<in> set (chainEventsQuery d chns) \<longleftrightarrow> (\<exists>c n m. (e, c, n) \<in> set (t_chains d) \<and> (c, m) \<in> set chns \<and> n \<le> m)"
    (is "?l \<longleftrightarrow> ?r")
  proof
    assume ?l
    then obtain p q where "p \<in> set (t_chains d)" "q \<in> set chns" "fst q = fst (snd p)" "snd (snd p) \<le> snd q" "e = fst p"
      unfolding chainEventsQuery_def by auto
    then show ?r by (metis prod.collapse)
  next
    assume ?r
    then obtain c n m where "(e, c, n) \<in> set (t_chains d)" "(c, m) \<in> set chns" "n \<le> m" by blast
    then have "e \<in> set ((\<lambda>(e, c, n). map (\<lambda>_. e) (filter (\<lambda>(c', m). c' = c \<and> n \<le> m) chns)) (e, c, n))"
      by auto
    with \<open>(e, c, n) \<in> set (t_chains d)\<close> show ?l
      unfolding chainEventsQuery_def set_concat set_map by blast
  qed
  then show ?thesis by (simp add: gomap_set [OF assms])
qed

subsection \<open>The index contract\<close>

text \<open>
  What Synapse maintains: every position is used once and positions start at 1; an event reaches what
  precedes it in its chain; a link joins two indexed events the first of which reaches the second;
  and every auth edge from an indexed event stays in its chain or is covered by links.
\<close>

definition index_valid :: "database \<Rightarrow> bool" where
  "index_valid d \<longleftrightarrow>
     distinct (map fst (t_chains d)) \<and> distinct (map snd (t_chains d)) \<and>
     list_all (\<lambda>(_, _, n). 0 < n) (t_chains d) \<and> links_pos d \<and>
     (\<forall>e f c n m. (e, c, n) \<in> set (t_chains d) \<longrightarrow> (f, c, m) \<in> set (t_chains d) \<longrightarrow> m < n \<longrightarrow>
        (e, f) \<in> (authEdges d)\<^sup>+) \<and>
     (\<forall>l \<in> set (t_links d). \<exists>e f. (e, lk_ochain l, lk_oseq l) \<in> set (t_chains d) \<and>
        (f, lk_tchain l, lk_tseq l) \<in> set (t_chains d) \<and> (e, f) \<in> (authEdges d)\<^sup>+) \<and>
     (\<forall>e f c n. (e, f) \<in> authEdges d \<longrightarrow> (e, c, n) \<in> set (t_chains d) \<longrightarrow>
        (\<exists>c' m. (f, c', m) \<in> set (t_chains d) \<and>
           (c' = c \<and> m < n \<or> (\<exists>m'. m \<le> m' \<and> linked d ((\<lambda>_. 0)(c := n)) c' m'))))"

lemma index_validD:
  assumes "index_valid d"
  shows "(e, c, n) \<in> set (t_chains d) \<Longrightarrow> (f, c, n) \<in> set (t_chains d) \<Longrightarrow> e = f"
    and "(e, c, n) \<in> set (t_chains d) \<Longrightarrow> 0 < n"
    and "links_pos d"
    and "(e, c, n) \<in> set (t_chains d) \<Longrightarrow> (f, c, m) \<in> set (t_chains d) \<Longrightarrow> m < n \<Longrightarrow> (e, f) \<in> (authEdges d)\<^sup>+"
    and "l \<in> set (t_links d) \<Longrightarrow> \<exists>e f. (e, lk_ochain l, lk_oseq l) \<in> set (t_chains d) \<and>
        (f, lk_tchain l, lk_tseq l) \<in> set (t_chains d) \<and> (e, f) \<in> (authEdges d)\<^sup>+"
    and "(e, f) \<in> authEdges d \<Longrightarrow> (e, c, n) \<in> set (t_chains d) \<Longrightarrow>
        \<exists>c' m. (f, c', m) \<in> set (t_chains d) \<and>
           (c' = c \<and> m < n \<or> (\<exists>m'. m \<le> m' \<and> linked d ((\<lambda>_. 0)(c := n)) c' m'))"
proof -
  show "e = f" if "(e, c, n) \<in> set (t_chains d)" "(f, c, n) \<in> set (t_chains d)"
  proof -
    have "distinct (map snd (t_chains d))" using assms by (simp add: index_valid_def)
    from distinct_filter_key [OF this that] show ?thesis by simp
  qed
qed (use assms in \<open>unfold index_valid_def list_all_iff, blast+\<close>)

text \<open>Every linked point is the position of an event the start events reach.\<close>

lemma linked_sound:
  assumes valid: "index_valid d"
    and start: "\<And>c. 0 < E c \<Longrightarrow> \<exists>e \<in> S. (e, c, E c) \<in> set (t_chains d)"
    and "linked d E c n"
  shows "\<exists>f. (f, c, n) \<in> set (t_chains d) \<and> f \<in> authAncestors d S"
  using assms(3)
proof induction
  case (direct l)
  from index_validD(5) [OF valid direct(1)] obtain e f where
    ef: "(e, lk_ochain l, lk_oseq l) \<in> set (t_chains d)" "(f, lk_tchain l, lk_tseq l) \<in> set (t_chains d)"
      "(e, f) \<in> (authEdges d)\<^sup>+" by blast
  have "0 < lk_oseq l" using index_validD(2) [OF valid ef(1)] .
  with direct(2) start [of "lk_ochain l"] obtain x where x: "x \<in> S" "(x, lk_ochain l, E (lk_ochain l)) \<in> set (t_chains d)"
    by auto
  have "(x, e) \<in> (authEdges d)\<^sup>*"
    using index_validD(1,4) [OF valid x(2)] ef(1) direct(2) by (cases "lk_oseq l = E (lk_ochain l)") (auto intro!: trancl_into_rtrancl)
  then have "(x, f) \<in> (authEdges d)\<^sup>+" using ef(3) by (rule rtrancl_trancl_trancl)
  with x ef(2) show ?case by (auto simp: authAncestors_def)
next
  case (onward c n l)
  from onward.IH obtain g where g: "(g, c, n) \<in> set (t_chains d)" "g \<in> authAncestors d S" by blast
  from index_validD(5) [OF valid onward.hyps(2)] obtain e f where
    ef: "(e, lk_ochain l, lk_oseq l) \<in> set (t_chains d)" "(f, lk_tchain l, lk_tseq l) \<in> set (t_chains d)"
      "(e, f) \<in> (authEdges d)\<^sup>+" by blast
  have "(g, e) \<in> (authEdges d)\<^sup>*"
    using index_validD(1,4) [OF valid g(1)] ef(1) onward.hyps(3,4) by (cases "lk_oseq l = n") (auto intro!: trancl_into_rtrancl)
  then have "(g, f) \<in> (authEdges d)\<^sup>+" using ef(3) by (rule rtrancl_trancl_trancl)
  with g(2) ef(2) show ?case by (auto simp: authAncestors_def intro: trancl_trans)
qed

lemma linked_from_point:
  assumes "linked d ((\<lambda>_. 0)(c := n)) c' m" and "links_pos d"
    and "n \<le> E c \<or> (\<exists>n'. n \<le> n' \<and> linked d E c n')"
  shows "linked d E c' m"
  using assms(1)
proof induction
  case (direct l)
  have "0 < lk_oseq l" using assms(2) direct(1) by (auto simp: links_pos_def list_all_iff)
  with direct(2) have "lk_ochain l = c" "lk_oseq l \<le> n" by (auto split: if_splits)
  with assms(3) direct(1) show ?case by (metis linked.direct linked.onward order_trans)
qed (rule linked.onward)

text \<open>What is known of the limits computed from the start points \<open>E\<close> and the links followed to \<open>r\<close>.\<close>

definition coverFacts :: "database \<Rightarrow> string set \<Rightarrow> (int, int) gomap \<Rightarrow> (int, int) gomap \<Rightarrow> bool" where
  "coverFacts d S E r \<longleftrightarrow>
     (\<forall>c. 0 < get0 E c \<longrightarrow> (\<exists>e \<in> S. (e, c, get0 E c) \<in> set (t_chains d))) \<and>
     (\<forall>e \<in> S. \<exists>c n. (e, c, n) \<in> set (t_chains d) \<and> n \<le> get0 E c) \<and>
     (\<forall>c. 0 < get0 r c \<longrightarrow> linked d (get0 E) c (get0 r c)) \<and>
     (\<forall>c n. linked d (get0 E) c n \<longrightarrow> n \<le> get0 r c) \<and>
     (\<forall>c. get0 (ownChains E r) c = (if 1 < get0 E c \<and> get0 r c < get0 E c - 1 then get0 E c - 1 else get0 r c))"

lemma cover_facts:
  assumes valid: "index_valid d" and rows: "rows = chainPositionsQuery d ids"
    and all: "\<And>i. i \<in> set ids \<Longrightarrow> i \<in> fst ` set rows"
    and E: "E = eventChainsOf rows" and r: "chainLoop d [] E = Inr r"
  shows "coverFacts d (set ids) E r"
proof -
  note Ep = eventChainsOf_props [of rows, folded E]
  note lp = index_validD(3) [OF valid]
  have "loopInv d (get0 E) [] E"
    using lp by (auto simp: loopInv_def get0_def links_pos_def list_all_iff)
  from chainLoop_correct [OF r this lp] have
    sound: "\<And>c n. gget r c = Some n \<Longrightarrow> linked d (get0 E) c n" and
    compl: "\<And>c n. linked d (get0 E) c n \<Longrightarrow> n \<le> get0 r c" by auto
  have own: "get0 (ownChains E r) c = (if 1 < get0 E c \<and> get0 r c < get0 E c - 1 then get0 E c - 1 else get0 r c)" for c
    using get0_ownChains [of E r c] Ep by (auto simp: get0_def split: option.splits)
  have rowE: "e \<in> set ids" "(e, c, n) \<in> set (t_chains d)" if "(e, c, n) \<in> set rows" for e c n
    using that rows by (auto simp: chainPositionsQuery_def)
  have start: "\<exists>e \<in> set ids. (e, c, get0 E c) \<in> set (t_chains d)" if "0 < get0 E c" for c
  proof -
    from that obtain n where n: "gget E c = Some n" "get0 E c = n" by (auto simp: get0_def split: option.splits)
    with Ep obtain e where "(e, c, n) \<in> set rows" by blast
    with rowE n show ?thesis by blast
  qed
  have below: "\<exists>c n. (e, c, n) \<in> set (t_chains d) \<and> n \<le> get0 E c" if "e \<in> set ids" for e
  proof -
    from all [OF that] obtain c n where "(e, c, n) \<in> set rows" by force
    with Ep rowE show ?thesis by blast
  qed
  have rpos: "linked d (get0 E) c (get0 r c)" if "0 < get0 r c" for c
    using that sound by (auto simp: get0_def split: option.splits)
  from own start below rpos compl show ?thesis by (simp add: coverFacts_def)
qed

lemma limits_sound:
  assumes valid: "index_valid d" and cf: "coverFacts d S E r"
    and e: "(e, c, n) \<in> set (t_chains d)" and le: "n \<le> get0 (ownChains E r) c"
  shows "e \<in> authAncestors d S"
proof (cases "1 < get0 E c \<and> get0 r c < get0 E c - 1")
  case True
  with le cf have less: "n < get0 E c" by (auto simp: coverFacts_def)
  from True have "0 < get0 E c" by simp
  with cf obtain x where "x \<in> S" "(x, c, get0 E c) \<in> set (t_chains d)" unfolding coverFacts_def by blast
  with index_validD(4) [OF valid _ e less] show ?thesis by (auto simp: authAncestors_def)
next
  case False
  with le cf have r: "n \<le> get0 r c" by (auto simp: coverFacts_def)
  then have rp: "0 < get0 r c" using index_validD(2) [OF valid e] by simp
  have "\<exists>f. (f, c, get0 r c) \<in> set (t_chains d) \<and> f \<in> authAncestors d S"
    by (rule linked_sound [OF valid, of "get0 E"]) (use cf rp in \<open>auto simp: coverFacts_def\<close>)
  then obtain f where f: "(f, c, get0 r c) \<in> set (t_chains d)" "f \<in> authAncestors d S" by blast
  show ?thesis
  proof (cases "n = get0 r c")
    case True
    with f e index_validD(1) [OF valid] show ?thesis by blast
  next
    case False
    with r have "(f, e) \<in> (authEdges d)\<^sup>+" using index_validD(4) [OF valid f(1) e] by simp
    with f(2) show ?thesis by (auto simp: authAncestors_def intro: trancl_trans)
  qed
qed

text \<open>An auth edge out of a point within the limits leads to a point within the limits.\<close>

lemma limits_hop:
  assumes valid: "index_valid d" and cf: "coverFacts d S E r"
    and y: "(y, c, k) \<in> set (t_chains d)" "k \<le> get0 E c \<or> k \<le> get0 r c" and edge: "(y, z) \<in> authEdges d"
  shows "\<exists>c' m. (z, c', m) \<in> set (t_chains d) \<and> m \<le> get0 (ownChains E r) c'"
proof -
  have own: "get0 (ownChains E r) c = (if 1 < get0 E c \<and> get0 r c < get0 E c - 1 then get0 E c - 1 else get0 r c)" for c
    using cf by (simp add: coverFacts_def)
  from index_validD(6) [OF valid edge y(1)] obtain c' m where
    z: "(z, c', m) \<in> set (t_chains d)" and way: "c' = c \<and> m < k \<or> (\<exists>m'. m \<le> m' \<and> linked d ((\<lambda>_. 0)(c := k)) c' m')" by blast
  have pos: "0 < m" "0 < k" using index_validD(2) [OF valid] z y(1) by auto
  from way have "m \<le> get0 (ownChains E r) c'"
  proof
    assume "c' = c \<and> m < k"
    with y(2) pos own [of c] show ?thesis by auto
  next
    assume "\<exists>m'. m \<le> m' \<and> linked d ((\<lambda>_. 0)(c := k)) c' m'"
    then obtain m' where m': "m \<le> m'" "linked d ((\<lambda>_. 0)(c := k)) c' m'" by blast
    have "k \<le> get0 E c \<or> (\<exists>n'. k \<le> n' \<and> linked d (get0 E) c n')"
      using y(2) pos(2) cf by (auto simp: coverFacts_def)
    with m' index_validD(3) [OF valid] have "linked d (get0 E) c' m'" by (blast intro: linked_from_point)
    with cf have "m' \<le> get0 r c'" by (simp add: coverFacts_def)
    with m'(1) own [of c'] show ?thesis by auto
  qed
  with z show ?thesis by blast
qed

lemma limits_complete:
  assumes valid: "index_valid d" and cf: "coverFacts d S E r" and "e \<in> authAncestors d S"
  shows "\<exists>c n. (e, c, n) \<in> set (t_chains d) \<and> n \<le> get0 (ownChains E r) c"
proof -
  from assms(3) obtain x where x: "x \<in> S" "(x, e) \<in> (authEdges d)\<^sup>+" by (auto simp: authAncestors_def)
  from x(2) show ?thesis
  proof (induction rule: trancl_induct)
    case (base y)
    from cf x(1) obtain c n where "(x, c, n) \<in> set (t_chains d)" "n \<le> get0 E c" by (auto simp: coverFacts_def)
    with limits_hop [OF valid cf] base show ?case by blast
  next
    case (step y z)
    from step.IH obtain c n where y: "(y, c, n) \<in> set (t_chains d)" "n \<le> get0 (ownChains E r) c" by blast
    then have "n \<le> get0 E c \<or> n \<le> get0 r c" using cf by (auto simp: coverFacts_def split: if_splits)
    with limits_hop [OF valid cf] y(1) step.hyps(2) show ?case by blast
  qed
qed

lemma get0_limit: "0 < n \<Longrightarrow> (\<exists>m. gget chns c = Some m \<and> n \<le> m) \<longleftrightarrow> n \<le> get0 chns c"
  by (auto simp: get0_def split: option.splits)

lemma coverChain_exact:
  assumes valid: "index_valid d" and run: "coverChain d room ids = Inr res"
  shows "set (case res of None \<Rightarrow> [] | Some out \<Rightarrow> out) = authAncestors d (set ids)"
proof -
  let ?rows = "chainPositionsQuery d ids" and ?E = "eventChainsOf (chainPositionsQuery d ids)"
  from run obtain r where all: "\<And>i. i \<in> set ids \<Longrightarrow> i \<in> fst ` set ?rows"
    and r: "chainLoop d [] ?E = Inr r"
    and res: "ownChains ?E r = [] \<and> res = None \<or> ownChains ?E r \<noteq> [] \<and> res = Some (chainEventsQuery d (ownChains ?E r))"
    by (auto simp: coverChain_def rbind_eq_Inr Let_def list_ex_iff materialiseChains_def dest!: queryRows_Inr split: if_splits)
  have cf: "coverFacts d (set ids) ?E r" by (rule cover_facts [OF valid refl all refl r])
  have gm: "gomap (ownChains ?E r)" using gomap_chainLoop [OF r] by (simp add: gomap_ownChains)
  have "e \<in> set (case res of None \<Rightarrow> [] | Some out \<Rightarrow> out) \<longleftrightarrow>
      (\<exists>c n. (e, c, n) \<in> set (t_chains d) \<and> n \<le> get0 (ownChains ?E r) c)" for e
  proof (cases "ownChains ?E r = []")
    case True
    then show ?thesis using res index_validD(2) [OF valid] by (force simp: not_le)
  next
    case False
    then have "e \<in> set (case res of None \<Rightarrow> [] | Some out \<Rightarrow> out) \<longleftrightarrow> e \<in> set (chainEventsQuery d (ownChains ?E r))"
      using res by simp
    also have "\<dots> \<longleftrightarrow> (\<exists>c n. (e, c, n) \<in> set (t_chains d) \<and> (\<exists>m. gget (ownChains ?E r) c = Some m \<and> n \<le> m))"
      unfolding chainEventsQuery_mem [OF gm] by blast
    also have "\<dots> \<longleftrightarrow> (\<exists>c n. (e, c, n) \<in> set (t_chains d) \<and> n \<le> get0 (ownChains ?E r) c)"
      using get0_limit index_validD(2) [OF valid] by metis
    finally show ?thesis .
  qed
  with limits_sound [OF valid cf] limits_complete [OF valid cf] show ?thesis by blast
qed

lemma coverChain_ok:
  assumes "noFaults d"
  shows "(\<exists>res. coverChain d room ids = Inr res) \<or>
    coverChain d room ids = Inl (ErrNoChainCoverIndex room) \<and> (\<exists>i \<in> set ids. i \<notin> fst ` set (t_chains d))"
proof (cases "list_ex (\<lambda>i. i \<notin> set (map fst (chainPositionsQuery d ids))) ids")
  case True
  then obtain i where i: "i \<in> set ids" "i \<notin> set (map fst (chainPositionsQuery d ids))" by (auto simp: list_ex_iff)
  have "i \<notin> fst ` set (t_chains d)"
  proof
    assume "i \<in> fst ` set (t_chains d)"
    then obtain c n where "(i, c, n) \<in> set (t_chains d)" by auto
    with i(1) have "(i, c, n) \<in> set (chainPositionsQuery d ids)" by (simp add: chainPositionsQuery_def)
    with i(2) show False by force
  qed
  with i(1) have "\<exists>i \<in> set ids. i \<notin> fst ` set (t_chains d)" by blast
  with True assms show ?thesis by (simp add: coverChain_def)
next
  case False
  obtain r where "chainLoop d [] (eventChainsOf (chainPositionsQuery d ids)) = Inr r"
    using chainLoop_ok [OF assms] by blast
  with False assms show ?thesis by (simp add: coverChain_def materialiseChains_def Let_def)
qed

section \<open>The cache\<close>

text \<open>
  The cache is keyed by a hash, so what an entry stands for is one of the questions asked so far,
  \<open>A\<close>.  The hash is a parameter; what the cache relies on is that it separates those questions.
\<close>

definition separates :: "(string \<Rightarrow> string) \<Rightarrow> (string \<times> string list) set \<Rightarrow> bool" where
  "separates sha256 A \<longleftrightarrow>
     (\<forall>q \<in> A. \<forall>q' \<in> A. AuthChainKey sha256 (fst q) (snd q) = AuthChainKey sha256 (fst q') (snd q') \<longrightarrow>
        authChainPreimage (fst q) (snd q) = authChainPreimage (fst q') (snd q'))"

definition askable :: "(string \<times> string list) set \<Rightarrow> bool" where
  "askable A \<longleftrightarrow> (\<forall>(r, ids) \<in> A. nul \<notin> set r \<and> (\<forall>i \<in> set ids. length i < 2 ^ 64))"

definition authHonest :: "(string \<Rightarrow> string) \<Rightarrow> database \<Rightarrow> (string \<times> string list) set \<Rightarrow> store \<Rightarrow> bool" where
  "authHonest sha256 d A s \<longleftrightarrow> lru_inv (authChains s) \<and>
     (\<forall>k v. contents (authChains s) k = Some v \<longrightarrow>
        (\<exists>(r, ids) \<in> A. k = AuthChainKey sha256 r ids \<and> set v = authAncestors d (set ids)))"

lemma framed_key_ids:
  assumes "authChainPreimage r ids = authChainPreimage r' ids'" and "nul \<notin> set r" and "nul \<notin> set r'"
    and "\<forall>i \<in> set ids \<union> set ids'. length i < 2 ^ 64"
  shows "set ids = set ids'"
proof -
  from assms(1) have "cut nul (authChainPreimage r ids) = cut nul (authChainPreimage r' ids')" by simp
  then have "concat (map (\<lambda>i. putUint64 (length i) @ i) (sort ids)) = concat (map (\<lambda>i. putUint64 (length i) @ i) (sort ids'))"
    using assms(2,3) by (simp add: authChainPreimage_def cut_append)
  then have "sort ids = sort ids'" by (rule framed_inj) (use assms(4) in simp)
  then show ?thesis by (metis set_sort)
qed

lemma same_question:
  assumes "separates sha256 A" and "askable A" and "(r, ids) \<in> A" and "(r', ids') \<in> A"
    and "AuthChainKey sha256 r ids = AuthChainKey sha256 r' ids'"
  shows "set ids = set ids'"
proof (rule framed_key_ids)
  show "authChainPreimage r ids = authChainPreimage r' ids'"
    using assms(1) [unfolded separates_def, rule_format, OF assms(3,4)] assms(5) by simp
  show "nul \<notin> set r" "nul \<notin> set r'" "\<forall>i \<in> set ids \<union> set ids'. length i < 2 ^ 64"
    using assms(2-4) by (auto simp: askable_def)
qed

lemma GetAuthChainIDs_spec:
  assumes valid: "index_valid d" and sep: "separates sha256 A" "askable A" and q: "(room, ids) \<in> A"
    and hon: "authHonest sha256 d A s"
  shows "authHonest sha256 d A (snd (GetAuthChainIDs sha256 d room ids s)) \<and>
    (\<forall>out. fst (GetAuthChainIDs sha256 d room ids s) = Inr out \<longrightarrow> set out = authAncestors d (set ids)) \<and>
    (noFaults d \<longrightarrow> (\<exists>out. fst (GetAuthChainIDs sha256 d room ids s) = Inr out) \<or>
       fst (GetAuthChainIDs sha256 d room ids s) = Inl (ErrNoChainCoverIndex room))"
proof (cases "ids = []")
  case True
  with hon show ?thesis by (simp add: GetAuthChainIDs_def authAncestors_def)
next
  case ne: False
  let ?key = "AuthChainKey sha256 room ids"
  obtain r c where g: "Get ?key (authChains s) = (r, c)" by fastforce
  have inv: "lru_inv (authChains s)" using hon by (simp add: authHonest_def)
  have c: "lru_inv c" "contents c = contents (authChains s)"
    using lru_inv_Get [OF inv, of ?key] contents_Get [OF inv, of ?key] g by auto
  show ?thesis
  proof (cases r)
    case (Some v)
    have "contents (authChains s) ?key = Some v" using lru.get_hit [OF inv, of ?key v] g Some by simp
    then have "\<exists>(r', ids') \<in> A. ?key = AuthChainKey sha256 r' ids' \<and> set v = authAncestors d (set ids')"
      using hon unfolding authHonest_def by blast
    then obtain r' ids' where "(r', ids') \<in> A" "?key = AuthChainKey sha256 r' ids'" "set v = authAncestors d (set ids')"
      by blast
    with same_question [OF sep q] have "set v = authAncestors d (set ids)" by metis
    with Some g c ne hon show ?thesis by (simp add: GetAuthChainIDs_def authHonest_def)
  next
    case None
    note ok = coverChain_ok [of d room ids]
    consider e where "coverChain d room ids = Inl e" "noFaults d \<longrightarrow> e = ErrNoChainCoverIndex room"
      | "coverChain d room ids = Inr None" | out where "coverChain d room ids = Inr (Some out)"
    proof (cases "coverChain d room ids")
      case (Inr x)
      with that(2,3) show thesis by (cases x) auto
    qed (use that(1) ok in auto)
    then show ?thesis
    proof cases
      case 1
      with None g c ne hon show ?thesis by (simp add: GetAuthChainIDs_def authHonest_def)
    next
      case 2
      with None g c ne hon coverChain_exact [OF valid 2] show ?thesis by (simp add: GetAuthChainIDs_def authHonest_def)
    next
      case 3
      have set: "set out = authAncestors d (set ids)" using coverChain_exact [OF valid 3] by simp
      have "\<exists>(r, ids) \<in> A. k = AuthChainKey sha256 r ids \<and> set v = authAncestors d (set ids)"
        if "contents (Add ?key out c) k = Some v" for k v
        using lru.add_view [OF c(1) that] c(2) hon set q by (auto simp: authHonest_def)
      with None g lru_inv_Add [OF c(1)] ne 3 set show ?thesis
        by (simp add: GetAuthChainIDs_def authHonest_def)
    qed
  qed
qed

lemma fallback_exact:
  assumes "index_valid d" and "separates sha256 A" and "askable A" and "(room, ids) \<in> A"
    and "authHonest sha256 d A s" and "noFaults d"
  shows "\<exists>out fallback s'. GetAuthChainIDsWithFallback sha256 d room ids s = (Inr (out, fallback), s') \<and>
    set out = authAncestors d (set ids) \<and> authHonest sha256 d A s'"
proof -
  obtain r s' where g: "GetAuthChainIDs sha256 d room ids s = (r, s')" by fastforce
  note spec = GetAuthChainIDs_spec [OF assms(1-5), unfolded g]
  show ?thesis
  proof (cases r)
    case (Inr out)
    with spec g show ?thesis by (auto simp: GetAuthChainIDsWithFallback_def)
  next
    case (Inl e)
    with spec assms(6) have e: "e = ErrNoChainCoverIndex room" by auto
    obtain out where "GetAuthChainIDsRecursive d ids = Inr out"
      using authWalk_ok [OF assms(6)] by (auto simp: GetAuthChainIDsRecursive_def)
    with recursive_exact [OF this] spec g Inl e show ?thesis by (auto simp: GetAuthChainIDsWithFallback_def)
  qed
qed

text \<open>The auth chain cache is the only one the read touches.\<close>

lemma fallback_frame:
  "events (snd (GetAuthChainIDsWithFallback sha256 d room ids s)) = events s"
  "stateGroups (snd (GetAuthChainIDsWithFallback sha256 d room ids s)) = stateGroups s"
  "eventStateGroup (snd (GetAuthChainIDsWithFallback sha256 d room ids s)) = eventStateGroup s"
  "filteredState (snd (GetAuthChainIDsWithFallback sha256 d room ids s)) = filteredState s"
  by (auto simp: GetAuthChainIDsWithFallback_def GetAuthChainIDs_def Let_def trace1_def
      split: prod.splits sum.splits option.splits storeError.splits)

section \<open>Properties\<close>

text \<open>C9. The auth chain is exact on every path: under the index contract, and from a cache that has
  only seen questions the hash separates, the chain returned is exactly the set of events reachable
  from the given ones over one or more auth edges, whether it comes from the cache, from the cover
  index or from the recursive walk; both loops end, so it is returned whenever the database answers;
  and the cache keeps telling the truth.\<close>

theorem auth_chain_exact:
  assumes "index_valid d" and "separates sha256 A" and "askable A" and "(room, ids) \<in> A"
    and "authHonest sha256 d A s" and "noFaults d"
  shows "\<exists>out fallback s'. GetAuthChainIDsWithFallback sha256 d room ids s = (Inr (out, fallback), s') \<and>
    set out = authAncestors d (set ids) \<and> authHonest sha256 d A s'"
  using assms by (rule fallback_exact)

definition authRow :: "string \<Rightarrow> eventsRow" where
  "authRow i = \<lparr>ev_id = i, ev_room = ''!r'', ev_type = ''m.room.power_levels'', ev_state_key = Some '''',
     ev_sender = ''@u:a'', ev_outlier = False, ev_stream = 1\<rparr>"

definition authDb :: database where
  "authDb = sampleDb\<lparr>
     t_events := map authRow [''$c'', ''$b'', ''$m''],
     t_event_auth := [(''$b'', ''$c''), (''$m'', ''$b'')],
     t_chains := [(''$c'', 1, 1), (''$b'', 1, 2), (''$m'', 2, 1)],
     t_links := [\<lparr>lk_ochain = 2, lk_oseq = 1, lk_tchain = 1, lk_tseq = 2\<rparr>]\<rparr>"

lemma authDb_sel:
  "t_event_auth authDb = [(''$b'', ''$c''), (''$m'', ''$b'')]"
  "t_chains authDb = [(''$c'', 1, 1), (''$b'', 1, 2), (''$m'', 2, 1)]"
  "t_links authDb = [\<lparr>lk_ochain = 2, lk_oseq = 1, lk_tchain = 1, lk_tseq = 2\<rparr>]"
  "noFaults authDb"
  by (simp_all add: authDb_def sampleDb_def noFaults_def)

lemma authDb_edges: "authEdges authDb = {(''$b'', ''$c''), (''$m'', ''$b'')}"
  by (auto simp: authEdges_def authDb_def authRow_def)

lemma authDb_valid: "index_valid authDb"
proof -
  have bc: "(''$b'', ''$c'') \<in> (authEdges authDb)\<^sup>+" and mb: "(''$m'', ''$b'') \<in> (authEdges authDb)\<^sup>+"
    by (auto simp: authDb_edges)
  have "linked authDb ((\<lambda>_. 0)(2 := 1)) 1 2"
    using linked.direct [of "\<lparr>lk_ochain = 2, lk_oseq = 1, lk_tchain = 1, lk_tseq = 2\<rparr>" authDb "(\<lambda>_. 0)(2 := 1)"]
    by (simp add: authDb_sel)
  then have edge: "\<exists>c' m. (f, c', m) \<in> set (t_chains authDb) \<and>
      (c' = c \<and> m < n \<or> (\<exists>m'. m \<le> m' \<and> linked authDb ((\<lambda>_. 0)(c := n)) c' m'))"
    if "(e, f) \<in> authEdges authDb" "(e, c, n) \<in> set (t_chains authDb)" for e f c n
    using that by (auto simp: authDb_edges authDb_sel)
  have same: "(e, f) \<in> (authEdges authDb)\<^sup>+"
    if "(e, c, n) \<in> set (t_chains authDb)" "(f, c, m) \<in> set (t_chains authDb)" "m < n" for e f c n m
    using that bc by (auto simp: authDb_sel)
  have lnk: "\<exists>e f. (e, lk_ochain l, lk_oseq l) \<in> set (t_chains authDb) \<and>
      (f, lk_tchain l, lk_tseq l) \<in> set (t_chains authDb) \<and> (e, f) \<in> (authEdges authDb)\<^sup>+"
    if "l \<in> set (t_links authDb)" for l
    using that mb by (auto simp: authDb_sel)
  have "distinct (map fst (t_chains authDb))" "distinct (map snd (t_chains authDb))"
    "list_all (\<lambda>(_, _, n). 0 < n) (t_chains authDb)" "links_pos authDb"
    by (simp_all add: authDb_sel links_pos_def)
  with edge same lnk show ?thesis unfolding index_valid_def by blast
qed

theorem auth_chain_exact_witness:
  "\<exists>out fallback s'. GetAuthChainIDsWithFallback (\<lambda>x. x) authDb ''!r'' [''$m''] freshStore = (Inr (out, fallback), s') \<and>
     ''$c'' \<in> set out"
proof -
  let ?A = "{(''!r'', [''$m''])}"
  have "separates (\<lambda>x. x) ?A" "askable ?A" by (simp_all add: separates_def askable_def)
  moreover have "authHonest (\<lambda>x. x) authDb ?A freshStore"
    by (simp add: authHonest_def freshStore_inv freshStore_empty)
  moreover have "''$c'' \<in> authAncestors authDb {''$m''}"
    by (auto simp: authAncestors_def authDb_edges intro: trancl_into_trancl [of _ "''$b''"])
  ultimately show ?thesis
    using auth_chain_exact [OF authDb_valid, of "\<lambda>x. x" ?A "''!r''" "[''$m'']" freshStore] authDb_sel(4) by force
qed

end
