(* ===== verification/MissingEvents.thy ===== *)
theory MissingEvents
  imports StoreEvents
begin

text \<open>
  \<open>internal/store/missingevents.go\<close> and \<open>internal/store/room.go\<close>: the backwards walk over the event
  DAG behind \<open>/get_missing_events\<close>, and the live reads about rooms.
\<close>

section \<open>The walk\<close>

definition MaxMissingEvents :: int where
  "MaxMissingEvents = 20"

definition prevEvents :: "database \<Rightarrow> string \<Rightarrow> string \<Rightarrow> nat \<Rightarrow> (storeError, string list) result" where
  "prevEvents d eid room lim = queryRows d ''prev events'' (prevEventsQuery d eid room lim)"

record walk =
  seen :: "string set"
  nextFront :: "string list"
  results :: "string list"

definition visitPrev :: "string \<Rightarrow> walk \<Rightarrow> walk" where
  "visitPrev p w =
     (if p \<in> seen w then w
      else w\<lparr>seen := insert p (seen w), nextFront := nextFront w @ [p], results := results w @ [p]\<rparr>)"

fun visitFront :: "database \<Rightarrow> string \<Rightarrow> nat \<Rightarrow> string list \<Rightarrow> walk \<Rightarrow> (storeError, walk) result" where
  "visitFront d room lim [] w = Inr w"
| "visitFront d room lim (e # es) w =
     (if length (results w) \<ge> lim then Inr w
      else rbind (prevEvents d e room (lim - length (results w))) (\<lambda>prev.
        visitFront d room lim es (fold visitPrev prev w)))"

lemma visitPrev_results: "\<exists>ys. results (visitPrev p w) = results w @ ys \<and> nextFront (visitPrev p w) = nextFront w @ ys"
  by (auto simp: visitPrev_def)

lemma fold_visitPrev_results:
  "\<exists>ys. results (fold visitPrev ps w) = results w @ ys \<and> nextFront (fold visitPrev ps w) = nextFront w @ ys"
proof (induction ps arbitrary: w)
  case (Cons p ps)
  obtain ys where "results (visitPrev p w) = results w @ ys \<and> nextFront (visitPrev p w) = nextFront w @ ys"
    using visitPrev_results by blast
  moreover obtain zs where "results (fold visitPrev ps (visitPrev p w)) = results (visitPrev p w) @ zs \<and>
      nextFront (fold visitPrev ps (visitPrev p w)) = nextFront (visitPrev p w) @ zs" using Cons.IH by blast
  ultimately show ?case by (intro exI [of _ "ys @ zs"]) simp
qed simp

lemma visitFront_results:
  "visitFront d room lim es w = Inr w' \<Longrightarrow>
     \<exists>ys. results w' = results w @ ys \<and> nextFront w' = nextFront w @ ys"
proof (induction es arbitrary: w)
  case (Cons e es)
  show ?case
  proof (cases "length (results w) \<ge> lim")
    case False
    with Cons.prems obtain prev where rest: "visitFront d room lim es (fold visitPrev prev w) = Inr w'"
      by (auto simp: rbind_eq_Inr)
    from Cons.IH [OF rest] fold_visitPrev_results [of prev w] show ?thesis by auto
  qed (use Cons.prems in simp)
qed simp

text \<open>The outer loop; \<open>sort.Strings\<close> orders each frontier.\<close>

function walkLoop :: "database \<Rightarrow> string \<Rightarrow> nat \<Rightarrow> string list \<Rightarrow> walk \<Rightarrow> (storeError, string list) result" where
  "walkLoop d room lim front w =
     (if front = [] \<or> length (results w) \<ge> lim then Inr (results w)
      else case visitFront d room lim (sort front) (w\<lparr>nextFront := []\<rparr>) of
        Inl e \<Rightarrow> Inl e
      | Inr w' \<Rightarrow> walkLoop d room lim (nextFront w') w')"
  by pat_completeness auto
termination
proof (relation "measures [\<lambda>(_, _, lim, _, w). lim - length (results w), \<lambda>(_, _, _, f, _). if f = [] then 0 else 1]", goal_cases)
  case (2 d room lim front w w')
  then obtain ys where "results w' = results w @ ys" "nextFront w' = ys"
    using visitFront_results by fastforce
  with 2 show ?case by (cases ys) auto
qed simp

declare walkLoop.simps [simp del]

definition GetMissingEvents ::
  "database \<Rightarrow> string \<Rightarrow> string list \<Rightarrow> string list \<Rightarrow> int \<Rightarrow> (storeError, string list \<times> bool) result" where
  "GetMissingEvents d room earliest latest lim =
     (let lim = (if lim > MaxMissingEvents then MaxMissingEvents else lim) in
      if lim \<le> 0 then Inr ([], False)
      else
        let wanted = filter (\<lambda>i. i \<notin> set earliest) latest in
        if wanted = [] then Inr ([], False)
        else
          rbind (queryRows d ''missing events start'' (startEventsQuery d wanted room)) (\<lambda>front.
          rbind (walkLoop d room (nat lim) front \<lparr>seen = set earliest, nextFront = [], results = []\<rparr>) (\<lambda>res.
          Inr (rev res, int (length res) \<ge> lim))))"

section \<open>Invariant of the walk\<close>

text \<open>The DAG the walk follows: non-state edges to events held in the room, up to the earliest events.\<close>

definition fullPrevs :: "database \<Rightarrow> string \<Rightarrow> string \<Rightarrow> string list" where
  "fullPrevs d eid room =
     sort (concat (map (\<lambda>(_, p, _). map (\<lambda>_. p) (filter (\<lambda>e. ev_id e = p \<and> ev_room e = room) (t_events d)))
       (filter (\<lambda>(e, _, st). e = eid \<and> \<not> st) (t_event_edges d))))"

definition prevEdges :: "database \<Rightarrow> string \<Rightarrow> string set \<Rightarrow> (string \<times> string) set" where
  "prevEdges d room E = {(e, p). p \<in> set (fullPrevs d e room) \<and> p \<notin> E}"

lemma fullPrevs_mem:
  "p \<in> set (fullPrevs d e room) \<longleftrightarrow>
     (e, p, False) \<in> set (t_event_edges d) \<and> (\<exists>x \<in> set (t_events d). ev_id x = p \<and> ev_room x = room)"
  by (force simp: fullPrevs_def)

lemma prevEventsQuery_take: "prevEventsQuery d e room n = take n (fullPrevs d e room)"
  by (simp add: prevEventsQuery_def fullPrevs_def)

definition walkInv :: "database \<Rightarrow> string \<Rightarrow> string set \<Rightarrow> string set \<Rightarrow> nat \<Rightarrow> walk \<Rightarrow> bool" where
  "walkInv d room E S lim w \<longleftrightarrow>
     seen w = E \<union> set (results w) \<and> distinct (results w) \<and>
     length (results w) \<le> lim \<and> set (results w) \<subseteq> (prevEdges d room E)\<^sup>+ `` S"

lemma walkInv_fold:
  assumes "walkInv d room E S lim w" and "length ps + length (results w) \<le> lim"
    and "\<And>p. p \<in> set ps \<Longrightarrow> p \<in> E \<or> p \<in> (prevEdges d room E)\<^sup>+ `` S"
  shows "walkInv d room E S lim (fold visitPrev ps w) \<and> set ps \<subseteq> seen (fold visitPrev ps w) \<and> seen w \<subseteq> seen (fold visitPrev ps w)"
  using assms
proof (induction ps arbitrary: w)
  case (Cons p ps)
  have "p \<in> E \<or> p \<in> (prevEdges d room E)\<^sup>+ `` S" using Cons.prems(3) by simp
  then have "walkInv d room E S lim (visitPrev p w)"
    using Cons.prems(1,2) unfolding walkInv_def visitPrev_def by auto
  moreover have "length ps + length (results (visitPrev p w)) \<le> lim"
    using Cons.prems(2) by (auto simp: visitPrev_def)
  ultimately have ih: "walkInv d room E S lim (fold visitPrev ps (visitPrev p w)) \<and>
      set ps \<subseteq> seen (fold visitPrev ps (visitPrev p w)) \<and> seen (visitPrev p w) \<subseteq> seen (fold visitPrev ps (visitPrev p w))"
    using Cons.IH Cons.prems(3) by simp
  moreover have "insert p (seen w) \<subseteq> seen (visitPrev p w)" by (auto simp: visitPrev_def)
  ultimately show ?case by auto
qed simp

text \<open>
  The frontier loop.  When the walk is not cut short, neither by its limit nor by the limit of a
  statement, every predecessor of the frontier has been seen afterwards.
\<close>

lemma walkInv_front:
  assumes "visitFront d room lim es w = Inr w'" and "walkInv d room E S lim w"
    and "set es \<subseteq> (prevEdges d room E)\<^sup>* `` S"
  shows "walkInv d room E S lim w' \<and> seen w \<subseteq> seen w' \<and>
    (length (results w') < lim \<longrightarrow> (\<forall>e. length (fullPrevs d e room) \<le> lim - length (results w')) \<longrightarrow>
       (\<forall>e \<in> set es. set (fullPrevs d e room) \<subseteq> seen w'))"
  using assms
proof (induction es arbitrary: w)
  case (Cons e es)
  show ?case
  proof (cases "length (results w) \<ge> lim")
    case True
    with Cons.prems show ?thesis by simp
  next
    case False
    let ?n = "lim - length (results w)"
    from False Cons.prems(1) obtain prev where prev: "prevEvents d e room ?n = Inr prev"
      and rest: "visitFront d room lim es (fold visitPrev prev w) = Inr w'" by (auto simp: rbind_eq_Inr)
    from prev have p: "prev = take ?n (fullPrevs d e room)"
      unfolding prevEvents_def prevEventsQuery_take by (rule queryRows_Inr)
    have from_e: "q \<in> E \<or> q \<in> (prevEdges d room E)\<^sup>+ `` S" if "q \<in> set prev" for q
    proof -
      have "q \<in> set (fullPrevs d e room)" using p that in_set_takeD by fastforce
      then have "q \<in> E \<or> (e, q) \<in> prevEdges d room E" by (auto simp: prevEdges_def)
      with Cons.prems(3) show ?thesis by (auto intro: rtrancl_into_trancl1)
    qed
    have len: "length prev + length (results w) \<le> lim" using p False by simp
    note step = walkInv_fold [OF Cons.prems(2) len from_e]
    from Cons.IH [OF rest] step Cons.prems(3) have ih: "walkInv d room E S lim w'" "seen (fold visitPrev prev w) \<subseteq> seen w'"
      "length (results w') < lim \<longrightarrow> (\<forall>e. length (fullPrevs d e room) \<le> lim - length (results w')) \<longrightarrow>
         (\<forall>e \<in> set es. set (fullPrevs d e room) \<subseteq> seen w')" by auto
    have "length (results w) \<le> length (results w')"
      using visitFront_results [OF rest] fold_visitPrev_results [of prev w] by auto
    then have "prev = fullPrevs d e room" if "length (fullPrevs d e room) \<le> lim - length (results w')"
      using p that by simp
    with ih step show ?thesis by auto
  qed
qed simp

text \<open>The walk stopped below its limit and no statement can have been cut by its own.\<close>

definition uncut :: "database \<Rightarrow> string \<Rightarrow> nat \<Rightarrow> string list \<Rightarrow> bool" where
  "uncut d room lim res \<longleftrightarrow> length res < lim \<and> (\<forall>e. length (fullPrevs d e room) \<le> lim - length res)"

lemma walkLoop_extends: "walkLoop d room lim front w = Inr res \<Longrightarrow> \<exists>ys. res = results w @ ys"
proof (induction d room lim front w rule: walkLoop.induct)
  case (1 d room lim front w)
  show ?case
  proof (cases "front = [] \<or> length (results w) \<ge> lim")
    case True
    with 1(2) show ?thesis by (auto simp: walkLoop.simps [of d room lim front w])
  next
    case False
    with 1(2) obtain w' where w': "visitFront d room lim (sort front) (w\<lparr>nextFront := []\<rparr>) = Inr w'"
      and rest: "walkLoop d room lim (nextFront w') w' = Inr res"
      by (auto simp: walkLoop.simps [of d room lim front w] split: sum.splits)
    from 1(1) [OF False w' rest] visitFront_results [OF w'] show ?thesis by auto
  qed
qed

lemma walkInv_loop:
  assumes "walkLoop d room lim front w = Inr res" and "walkInv d room E S lim w"
    and "set front \<subseteq> S \<union> set (results w)"
    and "\<And>e. uncut d room lim res \<Longrightarrow> e \<in> S \<union> set (results w) \<Longrightarrow> e \<notin> set front \<Longrightarrow> set (fullPrevs d e room) \<subseteq> seen w"
  shows "distinct res \<and> length res \<le> lim \<and> set res \<subseteq> (prevEdges d room E)\<^sup>+ `` S \<and>
    (uncut d room lim res \<longrightarrow> (prevEdges d room E)\<^sup>+ `` S \<subseteq> set res)"
  using assms
proof (induction d room lim front w rule: walkLoop.induct)
  case (1 d room lim front w)
  show ?case
  proof (cases "front = [] \<or> length (results w) \<ge> lim")
    case True
    with 1(2) have res: "res = results w" by (auto simp: walkLoop.simps [of d room lim front w])
    have "y \<in> set (results w)"
      if "uncut d room lim res" and "x \<in> S" and "(x, y) \<in> (prevEdges d room E)\<^sup>+" for x y
    proof -
      have closed: "(e, q) \<in> prevEdges d room E \<Longrightarrow> e \<in> S \<union> set (results w) \<Longrightarrow> q \<in> set (results w)" for e q
        using True that(1) res 1(5) [of e] 1(3) by (auto simp: prevEdges_def walkInv_def uncut_def)
      from that(3) show ?thesis
        by (induction rule: trancl_induct) (use closed that(2) in blast)+
    qed
    with 1(3) res show ?thesis by (auto simp: walkInv_def)
  next
    case False
    with 1(2) obtain w' where w': "visitFront d room lim (sort front) (w\<lparr>nextFront := []\<rparr>) = Inr w'"
      and rest: "walkLoop d room lim (nextFront w') w' = Inr res"
      by (auto simp: walkLoop.simps [of d room lim front w] split: sum.splits)
    have "(prevEdges d room E)\<^sup>+ `` S \<union> S \<subseteq> (prevEdges d room E)\<^sup>* `` S" by (auto intro: trancl_into_rtrancl)
    then have "set (sort front) \<subseteq> (prevEdges d room E)\<^sup>* `` S"
      using 1(3,4) unfolding walkInv_def set_sort by blast
    moreover have "walkInv d room E S lim (w\<lparr>nextFront := []\<rparr>)" using 1(3) by (simp add: walkInv_def)
    ultimately have
      inv: "walkInv d room E S lim w'" "seen w \<subseteq> seen w'"
      "length (results w') < lim \<longrightarrow> (\<forall>e. length (fullPrevs d e room) \<le> lim - length (results w')) \<longrightarrow>
         (\<forall>e \<in> set front. set (fullPrevs d e room) \<subseteq> seen w')"
      using walkInv_front [OF w'] by simp_all
    obtain ys where ys: "results w' = results w @ ys" "nextFront w' = ys" using visitFront_results [OF w'] by auto
    have mono: "uncut d room lim res \<Longrightarrow> uncut d room lim (results w')"
      using walkLoop_extends [OF rest] by (auto simp: uncut_def intro: order_trans)
    show ?thesis
    proof (rule 1(1) [OF False w' rest inv(1)])
      show "set (nextFront w') \<subseteq> S \<union> set (results w')" using ys by auto
      fix e assume u: "uncut d room lim res" and e: "e \<in> S \<union> set (results w')" "e \<notin> set (nextFront w')"
      from e ys have "e \<in> S \<union> set (results w)" by auto
      with 1(5) [OF u] inv(2,3) mono [OF u] show "set (fullPrevs d e room) \<subseteq> seen w'"
        by (cases "e \<in> set front") (auto simp: uncut_def)
    qed
  qed
qed

section \<open>Properties of the walk\<close>

text \<open>The events the walk starts from: the latest events held in the room, less the earliest.\<close>

definition startSet :: "database \<Rightarrow> string \<Rightarrow> string list \<Rightarrow> string list \<Rightarrow> string set" where
  "startSet d room earliest latest =
     {i. i \<in> set latest \<and> i \<notin> set earliest \<and> (\<exists>e \<in> set (t_events d). ev_id e = i \<and> ev_room e = room)}"

lemma startEventsQuery_set:
  "set (startEventsQuery d (filter (\<lambda>i. i \<notin> set earliest) latest) room) = startSet d room earliest latest"
  by (auto simp: startEventsQuery_def startSet_def)

text \<open>C16. The walk behind \<open>/get_missing_events\<close> is bounded and sound: it returns at most
  \<open>min limit 20\<close> events, without repetition, none of them among the earliest events, each held in
  the room and reached from a latest event over previous-event edges that do not pass an earliest
  event; it reports truncation exactly when it is full; and when it is not truncated and no event
  has more predecessors than there was room left, it returns all such events.\<close>

theorem missing_events_sound:
  assumes "GetMissingEvents d room earliest latest lim = Inr (out, truncated)"
  shows "distinct out \<and> int (length out) \<le> max 0 (min lim 20) \<and> set out \<inter> set earliest = {} \<and>
    set out \<subseteq> (prevEdges d room (set earliest))\<^sup>+ `` startSet d room earliest latest \<and>
    (truncated \<longleftrightarrow> 0 < lim \<and> int (length out) = min lim 20) \<and>
    (0 < lim \<longrightarrow> uncut d room (nat (min lim 20)) out \<longrightarrow>
       set out = (prevEdges d room (set earliest))\<^sup>+ `` startSet d room earliest latest)"
proof -
  let ?l = "min lim 20" and ?S = "startSet d room earliest latest" and ?E = "set earliest"
  consider "lim \<le> 0" "out = []" "\<not> truncated"
    | "0 < lim" "filter (\<lambda>i. i \<notin> ?E) latest = []" "out = []" "\<not> truncated"
    | res where "0 < lim" "walkLoop d room (nat ?l) (startEventsQuery d (filter (\<lambda>i. i \<notin> ?E) latest) room)
          \<lparr>seen = ?E, nextFront = [], results = []\<rparr> = Inr res" "out = rev res" "truncated \<longleftrightarrow> int (length res) \<ge> ?l"
    using assms by (auto simp: GetMissingEvents_def MaxMissingEvents_def Let_def rbind_eq_Inr min_def
        dest!: queryRows_Inr split: if_splits)
  then show ?thesis
  proof cases
    case 2
    then have "?S = {}" by (auto simp: startSet_def filter_empty_conv)
    with 2 show ?thesis by simp
  next
    case 3
    have "distinct res \<and> length res \<le> nat ?l \<and> set res \<subseteq> (prevEdges d room ?E)\<^sup>+ `` ?S \<and>
        (uncut d room (nat ?l) res \<longrightarrow> (prevEdges d room ?E)\<^sup>+ `` ?S \<subseteq> set res)"
      using walkInv_loop [OF 3(2), of ?E ?S] by (simp add: walkInv_def startEventsQuery_set)
    moreover have "(prevEdges d room ?E)\<^sup>+ `` ?S \<inter> ?E = {}"
      by (auto elim: tranclE simp: prevEdges_def)
    moreover have "uncut d room (nat ?l) (rev res) \<longleftrightarrow> uncut d room (nat ?l) res" by (simp add: uncut_def)
    ultimately show ?thesis using 3(1,3,4) by auto
  qed simp
qed

definition dagDb :: database where
  "dagDb = sampleDb\<lparr>
     t_events := map (\<lambda>i. \<lparr>ev_id = i, ev_room = ''!r'', ev_type = ''m.room.message'', ev_state_key = None,
       ev_sender = ''@u:a'', ev_outlier = False, ev_stream = 1\<rparr>) [''$a'', ''$b'', ''$c'', ''$d''],
     t_event_edges := [(''$c'', ''$b'', False), (''$b'', ''$a'', False), (''$d'', ''$a'', False), (''$d'', ''$b'', False), (''$d'', ''$c'', False)]\<rparr>"

lemma dagDb_run: "GetMissingEvents dagDb ''!r'' [''$a''] [''$c''] 10 = Inr ([''$b''], False)"
  by (code_simp)

theorem missing_events_sound_witness:
  "set [''$b''] \<subseteq> (prevEdges dagDb ''!r'' {''$a''})\<^sup>+ `` startSet dagDb ''!r'' [''$a''] [''$c'']"
  using missing_events_sound [OF dagDb_run] by simp

text \<open>
  The statement's own limit counts predecessors that are dropped afterwards because they were seen:
  here \<open>$c\<close> is never fetched, and the walk still reports that it was not truncated.
\<close>

lemma missing_events_limit_gap:
  "GetMissingEvents dagDb ''!r'' [''$a'', ''$b''] [''$d''] 2 = Inr ([], False) \<and>
   (''$d'', ''$c'') \<in> prevEdges dagDb ''!r'' {''$a'', ''$b''}"
proof
  show "GetMissingEvents dagDb ''!r'' [''$a'', ''$b''] [''$d''] 2 = Inr ([], False)" by code_simp
  show "(''$d'', ''$c'') \<in> prevEdges dagDb ''!r'' {''$a'', ''$b''}"
    by (simp add: prevEdges_def fullPrevs_mem dagDb_def)
qed

text \<open>A walk that ends at the end of the DAG with exactly \<open>limit\<close> events reports truncation.\<close>

lemma missing_events_exact_limit:
  "GetMissingEvents dagDb ''!r'' [] [''$c''] 2 = Inr ([''$a'', ''$b''], True) \<and>
   (prevEdges dagDb ''!r'' {})\<^sup>+ `` {''$c''} \<subseteq> {''$a'', ''$b''}"
proof
  show "GetMissingEvents dagDb ''!r'' [] [''$c''] 2 = Inr ([''$a'', ''$b''], True)" by code_simp
  have "y \<in> {''$a'', ''$b''}" if "(x, y) \<in> (prevEdges dagDb ''!r'' {})\<^sup>+" "x = ''$c''" for x y
    using that by (induction rule: trancl_induct) (auto simp: prevEdges_def fullPrevs_mem dagDb_def)
  then show "(prevEdges dagDb ''!r'' {})\<^sup>+ `` {''$c''} \<subseteq> {''$a'', ''$b''}" by auto
qed

section \<open>Rooms\<close>

record RoomInfo =
  riVersion :: string
  HasAuthChainIndex :: bool

definition GetRoomInfo :: "database \<Rightarrow> string \<Rightarrow> (storeError, RoomInfo) result" where
  "GetRoomInfo d room =
     rbind (queryRow d ''get room info'' (filter (\<lambda>(i, _, _). i = room) (t_rooms d))) (\<lambda>r.
       case r of
         None \<Rightarrow> Inl ErrNotFound
       | Some (_, version, indexed) \<Rightarrow>
           Inr \<lparr>riVersion = (case version of None \<Rightarrow> '''' | Some v \<Rightarrow> v), HasAuthChainIndex = (indexed = Some True)\<rparr>)"

definition domainFromID :: "string \<Rightarrow> string" where
  "domainFromID i = (case cut (CHR '':'') i of (_, None) \<Rightarrow> '''' | (_, Some dm) \<Rightarrow> dm)"

definition IsHostInRoom :: "database \<Rightarrow> string \<Rightarrow> string \<Rightarrow> (storeError, bool) result" where
  "IsHostInRoom d room host =
     (if containsAny host ''%_'' then Inl (InvalidName host)
      else rbind (queryRow d ''is host in room'' (joinedQuery d room host)) (\<lambda>r.
        case r of
          None \<Rightarrow> Inr False
        | Some userID \<Rightarrow> if domainFromID userID \<noteq> host then Inl (InvalidName userID) else Inr True))"

definition IsPartialStateRoom :: "database \<Rightarrow> string \<Rightarrow> (storeError, bool) result" where
  "IsPartialStateRoom d room =
     rbind (queryRow d ''is partial state room'' (filter (\<lambda>r. r = room) (t_partial d))) (\<lambda>r. Inr (r \<noteq> None))"

definition GetCurrentStateEvent :: "database \<Rightarrow> string \<Rightarrow> string \<Rightarrow> string \<Rightarrow> (storeError, string \<times> raw) result" where
  "GetCurrentStateEvent d room typ key =
     rbind (queryRow d ''get current state event'' (currentEventQuery d room typ key)) (\<lambda>r.
       case r of None \<Rightarrow> Inl ErrNotFound | Some p \<Rightarrow> Inr p)"

definition GetCurrentStateEventJSON :: "database \<Rightarrow> string \<Rightarrow> string \<Rightarrow> string \<Rightarrow> (storeError, raw) result" where
  "GetCurrentStateEventJSON d room typ key = rbind (GetCurrentStateEvent d room typ key) (\<lambda>p. Inr (snd p))"

definition GetServerKeys :: "database \<Rightarrow> string \<Rightarrow> int \<Rightarrow> (storeError, ServerKeyJSON list) result" where
  "GetServerKeys d server validAt = queryRows d ''get server keys'' (serverKeysQuery d server validAt)"

text \<open>A member of a server: a joined user whose domain is exactly the server's name.\<close>

definition joinedFrom :: "database \<Rightarrow> string \<Rightarrow> string \<Rightarrow> string \<Rightarrow> bool" where
  "joinedFrom d room host u \<longleftrightarrow>
     (\<exists>c \<in> set (t_current d). cs_room c = room \<and> cs_type c = ''m.room.member'' \<and>
        cs_membership c = Some ''join'' \<and> cs_key c = u) \<and> domainFromID u = host \<and> CHR '':'' \<in> set u"

lemma domain_suffix:
  assumes "domainFromID u = host" and "CHR '':'' \<in> set u"
  shows "hasSuffix u (CHR '':'' # host)"
proof -
  obtain a b where "cut (CHR '':'') u = (a, Some b)"
    using assms(2) cut_None [of "CHR '':''" u] by (cases "cut (CHR '':'') u") (auto simp: not_None_eq)
  with cut_Some [of "CHR '':''" u a b] assms(1) show ?thesis by (auto simp: domainFromID_def hasSuffix_iff)
qed

lemma domainFromID_colon: "domainFromID u \<noteq> '''' \<Longrightarrow> CHR '':'' \<in> set u"
  using cut_None [of "CHR '':''" u] by (auto simp: domainFromID_def split: prod.splits option.splits)

text \<open>The membership gate is safe: whatever the database holds, a server is said to be in a room
  only if a user of exactly that server is joined to it, and is said not to be in it only if no such
  user is; on a malformed user ID or a database fault the check fails instead of answering.\<close>

theorem IsHostInRoom_safe:
  assumes "host \<noteq> ''''"
  shows "(IsHostInRoom d room host = Inr True \<longrightarrow> (\<exists>u. joinedFrom d room host u)) \<and>
    (IsHostInRoom d room host = Inr False \<longrightarrow> (\<nexists>u. joinedFrom d room host u))"
proof (intro conjI impI notI)
  assume "IsHostInRoom d room host = Inr True"
  then obtain u where q: "queryRow d ''is host in room'' (joinedQuery d room host) = Inr (Some u)"
    and dom: "domainFromID u = host"
    by (auto simp: IsHostInRoom_def rbind_eq_Inr split: if_splits option.splits)
  then have "u \<in> set (joinedQuery d room host)" by (auto dest!: queryRow_Inr split: list.splits)
  with dom assms domainFromID_colon [of u] show "\<exists>u. joinedFrom d room host u"
    by (auto simp: joinedQuery_def joinedFrom_def)
next
  assume f: "IsHostInRoom d room host = Inr False" and "\<exists>u. joinedFrom d room host u"
  then obtain u where u: "joinedFrom d room host u" by blast
  from f obtain r where "queryRow d ''is host in room'' (joinedQuery d room host) = Inr r"
    and "(case r of None \<Rightarrow> Inr False | Some u \<Rightarrow> if domainFromID u \<noteq> host then Inl (InvalidName u) else Inr True) = Inr False"
    by (auto simp: IsHostInRoom_def rbind_eq_Inr split: if_splits)
  then have "queryRow d ''is host in room'' (joinedQuery d room host) = Inr None"
    by (cases r) (auto split: if_splits)
  then have "joinedQuery d room host = []" by (auto dest!: queryRow_Inr split: list.splits)
  moreover have "u \<in> set (joinedQuery d room host)"
    using u domain_suffix [of u host] by (auto simp: joinedFrom_def joinedQuery_def)
  ultimately show False by simp
qed

definition joinDb :: database where
  "joinDb = sampleDb\<lparr>t_current :=
     [\<lparr>cs_event = ''$1'', cs_room = ''!r'', cs_type = ''m.room.member'', cs_key = ''@a:b:srv'', cs_membership = Some ''join''\<rparr>,
      \<lparr>cs_event = ''$2'', cs_room = ''!r'', cs_type = ''m.room.member'', cs_key = ''@u:srv'', cs_membership = Some ''join''\<rparr>,
      \<lparr>cs_event = ''$3'', cs_room = ''!q'', cs_type = ''m.room.member'', cs_key = ''@u:srv'', cs_membership = Some ''join''\<rparr>]\<rparr>"

theorem IsHostInRoom_safe_witness:
  "IsHostInRoom joinDb ''!q'' ''srv'' = Inr True \<and> (\<exists>u. joinedFrom joinDb ''!q'' ''srv'' u)"
proof -
  have "IsHostInRoom joinDb ''!q'' ''srv'' = Inr True" by code_simp
  with IsHostInRoom_safe [of "''srv''" joinDb "''!q''"] show ?thesis by simp
qed

text \<open>
  The statement returns one row of those its pattern matches, so a malformed member such as
  \<open>@a:b:srv\<close> can hide a genuine one, and the check fails.
\<close>

lemma IsHostInRoom_hidden:
  "IsHostInRoom joinDb ''!r'' ''srv'' = Inl (InvalidName ''@a:b:srv'') \<and> joinedFrom joinDb ''!r'' ''srv'' ''@u:srv''"
proof
  show "IsHostInRoom joinDb ''!r'' ''srv'' = Inl (InvalidName ''@a:b:srv'')" by code_simp
  show "joinedFrom joinDb ''!r'' ''srv'' ''@u:srv''"
    by (simp add: joinedFrom_def joinDb_def domainFromID_def)
qed

text \<open>Server keys are returned newest first and only while they are valid.\<close>

theorem GetServerKeys_sorted:
  assumes "GetServerKeys d server validAt = Inr ks"
  shows "sorted (rev (map ValidUntilMS ks)) \<and>
    (\<forall>k. k \<in> set ks \<longleftrightarrow> (server, k) \<in> set (t_keys d) \<and> validAt < ValidUntilMS k)"
proof -
  have "ks = serverKeysQuery d server validAt"
    using assms unfolding GetServerKeys_def by (rule queryRows_Inr)
  then show ?thesis
    by (auto simp: serverKeysQuery_def rev_map image_iff intro!: bexI [of _ "(server, _)"])
qed

theorem GetServerKeys_sorted_witness:
  "\<exists>ks. GetServerKeys joinDb ''a'' 5 = Inr ks \<and> sorted (rev (map ValidUntilMS ks))"
proof -
  have "noFaults joinDb" by (simp add: noFaults_def joinDb_def sampleDb_def)
  then obtain ks where ks: "GetServerKeys joinDb ''a'' 5 = Inr ks" by (simp add: GetServerKeys_def)
  with GetServerKeys_sorted [OF ks] show ?thesis by blast
qed

end
