(* ===== verification/Resolver.thy ===== *)
theory Resolver
  imports PduJson StoreState AuthChain MissingEvents
begin

text \<open>
  \<open>internal/matrixstate\<close>: the resolver that answers the federation read endpoints
  (\<open>stateids.go\<close>, \<open>event.go\<close>, \<open>missingevents.go\<close>).  Its state is the store's caches and the
  cache of parsed ACLs; the database, the JSON libraries, the hash and the clock are parameters.
\<close>

section \<open>State and errors\<close>

record resolver =
  rstore :: store
  acls :: "(string, ServerACL option) LRU"

text \<open>
  What an operation returns as its error: a Matrix error, \<open>ErrEventNotFound\<close>, an error of the store
  wrapped with a message, and an error of the JSON libraries.
\<close>

datatype resolverError =
    MErr MatrixError
  | ErrEventNotFound
  | StoreErr string storeError
  | PduErr string string

type_synonym 'a resolverOp = "(resolver, resolverError, 'a) comp"

text \<open>A store call whose error the caller inspects, one whose error it wraps, and one that only reads
  the database.\<close>

definition attempt :: "'a storeOp \<Rightarrow> (storeError, 'a) result resolverOp" where
  "attempt m r = (Inr (fst (m (rstore r))), r\<lparr>rstore := snd (m (rstore r))\<rparr>)"

definition onStore :: "string \<Rightarrow> 'a storeOp \<Rightarrow> 'a resolverOp" where
  "onStore msg m r =
     ((case fst (m (rstore r)) of Inl e \<Rightarrow> Inl (StoreErr msg e) | Inr a \<Rightarrow> Inr a), r\<lparr>rstore := snd (m (rstore r))\<rparr>)"

definition asks :: "string \<Rightarrow> (storeError, 'a) result \<Rightarrow> 'a resolverOp" where
  "asks msg x = lift (case x of Inl e \<Rightarrow> Inl (StoreErr msg e) | Inr a \<Rightarrow> Inr a)"

definition pdu :: "string \<Rightarrow> (string, 'a) result \<Rightarrow> 'a resolverOp" where
  "pdu msg x = lift (case x of Inl e \<Rightarrow> Inl (PduErr msg e) | Inr a \<Rightarrow> Inr a)"

text \<open>The length of a compiled pattern's text, which only its cache size counts, is a parameter.\<close>

definition sizeOfACL :: "(piece list \<Rightarrow> nat) \<Rightarrow> ServerACL option \<Rightarrow> int" where
  "sizeOfACL reLen acl =
     (case acl of None \<Rightarrow> 64
      | Some a \<Rightarrow> 128 + sum_list (map (\<lambda>re. int (reLen re) + 256) (allow a))
          + sum_list (map (\<lambda>re. int (reLen re) + 256) (deny a)))"

definition NewResolver :: "(piece list \<Rightarrow> nat) \<Rightarrow> store \<Rightarrow> resolver" where
  "NewResolver reLen s = \<lparr>rstore = s, acls = NewLRU ''server_acls'' (MB 8) (sizeOfACL reLen)\<rparr>"

section \<open>Access\<close>

definition serverACL :: "database \<Rightarrow> string \<Rightarrow> ServerACL option resolverOp" where
  "serverACL d roomID r =
     (case GetCurrentStateEvent d roomID ''m.room.server_acl'' '''' of
        Inl ErrNotFound \<Rightarrow> (Inr None, r)
      | Inl e \<Rightarrow> (Inl (StoreErr ''load server acl'' e), r)
      | Inr (eventID, body) \<Rightarrow>
          (case Get eventID (acls r) of
             (Some acl, c) \<Rightarrow> (Inr acl, r\<lparr>acls := c\<rparr>)
           | (None, c) \<Rightarrow> (Inr (ParseServerACL body), r\<lparr>acls := Add eventID (ParseServerACL body) c\<rparr>)))"

definition checkAccess :: "database \<Rightarrow> string \<Rightarrow> string \<Rightarrow> unit resolverOp" where
  "checkAccess d origin roomID =
     bnd (asks ''partial state check'' (IsPartialStateRoom d roomID)) (\<lambda>partial.
     if partial then failwith (MErr errPartialState)
     else bnd (asks ''membership check'' (IsHostInRoom d roomID origin)) (\<lambda>inRoom.
     if \<not> inRoom then failwith (MErr errHostNotInRoom)
     else bnd (serverACL d roomID) (\<lambda>acl.
     if \<not> Allowed acl origin then failwith (MErr errServerBanned) else ret ())))"

section \<open>State identifiers\<close>

record StateIDsResponse =
  PDUIDs :: "string list"
  AuthChainIDs :: "string list"

text \<open>The loop that turns the state at an event into the state before it.\<close>

fun stateBefore :: "StateKey option \<Rightarrow> string \<Rightarrow> (StateKey \<times> string) list \<Rightarrow> string list" where
  "stateBefore skip replacement [] = []"
| "stateBefore skip replacement ((key, eid) # rest) =
     (if skip = Some key then
        (if replacement \<noteq> '''' then [replacement] else []) @ stateBefore skip replacement rest
      else eid # stateBefore skip replacement rest)"

definition stateIDsForEvent :: "database \<Rightarrow> string \<Rightarrow> string \<Rightarrow> string list resolverOp" where
  "stateIDsForEvent d roomID eventID =
     bnd (attempt (GetEvent d eventID)) (\<lambda>res.
     case res of
       Inl ErrNotFound \<Rightarrow> failwith (MErr (errEventNotFound eventID))
     | Inl e \<Rightarrow> failwith (StoreErr ''get event'' e)
     | Inr ev \<Rightarrow>
         if RoomID ev \<noteq> roomID then failwith (MErr (errEventNotInRoom eventID roomID))
         else if RejectedReason ev \<noteq> '''' then failwith (MErr (errEventNotFound eventID))
         else if Outlier ev then failwith (MErr (errStateNotKnown eventID))
         else
           bnd (attempt (GetStateGroupForEvent d eventID)) (\<lambda>grp.
           case grp of
             Inl ErrNotFound \<Rightarrow> failwith (MErr (errStateNotKnown eventID))
           | Inl e \<Rightarrow> failwith (StoreErr ''state group'' e)
           | Inr g \<Rightarrow>
               bnd (onStore ''state for group'' (GetStateForGroup d g)) (\<lambda>state.
               ret (stateBefore
                 (case EStateKey ev of None \<Rightarrow> None | Some k \<Rightarrow> Some \<lparr>Type = EType ev, StateKey = k\<rparr>)
                 (if IsStateEvent ev then replacesState (EJSON ev) else '''') state))))"

definition computeStateIDs :: "(string \<Rightarrow> string) \<Rightarrow> database \<Rightarrow> string \<Rightarrow> string \<Rightarrow> StateIDsResponse resolverOp" where
  "computeStateIDs sha256 d roomID eventID =
     bnd (stateIDsForEvent d roomID eventID) (\<lambda>ids.
     bnd (onStore ''auth chain'' (GetAuthChainIDsWithFallback sha256 d roomID ids)) (\<lambda>(chain, _).
     ret \<lparr>PDUIDs = ids, AuthChainIDs = chain\<rparr>))"

text \<open>\<open>StateIDs\<close> for one caller whose computation runs to its end; how concurrent callers share it is
  the subject of another theory.\<close>

definition StateIDs :: "(string \<Rightarrow> string) \<Rightarrow> database \<Rightarrow> string \<Rightarrow> string \<Rightarrow> string \<Rightarrow> StateIDsResponse resolverOp" where
  "StateIDs sha256 d origin roomID eventID =
     bnd (checkAccess d origin roomID) (\<lambda>_. computeStateIDs sha256 d roomID eventID)"

section \<open>Single events\<close>

definition historyVisibilityType :: string where
  "historyVisibilityType = ''m.room.history_visibility''"

definition visibilityAt :: "database \<Rightarrow> Event \<Rightarrow> string \<Rightarrow> (string \<times> Membership list) resolverOp" where
  "visibilityAt d ev targetServer =
     (if Outlier ev then ret (HistoryVisibilityShared, [])
      else
        bnd (attempt (GetStateGroupForEvent d (EventID ev))) (\<lambda>grp.
        case grp of
          Inl ErrNotFound \<Rightarrow> ret (HistoryVisibilityShared, [])
        | Inl e \<Rightarrow> failwith (StoreErr ''state group'' e)
        | Inr g \<Rightarrow>
            bnd (onStore ''history visibility state'' (GetFilteredStateForGroup d g [historyVisibilityType])) (\<lambda>state.
            bnd (case gget state \<lparr>Type = historyVisibilityType, StateKey = ''''\<rparr> of
                   None \<Rightarrow> ret HistoryVisibilityShared
                 | Some visEventID \<Rightarrow>
                     bnd (attempt (GetEvent d visEventID)) (\<lambda>res.
                     ret (case res of
                            Inl _ \<Rightarrow> HistoryVisibilityShared
                          | Inr visEvent \<Rightarrow>
                              (let v = historyVisibilityOf (EJSON visEvent) in
                               if v \<noteq> '''' then v else HistoryVisibilityShared)))) (\<lambda>vis.
            if vis \<noteq> HistoryVisibilityInvited \<and> vis \<noteq> HistoryVisibilityJoined then ret (vis, [])
            else
              bnd (onStore ''membership state'' (GetServerMembershipStateForGroup d g targetServer)) (\<lambda>memberState.
              let mine = filter (\<lambda>(key, _). serverOf (StateKey key) = targetServer) memberState;
                  ids = map snd mine;
                  keyOf = gofold (\<lambda>(key, eid). (eid, StateKey key)) mine in
              if ids = [] then ret (vis, [])
              else
                bnd (onStore ''membership events'' (GetEvents d ids)) (\<lambda>evs.
                ret (vis, map (\<lambda>(evID, e). \<lparr>mUserID = (case gget keyOf evID of None \<Rightarrow> '''' | Some u \<Rightarrow> u),
                                           mMembership = membershipOf (EJSON e)\<rparr>) evs)))))))"

definition eventVisibleInRoom :: "database \<Rightarrow> Event \<Rightarrow> string \<Rightarrow> string \<Rightarrow> bool \<Rightarrow> bool resolverOp" where
  "eventVisibleInRoom d ev targetServer localServer partialStateRoom =
     bnd (pdu '''' (senderOf (EJSON ev))) (\<lambda>sender.
     bnd (asks ''erased users'' (AreUsersErased d [sender])) (\<lambda>erased.
     let partialStateInvisible = (partialStateRoom \<and> serverOf sender \<noteq> localServer) in
     bnd (visibilityAt d ev targetServer) (\<lambda>(vis, memberships).
     ret (eventVisibleToServer sender targetServer vis erased partialStateInvisible memberships))))"

definition eventVisible :: "database \<Rightarrow> Event \<Rightarrow> string \<Rightarrow> string \<Rightarrow> bool resolverOp" where
  "eventVisible d ev targetServer localServer = eventVisibleInRoom d ev targetServer localServer False"

record TransactionResponse =
  Origin :: string
  OriginServerTS :: int
  PDUs :: "raw list"

definition resolveEvent :: "lib \<Rightarrow> database \<Rightarrow> int \<Rightarrow> string \<Rightarrow> string \<Rightarrow> string \<Rightarrow> TransactionResponse resolverOp" where
  "resolveEvent lb d now origin serverName eventID =
     bnd (attempt (GetEvent d eventID)) (\<lambda>res.
     case res of
       Inl ErrNotFound \<Rightarrow> failwith ErrEventNotFound
     | Inl e \<Rightarrow> failwith (StoreErr ''get event'' e)
     | Inr ev \<Rightarrow>
         bnd (asks ''partial state check'' (IsPartialStateRoom d (RoomID ev))) (\<lambda>partial.
         if partial then failwith (MErr errPartialState)
         else bnd (asks ''membership check'' (IsHostInRoom d (RoomID ev) origin)) (\<lambda>inRoom.
         if \<not> inRoom then failwith (MErr errHostNotInRoom)
         else bnd (eventVisible d ev origin serverName) (\<lambda>visible.
         bnd (pdu ''redact event'' (if IsRedacted ev \<or> \<not> visible then redactEvent lb ev else Inr (EJSON ev))) (\<lambda>body.
         bnd (pdu ''prepare pdu'' (applyPDUJSONRules lb body now)) (\<lambda>body.
         ret \<lparr>Origin = serverName, OriginServerTS = now, PDUs = [body]\<rparr>))))))"

section \<open>Missing events\<close>

record MissingEventsResponse =
  Events :: "raw list"
  WalkTruncated :: bool

definition missingEventBody :: "lib \<Rightarrow> database \<Rightarrow> Event \<Rightarrow> string \<Rightarrow> string \<Rightarrow> bool \<Rightarrow> int \<Rightarrow> raw resolverOp" where
  "missingEventBody lb d ev origin serverName partialStateRoom nowMS =
     bnd (eventVisibleInRoom d ev origin serverName partialStateRoom) (\<lambda>visible.
     bnd (pdu (''redact '' @ EventID ev) (if IsRedacted ev \<or> \<not> visible then redactEvent lb ev else Inr (EJSON ev))) (\<lambda>body.
     pdu (''prepare pdu '' @ EventID ev) (applyPDUJSONRules lb body nowMS)))"

fun missingBodies :: "lib \<Rightarrow> database \<Rightarrow> string \<Rightarrow> string \<Rightarrow> bool \<Rightarrow> int \<Rightarrow> eventMap \<Rightarrow> (string, bool) gomap
    \<Rightarrow> string list \<Rightarrow> raw list resolverOp" where
  "missingBodies lb d origin serverName partial now evs withheld [] = ret []"
| "missingBodies lb d origin serverName partial now evs withheld (eid # ids) =
     (case gget evs eid of
        None \<Rightarrow> missingBodies lb d origin serverName partial now evs withheld ids
      | Some ev \<Rightarrow>
          if RejectedReason ev \<noteq> '''' \<or> gget withheld eid = Some True then
            missingBodies lb d origin serverName partial now evs withheld ids
          else
            bnd (missingEventBody lb d ev origin serverName partial now) (\<lambda>body.
            bnd (missingBodies lb d origin serverName partial now evs withheld ids) (\<lambda>out.
            ret (if depthInCanonicalRange body then body # out else out))))"

definition resolveMissingEvents :: "lib \<Rightarrow> database \<Rightarrow> int \<Rightarrow> string \<Rightarrow> string \<Rightarrow> string \<Rightarrow> string list \<Rightarrow> string list
    \<Rightarrow> int \<Rightarrow> MissingEventsResponse resolverOp" where
  "resolveMissingEvents lb d now origin serverName roomID earliest latest limit =
     bnd (serverACL d roomID) (\<lambda>acl.
     if \<not> Allowed acl origin then failwith (MErr errServerBanned)
     else bnd (asks ''membership check'' (IsHostInRoom d roomID origin)) (\<lambda>inRoom.
     if \<not> inRoom then failwith (MErr errHostNotInRoom)
     else bnd (asks ''partial state check'' (IsPartialStateRoom d roomID)) (\<lambda>partial.
     bnd (asks ''missing events'' (GetMissingEvents d roomID earliest latest limit)) (\<lambda>(ids, truncated).
     bnd (onStore ''get events'' (GetEvents d ids)) (\<lambda>evs.
     bnd (asks ''redaction authorisation'' (WithheldRedactions lb d evs)) (\<lambda>withheld.
     bnd (missingBodies lb d origin serverName partial now evs withheld ids) (\<lambda>out.
     ret \<lparr>Events = out, WalkTruncated = truncated\<rparr>)))))))"

section \<open>Reasoning about operations\<close>

text \<open>
  \<open>meets I m R\<close>: from a state that satisfies the invariant, the operation keeps it and its result,
  a value or an error, satisfies \<open>R\<close>.
\<close>

definition meets :: "('s \<Rightarrow> bool) \<Rightarrow> ('s, 'e, 'a) comp \<Rightarrow> (('e, 'a) result \<Rightarrow> bool) \<Rightarrow> bool" where
  "meets I m R \<longleftrightarrow> (\<forall>s. I s \<longrightarrow> I (snd (m s)) \<and> R (fst (m s)))"

lemma meets_bnd:
  assumes "meets I m R" and "\<And>a. R (Inr a) \<Longrightarrow> meets I (f a) Q" and "\<And>e. R (Inl e) \<Longrightarrow> Q (Inl e)"
  shows "meets I (bnd m f) Q"
  unfolding meets_def
proof (intro allI impI)
  fix s
  assume "I s"
  then have r: "I (snd (m s))" "R (fst (m s))" using assms(1) by (auto simp: meets_def)
  show "I (snd (bnd m f s)) \<and> Q (fst (bnd m f s))"
  proof (cases "fst (m s)")
    case (Inl e)
    with r assms(3) show ?thesis by (simp add: bnd_run)
  next
    case (Inr a)
    with r assms(2) [of a] show ?thesis by (simp add: bnd_run meets_def)
  qed
qed

lemma meets_simps [simp]:
  "Q (Inr a) \<Longrightarrow> meets I (ret a) Q"
  "Q (Inl e) \<Longrightarrow> meets I (failwith e) Q"
  "Q r \<Longrightarrow> meets I (lift r) Q"
  "Q r \<Longrightarrow> meets I (Pair r) Q"
  by (simp_all add: meets_def)

lemma meets_weaken: "meets I m R \<Longrightarrow> (\<And>x. R x \<Longrightarrow> Q x) \<Longrightarrow> meets I m Q"
  by (auto simp: meets_def)

lemma meets_conj: "meets I m R \<Longrightarrow> meets I m Q \<Longrightarrow> meets I m (\<lambda>x. R x \<and> Q x)"
  by (auto simp: meets_def)

lemma meets_result: "meets I m R \<Longrightarrow> I s \<Longrightarrow> R (fst (m s))"
  by (simp add: meets_def)

text \<open>A computation whose result is known: the error is the result, the value goes on.\<close>

lemma meets_bnd_eq:
  assumes "meets I m (\<lambda>x. x = v)" and "\<And>a. v = Inr a \<Longrightarrow> meets I (f a) Q" and "\<And>e. v = Inl e \<Longrightarrow> Q (Inl e)"
  shows "meets I (bnd m f) Q"
  by (rule meets_bnd [OF assms(1)]) (use assms(2,3) in auto)

section \<open>Honest resolvers\<close>

definition aclTruth :: "database \<Rightarrow> string \<Rightarrow> ServerACL option option" where
  "aclTruth d eid = map_option (\<lambda>j. ParseServerACL (ej_json j)) (find (\<lambda>j. ej_id j = eid) (t_event_json d))"

text \<open>
  The ACL cache is never invalidated, and is only asked for the event that is the current one: it
  may still hold an ACL event the database has since deleted, but not another parse of one it has.
\<close>

definition aclHonest :: "database \<Rightarrow> (string, ServerACL option) LRU \<Rightarrow> bool" where
  "aclHonest d c \<longleftrightarrow> lru_inv c \<and> (\<forall>eid v. contents c eid = Some v \<longrightarrow> aclTruth d eid \<in> {None, Some v})"

lemma aclHonest_Get:
  assumes "aclHonest d c" and "Get eid c = (hit, c')" and "aclTruth d eid = Some v"
  shows "aclHonest d c' \<and> hit \<in> {None, Some v}"
proof -
  have inv: "lru_inv c" using assms(1) by (simp add: aclHonest_def)
  have "lru_inv c'" "contents c' = contents c"
    using lru_inv_Get [OF inv, of eid] contents_Get [OF inv, of eid] assms(2) by auto
  moreover have "contents c eid = Some w" if "hit = Some w" for w
    using lru.get_hit [OF inv, of eid w] assms(2) that by simp
  ultimately show ?thesis using assms(1,3)
    by (cases hit) (simp_all add: aclHonest_def, metis option.discI option.inject)
qed

lemma aclHonest_Add:
  assumes "aclHonest d c" and "aclTruth d eid = Some v" shows "aclHonest d (Add eid v c)"
proof -
  have inv: "lru_inv c" using assms(1) by (simp add: aclHonest_def)
  show ?thesis using lru_inv_Add [OF inv] lru.add_view [OF inv] assms by (fastforce simp: aclHonest_def)
qed

text \<open>\<open>P\<close> is what is known of the auth chain cache, which only the auth chain read changes.\<close>

definition resolverHonest :: "database \<Rightarrow> ((string, string list) LRU \<Rightarrow> bool) \<Rightarrow> resolver \<Rightarrow> bool" where
  "resolverHonest d P r \<longleftrightarrow> eventsHonest d (rstore r) \<and> stateHonest d (rstore r) \<and>
     aclHonest d (acls r) \<and> P (authChains (rstore r))"

lemma resolverHonest_store:
  assumes "resolverHonest d P r" and "eventsHonest d s" and "stateHonest d s" and "P (authChains s)"
  shows "resolverHonest d P (r\<lparr>rstore := s\<rparr>)"
  using assms by (simp add: resolverHonest_def)

lemma otherCaches_kept:
  "otherCaches s' = otherCaches s \<Longrightarrow> stateHonest d s' = stateHonest d s \<and> authChains s' = authChains s"
  by (simp add: otherCaches_def stateHonest_def)

lemma meets_asks [simp]: "meets I (asks msg x) (\<lambda>y. y = (case x of Inl e \<Rightarrow> Inl (StoreErr msg e) | Inr a \<Rightarrow> Inr a))"
  by (simp add: asks_def)

lemma meets_pdu [simp]: "meets I (pdu msg x) (\<lambda>y. y = (case x of Inl e \<Rightarrow> Inl (PduErr msg e) | Inr a \<Rightarrow> Inr a))"
  by (simp add: pdu_def)

lemma bnd_pure [simp]:
  "bnd (ret a) f = f a" "bnd (failwith e) f = failwith e"
  "bnd (asks msg (Inr a)) f = f a" "bnd (asks msg (Inl x)) f = failwith (StoreErr msg x)"
  "bnd (pdu msg (Inr a)) f = f a" "bnd (pdu msg (Inl y)) f = failwith (PduErr msg y)"
  by (rule ext, simp add: bnd_def asks_def pdu_def)+

lemma meets_attempt:
  assumes "\<And>s. eventsHonest d s \<Longrightarrow> stateHonest d s \<Longrightarrow>
    eventsHonest d (snd (m s)) \<and> stateHonest d (snd (m s)) \<and> authChains (snd (m s)) = authChains s \<and> R (fst (m s))"
  shows "meets (resolverHonest d P) (attempt m) (\<lambda>x. \<exists>y. x = Inr y \<and> R y)"
  unfolding meets_def
proof (intro allI impI)
  fix r
  assume r: "resolverHonest d P r"
  with assms [of "rstore r"] have "eventsHonest d (snd (m (rstore r)))" "stateHonest d (snd (m (rstore r)))" "R (fst (m (rstore r)))"
    "P (authChains (snd (m (rstore r))))"
    by (auto simp: resolverHonest_def)
  with resolverHonest_store [OF r] show "resolverHonest d P (snd (attempt m r)) \<and> (\<exists>y. fst (attempt m r) = Inr y \<and> R y)"
    by (simp add: attempt_def)
qed

lemma meets_onStore:
  assumes "\<And>s. eventsHonest d s \<Longrightarrow> stateHonest d s \<Longrightarrow>
    eventsHonest d (snd (m s)) \<and> stateHonest d (snd (m s)) \<and> authChains (snd (m s)) = authChains s \<and> R (fst (m s))"
  shows "meets (resolverHonest d P) (onStore msg m)
    (\<lambda>x. \<exists>y. x = (case y of Inl e \<Rightarrow> Inl (StoreErr msg e) | Inr a \<Rightarrow> Inr a) \<and> R y)"
  unfolding meets_def
proof (intro allI impI)
  fix r
  assume r: "resolverHonest d P r"
  with assms [of "rstore r"] have "eventsHonest d (snd (m (rstore r)))" "stateHonest d (snd (m (rstore r)))" "R (fst (m (rstore r)))"
    "P (authChains (snd (m (rstore r))))"
    by (auto simp: resolverHonest_def)
  with resolverHonest_store [OF r] show "resolverHonest d P (snd (onStore msg m r)) \<and>
      (\<exists>y. fst (onStore msg m r) = (case y of Inl e \<Rightarrow> Inl (StoreErr msg e) | Inr a \<Rightarrow> Inr a) \<and> R y)"
    by (auto simp: onStore_def)
qed

text \<open>The store's reads as the resolver sees them.\<close>

lemma GetEvent_meets:
  assumes "db_keys d"
  shows "meets (resolverHonest d P) (attempt (GetEvent d eid))
    (\<lambda>x. \<exists>y. x = Inr y \<and> (\<forall>ev. y = Inr ev \<longrightarrow> (\<exists>e. eventTruth d eid = Some e \<and> ev = servedEvent d e)) \<and>
       (y = Inl ErrNotFound \<longrightarrow> eventTruth d eid = None) \<and>
       (noFaults d \<longrightarrow> y = (case eventTruth d eid of None \<Rightarrow> Inl ErrNotFound | Some e \<Rightarrow> Inr (servedEvent d e))))"
proof (rule meets_attempt)
  fix s
  assume "eventsHonest d s" and st: "stateHonest d s"
  note spec = GetEvent_spec [OF assms this(1), of eid]
  have "stateHonest d (snd (GetEvent d eid s))" "authChains (snd (GetEvent d eid s)) = authChains s"
    using spec st otherCaches_kept by metis+
  with spec show "eventsHonest d (snd (GetEvent d eid s)) \<and> stateHonest d (snd (GetEvent d eid s)) \<and>
    authChains (snd (GetEvent d eid s)) = authChains s \<and>
    (\<forall>ev. fst (GetEvent d eid s) = Inr ev \<longrightarrow> (\<exists>e. eventTruth d eid = Some e \<and> ev = servedEvent d e)) \<and>
    (fst (GetEvent d eid s) = Inl ErrNotFound \<longrightarrow> eventTruth d eid = None) \<and>
    (noFaults d \<longrightarrow> fst (GetEvent d eid s) = (case eventTruth d eid of None \<Rightarrow> Inl ErrNotFound | Some e \<Rightarrow> Inr (servedEvent d e)))"
    by (elim conjE, intro conjI) assumption+
qed

lemma GetStateGroupForEvent_meets:
  "meets (resolverHonest d P) (attempt (GetStateGroupForEvent d eid))
    (\<lambda>x. \<exists>y. x = Inr y \<and> (\<forall>g. y = Inr g \<longrightarrow> groupTruth d eid = Some g) \<and>
       (noFaults d \<longrightarrow> y = (case groupTruth d eid of None \<Rightarrow> Inl ErrNotFound | Some g \<Rightarrow> Inr g)))"
  by (rule meets_attempt) (use GetStateGroupForEvent_spec in force)

lemma GetStateForGroup_meets:
  "meets (resolverHonest d P) (onStore msg (GetStateForGroup d g))
    (\<lambda>x. \<exists>y. x = (case y of Inl e \<Rightarrow> Inl (StoreErr msg e) | Inr a \<Rightarrow> Inr a) \<and>
       (\<forall>m. y = Inr m \<longrightarrow> stateGroupQuery d g = Some m) \<and>
       (noFaults d \<longrightarrow> edges_ok d \<longrightarrow> y = Inr (the (stateGroupQuery d g))))"
  apply (rule meets_onStore)
  subgoal premises p for s using GetStateForGroup_spec [OF p(2), of g] p(1) by metis
  done

lemma GetFilteredStateForGroup_meets:
  assumes "validTypes types"
  shows "meets (resolverHonest d P) (onStore msg (GetFilteredStateForGroup d g types))
    (\<lambda>x. \<exists>y. x = (case y of Inl e \<Rightarrow> Inl (StoreErr msg e) | Inr a \<Rightarrow> Inr a) \<and>
       (\<forall>m. y = Inr m \<longrightarrow> (\<exists>w. stateGroupQuery d g = Some w \<and> m = filterByTypes w types)) \<and>
       (noFaults d \<longrightarrow> edges_ok d \<longrightarrow> (\<exists>m. y = Inr m)))"
  by (rule meets_onStore) (use GetFilteredStateForGroup_spec [OF _ assms] in \<open>force simp: Let_def\<close>)

lemma GetServerMembershipStateForGroup_meets:
  assumes "\<not> containsAny server ''%_''"
  shows "meets (resolverHonest d P) (onStore msg (GetServerMembershipStateForGroup d g server))
    (\<lambda>x. \<exists>y. x = (case y of Inl e \<Rightarrow> Inl (StoreErr msg e) | Inr a \<Rightarrow> Inr a) \<and>
       (\<forall>m. y = Inr m \<longrightarrow> (\<exists>w. stateGroupQuery d g = Some w \<and> m = filterMembersForServer w server)) \<and>
       (noFaults d \<longrightarrow> edges_ok d \<longrightarrow> (\<exists>m. y = Inr m)))"
  by (rule meets_onStore) (use GetServerMembershipStateForGroup_spec [OF _ assms] in \<open>force simp: Let_def\<close>)

lemma GetEvents_meets:
  assumes "db_keys d"
  shows "meets (resolverHonest d P) (onStore msg (GetEvents d ids))
    (\<lambda>x. \<exists>y. x = (case y of Inl e \<Rightarrow> Inl (StoreErr msg e) | Inr a \<Rightarrow> Inr a) \<and>
       (\<forall>out. y = Inr out \<longrightarrow> gomap out \<and>
          (\<forall>x. gget out x = (if x \<in> set ids then map_option (servedEvent d) (eventTruth d x) else None))) \<and>
       (noFaults d \<longrightarrow> (\<exists>out. y = Inr out)))"
proof (rule meets_onStore)
  fix s
  assume "eventsHonest d s" and st: "stateHonest d s"
  note spec = loaded_then_redacted [OF assms this(1), of ids True, folded getEventsRaw_def, folded GetEvents_def, unfolded Let_def]
  have "stateHonest d (snd (GetEvents d ids s))" "authChains (snd (GetEvents d ids s)) = authChains s"
    using spec st otherCaches_kept by metis+
  with spec show "eventsHonest d (snd (GetEvents d ids s)) \<and> stateHonest d (snd (GetEvents d ids s)) \<and>
    authChains (snd (GetEvents d ids s)) = authChains s \<and>
    (\<forall>out. fst (GetEvents d ids s) = Inr out \<longrightarrow> gomap out \<and>
       (\<forall>x. gget out x = (if x \<in> set ids then map_option (servedEvent d) (eventTruth d x) else None))) \<and>
    (noFaults d \<longrightarrow> (\<exists>out. fst (GetEvents d ids s) = Inr out))"
    by blast
qed

section \<open>Access\<close>

definition currentACL :: "database \<Rightarrow> string \<Rightarrow> (resolverError, ServerACL option) result" where
  "currentACL d room =
     (case GetCurrentStateEvent d room ''m.room.server_acl'' '''' of
        Inl ErrNotFound \<Rightarrow> Inr None
      | Inl e \<Rightarrow> Inl (StoreErr ''load server acl'' e)
      | Inr (_, body) \<Rightarrow> Inr (ParseServerACL body))"

lemma current_aclTruth:
  assumes "db_keys d" and "GetCurrentStateEvent d room typ key = Inr (eid, body)"
  shows "aclTruth d eid = Some (ParseServerACL body)"
proof -
  from assms(2) have "(eid, body) \<in> set (currentEventQuery d room typ key)"
    by (auto simp: GetCurrentStateEvent_def rbind_eq_Inr dest!: queryRow_Inr split: option.splits list.splits)
  then obtain j where j: "j \<in> set (t_event_json d)" "ej_id j = eid" "ej_json j = body"
    by (auto simp: currentEventQuery_def)
  have dist: "distinct (map ej_id (t_event_json d))" using assms(1) by (simp add: db_keys_def)
  have "find (\<lambda>j. ej_id j = eid) js = Some j" if "j \<in> set js" "distinct (map ej_id js)" for js
    using that j(2) by (induction js) auto
  from this [OF j(1) dist] have "find (\<lambda>j. ej_id j = eid) (t_event_json d) = Some j" .
  with j show ?thesis by (simp add: aclTruth_def)
qed

lemma serverACL_meets:
  assumes "db_keys d"
  shows "meets (resolverHonest d P) (serverACL d room) (\<lambda>x. x = currentACL d room)"
  unfolding meets_def
proof (intro allI impI)
  fix r
  assume hon: "resolverHonest d P r"
  let ?q = "GetCurrentStateEvent d room ''m.room.server_acl'' ''''"
  show "resolverHonest d P (snd (serverACL d room r)) \<and> fst (serverACL d room r) = currentACL d room"
  proof (cases ?q)
    case (Inl e)
    with hon show ?thesis by (cases e) (simp_all add: serverACL_def currentACL_def)
  next
    case (Inr p)
    obtain eid body where p: "p = (eid, body)" by fastforce
    have truth: "aclTruth d eid = Some (ParseServerACL body)" using current_aclTruth [OF assms] Inr p by simp
    obtain hit c where g: "Get eid (acls r) = (hit, c)" by fastforce
    have a: "aclHonest d (acls r)" using hon by (simp add: resolverHonest_def)
    note get = aclHonest_Get [OF a g truth]
    show ?thesis
    proof (cases hit)
      case None
      with aclHonest_Add [OF _ truth, of c] get hon Inr p g show ?thesis
        by (simp add: serverACL_def currentACL_def resolverHonest_def)
    next
      case (Some acl)
      with get have "acl = ParseServerACL body" by simp
      with Some get hon Inr p g show ?thesis by (simp add: serverACL_def currentACL_def resolverHonest_def)
    qed
  qed
qed

text \<open>The gates, without the caches: a fault in a check fails the request, and the first gate that is
  shut answers.\<close>

definition gates :: "database \<Rightarrow> string \<Rightarrow> string \<Rightarrow> (resolverError, unit) result" where
  "gates d origin room =
     (case IsPartialStateRoom d room of
        Inl e \<Rightarrow> Inl (StoreErr ''partial state check'' e)
      | Inr True \<Rightarrow> Inl (MErr errPartialState)
      | Inr False \<Rightarrow>
          (case IsHostInRoom d room origin of
             Inl e \<Rightarrow> Inl (StoreErr ''membership check'' e)
           | Inr False \<Rightarrow> Inl (MErr errHostNotInRoom)
           | Inr True \<Rightarrow>
               (case currentACL d room of
                  Inl e \<Rightarrow> Inl e
                | Inr acl \<Rightarrow> if Allowed acl origin then Inr () else Inl (MErr errServerBanned))))"

lemma checkAccess_meets:
  assumes "db_keys d"
  shows "meets (resolverHonest d P) (checkAccess d origin room) (\<lambda>x. x = gates d origin room)"
  unfolding checkAccess_def
  by (rule meets_bnd_eq [OF meets_asks] meets_bnd_eq [OF serverACL_meets [OF assms]] |
      simp add: gates_def split: sum.splits if_splits | intro conjI impI allI)+

text \<open>When the gates let a server pass.\<close>

definition hasAccess :: "database \<Rightarrow> string \<Rightarrow> string \<Rightarrow> bool" where
  "hasAccess d origin room \<longleftrightarrow> room \<notin> set (t_partial d) \<and> (\<exists>u. joinedFrom d room origin u) \<and>
     (\<forall>eid body. GetCurrentStateEvent d room ''m.room.server_acl'' '''' = Inr (eid, body) \<longrightarrow>
        Allowed (ParseServerACL body) origin)"

lemma IsPartialStateRoom_Inr: "IsPartialStateRoom d room = Inr b \<Longrightarrow> b \<longleftrightarrow> room \<in> set (t_partial d)"
  by (cases "filter (\<lambda>r. r = room) (t_partial d)")
    (auto simp: IsPartialStateRoom_def rbind_eq_Inr filter_empty_conv filter_eq_Cons_iff dest!: queryRow_Inr)

lemma hostInRoom_joined:
  assumes "host \<noteq> ''''" and "IsHostInRoom d room host = Inr True"
  shows "\<exists>u. joinedFrom d room host u"
proof -
  from assms(2) obtain u where q: "queryRow d ''is host in room'' (joinedQuery d room host) = Inr (Some u)"
    and dom: "domainFromID u = host"
    by (auto simp: IsHostInRoom_def rbind_eq_Inr split: if_splits option.splits)
  then have "u \<in> set (joinedQuery d room host)" by (auto dest!: queryRow_Inr split: list.splits)
  with dom assms domainFromID_colon [of u] show ?thesis
    by (auto simp: joinedQuery_def joinedFrom_def)
qed

lemma gates_open:
  assumes "gates d origin room = Inr ()" and "origin \<noteq> ''''"
  shows "hasAccess d origin room"
proof -
  from assms(1) have p: "IsPartialStateRoom d room = Inr False" and h: "IsHostInRoom d room origin = Inr True"
    and a: "\<exists>acl. currentACL d room = Inr acl \<and> Allowed acl origin"
    by (auto simp: gates_def split: sum.splits bool.splits if_splits)
  from a have "Allowed (ParseServerACL body) origin"
    if "GetCurrentStateEvent d room ''m.room.server_acl'' '''' = Inr (eid, body)" for eid body
    using that by (simp add: currentACL_def)
  with IsPartialStateRoom_Inr [OF p] hostInRoom_joined [OF assms(2) h] show ?thesis
    unfolding hasAccess_def by blast
qed

section \<open>Visibility\<close>

text \<open>What the database says of the history visibility at an event, and of the memberships a server's
  users have there.\<close>

definition visKey :: StateKey where
  "visKey = \<lparr>Type = historyVisibilityType, StateKey = ''''\<rparr>"

definition stateAt :: "database \<Rightarrow> Event \<Rightarrow> StateKey \<Rightarrow> string option" where
  "stateAt d ev key =
     (if Outlier ev then None
      else Option.bind (groupTruth d (EventID ev)) (\<lambda>g. Option.bind (stateGroupQuery d g) (\<lambda>m. gget m key)))"

definition visSetting :: "database \<Rightarrow> Event \<Rightarrow> string" where
  "visSetting d ev =
     (case Option.bind (stateAt d ev visKey) (eventTruth d) of
        None \<Rightarrow> HistoryVisibilityShared
      | Some e \<Rightarrow> if historyVisibilityOf (EJSON e) \<noteq> '''' then historyVisibilityOf (EJSON e) else HistoryVisibilityShared)"

definition hadMember :: "database \<Rightarrow> Event \<Rightarrow> string \<Rightarrow> string \<Rightarrow> bool" where
  "hadMember d ev server membership \<longleftrightarrow>
     (\<exists>key eid e. stateAt d ev key = Some eid \<and> Type key = ''m.room.member'' \<and> serverOf (StateKey key) = server \<and>
        eventTruth d eid = Some e \<and> membershipOf (EJSON e) = membership)"

definition visibleTo :: "database \<Rightarrow> Event \<Rightarrow> string \<Rightarrow> string \<Rightarrow> bool \<Rightarrow> string \<Rightarrow> bool" where
  "visibleTo d ev server local partial sender \<longleftrightarrow>
     sender \<notin> set (t_erased d) \<and> \<not> (partial \<and> serverOf sender \<noteq> local) \<and>
     (visSetting d ev \<notin> {HistoryVisibilityInvited, HistoryVisibilityJoined} \<or> hadMember d ev server ''join'' \<or>
      visSetting d ev = HistoryVisibilityInvited \<and> hadMember d ev server ''invite'')"

lemma EJSON_served [simp]:
  "EJSON (servedEvent d e) = EJSON e" "EventID (servedEvent d e) = EventID e" "RoomID (servedEvent d e) = RoomID e"
  "Outlier (servedEvent d e) = Outlier e" "RejectedReason (servedEvent d e) = RejectedReason e"
  "EStateKey (servedEvent d e) = EStateKey e" "EType (servedEvent d e) = EType e" "RoomVersion (servedEvent d e) = RoomVersion e"
  by (simp_all add: servedEvent_def split: option.split)

lemma serverOf_suffix:
  assumes "serverOf u = server" and "server \<noteq> ''''"
  shows "hasSuffix u (CHR '':'' # server)"
proof -
  from assms obtain a b where c: "cut (CHR '':'') u = (a, Some b)" and "b = server"
    by (cases "cut (CHR '':'') u") (auto simp: serverOf_def split: option.splits)
  with cut_Some [OF c] show ?thesis by (auto simp: hasSuffix_iff)
qed

text \<open>The memberships \<open>visibilityAt\<close> collects are those of the server's users in the state.\<close>

lemma collected_members:
  assumes "gomap w" and "server \<noteq> ''''"
    and mine: "mine = filter (\<lambda>(key, _). serverOf (StateKey key) = server) (filterMembersForServer w server)"
    and evs: "gomap evs" "\<And>x. gget evs x = (if x \<in> set (map snd mine) then map_option (servedEvent d) (eventTruth d x) else None)"
  shows "m \<in> (\<lambda>(i, e). membershipOf (EJSON e)) ` set evs \<longleftrightarrow>
    (\<exists>key eid e. gget w key = Some eid \<and> Type key = ''m.room.member'' \<and> serverOf (StateKey key) = server \<and>
       eventTruth d eid = Some e \<and> membershipOf (EJSON e) = m)"
proof -
  have mine_iff: "eid \<in> set (map snd mine) \<longleftrightarrow>
      (\<exists>key. gget w key = Some eid \<and> Type key = ''m.room.member'' \<and> serverOf (StateKey key) = server)" for eid
    using serverOf_suffix assms(2) gomap_set [OF assms(1)]
    by (auto simp: mine filterMembersForServer_def image_iff split_def)
  have "m \<in> (\<lambda>(i, e). membershipOf (EJSON e)) ` set evs \<longleftrightarrow> (\<exists>i e. (i, e) \<in> set evs \<and> membershipOf (EJSON e) = m)"
    by auto
  also have "\<dots> \<longleftrightarrow> (\<exists>i e. gget evs i = Some e \<and> membershipOf (EJSON e) = m)"
    using gomap_set [OF evs(1)] by simp
  also have "\<dots> \<longleftrightarrow> (\<exists>i e0. i \<in> set (map snd mine) \<and> eventTruth d i = Some e0 \<and> membershipOf (EJSON e0) = m)"
  proof -
    have "gget evs i = Some e \<longleftrightarrow> i \<in> set (map snd mine) \<and> (\<exists>e0. eventTruth d i = Some e0 \<and> e = servedEvent d e0)" for i e
      unfolding evs(2) by (cases "eventTruth d i") auto
    then show ?thesis by (metis EJSON_served(1))
  qed
  finally show ?thesis unfolding mine_iff by blast
qed

text \<open>On a database that answers, the reads are functions of the database.\<close>

lemma GetEvent_sure:
  assumes "db_keys d" and "noFaults d"
  shows "meets (resolverHonest d P) (attempt (GetEvent d eid))
    (\<lambda>x. x = Inr (case eventTruth d eid of None \<Rightarrow> Inl ErrNotFound | Some e \<Rightarrow> Inr (servedEvent d e)))"
  by (rule meets_weaken [OF GetEvent_meets [OF assms(1)]]) (use assms(2) in metis)

lemma GetStateGroup_sure:
  assumes "noFaults d"
  shows "meets (resolverHonest d P) (attempt (GetStateGroupForEvent d eid))
    (\<lambda>x. x = Inr (case groupTruth d eid of None \<Rightarrow> Inl ErrNotFound | Some g \<Rightarrow> Inr g))"
  by (rule meets_weaken [OF GetStateGroupForEvent_meets]) (use assms in metis)

lemma GetStateForGroup_sure:
  assumes "noFaults d" and "edges_ok d"
  shows "meets (resolverHonest d P) (onStore msg (GetStateForGroup d g)) (\<lambda>x. x = Inr (the (stateGroupQuery d g)))"
  by (rule meets_weaken [OF GetStateForGroup_meets]) (use assms in \<open>metis sum.case(2)\<close>)

lemma GetFilteredState_sure:
  assumes "noFaults d" and "edges_ok d" and "validTypes types" and "stateGroupQuery d g = Some w"
  shows "meets (resolverHonest d P) (onStore msg (GetFilteredStateForGroup d g types)) (\<lambda>x. x = Inr (filterByTypes w types))"
  by (rule meets_weaken [OF GetFilteredStateForGroup_meets [OF assms(3)]]) (use assms(1,2,4) in \<open>metis sum.case(2) option.inject\<close>)

lemma GetServerMembership_sure:
  assumes "noFaults d" and "edges_ok d" and "\<not> containsAny server ''%_''" and "stateGroupQuery d g = Some w"
  shows "meets (resolverHonest d P) (onStore msg (GetServerMembershipStateForGroup d g server))
    (\<lambda>x. x = Inr (filterMembersForServer w server))"
  by (rule meets_weaken [OF GetServerMembershipStateForGroup_meets [OF assms(3)]])
    (use assms(1,2,4) in \<open>metis sum.case(2) option.inject\<close>)

lemma GetEvents_sure:
  assumes "db_keys d" and "noFaults d"
  shows "meets (resolverHonest d P) (onStore msg (GetEvents d ids))
    (\<lambda>x. \<exists>out. x = Inr out \<and> gomap out \<and>
       (\<forall>x. gget out x = (if x \<in> set ids then map_option (servedEvent d) (eventTruth d x) else None)))"
  by (rule meets_weaken [OF GetEvents_meets [OF assms(1)]]) (use assms(2) in \<open>metis sum.case(2)\<close>)

lemma query_total: "noFaults d \<Longrightarrow> edges_ok d \<Longrightarrow> \<exists>w. stateGroupQuery d g = Some w \<and> gomap w"
  using stateTx_total [of d g "\<lambda>m. m"] gomap_stateGroupQuery by blast

text \<open>The two halves of \<open>visibilityAt\<close> behind the state group: the setting and the memberships.\<close>

definition fetchSetting :: "database \<Rightarrow> stateMap \<Rightarrow> string resolverOp" where
  "fetchSetting d state =
     (case gget state visKey of
        None \<Rightarrow> ret HistoryVisibilityShared
      | Some visEventID \<Rightarrow>
          bnd (attempt (GetEvent d visEventID)) (\<lambda>res.
          ret (case res of
                 Inl _ \<Rightarrow> HistoryVisibilityShared
               | Inr visEvent \<Rightarrow>
                   (let v = historyVisibilityOf (EJSON visEvent) in
                    if v \<noteq> '''' then v else HistoryVisibilityShared))))"

definition fetchMembers :: "database \<Rightarrow> string \<Rightarrow> string \<Rightarrow> stateMap \<Rightarrow> (string \<times> Membership list) resolverOp" where
  "fetchMembers d server vis memberState =
     (let mine = filter (\<lambda>(key, _). serverOf (StateKey key) = server) memberState;
          ids = map snd mine;
          keyOf = gofold (\<lambda>(key, eid). (eid, StateKey key)) mine in
      if ids = [] then ret (vis, [])
      else
        bnd (onStore ''membership events'' (GetEvents d ids)) (\<lambda>evs.
        ret (vis, map (\<lambda>(evID, e). \<lparr>mUserID = (case gget keyOf evID of None \<Rightarrow> '''' | Some u \<Rightarrow> u),
                                   mMembership = membershipOf (EJSON e)\<rparr>) evs)))"

lemma visibilityAt_parts:
  assumes "\<not> Outlier ev"
  shows "visibilityAt d ev server =
    bnd (attempt (GetStateGroupForEvent d (EventID ev))) (\<lambda>grp.
      case grp of
        Inl ErrNotFound \<Rightarrow> ret (HistoryVisibilityShared, [])
      | Inl e \<Rightarrow> failwith (StoreErr ''state group'' e)
      | Inr g \<Rightarrow>
          bnd (onStore ''history visibility state'' (GetFilteredStateForGroup d g [historyVisibilityType])) (\<lambda>state.
          bnd (fetchSetting d state) (\<lambda>vis.
          if vis \<noteq> HistoryVisibilityInvited \<and> vis \<noteq> HistoryVisibilityJoined then ret (vis, [])
          else bnd (onStore ''membership state'' (GetServerMembershipStateForGroup d g server)) (fetchMembers d server vis))))"
  unfolding visibilityAt_def fetchSetting_def fetchMembers_def visKey_def using assms by simp

lemma fetchSetting_meets:
  assumes "db_keys d" and "noFaults d" and "\<And>key. stateAt d ev key = gget w key"
  shows "meets (resolverHonest d P) (fetchSetting d (filterByTypes w [historyVisibilityType])) (\<lambda>x. x = Inr (visSetting d ev))"
proof -
  have fk: "gget (filterByTypes w [historyVisibilityType]) visKey = gget w visKey"
    using gget_filter_key [of "\<lambda>k. Type k \<in> set [historyVisibilityType]" w visKey]
    by (simp add: filterByTypes_def visKey_def)
  show ?thesis
  proof (cases "gget w visKey")
    case None
    then show ?thesis by (simp add: fetchSetting_def fk visSetting_def assms(3))
  next
    case (Some vid)
    show ?thesis unfolding fetchSetting_def fk Some option.case
      by (rule meets_bnd_eq [OF GetEvent_sure [OF assms(1,2)]])
        (auto simp: visSetting_def assms(3) Some Let_def split: option.splits)
  qed
qed

lemma fetchMembers_meets:
  assumes "db_keys d" and "noFaults d" and "\<And>key. stateAt d ev key = gget w key" and "gomap w" and "server \<noteq> ''''"
  shows "meets (resolverHonest d P) (fetchMembers d server vis (filterMembersForServer w server))
    (\<lambda>x. \<exists>ms. x = Inr (vis, ms) \<and> (\<forall>m. m \<in> mMembership ` set ms \<longleftrightarrow> hadMember d ev server m))"
proof -
  define mine where "mine = filter (\<lambda>(key, _). serverOf (StateKey key) = server) (filterMembersForServer w server)"
  have mem: "m \<in> (\<lambda>(i, e). membershipOf (EJSON e)) ` set evs \<longleftrightarrow> hadMember d ev server m"
    if "gomap evs" "\<And>x. gget evs x = (if x \<in> set (map snd mine) then map_option (servedEvent d) (eventTruth d x) else None)"
    for evs m using collected_members [OF assms(4,5) mine_def that] by (simp add: hadMember_def assms(3))
  show ?thesis
  proof (cases "map snd mine = []")
    case True
    then have "\<not> hadMember d ev server m" for m using mem [of "[]" m] by simp
    with True show ?thesis by (simp add: fetchMembers_def mine_def [symmetric])
  next
    case False
    show ?thesis unfolding fetchMembers_def Let_def mine_def [symmetric] if_not_P [OF False]
    proof (rule meets_bnd [OF GetEvents_sure [OF assms(1,2)]], goal_cases)
      case (1 evs)
      then have "m \<in> (\<lambda>(i, e). membershipOf (EJSON e)) ` set evs \<longleftrightarrow> hadMember d ev server m" for m
        by (intro mem) auto
      then show ?case by (simp add: image_image split_def)
    qed simp
  qed
qed

lemma visibilityAt_meets:
  assumes "db_keys d" and "noFaults d" and "edges_ok d" and "server \<noteq> ''''" and "\<not> containsAny server ''%_''"
  shows "meets (resolverHonest d P) (visibilityAt d ev server)
    (\<lambda>x. \<exists>ms. x = Inr (visSetting d ev, ms) \<and>
       (visSetting d ev \<in> {HistoryVisibilityInvited, HistoryVisibilityJoined} \<longrightarrow>
          (\<forall>m. m \<in> mMembership ` set ms \<longleftrightarrow> hadMember d ev server m)))" (is "meets _ _ ?Q")
proof (cases "Outlier ev \<or> groupTruth d (EventID ev) = None")
  case True
  then have vis: "visSetting d ev = HistoryVisibilityShared" by (auto simp: visSetting_def stateAt_def)
  then have Q: "?Q (Inr (HistoryVisibilityShared, []))"
    by (simp add: HistoryVisibilityShared_def HistoryVisibilityInvited_def HistoryVisibilityJoined_def)
  show ?thesis
  proof (cases "Outlier ev")
    case True
    with Q show ?thesis by (simp add: visibilityAt_def)
  next
    case False
    with \<open>Outlier ev \<or> _\<close> have "groupTruth d (EventID ev) = None" by simp
    then show ?thesis unfolding visibilityAt_parts [OF False]
      by (intro meets_bnd_eq [OF GetStateGroup_sure [OF assms(2)]]) (use Q in auto)
  qed
next
  case False
  then obtain g where out: "\<not> Outlier ev" and g: "groupTruth d (EventID ev) = Some g" by auto
  obtain w where w: "stateGroupQuery d g = Some w" "gomap w" using query_total [OF assms(2,3)] by blast
  have at: "stateAt d ev key = gget w key" for key using out g w by (simp add: stateAt_def)
  have types: "validTypes [historyVisibilityType]" by (simp add: validTypes_def historyVisibilityType_def)
  have members: "meets (resolverHonest d P)
     (bnd (onStore ''membership state'' (GetServerMembershipStateForGroup d g server)) (fetchMembers d server (visSetting d ev))) ?Q"
    by (rule meets_bnd_eq [OF GetServerMembership_sure [OF assms(2,3,5) w(1)]])
      (auto intro!: meets_weaken [OF fetchMembers_meets [OF assms(1,2) at w(2) assms(4)]])
  have rest: "meets (resolverHonest d P) (bnd (fetchSetting d (filterByTypes w [historyVisibilityType])) (\<lambda>vis.
      if vis \<noteq> HistoryVisibilityInvited \<and> vis \<noteq> HistoryVisibilityJoined then ret (vis, [])
      else bnd (onStore ''membership state'' (GetServerMembershipStateForGroup d g server)) (fetchMembers d server vis))) ?Q"
    by (rule meets_bnd_eq [OF fetchSetting_meets [OF assms(1,2) at]]) (use members in auto)
  show ?thesis unfolding visibilityAt_parts [OF out]
  proof (rule meets_bnd_eq [OF GetStateGroup_sure [OF assms(2)]], goal_cases)
    case (1 grp)
    then have grp: "grp = Inr g" using g by simp
    show ?case unfolding grp sum.case
      by (rule meets_bnd_eq [OF GetFilteredState_sure [OF assms(2,3) types w(1)]]) (use rest in auto)
  qed simp
qed

end
