(* ===== verification/Answers.thy ===== *)
theory Answers
  imports Resolver
begin

text \<open>
  What the resolver's answers are worth: every answer passed the access gates, \<open>/state_ids\<close> gives
  the state before the event with its exact auth chain, and \<open>/event\<close> and \<open>/get_missing_events\<close> serve
  an event in full only when it is neither redacted nor invisible to the server that asks.
\<close>

section \<open>Visibility of one event\<close>

lemma erased_lookup:
  "AreUsersErased d [u] = Inr m \<Longrightarrow> gget m u = Some True \<longleftrightarrow> u \<in> set (t_erased d)"
proof -
  assume "AreUsersErased d [u] = Inr m"
  then have m: "m = gofold (\<lambda>u. (u, True)) (filter (\<lambda>x. x = u) (t_erased d))"
    by (auto simp: AreUsersErased_def rbind_eq_Inr dest!: queryRows_Inr)
  show ?thesis
  proof (cases "u \<in> set (t_erased d)")
    case True
    then have "gget m u = Some True"
      unfolding m by (intro gget_gofold_inj [of u]) auto
    with True show ?thesis by simp
  next
    case False
    then have "filter (\<lambda>x. x = u) (t_erased d) = []" by (auto simp: filter_empty_conv)
    with m False show ?thesis by simp
  qed
qed

lemma visible_by_database:
  assumes "AreUsersErased d [sender] = Inr erased"
    and mem: "visSetting d ev \<in> {HistoryVisibilityInvited, HistoryVisibilityJoined} \<longrightarrow>
          (\<forall>m. m \<in> mMembership ` set ms \<longleftrightarrow> hadMember d ev server m)"
  shows "eventVisibleToServer sender server (visSetting d ev) erased (partial \<and> serverOf sender \<noteq> local) ms =
    visibleTo d ev server local partial sender"
proof -
  have "visibleByMembership (visSetting d ev) ms \<longleftrightarrow> ''join'' \<in> mMembership ` set ms \<or>
      visSetting d ev = HistoryVisibilityInvited \<and> ''invite'' \<in> mMembership ` set ms"
    unfolding visibleByMembership_iff image_iff by metis
  with mem erased_lookup [OF assms(1)] show ?thesis
    by (auto simp: eventVisibleToServer_def visibleTo_def)
qed

lemma eventVisibleInRoom_meets:
  assumes "db_keys d" and "noFaults d" and "edges_ok d" and "server \<noteq> ''''" and "\<not> containsAny server ''%_''"
  shows "meets (resolverHonest d P) (eventVisibleInRoom d ev server local partial)
    (\<lambda>x. x = (case senderOf (EJSON ev) of Inl m \<Rightarrow> Inl (PduErr '''' m)
       | Inr sender \<Rightarrow> Inr (visibleTo d ev server local partial sender)))"
proof (cases "senderOf (EJSON ev)")
  case (Inr sender)
  obtain erased where er: "AreUsersErased d [sender] = Inr erased"
    using assms(2) by (auto simp: AreUsersErased_def)
  have "meets (resolverHonest d P)
     (bnd (visibilityAt d ev server) (\<lambda>(vis, ms).
        ret (eventVisibleToServer sender server vis erased (partial \<and> serverOf sender \<noteq> local) ms)))
     (\<lambda>x. x = Inr (visibleTo d ev server local partial sender))"
    by (rule meets_bnd [OF visibilityAt_meets [OF assms]]) (use visible_by_database [OF er] in auto)
  with Inr er show ?thesis by (simp add: eventVisibleInRoom_def)
qed (simp add: eventVisibleInRoom_def)

lemma visibleTo_served [simp]: "visibleTo d (servedEvent d' e) = visibleTo d e"
  by (intro ext) (simp add: visibleTo_def visSetting_def hadMember_def stateAt_def)

lemma partial_sure: "noFaults d \<Longrightarrow> IsPartialStateRoom d room = Inr (room \<in> set (t_partial d))"
  using IsPartialStateRoom_Inr [of d room] by (simp add: IsPartialStateRoom_def)

section \<open>Events\<close>

text \<open>The answer of \<open>/event\<close> as a function of the database alone.\<close>

definition eventAnswer :: "lib \<Rightarrow> database \<Rightarrow> int \<Rightarrow> string \<Rightarrow> string \<Rightarrow> string \<Rightarrow> (resolverError, TransactionResponse) result" where
  "eventAnswer lb d now origin serverName eid =
     (case eventTruth d eid of
        None \<Rightarrow> Inl ErrEventNotFound
      | Some e \<Rightarrow>
          if RoomID e \<in> set (t_partial d) then Inl (MErr errPartialState)
          else (case IsHostInRoom d (RoomID e) origin of
             Inl x \<Rightarrow> Inl (StoreErr ''membership check'' x)
           | Inr inRoom \<Rightarrow>
               if \<not> inRoom then Inl (MErr errHostNotInRoom)
               else (case senderOf (EJSON e) of
                  Inl m \<Rightarrow> Inl (PduErr '''' m)
                | Inr sender \<Rightarrow>
                    (case (if IsRedacted (servedEvent d e) \<or> \<not> visibleTo d e origin serverName False sender
                           then redactEvent lb (servedEvent d e) else Inr (EJSON e)) of
                       Inl x \<Rightarrow> Inl (PduErr ''redact event'' x)
                     | Inr b \<Rightarrow>
                         (case applyPDUJSONRules lb b now of
                            Inl x \<Rightarrow> Inl (PduErr ''prepare pdu'' x)
                          | Inr body \<Rightarrow> Inr \<lparr>Origin = serverName, OriginServerTS = now, PDUs = [body]\<rparr>)))))"

lemma resolveEvent_meets:
  assumes "db_keys d" and "noFaults d" and "edges_ok d" and "origin \<noteq> ''''" and "\<not> containsAny origin ''%_''"
  shows "meets (resolverHonest d P) (resolveEvent lb d now origin serverName eid) (\<lambda>x. x = eventAnswer lb d now origin serverName eid)"
  unfolding resolveEvent_def
proof (rule meets_bnd_eq [OF GetEvent_sure [OF assms(1,2)]], goal_cases)
  case (1 res)
  show ?case
  proof (cases "eventTruth d eid")
    case None
    with 1 have res: "res = Inl ErrNotFound" by simp
    show ?thesis by (simp add: res eventAnswer_def None)
  next
    case (Some e)
    with 1 have res: "res = Inr (servedEvent d e)" by simp
    consider x where "IsHostInRoom d (RoomID e) origin = Inl x" | "IsHostInRoom d (RoomID e) origin = Inr False"
      | "IsHostInRoom d (RoomID e) origin = Inr True" by (cases "IsHostInRoom d (RoomID e) origin") auto
    then show ?thesis
    proof cases
      case 3
      show ?thesis
      proof (cases "RoomID e \<in> set (t_partial d)")
        case False
        show ?thesis unfolding res using partial_sure [OF assms(2)] False 3
          by (simp add: eventVisible_def)
            (rule meets_bnd_eq [OF eventVisibleInRoom_meets [OF assms]];
             auto simp: eventAnswer_def Some split: sum.splits)
      qed (use partial_sure [OF assms(2)] in \<open>simp add: res eventAnswer_def Some\<close>)
    qed (use partial_sure [OF assms(2)] in \<open>simp_all add: res eventAnswer_def Some\<close>)
  qed
qed simp

text \<open>C1. What \<open>/event\<close> answers does not depend on the caches: on a database that answers, from honest
  caches, it is the specification's answer.  That is a 404 for an event the database does not hold; a
  refusal while the room is partial-stated or no user of the asking server is joined to it; and one
  PDU otherwise, the stored event only if the event is not redacted now and is visible to the asking
  server by the sender's erasure, the history visibility at the event and the memberships of the
  server's users there, and the redacted event if not.\<close>

theorem event_answer_exact:
  assumes "db_keys d" and "noFaults d" and "edges_ok d" and "resolverHonest d P r"
    and "origin \<noteq> ''''" and "\<not> containsAny origin ''%_''"
  shows "fst (resolveEvent lb d now origin serverName eid r) = eventAnswer lb d now origin serverName eid \<and>
    resolverHonest d P (snd (resolveEvent lb d now origin serverName eid r))"
  using resolveEvent_meets [OF assms(1,2,3,5,6), of P lb now serverName eid] assms(4) by (simp add: meets_def)

text \<open>A complete room: a room whose history is open to joined servers only, one message in it, and the
  membership of one user of the server \<open>srv\<close> at the message.\<close>

definition visRow :: "string \<Rightarrow> string \<Rightarrow> string option \<Rightarrow> eventsRow" where
  "visRow i t k = \<lparr>ev_id = i, ev_room = ''!r'', ev_type = t, ev_state_key = k, ev_sender = ''@u:a'',
     ev_outlier = False, ev_stream = 1\<rparr>"

definition visJson :: "string \<Rightarrow> (string \<times> json) list \<Rightarrow> eventJsonRow" where
  "visJson i c = \<lparr>ej_id = i, ej_json = Doc (JObj [(''sender'', JStr ''@u:a''), (''type'', JStr ''t''), (''content'', JObj c)]),
     ej_meta = Doc (JObj []), ej_format = Some 3\<rparr>"

definition visDb :: "string \<Rightarrow> database" where
  "visDb mem = sampleDb\<lparr>
     t_events := [visRow ''$msg'' ''m.room.message'' None, visRow ''$hv'' ''m.room.history_visibility'' (Some ''''),
       visRow ''$mem'' ''m.room.member'' (Some ''@s:srv'')],
     t_event_json := [visJson ''$msg'' [(''body'', JStr ''secret'')],
       visJson ''$hv'' [(''history_visibility'', JStr ''joined'')], visJson ''$mem'' [(''membership'', JStr mem)]],
     t_event_groups := [(''$msg'', Some 1)], t_group_edges := [],
     t_group_state := [\<lparr>sr_group = 1, sr_type = ''m.room.history_visibility'', sr_key = '''', sr_event = ''$hv''\<rparr>,
       \<lparr>sr_group = 1, sr_type = ''m.room.member'', sr_key = ''@s:srv'', sr_event = ''$mem''\<rparr>],
     t_current := [\<lparr>cs_event = ''$now'', cs_room = ''!r'', cs_type = ''m.room.member'', cs_key = ''@s:srv'', cs_membership = Some ''join''\<rparr>],
     t_redactions := [], t_bans := [], t_rejections := [], t_partial := [], t_erased := []\<rparr>"

lemma visDb_ok: "db_keys (visDb m)" "noFaults (visDb m)" "edges_ok (visDb m)"
  by (simp_all add: visDb_def visRow_def visJson_def db_keys_def sampleDb_def noFaults_def edges_ok_def)

definition freshResolver :: resolver where
  "freshResolver = NewResolver length freshStore"

lemma sizeOfACL_nonneg: "0 \<le> sizeOfACL reLen a"
  by (auto simp: sizeOfACL_def intro!: add_nonneg_nonneg sum_list_nonneg split: option.split)

lemma freshResolver_honest: "P (authChains freshStore) \<Longrightarrow> resolverHonest d P freshResolver"
proof -
  have "0 \<le> MB 8" by code_simp
  then have "aclHonest d (NewLRU ''server_acls'' (MB 8) (sizeOfACL length))"
    by (simp add: aclHonest_def lru_inv_New sizeOfACL_nonneg)
  then show "P (authChains freshStore) \<Longrightarrow> resolverHonest d P freshResolver"
    using freshStore_honest freshStore_stateHonest
    by (simp add: resolverHonest_def freshResolver_def NewResolver_def)
qed

lemma visDb_event:
  "eventTruth (visDb m) ''$msg'' = Some \<lparr>EventID = ''$msg'', RoomID = ''!r'', EType = ''m.room.message'', EStateKey = None,
     RoomVersion = ''10'', EJSON = ej_json (visJson ''$msg'' [(''body'', JStr ''secret'')]), InternalMetadata = Doc (JObj []),
     StreamOrdering = 1, Outlier = False, FormatVersion = 3, RejectedReason = '''', RedactedBy = ''''\<rparr>"
  by (simp add: eventTruth_def eventQuery_def visDb_def visRow_def visJson_def leftJoin_def mkEvent_def sampleDb_def)

lemma visDb_stateAt:
  assumes "EventID e = ''$msg''" and "\<not> Outlier e"
  shows "stateAt (visDb m) e key =
    (if key = visKey then Some ''$hv'' else if key = \<lparr>Type = ''m.room.member'', StateKey = ''@s:srv''\<rparr> then Some ''$mem'' else None)"
proof -
  have "stateGroupQuery (visDb m) 1 = Some [(visKey, ''$hv''), (\<lparr>Type = ''m.room.member'', StateKey = ''@s:srv''\<rparr>, ''$mem'')]"
    by (simp add: stateGroupQuery_def sgs_def visDb_def prevGroups_def groupRows_def distinctOn_def keyOf_def newest_def
        visKey_def historyVisibilityType_def)
  moreover have "groupTruth (visDb m) ''$msg'' = Some 1" by (simp add: groupTruth_def visDb_def)
  ultimately show ?thesis using assms by (simp add: stateAt_def)
qed

lemma visDb_visible:
  assumes "EventID e = ''$msg''" and "\<not> Outlier e"
  shows "visibleTo (visDb m) e ''srv'' ''me'' False ''@u:a'' \<longleftrightarrow> m = ''join''"
proof -
  have mem: "eventTruth (visDb m) ''$mem'' = Some e' \<longleftrightarrow> e' = \<lparr>EventID = ''$mem'', RoomID = ''!r'', EType = ''m.room.member'',
     EStateKey = Some ''@s:srv'', RoomVersion = ''10'', EJSON = ej_json (visJson ''$mem'' [(''membership'', JStr m)]),
     InternalMetadata = Doc (JObj []), StreamOrdering = 1, Outlier = False, FormatVersion = 3, RejectedReason = '''', RedactedBy = ''''\<rparr>" for e'
    by (auto simp: eventTruth_def eventQuery_def visDb_def visRow_def visJson_def leftJoin_def mkEvent_def sampleDb_def)
  have hv: "eventTruth (visDb m) ''$hv'' = Some \<lparr>EventID = ''$hv'', RoomID = ''!r'', EType = ''m.room.history_visibility'',
     EStateKey = Some '''', RoomVersion = ''10'', EJSON = ej_json (visJson ''$hv'' [(''history_visibility'', JStr ''joined'')]),
     InternalMetadata = Doc (JObj []), StreamOrdering = 1, Outlier = False, FormatVersion = 3, RejectedReason = '''', RedactedBy = ''''\<rparr>"
    by (simp add: eventTruth_def eventQuery_def visDb_def visRow_def visJson_def leftJoin_def mkEvent_def sampleDb_def)
  have j: "membershipOf (ej_json (visJson ''$mem'' [(''membership'', JStr m)])) = m" by code_simp
  have j2: "historyVisibilityOf (ej_json (visJson ''$hv'' [(''history_visibility'', JStr ''joined'')])) = ''joined''"
    by code_simp
  have j3: "serverOf ''@s:srv'' = ''srv''" by code_simp
  have "visSetting (visDb m) e = ''joined''"
    by (simp add: visSetting_def visDb_stateAt [OF assms] hv j2)
  moreover have "hadMember (visDb m) e ''srv'' x \<longleftrightarrow> x = m" for x
    by (auto simp: hadMember_def visDb_stateAt [OF assms] mem j j3 visKey_def historyVisibilityType_def)
  moreover have "t_erased (visDb m) = []" by (simp add: visDb_def)
  ultimately show ?thesis
    by (auto simp: visibleTo_def HistoryVisibilityInvited_def HistoryVisibilityJoined_def)
qed

abbreviation visMsg :: "(string \<times> json) list \<Rightarrow> raw" where
  "visMsg c \<equiv> Doc (JObj [(''sender'', JStr ''@u:a''), (''type'', JStr ''t''), (''content'', JObj c), (''unsigned'', JObj [])])"

lemma visMsg_wire:
  "applyPDUJSONRules refLib (ej_json (visJson ''$msg'' [(''body'', JStr ''secret'')])) 9 = Inr (visMsg [(''body'', JStr ''secret'')])"
  "applyPDUJSONRules refLib (visMsg []) 9 = Inr (visMsg [])"
proof -
  let ?b = "ej_json (visJson ''$msg'' [(''body'', JStr ''secret'')])"
  have "unmarshalMap ''unsigned'' ?b = Some []" "unmarshalMap ''unsigned'' (visMsg []) = Some []" by code_simp+
  then show "applyPDUJSONRules refLib ?b 9 = Inr (visMsg [(''body'', JStr ''secret'')])"
    "applyPDUJSONRules refLib (visMsg []) 9 = Inr (visMsg [])"
    by (simp_all add: applyPDUJSONRules_def applyPDUJSONRulesAt_def keepFields_def persistedUnsignedFields_def
        ageOf_def marshalMap_def refLib_def refSetRaw_def) (simp add: visJson_def)
qed

lemma visDb_answer:
  "eventAnswer refLib (visDb m) 9 ''srv'' ''me'' ''$msg'' =
     Inr \<lparr>Origin = ''me'', OriginServerTS = 9, PDUs = [visMsg (if m = ''join'' then [(''body'', JStr ''secret'')] else [])]\<rparr>"
proof -
  let ?b = "ej_json (visJson ''$msg'' [(''body'', JStr ''secret'')])"
  define e where "e = the (eventTruth (visDb ''join'') ''$msg'')"
  have e: "eventTruth (visDb m) ''$msg'' = Some e" "EventID e = ''$msg''" "\<not> Outlier e" "RoomID e = ''!r''" "EJSON e = ?b" for m
    by (simp_all add: e_def visDb_event)
  have "redactionRows (visDb m) i = []" "banOf (visDb m) r u = None" for m i r u
    by (simp_all add: redactionRows_def banOf_def visDb_def)
  then have s: "servedEvent (visDb m) e = e" for m by (simp add: servedEvent_def redactionOf_def)
  have red: "\<not> IsRedacted e" by (simp add: e_def visDb_event IsRedacted_def)
  have "joinedQuery (visDb m) ''!r'' ''srv'' = [''@s:srv'']" for m
    by (simp add: joinedQuery_def visDb_def hasSuffix_def hasPrefix_def)
  then have h: "IsHostInRoom (visDb m) ''!r'' ''srv'' = Inr True" for m
    by (simp add: IsHostInRoom_def containsAny_def visDb_ok domainFromID_def)
  have p: "t_partial (visDb m) = []" for m by (simp add: visDb_def)
  have snd: "senderOf ?b = Inr ''@u:a''" by code_simp
  have redacted: "redactEvent refLib e = Inr (visMsg [])"
    unfolding e_def visDb_event by code_simp
  show ?thesis
    by (simp add: eventAnswer_def e s red h p visMsg_wire snd redacted visDb_visible [OF e(2,3)])
qed

text \<open>The message is served in full to a server that had a joined user at the time, and redacted to one
  whose user had left.\<close>

theorem event_answer_exact_witness:
  "(\<exists>resp. fst (resolveEvent refLib (visDb ''join'') 9 ''srv'' ''me'' ''$msg'' freshResolver) = Inr resp \<and>
      PDUs resp = [visMsg [(''body'', JStr ''secret'')]]) \<and>
   (\<exists>resp. fst (resolveEvent refLib (visDb ''leave'') 9 ''srv'' ''me'' ''$msg'' freshResolver) = Inr resp \<and>
      PDUs resp = [visMsg []])"
proof -
  have "fst (resolveEvent refLib (visDb m) 9 ''srv'' ''me'' ''$msg'' freshResolver) = eventAnswer refLib (visDb m) 9 ''srv'' ''me'' ''$msg''" for m
    using event_answer_exact [OF visDb_ok freshResolver_honest, of "\<lambda>_. True" "''srv''"] by (simp add: containsAny_def)
  then show ?thesis by (simp add: visDb_answer)
qed

lemma event_served_only:
  assumes "db_keys d" and "resolverHonest d P r" and "origin \<noteq> ''''"
    and "fst (resolveEvent lb d now origin serverName eid r) = Inr resp"
  shows "\<exists>e b body. eventTruth d eid = Some e \<and> RoomID e \<notin> set (t_partial d) \<and> (\<exists>u. joinedFrom d (RoomID e) origin u) \<and>
    PDUs resp = [body] \<and> applyPDUJSONRules lb b now = Inr body \<and>
    (b = EJSON e \<and> \<not> IsRedacted (servedEvent d e) \<or> redactEvent lb (servedEvent d e) = Inr b)"
proof -
  obtain r' where run: "resolveEvent lb d now origin serverName eid r = (Inr resp, r')"
    using assms(4) by (metis prod.collapse)
  from run obtain res r1 where g: "attempt (GetEvent d eid) r = (Inr res, r1)"
    by (auto simp: resolveEvent_def elim!: bnd_InrE)
  from run g obtain ev where ev: "res = Inr ev"
    by (auto simp: resolveEvent_def bnd_known(2) split: sum.splits storeError.splits)
  from meets_result [OF GetEvent_meets [OF assms(1)] assms(2), of eid] g ev obtain e where
    e: "eventTruth d eid = Some e" "ev = servedEvent d e" by auto
  from run g ev obtain b body where "IsPartialStateRoom d (RoomID e) = Inr False"
    and "IsHostInRoom d (RoomID e) origin = Inr True"
    and "b = EJSON e \<and> \<not> IsRedacted (servedEvent d e) \<or> redactEvent lb (servedEvent d e) = Inr b"
    and "applyPDUJSONRules lb b now = Inr body" and "resp = \<lparr>Origin = serverName, OriginServerTS = now, PDUs = [body]\<rparr>"
    by (auto simp: resolveEvent_def bnd_known(2) e(2) asks_def pdu_def elim!: bnd_InrE split: sum.splits if_splits) blast+
  with IsPartialStateRoom_Inr hostInRoom_joined [OF assms(3)] e show ?thesis
    by (intro exI [of _ e] exI [of _ b] exI [of _ body]) auto
qed

text \<open>C4. \<open>/event\<close> leaks nothing even on a database that fails halfway: whenever it answers with an
  event, the database holds the event, its room is not partial-stated, a user of exactly the asking
  server is joined to the room, and a redacted event is served in its redacted form.\<close>

theorem event_never_leaks:
  assumes "db_keys d" and "resolverHonest d P r" and "origin \<noteq> ''''"
    and "fst (resolveEvent lb d now origin serverName eid r) = Inr resp"
  shows "\<exists>e b body. eventTruth d eid = Some e \<and> RoomID e \<notin> set (t_partial d) \<and> (\<exists>u. joinedFrom d (RoomID e) origin u) \<and>
    PDUs resp = [body] \<and> applyPDUJSONRules lb b now = Inr body \<and>
    (b = EJSON e \<and> \<not> IsRedacted (servedEvent d e) \<or> redactEvent lb (servedEvent d e) = Inr b)"
  using assms by (rule event_served_only)

theorem event_never_leaks_witness:
  "\<exists>resp body. fst (resolveEvent refLib (visDb ''join'') 9 ''srv'' ''me'' ''$msg'' freshResolver) = Inr resp \<and>
     PDUs resp = [body] \<and> (\<exists>u. joinedFrom (visDb ''join'') ''!r'' ''srv'' u)"
proof -
  have "\<not> containsAny ''srv'' ''%_''" by (simp add: containsAny_def)
  from meets_result [OF resolveEvent_meets [OF visDb_ok _ this] freshResolver_honest, of "\<lambda>_. True"]
  have run: "fst (resolveEvent refLib (visDb ''join'') 9 ''srv'' ''me'' ''$msg'' freshResolver) =
     Inr \<lparr>Origin = ''me'', OriginServerTS = 9, PDUs = [visMsg [(''body'', JStr ''secret'')]]\<rparr>"
    by (simp add: visDb_answer)
  from event_never_leaks [OF visDb_ok(1) freshResolver_honest _ run, of "\<lambda>_. True"] run visDb_event [of "''join''"]
  show ?thesis by auto
qed

section \<open>State identifiers\<close>

text \<open>The state before an event, as a function of the database.\<close>

definition stateIDsAnswer :: "database \<Rightarrow> string \<Rightarrow> string \<Rightarrow> (resolverError, string list) result" where
  "stateIDsAnswer d room eid =
     (case eventTruth d eid of
        None \<Rightarrow> Inl (MErr (errEventNotFound eid))
      | Some e \<Rightarrow>
          if RoomID e \<noteq> room then Inl (MErr (errEventNotInRoom eid room))
          else if RejectedReason e \<noteq> '''' then Inl (MErr (errEventNotFound eid))
          else if Outlier e then Inl (MErr (errStateNotKnown eid))
          else (case groupTruth d eid of
             None \<Rightarrow> Inl (MErr (errStateNotKnown eid))
           | Some g \<Rightarrow> Inr (stateBefore
               (case EStateKey e of None \<Rightarrow> None | Some k \<Rightarrow> Some \<lparr>Type = EType e, StateKey = k\<rparr>)
               (if IsStateEvent e then replacesState (EJSON e) else '''') (the (stateGroupQuery d g)))))"

lemma stateIDsForEvent_meets:
  assumes "db_keys d" and "noFaults d" and "edges_ok d"
  shows "meets (resolverHonest d P) (stateIDsForEvent d room eid) (\<lambda>x. x = stateIDsAnswer d room eid)"
  unfolding stateIDsForEvent_def
proof (rule meets_bnd_eq [OF GetEvent_sure [OF assms(1,2)]], goal_cases)
  case (1 res)
  show ?case
  proof (cases "eventTruth d eid")
    case None
    with 1 have res: "res = Inl ErrNotFound" by simp
    show ?thesis by (simp add: res stateIDsAnswer_def None)
  next
    case (Some e)
    with 1 have res: "res = Inr (servedEvent d e)" by simp
    have st: "IsStateEvent (servedEvent d e) = IsStateEvent e" by (simp add: IsStateEvent_def)
    have grp: "meets (resolverHonest d P) (bnd (attempt (GetStateGroupForEvent d eid)) (\<lambda>grp.
           case grp of
             Inl ErrNotFound \<Rightarrow> failwith (MErr (errStateNotKnown eid))
           | Inl e \<Rightarrow> failwith (StoreErr ''state group'' e)
           | Inr g \<Rightarrow> bnd (onStore ''state for group'' (GetStateForGroup d g)) (\<lambda>state. ret (stateBefore skip rep state))))
        (\<lambda>x. x = (case groupTruth d eid of None \<Rightarrow> Inl (MErr (errStateNotKnown eid))
           | Some g \<Rightarrow> Inr (stateBefore skip rep (the (stateGroupQuery d g)))))" for skip rep
    proof (rule meets_bnd_eq [OF GetStateGroup_sure [OF assms(2)]], goal_cases)
      case (1 grp)
      have fin: "meets (resolverHonest d P) (bnd (onStore ''state for group'' (GetStateForGroup d g)) (\<lambda>state. ret (stateBefore skip rep state)))
          (\<lambda>x. x = Inr (stateBefore skip rep (the (stateGroupQuery d g))))" for g
        by (rule meets_bnd_eq [OF GetStateForGroup_sure [OF assms(2,3)]]) auto
      show ?case
      proof (cases "groupTruth d eid")
        case None
        with 1 have "grp = Inl ErrNotFound" by simp
        with None show ?thesis by simp
      next
        case (Some g)
        with 1 have "grp = Inr g" by simp
        with Some fin show ?thesis by simp
      qed
    qed simp
    show ?thesis unfolding res sum.case EJSON_served st using grp by (simp add: stateIDsAnswer_def Some)
  qed
qed simp

lemma stateBefore_mem:
  "x \<in> set (stateBefore skip rep m) \<longleftrightarrow>
     (\<exists>k v. (k, v) \<in> set m \<and> (if skip = Some k then rep \<noteq> '''' \<and> x = rep else x = v))"
  by (induction skip rep m rule: stateBefore.induct) auto

lemma stateBefore_set:
  assumes "gomap m"
  shows "set (stateBefore skip rep m) =
     {eid. \<exists>key. gget m key = Some eid \<and> skip \<noteq> Some key} \<union>
     {eid. eid = rep \<and> rep \<noteq> '''' \<and> (\<exists>key. skip = Some key \<and> gget m key \<noteq> None)}"
  unfolding set_eq_iff stateBefore_mem gomap_set [OF assms] by (cases skip) auto

text \<open>What is known of the auth chain cache, as a condition on the cache alone.\<close>

definition authTrue :: "(string \<Rightarrow> string) \<Rightarrow> database \<Rightarrow> (string \<times> string list) set \<Rightarrow> (string, string list) LRU \<Rightarrow> bool" where
  "authTrue sha256 d A c \<longleftrightarrow> lru_inv c \<and>
     (\<forall>k v. contents c k = Some v \<longrightarrow>
        (\<exists>(r, ids) \<in> A. k = AuthChainKey sha256 r ids \<and> set v = authAncestors d (set ids)))"

lemma authTrue_iff: "authTrue sha256 d A (authChains s) \<longleftrightarrow> authHonest sha256 d A s"
  by (simp add: authTrue_def authHonest_def)

lemma authChain_meets:
  assumes "index_valid d" and "separates sha256 A" and "askable A" and "(room, ids) \<in> A" and "noFaults d"
  shows "meets (resolverHonest d (authTrue sha256 d A)) (onStore msg (GetAuthChainIDsWithFallback sha256 d room ids))
    (\<lambda>x. \<exists>out fb. x = Inr (out, fb) \<and> set out = authAncestors d (set ids))"
  unfolding meets_def
proof (intro allI impI)
  fix r
  assume hon: "resolverHonest d (authTrue sha256 d A) r"
  then have "authHonest sha256 d A (rstore r)" by (simp add: resolverHonest_def authTrue_iff)
  from fallback_exact [OF assms(1-4) this assms(5)] obtain out fb s' where
    run: "GetAuthChainIDsWithFallback sha256 d room ids (rstore r) = (Inr (out, fb), s')"
    and out: "set out = authAncestors d (set ids)" and a: "authHonest sha256 d A s'" by blast
  have "eventsHonest d s'" "stateHonest d s'"
    using fallback_frame [of sha256 d room ids "rstore r"] run hon by (simp_all add: resolverHonest_def stateHonest_def)
  with run out a resolverHonest_store [OF hon, of s']
  show "resolverHonest d (authTrue sha256 d A) (snd (onStore msg (GetAuthChainIDsWithFallback sha256 d room ids) r)) \<and>
      (\<exists>out fb. fst (onStore msg (GetAuthChainIDsWithFallback sha256 d room ids) r) = Inr (out, fb) \<and>
         set out = authAncestors d (set ids))"
    by (simp add: onStore_def authTrue_iff)
qed

lemma StateIDs_meets:
  assumes "db_keys d" and "noFaults d" and "edges_ok d" and "index_valid d"
    and "separates sha256 A" and "askable A" and "\<forall>ids. stateIDsAnswer d room eid = Inr ids \<longrightarrow> (room, ids) \<in> A"
  shows "meets (resolverHonest d (authTrue sha256 d A)) (StateIDs sha256 d origin room eid)
    (\<lambda>x. case x of
       Inl e \<Rightarrow> gates d origin room = Inl e \<or> gates d origin room = Inr () \<and> stateIDsAnswer d room eid = Inl e
     | Inr resp \<Rightarrow> gates d origin room = Inr () \<and> stateIDsAnswer d room eid = Inr (PDUIDs resp) \<and>
         set (AuthChainIDs resp) = authAncestors d (set (PDUIDs resp)))"
  unfolding StateIDs_def computeStateIDs_def
proof (rule meets_bnd_eq [OF checkAccess_meets [OF assms(1)]], goal_cases)
  case 1
  show ?case
  proof (rule meets_bnd_eq [OF stateIDsForEvent_meets [OF assms(1-3)]], goal_cases)
    case (1 ids)
    show ?case
      by (rule meets_bnd [OF authChain_meets [OF assms(4-6) assms(7) [rule_format, OF 1] assms(2)]])
        (use 1 \<open>gates d origin room = _\<close> in auto)
  qed (use \<open>gates d origin room = _\<close> in simp)
qed simp

text \<open>C2. \<open>/state_ids\<close> answers with the state before the event and its exact auth chain, and only to a
  server with access: on a database that answers, from honest caches, an answer means that the room
  is not partial-stated, a user of exactly the asking server is joined and the current ACL admits it;
  that the event is held, in that room, accepted and not an outlier; that the PDU identifiers are
  those of the state at the event, with the event's own key replaced by what it replaced, or left
  out if it replaced nothing; and that the auth chain is exactly the set of auth ancestors of those.
  Otherwise the first gate that is shut, or the first reason the state is unknown, is the error.\<close>

theorem state_ids_exact:
  assumes "db_keys d" and "noFaults d" and "edges_ok d" and "index_valid d" and "origin \<noteq> ''''"
    and "separates sha256 A" and "askable A" and "\<forall>ids. stateIDsAnswer d room eid = Inr ids \<longrightarrow> (room, ids) \<in> A"
    and "resolverHonest d (authTrue sha256 d A) r"
  shows "case fst (StateIDs sha256 d origin room eid r) of
      Inl e \<Rightarrow> gates d origin room = Inl e \<or> gates d origin room = Inr () \<and> stateIDsAnswer d room eid = Inl e
    | Inr resp \<Rightarrow> hasAccess d origin room \<and>
        (\<exists>e g m. eventTruth d eid = Some e \<and> RoomID e = room \<and> RejectedReason e = '''' \<and> \<not> Outlier e \<and>
           groupTruth d eid = Some g \<and> stateGroupQuery d g = Some m \<and>
           set (PDUIDs resp) =
             {i. \<exists>key. gget m key = Some i \<and> EStateKey e \<noteq> Some (StateKey key) \<or> gget m key = Some i \<and> EType e \<noteq> Type key} \<union>
             {i. i = replacesState (EJSON e) \<and> i \<noteq> '''' \<and>
                (\<exists>k. EStateKey e = Some k \<and> gget m \<lparr>Type = EType e, StateKey = k\<rparr> \<noteq> None)}) \<and>
        set (AuthChainIDs resp) = authAncestors d (set (PDUIDs resp))"
proof -
  note res = meets_result [OF StateIDs_meets [where eid = eid and origin = origin, OF assms(1-4,6-8)] assms(9)]
  show ?thesis
  proof (cases "fst (StateIDs sha256 d origin room eid r)")
    case (Inl e)
    with res show ?thesis by simp
  next
    case (Inr resp)
    with res have g: "gates d origin room = Inr ()" and ids: "stateIDsAnswer d room eid = Inr (PDUIDs resp)"
      and chain: "set (AuthChainIDs resp) = authAncestors d (set (PDUIDs resp))" by auto
    from ids obtain e gr where e: "eventTruth d eid = Some e" "RoomID e = room" "RejectedReason e = ''''" "\<not> Outlier e"
      and gr: "groupTruth d eid = Some gr"
      and pdus: "PDUIDs resp = stateBefore (case EStateKey e of None \<Rightarrow> None | Some k \<Rightarrow> Some \<lparr>Type = EType e, StateKey = k\<rparr>)
        (if IsStateEvent e then replacesState (EJSON e) else '''') (the (stateGroupQuery d gr))"
      by (auto simp: stateIDsAnswer_def split: option.splits if_splits)
    obtain m where m: "stateGroupQuery d gr = Some m" "gomap m" using query_total [OF assms(2,3)] by blast
    have skip: "(case EStateKey e of None \<Rightarrow> None | Some k \<Rightarrow> Some \<lparr>Type = EType e, StateKey = k\<rparr>) \<noteq> Some key \<longleftrightarrow>
        EStateKey e \<noteq> Some (StateKey key) \<or> EType e \<noteq> Type key" for key
      by (cases key) (auto split: option.splits)
    have "set (PDUIDs resp) =
             {i. \<exists>key. gget m key = Some i \<and> EStateKey e \<noteq> Some (StateKey key) \<or> gget m key = Some i \<and> EType e \<noteq> Type key} \<union>
             {i. i = replacesState (EJSON e) \<and> i \<noteq> '''' \<and>
                (\<exists>k. EStateKey e = Some k \<and> gget m \<lparr>Type = EType e, StateKey = k\<rparr> \<noteq> None)}"
      unfolding pdus m(1) option.sel stateBefore_set [OF m(2)] skip
      by (cases "EStateKey e") (auto simp: IsStateEvent_def)
    with Inr gates_open [OF g assms(5)] e gr m(1) chain show ?thesis by auto
  qed
qed

definition stDb :: database where
  "stDb = authDb\<lparr>t_event_json := map (\<lambda>i. visJson i []) [''$m'', ''$b'', ''$c''], t_event_groups := [(''$m'', Some 1)],
     t_group_state := [\<lparr>sr_group = 1, sr_type = ''m.room.name'', sr_key = '''', sr_event = ''$b''\<rparr>,
       \<lparr>sr_group = 1, sr_type = ''m.room.power_levels'', sr_key = '''', sr_event = ''$m''\<rparr>],
     t_current := [\<lparr>cs_event = ''$now'', cs_room = ''!r'', cs_type = ''m.room.member'', cs_key = ''@s:srv'', cs_membership = Some ''join''\<rparr>]\<rparr>"

lemma stDb_ok: "db_keys stDb" "noFaults stDb" "edges_ok stDb" "index_valid stDb" "authEdges stDb = authEdges authDb"
proof -
  have same: "t_chains stDb = t_chains authDb" "t_links stDb = t_links authDb" "authEdges stDb = authEdges authDb"
    by (simp_all add: stDb_def authEdges_def)
  have "linked stDb f c n \<longleftrightarrow> linked authDb f c n" for f c n
  proof
    show "linked stDb f c n \<Longrightarrow> linked authDb f c n"
      by (induction rule: linked.induct) (use same in \<open>auto intro: linked.intros\<close>)
    show "linked authDb f c n \<Longrightarrow> linked stDb f c n"
      by (induction rule: linked.induct) (use same in \<open>auto intro: linked.intros\<close>)
  qed
  then show "index_valid stDb" using authDb_valid same by (simp add: index_valid_def links_pos_def)
  show "authEdges stDb = authEdges authDb" by (rule same)
qed (simp_all add: stDb_def authDb_def authRow_def visJson_def sampleDb_def db_keys_def noFaults_def edges_ok_def)

theorem state_ids_exact_witness:
  "\<exists>resp. fst (StateIDs (\<lambda>x. x) stDb ''srv'' ''!r'' ''$m'' freshResolver) = Inr resp \<and>
     PDUIDs resp = [''$b''] \<and> ''$c'' \<in> set (AuthChainIDs resp)"
proof -
  let ?A = "{(''!r'', [''$b''])}" and ?run = "fst (StateIDs (\<lambda>x. x) stDb ''srv'' ''!r'' ''$m'' freshResolver)"
  have ids: "stateIDsAnswer stDb ''!r'' ''$m'' = Inr [''$b'']" by code_simp
  have g: "gates stDb ''srv'' ''!r'' = Inr ()" by code_simp
  have q: "\<forall>xs. stateIDsAnswer stDb ''!r'' ''$m'' = Inr xs \<longrightarrow> (''!r'', xs) \<in> ?A" using ids by simp
  have A: "separates (\<lambda>x. x) ?A" "askable ?A" by (simp_all add: separates_def askable_def)
  have hon: "resolverHonest stDb (authTrue (\<lambda>x. x) stDb ?A) freshResolver"
    by (rule freshResolver_honest) (simp add: authTrue_def freshStore_inv freshStore_empty)
  note st = StateIDs_meets [OF stDb_ok(1-4) A q]
  from meets_result [OF st, OF hon, of "''srv''"] ids g obtain resp where r: "?run = Inr resp" "PDUIDs resp = [''$b'']"
    by (cases ?run) auto
  have "origin \<noteq> '''' \<Longrightarrow> fst (StateIDs (\<lambda>x. x) stDb origin ''!r'' ''$m'' freshResolver) = Inr resp \<Longrightarrow>
      set (AuthChainIDs resp) = authAncestors stDb (set (PDUIDs resp))" for origin resp
    using state_ids_exact [OF stDb_ok(1-4) _ A q hon, of origin] by simp
  from this [OF _ r(1)] have "set (AuthChainIDs resp) = authAncestors stDb (set (PDUIDs resp))" by simp
  moreover have "(''$b'', ''$c'') \<in> (authEdges stDb)\<^sup>+" by (auto simp: stDb_ok(5) authDb_edges)
  ultimately show ?thesis using r by (auto simp: authAncestors_def)
qed

section \<open>Missing events\<close>

text \<open>The body of one event and the bodies of a walk, as functions of the database.\<close>

definition bodyAnswer :: "lib \<Rightarrow> database \<Rightarrow> int \<Rightarrow> string \<Rightarrow> string \<Rightarrow> bool \<Rightarrow> Event \<Rightarrow> (resolverError, raw) result" where
  "bodyAnswer lb d now origin serverName partial e =
     (case senderOf (EJSON e) of
        Inl m \<Rightarrow> Inl (PduErr '''' m)
      | Inr sender \<Rightarrow>
          (case (if IsRedacted (servedEvent d e) \<or> \<not> visibleTo d e origin serverName partial sender
                 then redactEvent lb (servedEvent d e) else Inr (EJSON e)) of
             Inl x \<Rightarrow> Inl (PduErr (''redact '' @ EventID e) x)
           | Inr b \<Rightarrow>
               (case applyPDUJSONRules lb b now of
                  Inl x \<Rightarrow> Inl (PduErr (''prepare pdu '' @ EventID e) x)
                | Inr body \<Rightarrow> Inr body)))"

text \<open>What the loop skips: events not held, rejected ones, and withheld redactions.\<close>

definition skipped :: "database \<Rightarrow> (string, bool) gomap \<Rightarrow> string \<Rightarrow> bool" where
  "skipped d withheld eid \<longleftrightarrow>
     (case eventTruth d eid of None \<Rightarrow> True | Some e \<Rightarrow> RejectedReason e \<noteq> '''' \<or> gget withheld eid = Some True)"

fun bodiesAnswer :: "lib \<Rightarrow> database \<Rightarrow> int \<Rightarrow> string \<Rightarrow> string \<Rightarrow> bool \<Rightarrow> (string, bool) gomap \<Rightarrow> string list
    \<Rightarrow> (resolverError, raw list) result" where
  "bodiesAnswer lb d now origin serverName partial withheld [] = Inr []"
| "bodiesAnswer lb d now origin serverName partial withheld (eid # ids) =
     (if skipped d withheld eid then bodiesAnswer lb d now origin serverName partial withheld ids
      else rbind (bodyAnswer lb d now origin serverName partial (the (eventTruth d eid))) (\<lambda>body.
        rbind (bodiesAnswer lb d now origin serverName partial withheld ids) (\<lambda>out.
        Inr (if depthInCanonicalRange body then body # out else out))))"

lemma bodiesAnswer_mem:
  assumes "bodiesAnswer lb d now origin serverName partial withheld ids = Inr out"
  shows "length out \<le> length ids \<and> (\<forall>body. body \<in> set out \<longleftrightarrow> (\<exists>eid e. eid \<in> set ids \<and> eventTruth d eid = Some e \<and>
     RejectedReason e = '''' \<and> gget withheld eid \<noteq> Some True \<and>
     bodyAnswer lb d now origin serverName partial e = Inr body \<and> depthInCanonicalRange body))"
  using assms
proof (induction ids arbitrary: out)
  case (Cons eid ids)
  show ?case
  proof (cases "skipped d withheld eid")
    case True
    then have "eventTruth d eid = Some e \<Longrightarrow> RejectedReason e \<noteq> '''' \<or> gget withheld eid = Some True" for e
      by (simp add: skipped_def)
    with Cons True show ?thesis by fastforce
  next
    case False
    then obtain e where e: "eventTruth d eid = Some e" "RejectedReason e = ''''" "gget withheld eid \<noteq> Some True"
      by (auto simp: skipped_def split: option.splits)
    with Cons.prems False obtain body out' where b: "bodyAnswer lb d now origin serverName partial e = Inr body"
      and o: "bodiesAnswer lb d now origin serverName partial withheld ids = Inr out'"
      and out: "out = (if depthInCanonicalRange body then body # out' else out')"
      by (auto simp: rbind_eq_Inr)
    have one: "(\<exists>e. eventTruth d eid = Some e \<and> RejectedReason e = '''' \<and> gget withheld eid \<noteq> Some True \<and>
       bodyAnswer lb d now origin serverName partial e = Inr x \<and> depthInCanonicalRange x) \<longleftrightarrow> x = body \<and> depthInCanonicalRange body" for x
      using e b by auto
    from Cons.IH [OF o] show ?thesis using one unfolding out by (auto simp del: ex_simps) metis+
  qed
qed simp

lemma missingEventBody_meets:
  assumes "db_keys d" and "noFaults d" and "edges_ok d" and "origin \<noteq> ''''" and "\<not> containsAny origin ''%_''"
  shows "meets (resolverHonest d P) (missingEventBody lb d (servedEvent d e) origin serverName partial now)
    (\<lambda>x. x = bodyAnswer lb d now origin serverName partial e)"
  unfolding missingEventBody_def
proof (rule meets_bnd_eq [OF eventVisibleInRoom_meets [OF assms]], goal_cases)
  case (1 visible)
  then obtain sender where s: "senderOf (EJSON e) = Inr sender" "visible = visibleTo d e origin serverName partial sender"
    by (auto split: sum.splits)
  show ?case
    by (rule meets_bnd_eq [OF meets_pdu], rule meets_weaken [OF meets_pdu])
      (auto simp: s bodyAnswer_def split: if_splits sum.splits)
qed (auto simp: bodyAnswer_def split: sum.splits)

lemma missingBodies_meets:
  assumes "db_keys d" and "noFaults d" and "edges_ok d" and "origin \<noteq> ''''" and "\<not> containsAny origin ''%_''"
    and evs: "\<And>x. x \<in> set ids \<Longrightarrow> gget evs x = map_option (servedEvent d) (eventTruth d x)"
  shows "meets (resolverHonest d P) (missingBodies lb d origin serverName partial now evs withheld ids)
    (\<lambda>x. x = bodiesAnswer lb d now origin serverName partial withheld ids)"
  using evs
proof (induction ids)
  case (Cons eid ids)
  note IH = Cons.IH [OF Cons.prems [OF list.set_intros(2)]]
  show ?case
  proof (cases "skipped d withheld eid")
    case True
    with IH Cons.prems [of eid] show ?thesis by (auto simp: skipped_def split: option.splits)
  next
    case False
    then obtain e where e: "eventTruth d eid = Some e" "RejectedReason e = ''''" "gget withheld eid \<noteq> Some True"
      by (auto simp: skipped_def split: option.splits)
    then have ev: "gget evs eid = Some (servedEvent d e)" using Cons.prems [of eid] by simp
    have go: "meets (resolverHonest d P) (bnd (missingEventBody lb d (servedEvent d e) origin serverName partial now) (\<lambda>body.
            bnd (missingBodies lb d origin serverName partial now evs withheld ids) (\<lambda>out.
            ret (if depthInCanonicalRange body then body # out else out))))
        (\<lambda>x. x = bodiesAnswer lb d now origin serverName partial withheld (eid # ids))"
      by (rule meets_bnd_eq [OF missingEventBody_meets [OF assms(1-5)]], rule meets_bnd_eq [OF IH]) (use False e in auto)
    show ?thesis unfolding missingBodies.simps ev option.case EJSON_served using e(2,3) go by simp
  qed
qed simp

lemma resolveMissing_meets:
  assumes "db_keys d" and "noFaults d" and "edges_ok d" and "origin \<noteq> ''''" and "\<not> containsAny origin ''%_''"
    and "currentACL d room = Inr acl" and "Allowed acl origin" and "IsHostInRoom d room origin = Inr True"
    and "GetMissingEvents d room earliest latest lim = Inr (ids, t)"
  shows "meets (resolverHonest d P) (resolveMissingEvents lb d now origin serverName room earliest latest lim)
    (\<lambda>x. \<exists>evs withheld. gomap evs \<and>
       (\<forall>x. gget evs x = (if x \<in> set ids then map_option (servedEvent d) (eventTruth d x) else None)) \<and>
       WithheldRedactions lb d evs = Inr withheld \<and>
       x = rbind (bodiesAnswer lb d now origin serverName (room \<in> set (t_partial d)) withheld ids) (\<lambda>out.
         Inr \<lparr>Events = out, WalkTruncated = t\<rparr>))" (is "meets _ _ ?R")
proof -
  have go: "meets (resolverHonest d P)
        (bnd (onStore ''get events'' (GetEvents d ids)) (\<lambda>evs.
         bnd (asks ''redaction authorisation'' (WithheldRedactions lb d evs)) (\<lambda>withheld.
         bnd (missingBodies lb d origin serverName (room \<in> set (t_partial d)) now evs withheld ids) (\<lambda>out.
         ret \<lparr>Events = out, WalkTruncated = t\<rparr>)))) ?R"
  proof (rule meets_bnd [OF GetEvents_sure [OF assms(1,2)]], goal_cases)
    case (1 evs)
    then have gm: "gomap evs" and
      evs: "gget evs x = (if x \<in> set ids then map_option (servedEvent d) (eventTruth d x) else None)" for x by auto
    obtain w where w: "WithheldRedactions lb d evs = Inr w" using Withheld_ok [OF assms(2)] by blast
    have "?R (rbind (bodiesAnswer lb d now origin serverName (room \<in> set (t_partial d)) w ids) (\<lambda>out.
         Inr \<lparr>Events = out, WalkTruncated = t\<rparr>))" using gm evs w by blast
    then show ?case unfolding w bnd_pure
      by (intro meets_bnd_eq [OF missingBodies_meets [OF assms(1-5)]]) (use evs in auto)
  qed simp
  show ?thesis unfolding resolveMissingEvents_def
    by (rule meets_bnd_eq [OF serverACL_meets [OF assms(1)]]) (use assms(6-9) partial_sure [OF assms(2)] go in auto)
qed

lemma resolveMissing_gates:
  assumes "db_keys d" and "resolverHonest d P r"
    and "fst (resolveMissingEvents lb d now origin serverName room earliest latest lim r) = Inr resp"
  shows "\<exists>acl ids t. currentACL d room = Inr acl \<and> Allowed acl origin \<and> IsHostInRoom d room origin = Inr True \<and>
    GetMissingEvents d room earliest latest lim = Inr (ids, t)"
proof -
  obtain r' where run: "resolveMissingEvents lb d now origin serverName room earliest latest lim r = (Inr resp, r')"
    using assms(3) by (metis prod.collapse)
  then obtain acl r1 where acl: "serverACL d room r = (Inr acl, r1)"
    by (auto simp: resolveMissingEvents_def elim!: bnd_InrE)
  with meets_result [OF serverACL_meets [OF assms(1)] assms(2), of room] have "currentACL d room = Inr acl" by simp
  moreover from run acl have "Allowed acl origin" "IsHostInRoom d room origin = Inr True"
    "\<exists>ids t. GetMissingEvents d room earliest latest lim = Inr (ids, t)"
    by (auto simp: resolveMissingEvents_def bnd_known(2) asks_def elim!: bnd_InrE split: sum.splits if_splits)
  ultimately show ?thesis by blast
qed

text \<open>C3. What \<open>/get_missing_events\<close> serves: on a database that answers, from honest caches, an
  answer means that the current ACL admits the asking server and a user of exactly that server is
  joined to the room (which may be partial-stated); its bodies are exactly those of the events the
  walk found that the database holds, that were accepted, whose redaction is not withheld and whose
  depth is canonical; each is the stored event only if the event is not redacted and is visible to
  the server there, a remote sender's event never being visible while the room is partial-stated,
  and is the redacted event if not.\<close>

theorem missing_events_answer:
  assumes "db_keys d" and "noFaults d" and "edges_ok d" and "resolverHonest d P r"
    and "origin \<noteq> ''''" and "\<not> containsAny origin ''%_''"
    and "fst (resolveMissingEvents lb d now origin serverName room earliest latest lim r) = Inr resp"
  shows "\<exists>acl ids evs withheld. currentACL d room = Inr acl \<and> Allowed acl origin \<and> (\<exists>u. joinedFrom d room origin u) \<and>
    GetMissingEvents d room earliest latest lim = Inr (ids, WalkTruncated resp) \<and>
    (\<forall>x. gget evs x = (if x \<in> set ids then map_option (servedEvent d) (eventTruth d x) else None)) \<and>
    WithheldRedactions lb d evs = Inr withheld \<and> length (Events resp) \<le> length ids \<and>
    (\<forall>body. body \<in> set (Events resp) \<longleftrightarrow> (\<exists>eid e. eid \<in> set ids \<and> eventTruth d eid = Some e \<and>
       RejectedReason e = '''' \<and> gget withheld eid \<noteq> Some True \<and>
       bodyAnswer lb d now origin serverName (room \<in> set (t_partial d)) e = Inr body \<and> depthInCanonicalRange body))"
proof -
  from resolveMissing_gates [OF assms(1,4,7)] obtain acl ids t where
    g: "currentACL d room = Inr acl" "Allowed acl origin" "IsHostInRoom d room origin = Inr True"
      "GetMissingEvents d room earliest latest lim = Inr (ids, t)" by blast
  from meets_result [OF resolveMissing_meets [OF assms(1-3,5,6) g], OF assms(4), of lb now serverName] obtain evs w where
    evs: "\<forall>x. gget evs x = (if x \<in> set ids then map_option (servedEvent d) (eventTruth d x) else None)"
    and w: "WithheldRedactions lb d evs = Inr w"
    and x: "fst (resolveMissingEvents lb d now origin serverName room earliest latest lim r) =
       rbind (bodiesAnswer lb d now origin serverName (room \<in> set (t_partial d)) w ids) (\<lambda>out.
         Inr \<lparr>Events = out, WalkTruncated = t\<rparr>)"
    by blast
  from x assms(7) obtain out where out: "bodiesAnswer lb d now origin serverName (room \<in> set (t_partial d)) w ids = Inr out"
      "resp = \<lparr>Events = out, WalkTruncated = t\<rparr>"
    by (cases "bodiesAnswer lb d now origin serverName (room \<in> set (t_partial d)) w ids") auto
  have "GetMissingEvents d room earliest latest lim = Inr (ids, WalkTruncated resp)" "Events resp = out"
    using g(4) out(2) by simp_all
  with bodiesAnswer_mem [OF out(1)] g(1,2) evs w hostInRoom_joined [OF assms(5) g(3)] show ?thesis by blast
qed

definition missDb :: database where
  "missDb = dagDb\<lparr>t_event_json := [visJson ''$b'' [(''body'', JStr ''secret'')]], t_redactions := [],
     t_current := [\<lparr>cs_event = ''$now'', cs_room = ''!r'', cs_type = ''m.room.member'', cs_key = ''@s:srv'', cs_membership = Some ''join''\<rparr>]\<rparr>"

lemma missDb_ok: "db_keys missDb" "noFaults missDb" "edges_ok missDb"
  by (simp_all add: missDb_def dagDb_def sampleDb_def visJson_def db_keys_def noFaults_def edges_ok_def)

lemma missDb_run:
  "\<exists>resp. fst (resolveMissingEvents refLib missDb 9 ''srv'' ''me'' ''!r'' [''$a''] [''$c''] 10 freshResolver) = Inr resp \<and>
     Events resp = [visMsg [(''body'', JStr ''secret'')]]"
proof -
  let ?b = "ej_json (visJson ''$b'' [(''body'', JStr ''secret'')])"
  define e where "e = the (eventTruth missDb ''$b'')"
  have acl: "currentACL missDb ''!r'' = Inr None" by code_simp
  have host: "IsHostInRoom missDb ''!r'' ''srv'' = Inr True" by code_simp
  have walk: "GetMissingEvents missDb ''!r'' [''$a''] [''$c''] 10 = Inr ([''$b''], False)" by code_simp
  have o: "''srv'' \<noteq> ''''" "\<not> containsAny ''srv'' ''%_''" "Allowed None ''srv''" by (simp_all add: containsAny_def Allowed_def)
  have e: "eventTruth missDb ''$b'' = Some e" "EventID e = ''$b''" "EJSON e = ?b" "RejectedReason e = ''''" "RedactedBy e = ''''"
    "EType e = ''m.room.message''"
    by (simp_all add: e_def eventTruth_def eventQuery_def missDb_def dagDb_def visJson_def leftJoin_def mkEvent_def sampleDb_def)
  have db: "redactionRows missDb i = []" "banOf missDb r u = None" "t_partial missDb = []" "groupTruth missDb i = None" for i r u
    by (simp_all add: redactionRows_def banOf_def missDb_def dagDb_def sampleDb_def groupTruth_def)
  have s: "servedEvent missDb e = e" by (simp add: servedEvent_def redactionOf_def db)
  have vis: "visibleTo missDb e ''srv'' ''me'' False sender" for sender
    by (simp add: visibleTo_def visSetting_def stateAt_def db HistoryVisibilityShared_def HistoryVisibilityInvited_def
        HistoryVisibilityJoined_def) (simp add: missDb_def dagDb_def sampleDb_def)
  have "unmarshalMap ''unsigned'' ?b = Some []" by code_simp
  then have wire: "applyPDUJSONRules refLib ?b 9 = Inr (visMsg [(''body'', JStr ''secret'')])"
    by (simp add: applyPDUJSONRules_def applyPDUJSONRulesAt_def keepFields_def persistedUnsignedFields_def
        ageOf_def marshalMap_def refLib_def refSetRaw_def) (simp add: visJson_def)
  have "senderOf ?b = Inr ''@u:a''" by code_simp
  then have body: "bodyAnswer refLib missDb 9 ''srv'' ''me'' False e = Inr (visMsg [(''body'', JStr ''secret'')])"
    by (simp add: bodyAnswer_def s e vis IsRedacted_def wire)
  have depth: "depthInCanonicalRange (visMsg [(''body'', JStr ''secret'')])" by code_simp
  from meets_result [OF resolveMissing_meets [OF missDb_ok o(1,2) acl o(3) host walk], OF freshResolver_honest, of "\<lambda>_. True" refLib 9 "''me''"]
  obtain evs w where gm: "gomap evs"
    and evs: "\<forall>x. gget evs x = (if x \<in> set [''$b''] then map_option (servedEvent missDb) (eventTruth missDb x) else None)"
    and w: "WithheldRedactions refLib missDb evs = Inr w"
    and run: "fst (resolveMissingEvents refLib missDb 9 ''srv'' ''me'' ''!r'' [''$a''] [''$c''] 10 freshResolver) =
      rbind (bodiesAnswer refLib missDb 9 ''srv'' ''me'' (''!r'' \<in> set (t_partial missDb)) w [''$b'']) (\<lambda>out. Inr \<lparr>Events = out, WalkTruncated = False\<rparr>)"
    by auto
  have "(''$b'', e') \<in> set evs \<Longrightarrow> e' = e" for e' using gomap_set [OF gm] evs e(1) s by simp
  then have "gget w ''$b'' \<noteq> Some True"
    using Withheld_mem [OF _ w, of "''$b''"] missDb_ok(1) e(6)
    by (auto simp: db_keys_def redactionTargets_mem untargeted_def)
  then have "\<not> skipped missDb w ''$b''" by (simp add: skipped_def e)
  with run show ?thesis by (simp add: db e body depth)
qed

theorem missing_events_answer_witness:
  "\<exists>resp. fst (resolveMissingEvents refLib missDb 9 ''srv'' ''me'' ''!r'' [''$a''] [''$c''] 10 freshResolver) = Inr resp \<and>
     length (Events resp) = 1 \<and> (\<exists>u. joinedFrom missDb ''!r'' ''srv'' u)"
proof -
  obtain resp where run: "fst (resolveMissingEvents refLib missDb 9 ''srv'' ''me'' ''!r'' [''$a''] [''$c''] 10 freshResolver) = Inr resp"
    and ev: "Events resp = [visMsg [(''body'', JStr ''secret'')]]" using missDb_run by blast
  have "''srv'' \<noteq> ''''" "\<not> containsAny ''srv'' ''%_''" by (simp_all add: containsAny_def)
  from missing_events_answer [OF missDb_ok freshResolver_honest this run, of "\<lambda>_. True"]
  have "\<exists>u. joinedFrom missDb ''!r'' ''srv'' u" by blast
  with run ev show ?thesis by simp
qed

section \<open>A visibility lookup that fails\<close>

text \<open>
  The exactness of \<open>/event\<close> is stated for a database that answers, and not only because a fault fails
  the request: when the one read that fails is that of the history visibility event, the error is
  dropped and the room counts as shared, so that an event hidden by the setting is served in full.
\<close>

lemma visibility_fails_open:
  assumes "gget state visKey = Some vid" and "fst (GetEvent d vid (rstore r)) = Inl e"
  shows "fst (fetchSetting d state r) = Inr HistoryVisibilityShared"
  using assms by (simp add: fetchSetting_def attempt_def bnd_def)

lemma faulty_read:
  assumes "\<And>q. faults d q = Some (QueryFault m)"
  shows "\<exists>e. fst (GetEvent d eid freshStore) = Inl e"
proof -
  obtain hit c where g: "Get eid (events freshStore) = (hit, c)" by fastforce
  have "hit = None"
    using honest_hit [OF freshStore_honest [of "\<lambda>_. None"], of eid _ c] g by (cases hit) auto
  with g show ?thesis
    by (auto simp: GetEvent_def GetEvents_def getEventsRaw_def getEventsRawOpt_def bnd_run Let_def deliver_def assms
        split: prod.splits if_splits)
qed

lemma visibility_fails_open_happens:
  assumes "\<And>q. faults d q = Some (QueryFault m)" and "gget state visKey = Some vid"
  shows "fst (fetchSetting d state freshResolver) = Inr HistoryVisibilityShared"
proof -
  obtain e where "fst (GetEvent d vid freshStore) = Inl e" using faulty_read [OF assms(1)] by blast
  then show ?thesis by (intro visibility_fails_open [OF assms(2)]) (simp add: freshResolver_def NewResolver_def)
qed

end
