(* ===== verification/Coalesce.thy ===== *)
theory Coalesce
  imports Answers
begin

text \<open>
  \<open>internal/matrixstate/coalesce.go\<close>: concurrent \<open>/state_ids\<close> requests for one event share one
  computation.  \<open>golang.org/x/sync/singleflight\<close> is not part of the repository: what a caller receives
  from its channel is a parameter, and the theorem names what the package documents of it,
  \<open>shared_by_key\<close>.  A shared computation is a value of type \<open>execution\<close>: the request that started it,
  and how its function ended.
\<close>

section \<open>Definitions\<close>

datatype run = Returned "(resolverError, StateIDsResponse) result" | Panicked string

record execution =
  xroom :: string
  xevent :: string
  xstarter :: nat
  xrun :: run

text \<open>The key \<open>StateIDs\<close> passes: room and event separated by a NUL byte.\<close>

definition flightKey :: "string \<Rightarrow> string \<Rightarrow> string" where
  "flightKey roomID eventID = roomID @ nul # eventID"

text \<open>The function handed to \<open>DoChan\<close>: a panic of the computation becomes an error.\<close>

definition guarded :: "run \<Rightarrow> (resolverError, StateIDsResponse) result" where
  "guarded x =
     (case x of
        Returned r \<Rightarrow> r
      | Panicked p \<Rightarrow> Inl (PduErr ''state_ids: shared computation panicked'' p))"

definition cloneStateIDs :: "StateIDsResponse \<Rightarrow> StateIDsResponse" where
  "cloneStateIDs r = \<lparr>PDUIDs = PDUIDs r, AuthChainIDs = AuthChainIDs r\<rparr>"

text \<open>How the \<open>select\<close> of \<open>do\<close> ends for a caller: a result arrives on its channel, or its own context ends.\<close>

datatype outcome = Received bool "(resolverError, StateIDsResponse) result" | CtxDone string

datatype flightLabel = Computed | Joined | Abandoned

definition flightDo :: "outcome \<Rightarrow> Trace option \<Rightarrow> (resolverError, StateIDsResponse) result \<times> flightLabel \<times> Trace option" where
  "flightDo out tr =
     (case out of
        Received computed res \<Rightarrow>
          ((case res of Inl e \<Rightarrow> Inl e | Inr v \<Rightarrow> Inr (cloneStateIDs v)),
           if computed then Computed else Joined,
           if computed then tr else MarkJoined tr)
      | CtxDone e \<Rightarrow> (Inl (PduErr ''state_ids: waiting for shared computation'' e), Abandoned, tr))"

text \<open>A request that passed its own access check and then shares the computation.\<close>

definition StateIDsShared :: "database \<Rightarrow> string \<Rightarrow> string \<Rightarrow> outcome \<Rightarrow> StateIDsResponse resolverOp" where
  "StateIDsShared d origin roomID out =
     bnd (checkAccess d origin roomID) (\<lambda>_ r.
     (case flightDo out (trace (rstore r)) of (res, _, tr) \<Rightarrow> (res, r\<lparr>rstore := (rstore r)\<lparr>trace := tr\<rparr>\<rparr>)))"

section \<open>What the package promises\<close>

text \<open>
  A result a caller receives for a key is that of an execution started for the same key, by that
  caller exactly when its own function ran.
\<close>

definition shared_by_key :: "execution set \<Rightarrow> nat \<Rightarrow> string \<Rightarrow> outcome \<Rightarrow> bool" where
  "shared_by_key H caller key out \<longleftrightarrow>
     (\<forall>computed res. out = Received computed res \<longrightarrow>
        (\<exists>x \<in> H. flightKey (xroom x) (xevent x) = key \<and> res = guarded (xrun x) \<and> (computed \<longleftrightarrow> xstarter x = caller)))"

lemma flightKey_inj:
  assumes "flightKey r e = flightKey r' e'" and "nul \<notin> set r" and "nul \<notin> set r'"
  shows "r = r' \<and> e = e'"
proof -
  have "cut nul (flightKey r e) = (r, Some e)" "cut nul (flightKey r' e') = (r', Some e')"
    using assms(2,3) by (simp_all add: flightKey_def cut_append)
  with assms(1) show ?thesis by (metis Pair_inject option.inject)
qed

text \<open>Sharing never mixes answers or skips a gate: when every shared computation's function
  computed the answer of its own room and event and room identifiers have no NUL byte, a caller that
  gets an answer has passed its own access check and gets an answer to its own question, whoever's
  computation it was; a computation that panicked gives its callers an error; and a caller whose
  context ends gets an error and nothing else.\<close>

theorem shared_answer_is_own:
  assumes "db_keys d" and "resolverHonest d P r" and "origin \<noteq> ''''"
    and "shared_by_key H caller (flightKey room eid) out"
    and "nul \<notin> set room" and "\<forall>x \<in> H. nul \<notin> set (xroom x)"
    and "\<forall>x \<in> H. \<forall>resp. xrun x = Returned (Inr resp) \<longrightarrow> answers (xroom x) (xevent x) resp"
    and "fst (StateIDsShared d origin room out r) = Inr resp"
  shows "hasAccess d origin room \<and> answers room eid resp"
proof -
  obtain x r1 where c: "checkAccess d origin room r = (x, r1)" by fastforce
  with assms(8) obtain u where x: "x = Inr u"
    by (cases x) (auto simp: StateIDsShared_def bnd_known)
  with c meets_result [OF checkAccess_meets [OF assms(1)], OF assms(2), of origin room] have "gates d origin room = Inr ()" by simp
  then have access: "hasAccess d origin room" using gates_open assms(3) by blast
  from assms(8) c x obtain computed v where out: "out = Received computed (Inr v)" and resp: "resp = cloneStateIDs v"
    by (auto simp: StateIDsShared_def bnd_known flightDo_def split: outcome.splits sum.splits)
  with assms(4) obtain y where y: "y \<in> H" "flightKey (xroom y) (xevent y) = flightKey room eid" "Inr v = guarded (xrun y)"
    unfolding shared_by_key_def by blast
  then have "xrun y = Returned (Inr v)" by (auto simp: guarded_def split: run.splits)
  with assms(7) y(1) have "answers (xroom y) (xevent y) v" by blast
  moreover have "xroom y = room \<and> xevent y = eid"
    using flightKey_inj [OF y(2)] assms(5,6) y(1) by blast
  moreover have "resp = v" by (simp add: resp cloneStateIDs_def)
  ultimately show ?thesis using access by simp
qed

theorem shared_answer_is_own_witness:
  "\<exists>resp. fst (StateIDsShared stDb ''srv'' ''!r'' (Received False (Inr \<lparr>PDUIDs = [''$b''], AuthChainIDs = [''$c'']\<rparr>)) freshResolver) = Inr resp \<and>
     hasAccess stDb ''srv'' ''!r'' \<and> PDUIDs resp = [''$b'']"
proof -
  let ?v = "\<lparr>PDUIDs = [''$b''], AuthChainIDs = [''$c'']\<rparr>"
  let ?H = "{\<lparr>xroom = ''!r'', xevent = ''$m'', xstarter = 0, xrun = Returned (Inr ?v)\<rparr>}"
  let ?P = "\<lambda>_ :: (string, string list) LRU. True" and ?out = "Received False (Inr ?v)"
  have hon: "resolverHonest stDb ?P freshResolver" by (rule freshResolver_honest) simp
  have g: "gates stDb ''srv'' ''!r'' = Inr ()" by code_simp
  obtain x r1 where c: "checkAccess stDb ''srv'' ''!r'' freshResolver = (x, r1)" by fastforce
  with meets_result [OF checkAccess_meets [OF stDb_ok(1)], OF hon, of "''srv''" "''!r''"] g have "x = Inr ()" by simp
  with c have run: "fst (StateIDsShared stDb ''srv'' ''!r'' ?out freshResolver) = Inr ?v"
    by (simp add: StateIDsShared_def bnd_known flightDo_def cloneStateIDs_def)
  have s: "shared_by_key ?H 1 (flightKey ''!r'' ''$m'') ?out"
    by (simp add: shared_by_key_def guarded_def)
  from shared_answer_is_own [OF stDb_ok(1) hon _ s _ _ _ run, of "\<lambda>r e resp. r = ''!r'' \<and> e = ''$m'' \<and> PDUIDs resp = [''$b'']"] run
  show ?thesis by simp
qed

end
