(* ===== verification/Replication.thy ===== *)
theory Replication
  imports StoreEvents
begin

text \<open>
  \<open>internal/replication\<close>: the subscriber that keeps the caches consistent with Synapse's
  invalidation stream.  The caches it drives are those of the store; the counters of its metrics are
  the lists of the labels they were incremented with.  A payload's row arrives as text: \<open>parse\<close>, the
  reading of text as a JSON document, is a parameter.  Log lines and the timestamp gauge are left out.
\<close>

section \<open>Configuration\<close>

record replConfig =
  replEnabled :: bool
  replAddress :: string
  replChannel :: string
  replPassword :: string
  replDB :: int

definition replValidate :: "replConfig \<Rightarrow> string option" where
  "replValidate c =
     (if replAddress c = '''' then Some ''replication.address is required when replication is enabled''
      else if replChannel c = '''' then
        Some ''replication.channel is required when replication is enabled; it must match Synapse's server_name''
      else None)"

definition purgeHistoryCache :: string where "purgeHistoryCache = ''ph_cache_fake''"
definition deleteRoomCache :: string where "deleteRoomCache = ''dr_cache_fake''"
definition currentStateCache :: string where "currentStateCache = ''cs_cache_fake''"

definition perEventCaches :: "(string, nat) gomap" where
  "perEventCaches = [(''_get_state_group_for_event'', 0), (''have_seen_event'', 1)]"

section \<open>The subscriber\<close>

text \<open>The caches of the subscriber and its metrics: the gauge and the counters.\<close>

record subscriber =
  caches :: store
  connected :: bool
  commandsM :: "string list"
  invalidationsM :: "string list"
  flushesM :: "string list"
  malformedM :: "string list"

definition newSubscriber :: "replConfig \<Rightarrow> store \<Rightarrow> (string, subscriber) result" where
  "newSubscriber cfg s =
     (case replValidate cfg of
        Some e \<Rightarrow> Inl e
      | None \<Rightarrow> Inr \<lparr>caches = s, connected = False, commandsM = [], invalidationsM = [], flushesM = [], malformedM = []\<rparr>)"

definition countFlush :: "string \<Rightarrow> subscriber \<Rightarrow> subscriber" where
  "countFlush l s = s\<lparr>flushesM := flushesM s @ [l]\<rparr>"

definition countInvalidation :: "string \<Rightarrow> subscriber \<Rightarrow> subscriber" where
  "countInvalidation l s = s\<lparr>invalidationsM := invalidationsM s @ [l]\<rparr>"

definition arm :: "subscriber \<Rightarrow> subscriber" where
  "arm s = countFlush ''connected''
     (s\<lparr>caches := SetCachesArmed True (SetCachesArmed False (caches s)), connected := True\<rparr>)"

definition disarm :: "string \<Rightarrow> subscriber \<Rightarrow> subscriber" where
  "disarm reason s = countFlush reason (s\<lparr>caches := SetCachesArmed False (caches s), connected := False\<rparr>)"

definition malformed :: "string \<Rightarrow> subscriber \<Rightarrow> subscriber" where
  "malformed reason s =
     countFlush ''malformed'' (s\<lparr>caches := PurgeCaches (caches s), malformedM := malformedM s @ [reason]\<rparr>)"

text \<open>\<open>strings.SplitN\<close> with a one-character separator.\<close>

fun splitN :: "nat \<Rightarrow> char \<Rightarrow> string \<Rightarrow> string list" where
  "splitN 0 c s = []"
| "splitN (Suc 0) c s = [s]"
| "splitN (Suc (Suc n)) c s = (case cut c s of (a, None) \<Rightarrow> [a] | (a, Some b) \<Rightarrow> a # splitN (Suc n) c b)"

text \<open>\<open>json.Unmarshal\<close> into a \<open>[]json.RawMessage\<close> and into a \<open>string\<close>; \<open>null\<close> leaves the zero value.\<close>

definition rawElems :: "raw \<Rightarrow> json list option" where
  "rawElems r = (case r of Doc (JArr js) \<Rightarrow> Some js | Doc JNull \<Rightarrow> Some [] | _ \<Rightarrow> None)"

definition plainString :: "json \<Rightarrow> string option" where
  "plainString j = (case j of JStr s \<Rightarrow> Some s | JNull \<Rightarrow> Some '''' | _ \<Rightarrow> None)"

definition handleCacheRow :: "raw \<Rightarrow> subscriber \<Rightarrow> subscriber" where
  "handleCacheRow row s =
     (case rawElems row of
        Some (f # ks # _) \<Rightarrow>
          (case plainString f of
             None \<Rightarrow> malformed ''caches_func'' s
           | Some cacheFunc \<Rightarrow>
             (case (if ks = JNull then Some [] else rawElems (Doc ks)) of
                None \<Rightarrow> malformed ''caches_keys'' s
              | Some keys \<Rightarrow>
                if cacheFunc = purgeHistoryCache \<or> cacheFunc = deleteRoomCache then
                  countFlush cacheFunc (countInvalidation cacheFunc (s\<lparr>caches := PurgeCaches (caches s)\<rparr>))
                else if cacheFunc = currentStateCache then countInvalidation ''ignored'' s
                else
                  (case gget perEventCaches cacheFunc of
                     None \<Rightarrow> countInvalidation ''ignored'' s
                   | Some idx \<Rightarrow>
                       if ks = JNull then
                         countFlush (cacheFunc @ ''_all'') (s\<lparr>caches := PurgeCaches (caches s)\<rparr>)
                       else if idx \<ge> length keys then malformed ''caches_key_index'' s
                       else
                         (case plainString (keys ! idx) of
                            None \<Rightarrow> malformed ''caches_event_id'' s
                          | Some eventID \<Rightarrow>
                              countInvalidation cacheFunc (s\<lparr>caches := DropEvent eventID (caches s)\<rparr>)))))
      | _ \<Rightarrow> malformed ''caches_row'' s)"

definition handle :: "(string \<Rightarrow> raw) \<Rightarrow> string \<Rightarrow> subscriber \<Rightarrow> subscriber" where
  "handle parse payload s =
     (case cut (CHR '' '') payload of (cmd, rest) \<Rightarrow>
        if cmd \<noteq> ''RDATA'' then s\<lparr>commandsM := commandsM s @ [cmd]\<rparr>
        else
          (case splitN 4 (CHR '' '') (case rest of None \<Rightarrow> '''' | Some r \<Rightarrow> r) of
             [stream, _, _, row] \<Rightarrow>
               let s = s\<lparr>commandsM := commandsM s @ [''RDATA/'' @ stream]\<rparr> in
               if stream \<noteq> ''caches'' then s else handleCacheRow (parse row) s
           | _ \<Rightarrow> malformed ''rdata_fields'' s))"

section \<open>The loop\<close>

text \<open>
  What wakes the subscriber: an item of the channel of \<open>ChannelWithSubscriptions\<close>, the channel
  closing, the timer of the backoff, the context ending.
\<close>

datatype notice = Subscription string | RedisMessage string | Pong

datatype wakeup = Notice notice | ChannelClosed | TimerFired | CtxEnded

datatype phase = Listening | Waiting | Stopped

record runState =
  sub :: subscriber
  phase :: phase
  backoff :: int

definition second :: int where "second = 1000000000"

definition maxBackoff :: int where "maxBackoff = 30 * second"

definition startRun :: "subscriber \<Rightarrow> runState" where
  "startRun s = \<lparr>sub = disarm ''startup'' s, phase = Listening, backoff = second\<rparr>"

definition session :: "(string \<Rightarrow> raw) \<Rightarrow> notice \<Rightarrow> subscriber \<Rightarrow> subscriber" where
  "session parse n s =
     (case n of
        Subscription kind \<Rightarrow> if kind \<noteq> ''subscribe'' then s else arm s
      | RedisMessage payload \<Rightarrow> handle parse payload s
      | Pong \<Rightarrow> s)"

definition nextBackoff :: "int \<Rightarrow> int" where
  "nextBackoff b = (if b * 2 > maxBackoff then maxBackoff else b * 2)"

definition runStep :: "(string \<Rightarrow> raw) \<Rightarrow> wakeup \<Rightarrow> runState \<Rightarrow> runState" where
  "runStep parse i t =
     (case phase t of
        Listening \<Rightarrow>
          (case i of
             Notice n \<Rightarrow> t\<lparr>sub := session parse n (sub t)\<rparr>
           | ChannelClosed \<Rightarrow> t\<lparr>sub := disarm ''disconnected'' (sub t), phase := Waiting\<rparr>
           | CtxEnded \<Rightarrow> t\<lparr>sub := disarm ''shutdown'' (sub t), phase := Stopped\<rparr>
           | TimerFired \<Rightarrow> t)
      | Waiting \<Rightarrow>
          (case i of
             TimerFired \<Rightarrow> t\<lparr>phase := Listening, backoff := nextBackoff (backoff t)\<rparr>
           | CtxEnded \<Rightarrow> t\<lparr>sub := disarm ''shutdown'' (sub t), phase := Stopped, backoff := nextBackoff (backoff t)\<rparr>
           | _ \<Rightarrow> t)
      | Stopped \<Rightarrow> t)"

definition Run :: "(string \<Rightarrow> raw) \<Rightarrow> wakeup list \<Rightarrow> subscriber \<Rightarrow> runState" where
  "Run parse is s = foldl (\<lambda>t i. runStep parse i t) (startRun s) is"

section \<open>Armed and empty\<close>

text \<open>A disarmed cache is empty; \<open>b\<close> is whether it is armed.\<close>

definition calm :: "bool \<Rightarrow> ('k, 'v) LRU \<Rightarrow> bool" where
  "calm b c \<longleftrightarrow> lru_inv c \<and> armed c = b \<and> (b \<or> recency c = [])"

lemma calm_Get [simp, intro]: "calm b c \<Longrightarrow> calm b (snd (Get k c))"
  using quiet_step [of c "OpGet k"] by (auto simp: calm_def quiet_def)

lemma calm_Add [simp, intro]: "calm b c \<Longrightarrow> calm b (Add k v c)"
  using quiet_step [of c "OpAdd k v"] by (auto simp: calm_def quiet_def)

lemma calm_Remove [simp, intro]: "calm b c \<Longrightarrow> calm b (Remove k c)"
  using quiet_step [of c "OpRemove k"] by (auto simp: calm_def quiet_def)

lemma calm_Purge [simp, intro]: "calm b c \<Longrightarrow> calm b (Purge c)"
  using quiet_step [of c OpPurge] by (auto simp: calm_def quiet_def)

lemma calm_SetArmed [simp, intro]: "lru_inv c \<Longrightarrow> calm b (SetArmed b c)"
  by (auto simp: calm_def SetArmed_def Let_def Purge_def recency_def lru_inv_def)

definition storeCalm :: "bool \<Rightarrow> store \<Rightarrow> bool" where
  "storeCalm b s \<longleftrightarrow> calm b (stateGroups s) \<and> calm b (events s) \<and> calm b (eventStateGroup s) \<and>
     calm b (authChains s) \<and> calm b (filteredState s)"

definition emptied :: "store \<Rightarrow> bool" where
  "emptied s \<longleftrightarrow> recency (stateGroups s) = [] \<and> recency (events s) = [] \<and> recency (eventStateGroup s) = [] \<and>
     recency (authChains s) = [] \<and> recency (filteredState s) = []"

lemma storeCalm_Purge: "storeCalm b s \<Longrightarrow> storeCalm b (PurgeCaches s)"
  by (simp add: storeCalm_def PurgeCaches_def)

lemma storeCalm_DropEvent: "storeCalm b s \<Longrightarrow> storeCalm b (DropEvent eid s)"
  by (simp add: storeCalm_def DropEvent_def)

lemma storeCalm_SetCachesArmed: "storeCalm b s \<Longrightarrow> storeCalm b' (SetCachesArmed b' s)"
  by (simp add: storeCalm_def SetCachesArmed_def calm_def [of b])

lemma emptied_Purge: "emptied (PurgeCaches s)"
  by (simp add: emptied_def PurgeCaches_def Purge_def recency_def)

lemma storeCalm_emptied: "storeCalm False s \<Longrightarrow> emptied s"
  by (simp add: storeCalm_def emptied_def calm_def)

lemma emptied_arm: "emptied (caches (arm s))" "emptied (caches (disarm r s))"
  by (simp_all add: arm_def disarm_def countFlush_def SetCachesArmed_def SetArmed_def Let_def emptied_def Purge_def recency_def)

lemma caches_counts [simp]:
  "caches (countFlush l s) = caches s" "caches (countInvalidation l s) = caches s"
  "connected (countFlush l s) = connected s" "connected (countInvalidation l s) = connected s"
  by (simp_all add: countFlush_def countInvalidation_def)

text \<open>A command empties the caches, drops one event or leaves them alone.\<close>

definition mild :: "subscriber \<Rightarrow> subscriber \<Rightarrow> bool" where
  "mild s s' \<longleftrightarrow> connected s' = connected s \<and>
     (caches s' = PurgeCaches (caches s) \<or> caches s' = caches s \<or> (\<exists>eid. caches s' = DropEvent eid (caches s)))"

lemma mild_rules:
  "mild s (malformed r s)" "mild s (countInvalidation l s)"
  "mild s (countFlush l (countInvalidation l' (s\<lparr>caches := PurgeCaches (caches s)\<rparr>)))"
  "mild s (countFlush l (s\<lparr>caches := PurgeCaches (caches s)\<rparr>))"
  "mild s (countInvalidation l (s\<lparr>caches := DropEvent eid (caches s)\<rparr>))"
  by (auto simp: mild_def malformed_def)

lemma handleCacheRow_mild: "mild s (handleCacheRow row s)"
  unfolding handleCacheRow_def by (simp add: mild_rules split: option.split list.split)

lemma handle_mild: "mild s (handle parse p s)"
proof -
  have "mild s (handleCacheRow row (s\<lparr>commandsM := c\<rparr>))" for row c
    using handleCacheRow_mild [of "s\<lparr>commandsM := c\<rparr>" row] by (simp add: mild_def)
  moreover have "mild s (s\<lparr>commandsM := c\<rparr>)" for c by (simp add: mild_def)
  ultimately show ?thesis by (simp add: handle_def mild_rules Let_def split: prod.split list.split)
qed

lemma mild_storeCalm: "mild s s' \<Longrightarrow> storeCalm b (caches s) \<Longrightarrow> storeCalm b (caches s')"
  by (auto simp: mild_def storeCalm_Purge storeCalm_DropEvent)


lemma arm_storeCalm: "storeCalm b (caches s) \<Longrightarrow> storeCalm True (caches (arm s)) \<and> connected (arm s)"
  by (simp add: arm_def) (blast intro: storeCalm_SetCachesArmed)

lemma disarm_storeCalm: "storeCalm b (caches s) \<Longrightarrow> storeCalm False (caches (disarm r s)) \<and> \<not> connected (disarm r s)"
  by (simp add: disarm_def) (blast intro: storeCalm_SetCachesArmed)

lemma session_connected:
  "connected (session parse n s) \<longleftrightarrow> connected s \<or> n = Subscription ''subscribe''"
  using handle_mild [of s parse] by (auto simp: session_def mild_def arm_def split: notice.split)

lemma session_storeCalm:
  "storeCalm (connected s) (caches s) \<Longrightarrow> storeCalm (connected (session parse n s)) (caches (session parse n s))"
  using handle_mild [of s parse] mild_storeCalm [of s] arm_storeCalm [of "connected s" s]
  by (auto simp: session_def mild_def [of s "handle parse _ s"] split: notice.split)

text \<open>The state of the loop: the gauge tells whether the caches are armed, they are armed only while
  a session runs, and the pause before a reconnection stays within its bounds.\<close>

definition runInv :: "runState \<Rightarrow> bool" where
  "runInv t \<longleftrightarrow> storeCalm (connected (sub t)) (caches (sub t)) \<and> (connected (sub t) \<longrightarrow> phase t = Listening) \<and>
     second \<le> backoff t \<and> backoff t \<le> maxBackoff"

lemma nextBackoff_bounds: "second \<le> b \<Longrightarrow> b \<le> maxBackoff \<Longrightarrow> second \<le> nextBackoff b \<and> nextBackoff b \<le> maxBackoff"
  by (simp add: nextBackoff_def maxBackoff_def second_def)

lemma runInv_step: "runInv t \<Longrightarrow> runInv (runStep parse i t)"
  using session_storeCalm [of "sub t"] disarm_storeCalm [of _ "sub t"] nextBackoff_bounds [of "backoff t"]
  by (auto simp: runInv_def runStep_def split: phase.split wakeup.split)

lemma runInv_start: "storeCalm b (caches s) \<Longrightarrow> runInv (startRun s)"
  using disarm_storeCalm [of b s "''startup''"] by (simp add: runInv_def startRun_def second_def maxBackoff_def)

lemma runInv_Run: "storeCalm b (caches s) \<Longrightarrow> runInv (Run parse is s)"
  by (induction "is" rule: rev_induct) (auto simp: Run_def runInv_start intro: runInv_step)

lemma Run_snoc: "Run parse (is @ [i]) s = runStep parse i (Run parse is s)"
  by (simp add: Run_def)

lemma Run_append: "Run parse (is @ js) s = foldl (\<lambda>t i. runStep parse i t) (Run parse is s) js"
  by (simp add: Run_def)

section \<open>Properties\<close>

text \<open>A session that has seen its subscription confirmed and has not ended.\<close>

definition subscribedBy :: "(string \<Rightarrow> raw) \<Rightarrow> wakeup list \<Rightarrow> subscriber \<Rightarrow> bool" where
  "subscribedBy parse is s \<longleftrightarrow>
     (\<exists>pre suf. is = pre @ Notice (Subscription ''subscribe'') # suf \<and> phase (Run parse pre s) = Listening \<and>
        ChannelClosed \<notin> set suf \<and> CtxEnded \<notin> set suf)"

lemma subscribedBy_snoc:
  "subscribedBy parse (is @ [i]) s \<longleftrightarrow>
     (i = Notice (Subscription ''subscribe'') \<and> phase (Run parse is s) = Listening) \<or>
     (i \<noteq> ChannelClosed \<and> i \<noteq> CtxEnded \<and> subscribedBy parse is s)" (is "?L = ?R")
proof
  assume ?L
  then obtain pre suf where p: "is @ [i] = pre @ Notice (Subscription ''subscribe'') # suf"
    "phase (Run parse pre s) = Listening" "ChannelClosed \<notin> set suf" "CtxEnded \<notin> set suf"
    by (auto simp: subscribedBy_def)
  show ?R
  proof (cases suf rule: rev_exhaust)
    case Nil
    with p show ?thesis by auto
  next
    case (snoc suf' j)
    with p have "is = pre @ Notice (Subscription ''subscribe'') # suf'" "j = i" by auto
    with p snoc show ?thesis by (auto simp: subscribedBy_def)
  qed
next
  assume ?R
  then consider "i = Notice (Subscription ''subscribe'')" "phase (Run parse is s) = Listening"
    | pre suf where "i \<noteq> ChannelClosed" "i \<noteq> CtxEnded" "is = pre @ Notice (Subscription ''subscribe'') # suf"
      "phase (Run parse pre s) = Listening" "ChannelClosed \<notin> set suf" "CtxEnded \<notin> set suf"
    by (auto simp: subscribedBy_def)
  then show ?L
  proof cases
    case 1
    then show ?thesis unfolding subscribedBy_def by (intro exI [of _ "is"] exI [of _ "[]"]) simp
  next
    case 2
    then show ?thesis unfolding subscribedBy_def by (intro exI [of _ pre] exI [of _ "suf @ [i]"]) simp
  qed
qed

lemma connected_iff_subscribed:
  assumes "storeCalm b (caches s)"
  shows "(connected (sub (Run parse is s)) \<longleftrightarrow> subscribedBy parse is s) \<and>
    (subscribedBy parse is s \<longrightarrow> phase (Run parse is s) = Listening)"
proof (induction "is" rule: rev_induct)
  case Nil
  show ?case by (simp add: Run_def startRun_def disarm_def subscribedBy_def)
next
  case (snoc i "is")
  have inv: "runInv (Run parse is s)" using runInv_Run [OF assms] .
  then have "connected (sub (Run parse is s)) \<Longrightarrow> phase (Run parse is s) = Listening" by (simp add: runInv_def)
  with snoc show ?case
    by (cases i; cases "phase (Run parse is s)")
      (auto simp: Run_snoc subscribedBy_snoc runStep_def session_connected disarm_def)
qed


lemma splitN_four:
  "splitN 4 c s = [a, b, e, f] \<longleftrightarrow> s = a @ c # b @ c # e @ c # f \<and> c \<notin> set a \<union> set b \<union> set e" (is "?L \<longleftrightarrow> ?R")
proof -
  have four: "(4::nat) = Suc (Suc (Suc (Suc 0)))" by simp
  have "?R" if "?L"
    using that unfolding four by (auto dest!: cut_Some split: prod.splits option.splits)
  moreover have "?L" if "?R"
    using that unfolding four by (auto simp: cut_append)
  ultimately show ?thesis by blast
qed

text \<open>What it takes for a row to leave an entry in place: it was read, and it asks for nothing that
  concerns the entry.\<close>

definition understood :: "raw \<Rightarrow> string option \<Rightarrow> bool" where
  "understood row eid \<longleftrightarrow>
     (\<exists>f ks rest fn. row = Doc (JArr (f # ks # rest)) \<and> plainString f = Some fn \<and>
        (ks = JNull \<or> (\<exists>keys. ks = JArr keys)) \<and>
        fn \<noteq> purgeHistoryCache \<and> fn \<noteq> deleteRoomCache \<and>
        (\<forall>idx. fn \<noteq> currentStateCache \<longrightarrow> gget perEventCaches fn = Some idx \<longrightarrow>
           (\<exists>keys i. ks = JArr keys \<and> idx < length keys \<and> plainString (keys ! idx) = Some i \<and> eid \<noteq> Some i)))"

lemma emptied_contents:
  assumes "emptied s" and "storeCalm b s"
  shows "contents (events s) = Map.empty" "contents (eventStateGroup s) = Map.empty"
    "contents (stateGroups s) = Map.empty" "contents (authChains s) = Map.empty" "contents (filteredState s) = Map.empty"
  using assms by (simp_all add: emptied_def storeCalm_def calm_def contents_recency)

lemma rawElems_JArr: "rawElems r = Some (x # xs) \<Longrightarrow> r = Doc (JArr (x # xs))"
  by (auto simp: rawElems_def split: raw.splits json.splits)


lemma purged_none [simp]:
  "contents (events (PurgeCaches s)) k = None" "contents (eventStateGroup (PurgeCaches s)) k = None"
  "contents (stateGroups (PurgeCaches s)) g = None" "contents (authChains (PurgeCaches s)) k = None"
  "contents (filteredState (PurgeCaches s)) fk = None"
  by (simp_all add: PurgeCaches_def)

lemma dropped_contents:
  assumes "storeCalm b s"
  shows "contents (events (DropEvent eid s)) = (contents (events s))(eid := None)"
    "contents (eventStateGroup (DropEvent eid s)) = (contents (eventStateGroup s))(eid := None)"
    "stateGroups (DropEvent eid s) = stateGroups s" "authChains (DropEvent eid s) = authChains s"
    "filteredState (DropEvent eid s) = filteredState s"
  using assms by (simp_all add: DropEvent_def storeCalm_def calm_def contents_Remove)

lemma row_effect:
  "caches (handleCacheRow row s) = PurgeCaches (caches s) \<or>
   (\<exists>i. (\<forall>k. understood row k \<longleftrightarrow> k \<noteq> Some i) \<and> caches (handleCacheRow row s) = DropEvent i (caches s)) \<or>
   ((\<forall>k. understood row k) \<and> caches (handleCacheRow row s) = caches s)"
proof (cases "rawElems row")
  case None
  then show ?thesis by (simp add: handleCacheRow_def malformed_def)
next
  case (Some js)
  show ?thesis
  proof (cases "\<exists>f ks rest. js = f # ks # rest")
    case False
    with Some show ?thesis by (simp add: handleCacheRow_def malformed_def split: list.split)
  next
    case True
    then obtain f ks rest where js: "js = f # ks # rest" by blast
    with Some have row: "row = Doc (JArr (f # ks # rest))" using rawElems_JArr by blast
    have keys: "rawElems (Doc ks) = Some keys \<longleftrightarrow> ks = JArr keys \<or> ks = JNull \<and> keys = []" for keys
      by (auto simp: rawElems_def split: json.split)
    show ?thesis
    proof (cases "plainString f")
      case None
      with js Some show ?thesis by (simp add: handleCacheRow_def malformed_def)
    next
      case fn: (Some fn)
      have und: "understood row k \<longleftrightarrow> (ks = JNull \<or> (\<exists>keys. ks = JArr keys)) \<and>
          fn \<noteq> purgeHistoryCache \<and> fn \<noteq> deleteRoomCache \<and>
          (\<forall>idx. fn \<noteq> currentStateCache \<longrightarrow> gget perEventCaches fn = Some idx \<longrightarrow>
             (\<exists>keys i. ks = JArr keys \<and> idx < length keys \<and> plainString (keys ! idx) = Some i \<and> k \<noteq> Some i))" for k
        by (simp add: understood_def row fn)
      note base = js Some fn handleCacheRow_def malformed_def und
      consider "ks \<noteq> JNull" "rawElems (Doc ks) = None" | "ks = JNull" | keys where "ks = JArr keys"
        using keys by (cases "rawElems (Doc ks)") auto
      then show ?thesis
      proof cases
        case 1
        then show ?thesis by (simp add: base)
      next
        case 2
        then show ?thesis by (simp add: base split: option.split)
      next
        case ks: (3 keys)
        have el: "rawElems (Doc ks) = Some keys" using ks by (simp add: rawElems_def)
        show ?thesis
        proof (cases "gget perEventCaches fn")
          case None
          with ks el show ?thesis by (simp add: base)
        next
          case idx: (Some idx)
          show ?thesis
          proof (cases "idx < length keys \<and> plainString (keys ! idx) \<noteq> None")
            case True
            with ks el idx show ?thesis by (auto simp: base)
          next
            case False
            with ks el idx show ?thesis by (auto simp: base split: option.split)
          qed
        qed
      qed
    qed
  qed
qed

definition wellRead :: "(string \<Rightarrow> raw) \<Rightarrow> string \<Rightarrow> string option \<Rightarrow> bool" where
  "wellRead parse payload k \<longleftrightarrow>
     (\<exists>stream inst tok row. payload = ''RDATA '' @ stream @ '' '' @ inst @ '' '' @ tok @ '' '' @ row \<and>
        CHR '' '' \<notin> set stream \<union> set inst \<union> set tok \<and> (stream = ''caches'' \<longrightarrow> understood (parse row) k))"

lemma wellRead_fields:
  assumes "splitN 4 (CHR '' '') rest = [stream, inst, tok, row]"
  shows "wellRead parse (''RDATA '' @ rest) k \<longleftrightarrow> (stream = ''caches'' \<longrightarrow> understood (parse row) k)"
proof -
  have "wellRead parse (''RDATA '' @ rest) k \<longleftrightarrow>
    (\<exists>stream inst tok row. splitN 4 (CHR '' '') rest = [stream, inst, tok, row] \<and>
       (stream = ''caches'' \<longrightarrow> understood (parse row) k))"
    unfolding wellRead_def splitN_four by auto
  with assms show ?thesis by auto
qed

lemma handle_effect:
  assumes "payload = ''RDATA '' @ rest" and "s' = caches (handle parse payload s)"
  shows "s' = PurgeCaches (caches s) \<or>
    (\<exists>i. (\<forall>k. k \<noteq> Some i \<longrightarrow> wellRead parse payload k) \<and> s' = DropEvent i (caches s)) \<or>
    ((\<forall>k. wellRead parse payload k) \<and> s' = caches s)"
proof -
  have cmd: "cut (CHR '' '') payload = (''RDATA'', Some rest)"
    using cut_append [of "CHR '' ''" "''RDATA''" rest] assms(1) by simp
  show ?thesis
  proof (cases "\<exists>stream inst tok row. splitN 4 (CHR '' '') rest = [stream, inst, tok, row]")
    case False
    then have "s' = PurgeCaches (caches s)"
      unfolding assms(2) handle_def cmd by (simp add: malformed_def split: list.split)
    then show ?thesis by simp
  next
    case True
    then obtain stream inst tok row where sp: "splitN 4 (CHR '' '') rest = [stream, inst, tok, row]" by blast
    note w = wellRead_fields [OF sp, of parse, folded assms(1)]
    show ?thesis
    proof (cases "stream = ''caches''")
      case False
      with sp have "s' = caches s" by (simp add: assms(2) handle_def cmd Let_def)
      with False w show ?thesis by simp
    next
      case True
      let ?s = "s\<lparr>commandsM := commandsM s @ [''RDATA/'' @ stream]\<rparr>"
      have "s' = caches (handleCacheRow (parse row) ?s)" using sp True by (simp add: assms(2) handle_def cmd Let_def)
      with row_effect [of "parse row" ?s] w True show ?thesis by auto
    qed
  qed
qed

text \<open>C24. A row that is not understood is never shrugged off: after an \<open>RDATA\<close> command the caches only
  hold what they held before, and if they still hold anything the command had its four fields and,
  on the \<open>caches\<close> stream, its row was read in full, was not a purge or a deletion, and asked for at
  most one event to be dropped; an event whose body or state group is still held is not that event.\<close>

theorem unread_rows_empty_the_caches:
  assumes "storeCalm b (caches s)" and "payload = ''RDATA '' @ rest"
  shows "let s' = caches (handle parse payload s) in
    contents (events s') \<subseteq>\<^sub>m contents (events (caches s)) \<and>
    contents (eventStateGroup s') \<subseteq>\<^sub>m contents (eventStateGroup (caches s)) \<and>
    (emptied s' \<or> wellRead parse payload None) \<and>
    (\<forall>k. contents (events s') k \<noteq> None \<or> contents (eventStateGroup s') k \<noteq> None \<longrightarrow> wellRead parse payload (Some k))"
  using handle_effect [OF assms(2) refl, of parse s] dropped_contents [OF assms(1)]
  by (auto simp: Let_def map_le_def emptied_Purge split: if_splits)

text \<open>A store with one event cached, and the text of a few rows.\<close>

definition rowText :: "string \<Rightarrow> raw" where
  "rowText t =
     (if t = ''purge'' then Doc (JArr [JStr ''ph_cache_fake'', JArr [JStr ''!r''], JNum ''1''])
      else if t = ''seen'' then Doc (JArr [JStr ''have_seen_event'', JArr [JStr ''!r'', JStr ''$e''], JNum ''1''])
      else Junk t)"

lemma freshStore_armed:
  "armed (stateGroups freshStore)" "armed (events freshStore)" "armed (eventStateGroup freshStore)"
  "armed (authChains freshStore)" "armed (filteredState freshStore)"
  by (simp_all add: freshStore_def newCaches_def Let_def NewLRU_def)

lemma freshStore_calm: "storeCalm True freshStore"
  by (simp add: storeCalm_def calm_def freshStore_inv freshStore_armed)

definition heldStore :: store where
  "heldStore = freshStore\<lparr>eventStateGroup := Add ''$f'' 7 (Add ''$e'' 8 (eventStateGroup freshStore))\<rparr>"

lemma heldStore_calm: "storeCalm True heldStore"
  using freshStore_calm by (simp add: heldStore_def storeCalm_def)

definition heldSubscriber :: subscriber where
  "heldSubscriber = \<lparr>caches = heldStore, connected = True, commandsM = [], invalidationsM = [], flushesM = [], malformedM = []\<rparr>"


theorem unread_rows_empty_the_caches_witness:
  "emptied (caches (handle rowText ''RDATA caches master 5 garbage'' heldSubscriber)) \<and>
   contents (eventStateGroup (caches (handle rowText ''RDATA caches master 5 seen'' heldSubscriber))) ''$e'' = None"
proof -
  have h: "storeCalm True (caches heldSubscriber)" using heldStore_calm by (simp add: heldSubscriber_def)
  have sp: "splitN 4 (CHR '' '') (''caches master 5 '' @ row) = [''caches'', ''master'', ''5'', row]" for row
    by (simp add: splitN_four)
  have junk: "''RDATA caches master 5 garbage'' = ''RDATA '' @ ''caches master 5 '' @ ''garbage''"
    and seen: "''RDATA caches master 5 seen'' = ''RDATA '' @ ''caches master 5 '' @ ''seen''" by simp_all
  have "\<not> wellRead rowText ''RDATA caches master 5 garbage'' None"
    unfolding junk wellRead_fields [OF sp] by (simp add: understood_def rowText_def)
  moreover have "\<not> wellRead rowText ''RDATA caches master 5 seen'' (Some ''$e'')"
    unfolding seen wellRead_fields [OF sp]
    by (simp add: understood_def rowText_def plainString_def perEventCaches_def currentStateCache_def)
  ultimately show ?thesis
    using unread_rows_empty_the_caches [OF h junk, of rowText] unread_rows_empty_the_caches [OF h seen, of rowText]
    by (auto simp: Let_def)
qed

end
