(* ===== verification/Freshness.thy ===== *)
theory Freshness
  imports Replication Answers
begin

text \<open>
  How the invalidation stream keeps the answers right: a request leaves armed caches armed and empty
  ones empty, and over every interleaving of requests, changes of the database, published rows,
  outages and the subscriber's own steps, an answer given while nothing is outstanding is the answer
  of the current database.  A request is one step here; requests that overlap are in \<open>Races\<close>.
\<close>

section \<open>Requests do not arm caches\<close>

abbreviation calmly :: "bool \<Rightarrow> 'a storeOp \<Rightarrow> bool" where
  "calmly b m \<equiv> meets (storeCalm b) m (\<lambda>_. True)"

lemma calmly_bnd: "calmly b m \<Longrightarrow> (\<And>a. calmly b (f a)) \<Longrightarrow> calmly b (bnd m f)"
  by (rule meets_bnd) auto

lemma calm_update:
  assumes "storeCalm b s"
  shows "calm b c \<Longrightarrow> storeCalm b (s\<lparr>events := c\<rparr>)" "calm b c2 \<Longrightarrow> storeCalm b (s\<lparr>eventStateGroup := c2\<rparr>)"
    "calm b c3 \<Longrightarrow> storeCalm b (s\<lparr>stateGroups := c3\<rparr>)" "calm b c4 \<Longrightarrow> storeCalm b (s\<lparr>authChains := c4\<rparr>)"
    "calm b c5 \<Longrightarrow> storeCalm b (s\<lparr>filteredState := c5\<rparr>)" "storeCalm b (traceN nm h l s)" "storeCalm b (trace1 nm hit s)"
  using assms by (simp_all add: storeCalm_def traceN_def trace1_def)

lemma calm_part:
  assumes "storeCalm b s"
  shows "calm b (events s)" "calm b (eventStateGroup s)" "calm b (stateGroups s)" "calm b (authChains s)" "calm b (filteredState s)"
  using assms by (simp_all add: storeCalm_def)

lemma calm_Get': "calm b c \<Longrightarrow> Get k c = (x, c') \<Longrightarrow> calm b c'"
  by (metis calm_Get snd_conv)

lemma fromCache_calm: "storeCalm b s \<Longrightarrow> storeCalm b (snd (fromCache ids out miss s))"
proof (induction ids arbitrary: out miss s)
  case (Cons eid ids)
  obtain x c where g: "Get eid (events s) = (x, c)" by fastforce
  with Cons.prems have "storeCalm b (s\<lparr>events := c\<rparr>)" using calm_update(1) calm_part(1) calm_Get' by metis
  with Cons.IH g show ?case by (cases x) simp_all
qed simp

lemma scanEvents_calm: "storeCalm b s \<Longrightarrow> storeCalm b (snd (scanEvents pop rows out s))"
  by (induction rows arbitrary: out s) (auto simp: Let_def calm_update(1) calm_part(1))

lemma getEventsRawOpt_calm: "calmly b (getEventsRawOpt d ids pop)"
  unfolding meets_def
proof (intro allI impI)
  fix s
  assume s: "storeCalm b s"
  define p where "p = (if Enabled (events s) then fromCache ids [] [] s else (([], ids), s))"
  obtain out miss s1 where p1: "p = ((out, miss), s1)" by (metis prod.exhaust)
  have "storeCalm b s1" using fromCache_calm [OF s, of ids "[]" "[]"] s p1 by (auto simp: p_def split: if_splits)
  then have "storeCalm b (snd (scanEvents pop rows out (traceN n h l s1)))" "storeCalm b (traceN n h l s1)" for rows n h l
    by (simp_all add: scanEvents_calm calm_update(6))
  with s show "storeCalm b (snd (getEventsRawOpt d ids pop s)) \<and> True"
    by (auto simp: getEventsRawOpt_def p_def [symmetric] p1 Let_def case_prod_unfold split: option.split)
qed

lemma GetEvents_calm: "calmly b (GetEvents d ids)"
  unfolding GetEvents_def getEventsRaw_def applyRedactions_def Let_def
  by (intro calmly_bnd getEventsRawOpt_calm) (auto intro!: calmly_bnd getEventsRawOpt_calm)

lemma GetEvent_calm: "calmly b (GetEvent d eid)"
  unfolding GetEvent_def by (rule calmly_bnd [OF GetEvents_calm]) (simp split: option.split)

lemma GetStateGroupForEvent_calm: "calmly b (GetStateGroupForEvent d eid)"
  unfolding meets_def
proof (intro allI impI)
  fix s
  assume s: "storeCalm b s"
  obtain x c where g: "Get eid (eventStateGroup s) = (x, c)" by fastforce
  then have "calm b c" using calm_part(2) [OF s] calm_Get' by metis
  with s g show "storeCalm b (snd (GetStateGroupForEvent d eid s)) \<and> True"
    by (auto simp: GetStateGroupForEvent_def Let_def intro!: calm_update split: option.split sum.split)
qed

lemma GetStateForGroup_calm: "calmly b (GetStateForGroup d g)"
  unfolding meets_def
proof (intro allI impI)
  fix s
  assume s: "storeCalm b s"
  obtain x c where g: "Get g (stateGroups s) = (x, c)" by fastforce
  then have "calm b c" using calm_part(3) [OF s] calm_Get' by metis
  with s g show "storeCalm b (snd (GetStateForGroup d g s)) \<and> True"
    by (auto simp: GetStateForGroup_def Let_def intro!: calm_update split: option.split sum.split)
qed

lemma cachedFilteredState_calm: "calmly b (cachedFilteredState key f q)"
  unfolding meets_def
proof (intro allI impI)
  fix s
  assume s: "storeCalm b s"
  obtain x c where g: "Get key (filteredState s) = (x, c)" by fastforce
  then have c: "calm b c" using calm_part(5) [OF s] calm_Get' by metis
  obtain y e where h: "Get (Group key) (stateGroups s) = (y, e)" by fastforce
  then have "calm b e" using calm_part(3) [OF s] calm_Get' by metis
  with s g h c show "storeCalm b (snd (cachedFilteredState key f q s)) \<and> True"
    by (cases x; cases y; cases q) (auto simp: cachedFilteredState_def Let_def intro!: calm_update)
qed

lemma GetAuthChainIDs_calm: "storeCalm b s \<Longrightarrow> storeCalm b (snd (GetAuthChainIDs sha d room ids s))"
proof -
  assume s: "storeCalm b s"
  let ?k = "AuthChainKey sha room ids"
  obtain x c where g: "Get ?k (authChains s) = (x, c)" by fastforce
  then have "calm b c" using calm_part(4) [OF s] calm_Get' by metis
  with s g show ?thesis
    by (auto simp: GetAuthChainIDs_def Let_def intro!: calm_update split: option.split sum.split)
qed

lemma GetAuthChain_calm: "calmly b (GetAuthChainIDsWithFallback sha d room ids)"
proof -
  have "snd (GetAuthChainIDsWithFallback sha d room ids s) = snd (GetAuthChainIDs sha d room ids s)" for s
    by (simp add: GetAuthChainIDsWithFallback_def split: prod.split sum.split storeError.split)
  then show ?thesis by (simp add: meets_def GetAuthChainIDs_calm)
qed

text \<open>The resolver's operations.\<close>

definition resolverCalm :: "bool \<Rightarrow> database \<Rightarrow> resolver \<Rightarrow> bool" where
  "resolverCalm b d r \<longleftrightarrow> storeCalm b (rstore r) \<and> aclHonest d (acls r)"

abbreviation rcalmly :: "bool \<Rightarrow> database \<Rightarrow> 'a resolverOp \<Rightarrow> bool" where
  "rcalmly b d m \<equiv> meets (resolverCalm b d) m (\<lambda>_. True)"

lemma rcalmly_bnd: "rcalmly b d m \<Longrightarrow> (\<And>a. rcalmly b d (f a)) \<Longrightarrow> rcalmly b d (bnd m f)"
  by (rule meets_bnd) auto

lemma rcalmly_store: "calmly b m \<Longrightarrow> rcalmly b d (attempt m)" "calmly b m \<Longrightarrow> rcalmly b d (onStore msg m)"
  by (simp_all add: meets_def attempt_def onStore_def resolverCalm_def)

lemma rcalmly_pure: "rcalmly b d (asks msg x)" "rcalmly b d (pdu msg y)" "rcalmly b d (ret a)" "rcalmly b d (failwith e)"
  by (simp_all add: asks_def pdu_def)

lemma serverACL_calm:
  assumes "db_keys d" shows "rcalmly b d (serverACL d room)"
  unfolding meets_def
proof (intro allI impI)
  fix r
  assume r: "resolverCalm b d r"
  let ?q = "GetCurrentStateEvent d room ''m.room.server_acl'' ''''"
  show "resolverCalm b d (snd (serverACL d room r)) \<and> True"
  proof (cases ?q)
    case (Inl e)
    with r show ?thesis by (cases e) (simp_all add: serverACL_def)
  next
    case (Inr p)
    obtain eid body where p: "p = (eid, body)" by fastforce
    have truth: "aclTruth d eid = Some (ParseServerACL body)" using current_aclTruth [OF assms] Inr p by simp
    obtain hit c where g: "Get eid (acls r) = (hit, c)" by fastforce
    have "aclHonest d c" using aclHonest_Get [OF _ g truth] r by (simp add: resolverCalm_def)
    with aclHonest_Add [OF this truth] r Inr p g show ?thesis
      by (cases hit) (simp_all add: serverACL_def resolverCalm_def)
  qed
qed

lemma members_calm: "calmly b (GetServerMembershipStateForGroup d g server)"
  unfolding GetServerMembershipStateForGroup_def by (simp add: cachedFilteredState_calm)

lemma filtered_calm: "calmly b (GetFilteredStateForGroup d g types)"
  unfolding GetFilteredStateForGroup_def by (rule cachedFilteredState_calm)

lemmas calm_rules = rcalmly_bnd rcalmly_store rcalmly_pure GetEvents_calm GetEvent_calm
  GetStateGroupForEvent_calm GetStateForGroup_calm filtered_calm members_calm GetAuthChain_calm

lemma visibilityAt_calm: "rcalmly b d (visibilityAt d ev server)"
  unfolding visibilityAt_def Let_def
  by (auto intro!: calm_rules split: sum.split storeError.split option.split)

lemma eventVisibleInRoom_calm: "rcalmly b d (eventVisibleInRoom d ev server loc partial)"
  unfolding eventVisibleInRoom_def Let_def by (auto intro!: calm_rules visibilityAt_calm)

lemma resolveEvent_calm: "rcalmly b d (resolveEvent lb d now origin server eid)"
  unfolding resolveEvent_def eventVisible_def
  by (auto intro!: calm_rules eventVisibleInRoom_calm split: sum.split storeError.split)

lemma StateIDs_calm: "db_keys d \<Longrightarrow> rcalmly b d (StateIDs sha d origin room eid)"
  unfolding StateIDs_def checkAccess_def computeStateIDs_def stateIDsForEvent_def
  by (auto intro!: calm_rules serverACL_calm split: sum.split storeError.split)

lemma missingBodies_calm: "rcalmly b d (missingBodies lb d origin server partial now evs wh ids)"
  unfolding missingEventBody_def
  by (induction ids) (auto simp: missingEventBody_def intro!: calm_rules eventVisibleInRoom_calm split: option.split)

lemma resolveMissing_calm: "db_keys d \<Longrightarrow> rcalmly b d (resolveMissingEvents lb d now origin server room earliest latest lim)"
  unfolding resolveMissingEvents_def by (auto intro!: calm_rules serverACL_calm missingBodies_calm)

section \<open>Requests keep honest caches honest\<close>

definition soundDb :: "database \<Rightarrow> bool" where
  "soundDb d \<longleftrightarrow> db_keys d \<and> noFaults d \<and> edges_ok d \<and> index_valid d"

definition namedServer :: "string \<Rightarrow> bool" where
  "namedServer origin \<longleftrightarrow> origin \<noteq> '''' \<and> \<not> containsAny origin ''%_''"

lemma honestly_bnd:
  "meets I m (\<lambda>_. True) \<Longrightarrow> (\<And>a. meets I (f a) (\<lambda>_. True)) \<Longrightarrow> meets I (bnd m f) (\<lambda>_. True)"
  by (rule meets_bnd) auto

lemma honestly_pure: "meets I (asks msg x) (\<lambda>_. True)" "meets I (pdu msg y) (\<lambda>_. True)" "meets I (ret a) (\<lambda>_. True)" "meets I (failwith e) (\<lambda>_. True)"
  by (simp_all add: asks_def pdu_def)

lemma missingBodies_honest:
  assumes "soundDb d" and "namedServer origin"
  shows "meets (resolverHonest d P) (missingBodies lb d origin server partial now evs wh ids) (\<lambda>_. True)"
proof (induction ids)
  case (Cons eid ids)
  have vis: "meets (resolverHonest d P) (eventVisibleInRoom d ev origin server partial) (\<lambda>_. True)" for ev
    by (rule meets_weaken [OF eventVisibleInRoom_meets])
      (use assms in \<open>auto simp: soundDb_def namedServer_def\<close>)
  show ?case
    by (auto simp: missingEventBody_def intro!: honestly_bnd honestly_pure vis Cons split: option.split)
qed (simp add: honestly_pure)

lemma resolveMissing_honest:
  assumes "soundDb d" and "namedServer origin"
  shows "meets (resolverHonest d P) (resolveMissingEvents lb d now origin server room earliest latest lim) (\<lambda>_. True)"
proof -
  have k: "db_keys d" using assms by (simp add: soundDb_def)
  have acl: "meets (resolverHonest d P) (serverACL d room) (\<lambda>_. True)"
    by (rule meets_weaken [OF serverACL_meets [OF k]]) simp
  have evs: "meets (resolverHonest d P) (onStore msg (GetEvents d ids)) (\<lambda>_. True)" for msg ids
    by (rule meets_weaken [OF GetEvents_meets [OF k]]) simp
  show ?thesis unfolding resolveMissingEvents_def
    by (auto intro!: honestly_bnd honestly_pure acl evs missingBodies_honest [OF assms])
qed

text \<open>The requests of the worker, on one resolver.\<close>

datatype request =
    ReqEvent lib int string string string
  | ReqMissing lib int string string string "string list" "string list" int
  | ReqStateIDs string string string

fun serveRequest :: "(string \<Rightarrow> string) \<Rightarrow> database \<Rightarrow> request \<Rightarrow> resolver \<Rightarrow> resolver" where
  "serveRequest sha d (ReqEvent lb now origin server eid) r = snd (resolveEvent lb d now origin server eid r)"
| "serveRequest sha d (ReqMissing lb now origin server room earliest latest lim) r =
     snd (resolveMissingEvents lb d now origin server room earliest latest lim r)"
| "serveRequest sha d (ReqStateIDs origin room eid) r = snd (StateIDs sha d origin room eid r)"

text \<open>\<open>A\<close> collects the auth chain questions ever asked, which the hash has to separate.\<close>

fun admitted :: "(string \<times> string list) set \<Rightarrow> database \<Rightarrow> request \<Rightarrow> bool" where
  "admitted A d (ReqEvent lb now origin server eid) \<longleftrightarrow> namedServer origin"
| "admitted A d (ReqMissing lb now origin server room earliest latest lim) \<longleftrightarrow> namedServer origin"
| "admitted A d (ReqStateIDs origin room eid) \<longleftrightarrow> (\<forall>ids. stateIDsAnswer d room eid = Inr ids \<longrightarrow> (room, ids) \<in> A)"

lemma serveRequest_calm: "db_keys d \<Longrightarrow> resolverCalm b d r \<Longrightarrow> resolverCalm b d (serveRequest sha d q r)"
  using resolveEvent_calm resolveMissing_calm StateIDs_calm by (cases q) (auto simp: meets_def)

lemma serveRequest_honest:
  assumes "soundDb d" and "separates sha A" and "askable A" and "admitted A d q"
    and "resolverHonest d (authTrue sha d A) r"
  shows "resolverHonest d (authTrue sha d A) (serveRequest sha d q r)"
proof (cases q)
  case (ReqEvent lb now origin server eid)
  with assms resolveEvent_meets [of d origin "authTrue sha d A" lb now server eid] show ?thesis
    by (simp add: soundDb_def namedServer_def meets_def)
next
  case (ReqMissing lb now origin server room earliest latest lim)
  with assms resolveMissing_honest [OF assms(1), of origin] show ?thesis by (simp add: meets_def)
next
  case (ReqStateIDs origin room eid)
  with assms StateIDs_meets [of d sha A room eid origin] show ?thesis by (simp add: soundDb_def meets_def)
qed

section \<open>The worker, Synapse and Redis\<close>

text \<open>
  \<open>wqueue\<close> holds what the client library has received and the subscriber has not yet read;
  \<open>wlink\<close> is whether the subscription is alive, which the subscriber cannot see.
\<close>

record world =
  wdb :: database
  wrun :: runState
  wacl :: "(string, ServerACL option) LRU"
  wqueue :: "notice list"
  wlink :: bool

definition resolverOf :: "world \<Rightarrow> resolver" where
  "resolverOf w = \<lparr>rstore = caches (sub (wrun w)), acls = wacl w\<rparr>"

definition withResolver :: "resolver \<Rightarrow> world \<Rightarrow> world" where
  "withResolver r w =
     w\<lparr>wrun := (wrun w)\<lparr>sub := (sub (wrun w))\<lparr>caches := rstore r\<rparr>\<rparr>, wacl := acls r\<rparr>"

text \<open>A row that says events were deleted.\<close>

definition deletionRow :: "(string \<Rightarrow> raw) \<Rightarrow> string \<Rightarrow> bool" where
  "deletionRow parse m \<longleftrightarrow>
     (\<exists>inst tok row f ks rest. splitN 4 (CHR '' '') (''caches '' @ inst @ '' '' @ tok @ '' '' @ row) = [''caches'', inst, tok, row] \<and>
        m = ''RDATA '' @ ''caches '' @ inst @ '' '' @ tok @ '' '' @ row \<and>
        parse row = Doc (JArr (JStr f # ks # rest)) \<and> f \<in> {purgeHistoryCache, deleteRoomCache} \<and>
        (ks = JNull \<or> (\<exists>keys. ks = JArr keys)))"

text \<open>New rows in the database that leave alone what is already known: Synapse's data is immutable.\<close>

definition grows :: "(string \<Rightarrow> string) \<Rightarrow> (string \<times> string list) set \<Rightarrow> store \<Rightarrow> database \<Rightarrow> database \<Rightarrow> bool" where
  "grows sha A s d d' \<longleftrightarrow> eventTruth d \<subseteq>\<^sub>m eventTruth d' \<and> groupTruth d \<subseteq>\<^sub>m groupTruth d' \<and>
     stateGroupQuery d \<subseteq>\<^sub>m stateGroupQuery d' \<and>
     (\<forall>(room, ids) \<in> A. contents (authChains s) (AuthChainKey sha room ids) \<noteq> None \<longrightarrow>
        authAncestors d' (set ids) = authAncestors d (set ids))"

inductive happens :: "(string \<Rightarrow> raw) \<Rightarrow> (string \<Rightarrow> string) \<Rightarrow> (string \<times> string list) set \<Rightarrow> world \<Rightarrow> world \<Rightarrow> bool"
  for parse sha A where
  request: "admitted A (wdb w) q \<Longrightarrow>
    happens parse sha A w (withResolver (serveRequest sha (wdb w) q (resolverOf w)) w)"
| deletion: "soundDb d \<Longrightarrow> aclHonest d (wacl w) \<Longrightarrow> deletionRow parse m \<Longrightarrow>
    happens parse sha A w (w\<lparr>wdb := d, wqueue := (if wlink w then wqueue w @ [RedisMessage m] else wqueue w)\<rparr>)"
| growth: "soundDb d \<Longrightarrow> aclHonest d (wacl w) \<Longrightarrow> grows sha A (caches (sub (wrun w))) (wdb w) d \<Longrightarrow>
    happens parse sha A w (w\<lparr>wdb := d\<rparr>)"
| chatter: "wlink w \<Longrightarrow> happens parse sha A w (w\<lparr>wqueue := wqueue w @ [n]\<rparr>)"
| outage: "happens parse sha A w (w\<lparr>wlink := False\<rparr>)"
| resubscribed: "phase (wrun w) = Listening \<Longrightarrow>
    happens parse sha A w (w\<lparr>wlink := True, wqueue := wqueue w @ [Subscription ''subscribe'']\<rparr>)"
| delivered: "wqueue w = n # rest \<Longrightarrow>
    happens parse sha A w (w\<lparr>wrun := runStep parse (Notice n) (wrun w), wqueue := rest\<rparr>)"
| closed: "i \<in> {ChannelClosed, CtxEnded} \<Longrightarrow>
    happens parse sha A w (w\<lparr>wrun := runStep parse i (wrun w), wqueue := [], wlink := False\<rparr>)"
| timer: "happens parse sha A w (w\<lparr>wrun := runStep parse TimerFired (wrun w)\<rparr>)"

definition started :: "world \<Rightarrow> bool" where
  "started w \<longleftrightarrow> soundDb (wdb w) \<and> aclHonest (wdb w) (wacl w) \<and> wqueue w = [] \<and> \<not> wlink w \<and>
     (\<exists>s b. storeCalm b (caches s) \<and> wrun w = startRun s)"

inductive arises :: "(string \<Rightarrow> raw) \<Rightarrow> (string \<Rightarrow> string) \<Rightarrow> (string \<times> string list) set \<Rightarrow> world \<Rightarrow> bool"
  for parse sha A where
  start: "started w \<Longrightarrow> arises parse sha A w"
| more: "arises parse sha A w \<Longrightarrow> happens parse sha A w w' \<Longrightarrow> arises parse sha A w'"

inductive_cases happensE: "happens parse sha A w w'"

section \<open>The invariant\<close>

definition honestNow :: "(string \<Rightarrow> string) \<Rightarrow> (string \<times> string list) set \<Rightarrow> world \<Rightarrow> bool" where
  "honestNow sha A w \<longleftrightarrow> resolverHonest (wdb w) (authTrue sha (wdb w) A) (resolverOf w)"

text \<open>An item whose delivery empties the caches.\<close>

definition flushing :: "(string \<Rightarrow> raw) \<Rightarrow> notice \<Rightarrow> bool" where
  "flushing parse n \<longleftrightarrow> n = Subscription ''subscribe'' \<or> (\<exists>m. n = RedisMessage m \<and> deletionRow parse m)"

definition worldInv :: "(string \<Rightarrow> raw) \<Rightarrow> (string \<Rightarrow> string) \<Rightarrow> (string \<times> string list) set \<Rightarrow> world \<Rightarrow> bool" where
  "worldInv parse sha A w \<longleftrightarrow> soundDb (wdb w) \<and> runInv (wrun w) \<and> aclHonest (wdb w) (wacl w) \<and>
     (wlink w \<or> wqueue w \<noteq> [] \<longrightarrow> phase (wrun w) = Listening) \<and>
     (honestNow sha A w \<or> list_ex (flushing parse) (wqueue w) \<or> \<not> wlink w)"

lemma deletionRow_purges:
  assumes "deletionRow parse m" shows "caches (handle parse m s) = PurgeCaches (caches s)"
proof -
  from assms obtain inst tok row f ks rest where
    sp: "splitN 4 (CHR '' '') (''caches '' @ inst @ '' '' @ tok @ '' '' @ row) = [''caches'', inst, tok, row]"
    and m: "m = ''RDATA '' @ ''caches '' @ inst @ '' '' @ tok @ '' '' @ row"
    and row: "parse row = Doc (JArr (JStr f # ks # rest))" "f \<in> {purgeHistoryCache, deleteRoomCache}"
      "ks = JNull \<or> (\<exists>keys. ks = JArr keys)"
    unfolding deletionRow_def by blast
  have cmd: "cut (CHR '' '') m = (''RDATA'', Some (''caches '' @ inst @ '' '' @ tok @ '' '' @ row))"
    using cut_append [of "CHR '' ''" "''RDATA''" "''caches '' @ inst @ '' '' @ tok @ '' '' @ row"] m by simp
  have "caches (handle parse m s) = caches (handleCacheRow (parse row) (s\<lparr>commandsM := commandsM s @ [''RDATA/'' @ ''caches'']\<rparr>))"
    unfolding handle_def cmd using sp by (simp add: Let_def)
  with row show ?thesis by (auto simp: handleCacheRow_def rawElems_def plainString_def)
qed

lemma emptied_honest:
  assumes "emptied s" and "storeCalm b s" and "aclHonest d c"
  shows "resolverHonest d (authTrue sha d A) \<lparr>rstore = s, acls = c\<rparr>"
  using emptied_contents [OF assms(1,2)] assms(2,3)
  by (simp add: resolverHonest_def stateHonest_def honest_def authTrue_def storeCalm_def calm_def)

lemma mild_honest:
  assumes "mild s s'" and "storeCalm b (caches s)" and hon: "resolverHonest d (authTrue sha d A) \<lparr>rstore = caches s, acls = c\<rparr>"
  shows "resolverHonest d (authTrue sha d A) \<lparr>rstore = caches s', acls = c\<rparr>"
proof -
  have "aclHonest d c" using hon by (simp add: resolverHonest_def)
  then have purge: "resolverHonest d (authTrue sha d A) \<lparr>rstore = PurgeCaches (caches s), acls = c\<rparr>"
    using emptied_honest [OF emptied_Purge storeCalm_Purge [OF assms(2)]] by simp
  have "resolverHonest d (authTrue sha d A) \<lparr>rstore = DropEvent eid (caches s), acls = c\<rparr>" for eid
    using hon by (simp add: resolverHonest_def stateHonest_def DropEvent_def honest_Remove)
  with purge hon assms(1) show ?thesis unfolding mild_def by auto
qed

lemma grows_honest:
  assumes "grows sha A (rstore r) d d'" and hon: "resolverHonest d (authTrue sha d A) r" and "aclHonest d' (acls r)"
  shows "resolverHonest d' (authTrue sha d' A) r"
proof -
  have le: "filteredTruth d \<subseteq>\<^sub>m filteredTruth d'"
    using assms(1) by (auto simp: grows_def map_le_def dom_def filteredTruth_def split: option.splits)
  have "honest t c \<Longrightarrow> t \<subseteq>\<^sub>m t' \<Longrightarrow> honest t' c" for t t' :: "'x \<Rightarrow> 'y option" and c
    by (auto simp: honest_def intro: map_le_trans)
  note mono = this
  have "authTrue sha d' A (authChains (rstore r))"
    using assms(1) hon unfolding grows_def resolverHonest_def authTrue_def by fastforce
  with le mono assms hon show ?thesis
    by (auto simp: resolverHonest_def stateHonest_def grows_def honest_def intro: map_le_trans)
qed

lemma worldInv_start: "started w \<Longrightarrow> worldInv parse sha A w"
  by (auto simp: started_def worldInv_def intro: runInv_start)

lemma withResolver_sel [simp]:
  "wdb (withResolver r w) = wdb w" "wqueue (withResolver r w) = wqueue w" "wlink (withResolver r w) = wlink w"
  "wacl (withResolver r w) = acls r" "resolverOf (withResolver r w) = r" "phase (wrun (withResolver r w)) = phase (wrun w)"
  by (simp_all add: withResolver_def resolverOf_def)

lemma worldInv_request:
  assumes "worldInv parse sha A w" and "separates sha A" and "askable A" and "admitted A (wdb w) q"
  shows "worldInv parse sha A (withResolver (serveRequest sha (wdb w) q (resolverOf w)) w)"
proof -
  let ?r = "serveRequest sha (wdb w) q (resolverOf w)"
  have d: "soundDb (wdb w)" and run: "runInv (wrun w)" and "aclHonest (wdb w) (wacl w)"
    using assms(1) by (simp_all add: worldInv_def)
  then have "resolverCalm (connected (sub (wrun w))) (wdb w) (resolverOf w)"
    by (simp add: resolverCalm_def resolverOf_def runInv_def)
  with serveRequest_calm d have c: "resolverCalm (connected (sub (wrun w))) (wdb w) ?r" by (simp add: soundDb_def)
  then have "runInv (wrun (withResolver ?r w))" using run by (simp add: runInv_def withResolver_def resolverCalm_def)
  moreover have "honestNow sha A w \<Longrightarrow> honestNow sha A (withResolver ?r w)"
    using serveRequest_honest [OF d assms(2-4)] by (simp add: honestNow_def)
  ultimately show ?thesis using assms(1) c by (auto simp: worldInv_def resolverCalm_def)
qed

lemma worldInv_delivered:
  assumes inv: "worldInv parse sha A w" and q: "wqueue w = n # rest"
  shows "worldInv parse sha A (w\<lparr>wrun := runStep parse (Notice n) (wrun w), wqueue := rest\<rparr>)"
proof -
  let ?s = "sub (wrun w)"
  let ?w = "w\<lparr>wrun := runStep parse (Notice n) (wrun w), wqueue := rest\<rparr>"
  have ph: "phase (wrun w) = Listening" and calm: "storeCalm (connected ?s) (caches ?s)" and acl: "aclHonest (wdb w) (wacl w)"
    using inv q by (simp_all add: worldInv_def runInv_def)
  have step: "runStep parse (Notice n) (wrun w) = (wrun w)\<lparr>sub := session parse n ?s\<rparr>"
    using ph by (simp add: runStep_def)
  have calm': "storeCalm (connected (session parse n ?s)) (caches (session parse n ?s))"
    using session_storeCalm [OF calm] .
  have "honestNow sha A ?w" if "flushing parse n"
  proof -
    have "emptied (caches (session parse n ?s))"
      using that deletionRow_purges emptied_arm emptied_Purge by (auto simp: flushing_def session_def)
    from emptied_honest [OF this calm' acl] show ?thesis by (simp add: honestNow_def resolverOf_def step)
  qed
  moreover have "honestNow sha A ?w" if "honestNow sha A w"
  proof (cases n)
    case (Subscription kind)
    show ?thesis
    proof (cases "kind = ''subscribe''")
      case True
      with Subscription \<open>flushing parse n \<Longrightarrow> honestNow sha A ?w\<close> show ?thesis by (simp add: flushing_def)
    next
      case False
      with Subscription have "session parse n ?s = ?s" by (simp add: session_def)
      with that show ?thesis by (simp add: honestNow_def resolverOf_def step)
    qed
  next
    case (RedisMessage m)
    have "resolverHonest (wdb w) (authTrue sha (wdb w) A) \<lparr>rstore = caches ?s, acls = wacl w\<rparr>"
      using that by (simp add: honestNow_def resolverOf_def)
    from mild_honest [OF handle_mild calm this, of parse m] have
      "resolverHonest (wdb w) (authTrue sha (wdb w) A) \<lparr>rstore = caches (session parse n ?s), acls = wacl w\<rparr>"
      using RedisMessage by (simp add: session_def)
    then show ?thesis by (simp add: honestNow_def resolverOf_def step)
  next
    case Pong
    then have "session parse n ?s = ?s" by (simp add: session_def)
    with that show ?thesis by (simp add: honestNow_def resolverOf_def step)
  qed
  ultimately show ?thesis using inv q runInv_step [of "wrun w" parse "Notice n"] ph
    by (auto simp: worldInv_def step)
qed

lemma worldInv_step:
  assumes "happens parse sha A w w'" and inv: "worldInv parse sha A w" and sep: "separates sha A" "askable A"
  shows "worldInv parse sha A w'"
  using assms(1)
proof cases
  case (request q)
  then show ?thesis using worldInv_request [OF inv sep] by simp
next
  case (deletion d m)
  then show ?thesis using inv by (auto simp: worldInv_def flushing_def)
next
  case (growth d)
  then show ?thesis using inv grows_honest [of sha A "resolverOf w" "wdb w" d]
    by (auto simp: worldInv_def honestNow_def resolverOf_def)
next
  case (resubscribed)
  then show ?thesis using inv by (auto simp: worldInv_def flushing_def)
next
  case (delivered n rest)
  then show ?thesis using worldInv_delivered [OF inv] by simp
next
  case (closed i)
  then show ?thesis using inv runInv_step [of "wrun w" parse i] by (simp add: worldInv_def)
next
  case timer
  have "caches (sub (runStep parse TimerFired (wrun w))) = caches (sub (wrun w))"
    "phase (wrun w) = Listening \<Longrightarrow> phase (runStep parse TimerFired (wrun w)) = Listening"
    by (auto simp: runStep_def split: phase.split)
  then show ?thesis using inv runInv_step [of "wrun w" parse TimerFired] timer
    by (auto simp: worldInv_def honestNow_def resolverOf_def)
qed (use inv in \<open>auto simp: worldInv_def honestNow_def resolverOf_def\<close>)

lemma worldInv_arises:
  assumes "arises parse sha A w" and "separates sha A" "askable A" shows "worldInv parse sha A w"
  using assms(1) by induction (use assms(2,3) in \<open>auto intro: worldInv_start worldInv_step\<close>)

lemma settled_honest:
  assumes "worldInv parse sha A w" and "wlink w \<and> wqueue w = [] \<or> \<not> CachesArmed (caches (sub (wrun w)))"
  shows "honestNow sha A w"
proof (cases "CachesArmed (caches (sub (wrun w)))")
  case True
  with assms show ?thesis by (simp add: worldInv_def)
next
  case False
  with assms(1) have calm: "storeCalm False (caches (sub (wrun w)))"
    by (cases "connected (sub (wrun w))") (simp_all add: worldInv_def runInv_def CachesArmed_def storeCalm_def calm_def)
  from emptied_honest [OF storeCalm_emptied [OF calm] calm] assms(1)
  show ?thesis by (simp add: honestNow_def resolverOf_def worldInv_def)
qed

lemma settled_answers:
  assumes inv: "worldInv parse sha A w" and "namedServer origin"
    and "wlink w \<and> wqueue w = [] \<or> \<not> CachesArmed (caches (sub (wrun w)))"
  shows "fst (checkAccess (wdb w) origin room (resolverOf w)) = gates (wdb w) origin room \<and>
    fst (resolveEvent lb (wdb w) now origin server eid (resolverOf w)) = eventAnswer lb (wdb w) now origin server eid \<and>
    fst (stateIDsForEvent (wdb w) room eid (resolverOf w)) = stateIDsAnswer (wdb w) room eid"
proof -
  from inv have d: "db_keys (wdb w)" "noFaults (wdb w)" "edges_ok (wdb w)" by (simp_all add: worldInv_def soundDb_def)
  have o: "origin \<noteq> ''''" "\<not> containsAny origin ''%_''" using assms(2) by (simp_all add: namedServer_def)
  have hon: "resolverHonest (wdb w) (authTrue sha (wdb w) A) (resolverOf w)"
    using settled_honest [OF inv assms(3)] by (simp add: honestNow_def)
  show ?thesis
    using meets_result [OF checkAccess_meets [OF d(1)], OF hon] meets_result [OF resolveEvent_meets [OF d o], OF hon]
      meets_result [OF stateIDsForEvent_meets [OF d], OF hon] by simp
qed

section \<open>Properties\<close>

text \<open>The invalidation stream keeps the answers right: over every interleaving of whole requests, changes
  of Synapse's database, published rows, outages, reconnections and the subscriber's own steps, in
  any state where either the subscription is alive and everything received has been handled, or the
  caches are disarmed, what a request gets is what the current database says: the access gates, the
  answer of \<open>/event\<close>, and the state identifiers of an event.  Events may be deleted at any time as
  long as Synapse says so, and every other change adds to what is known.\<close>

theorem answers_are_current:
  assumes "arises parse sha A w" and "separates sha A" and "askable A" and "namedServer origin"
    and "wlink w \<and> wqueue w = [] \<or> \<not> CachesArmed (caches (sub (wrun w)))"
  shows "fst (checkAccess (wdb w) origin room (resolverOf w)) = gates (wdb w) origin room \<and>
    fst (resolveEvent lb (wdb w) now origin server eid (resolverOf w)) = eventAnswer lb (wdb w) now origin server eid \<and>
    fst (stateIDsForEvent (wdb w) room eid (resolverOf w)) = stateIDsAnswer (wdb w) room eid"
  by (rule settled_answers [OF worldInv_arises [OF assms(1-3)] assms(4,5)])

text \<open>A run: the subscription is confirmed, the event is asked for and cached, Synapse deletes it and
  says so, and the row is delivered.\<close>

definition goneDb :: database where
  "goneDb = (visDb ''join'')\<lparr>t_events := []\<rparr>"

lemma goneDb_sound: "soundDb (visDb ''join'')" "soundDb goneDb"
proof -
  have "index_valid (visDb ''join'')" "index_valid goneDb"
    by (simp_all add: goneDb_def visDb_def sampleDb_def index_valid_def links_pos_def)
  moreover have "db_keys goneDb" "noFaults goneDb" "edges_ok goneDb"
    using visDb_ok [of "''join''"] by (simp_all add: goneDb_def db_keys_def noFaults_def edges_ok_def)
  ultimately show "soundDb (visDb ''join'')" "soundDb goneDb"
    using visDb_ok by (simp_all add: soundDb_def)
qed

lemma goneDb_answer: "eventAnswer lb goneDb now origin server eid = Inl ErrEventNotFound"
  by (simp add: eventAnswer_def eventTruth_def eventQuery_def goneDb_def)

lemma goneDb_acl: "aclHonest goneDb c \<longleftrightarrow> aclHonest (visDb ''join'') c"
  by (simp add: aclHonest_def aclTruth_def goneDb_def)

definition purgeText :: string where "purgeText = ''RDATA caches master 5 purge''"

lemma purgeText_deletion: "deletionRow rowText purgeText"
  unfolding deletionRow_def
  by (rule exI [of _ "''master''"], rule exI [of _ "''5''"], rule exI [of _ "''purge''"])
    (simp add: splitN_four rowText_def purgeText_def purgeHistoryCache_def)

definition firstWorld :: world where
  "firstWorld = \<lparr>wdb = visDb ''join'', wrun = startRun heldSubscriber, wacl = acls freshResolver, wqueue = [], wlink = False\<rparr>"

lemma firstWorld_started: "started firstWorld"
proof -
  have "aclHonest (visDb ''join'') (acls freshResolver)"
    using freshResolver_honest [of "\<lambda>_. True"] by (simp add: resolverHonest_def)
  moreover have "storeCalm True (caches heldSubscriber)" using heldStore_calm by (simp add: heldSubscriber_def)
  ultimately show ?thesis using goneDb_sound by (auto simp: started_def firstWorld_def)
qed

lemma subscribedWorld:
  "\<exists>w. arises rowText (\<lambda>x. x) {} w \<and> wdb w = visDb ''join'' \<and> wlink w \<and> wqueue w = [] \<and>
     phase (wrun w) = Listening \<and> connected (sub (wrun w))"
proof -
  let ?R = "arises rowText (\<lambda>x. x) {}"
  let ?w1 = "firstWorld\<lparr>wlink := True, wqueue := wqueue firstWorld @ [Subscription ''subscribe'']\<rparr>"
  let ?w2 = "?w1\<lparr>wrun := runStep rowText (Notice (Subscription ''subscribe'')) (wrun ?w1), wqueue := []\<rparr>"
  have l: "phase (wrun firstWorld) = Listening" by (simp add: firstWorld_def startRun_def)
  have "?R firstWorld" by (rule arises.start [OF firstWorld_started])
  then have "?R ?w1" by (rule arises.more) (rule happens.resubscribed [OF l])
  then have "?R ?w2" by (rule arises.more) (rule happens.delivered, simp add: firstWorld_def)
  with l show ?thesis by (intro exI [of _ ?w2]) (simp add: firstWorld_def runStep_def session_connected)
qed

theorem answers_are_current_witness:
  "\<exists>w. arises rowText (\<lambda>x. x) {} w \<and> wdb w = goneDb \<and> CachesArmed (caches (sub (wrun w))) \<and>
     fst (resolveEvent refLib (wdb w) 9 ''srv'' ''me'' ''$msg'' (resolverOf w)) = Inl ErrEventNotFound"
proof -
  let ?R = "arises rowText (\<lambda>x. x) {}"
  have sep: "separates (\<lambda>x. x) {}" "askable {}" by (simp_all add: separates_def askable_def)
  have srv: "namedServer ''srv''" by (simp add: namedServer_def containsAny_def)
  obtain w where w: "?R w" "wdb w = visDb ''join''" "wlink w" "wqueue w = []" "phase (wrun w) = Listening" "connected (sub (wrun w))"
    using subscribedWorld by blast
  let ?q = "ReqEvent refLib 8 ''srv'' ''me'' ''$msg''"
  define w1 where "w1 = withResolver (serveRequest (\<lambda>x. x) (wdb w) ?q (resolverOf w)) w"
  have r1: "?R w1" unfolding w1_def by (rule arises.more [OF w(1)], rule happens.request) (simp add: srv)
  have s1: "wdb w1 = visDb ''join''" "wlink w1" "wqueue w1 = []" "phase (wrun w1) = Listening" "connected (sub (wrun w1))"
    using w by (simp_all add: w1_def) (simp add: withResolver_def)
  have acl: "aclHonest goneDb (wacl w1)" using worldInv_arises [OF r1 sep] s1 by (simp add: worldInv_def goneDb_acl)
  define w2 where "w2 = w1\<lparr>wdb := goneDb, wqueue := (if wlink w1 then wqueue w1 @ [RedisMessage purgeText] else wqueue w1)\<rparr>"
  have r2: "?R w2" unfolding w2_def
    by (rule arises.more [OF r1], rule happens.deletion [OF goneDb_sound(2) acl purgeText_deletion])
  define w3 where "w3 = w2\<lparr>wrun := runStep rowText (Notice (RedisMessage purgeText)) (wrun w2), wqueue := []\<rparr>"
  have r3: "?R w3" unfolding w3_def
    by (rule arises.more [OF r2], rule happens.delivered) (simp add: w2_def s1)
  have s3: "wdb w3 = goneDb" "wlink w3 \<and> wqueue w3 = []" "connected (sub (wrun w3))"
    using s1 by (simp_all add: w3_def w2_def runStep_def session_connected)
  have "CachesArmed (caches (sub (wrun w3)))"
    using worldInv_arises [OF r3 sep] s3(3) by (simp add: worldInv_def runInv_def CachesArmed_def storeCalm_def calm_def)
  with r3 s3(1) answers_are_current [OF r3 sep srv disjI1 [OF s3(2)], of _ refLib 9 "''me''" "''$msg''"]
  show ?thesis by (auto simp: goneDb_answer)
qed

text \<open>While the client library reconnects on its own the subscriber sees nothing: the caches are armed
  although the subscription is down.\<close>

lemma armed_during_outage:
  "\<exists>w. arises rowText (\<lambda>x. x) {} w \<and> \<not> wlink w \<and> CachesArmed (caches (sub (wrun w)))"
proof -
  obtain w where w: "arises rowText (\<lambda>x. x) {} w" "connected (sub (wrun w))" using subscribedWorld by blast
  have "worldInv rowText (\<lambda>x. x) {} w" using worldInv_arises [OF w(1)] by (simp add: separates_def askable_def)
  with w have "CachesArmed (caches (sub (wrun w)))" by (simp add: worldInv_def runInv_def CachesArmed_def storeCalm_def calm_def)
  moreover have "arises rowText (\<lambda>x. x) {} (w\<lparr>wlink := False\<rparr>)" by (rule arises.more [OF w(1)]) (rule happens.outage)
  ultimately show ?thesis by (intro exI [of _ "w\<lparr>wlink := False\<rparr>"]) simp
qed

end
