(* ===== verification/Races.thy ===== *)
theory Races
  imports Freshness
begin

text \<open>
  Requests that overlap.  In \<open>Freshness\<close> a request is one step; here a request looks into a cache, reads from
  the database and fills the cache at three different times, and whatever else the worker, Synapse and
  Redis do may happen in between.  The caches' own operations are atomic, since each holds its lock.
  What a load has read and not yet stored is a pending fill; any number of them may be pending, in
  any order.
\<close>

section \<open>Looks, reads and fills\<close>

text \<open>A lookup, which moves the entry it hits to the front.\<close>

datatype look = LookEvent string | LookGroup string | LookState int | LookFiltered FilteredStateKey | LookChain string | LookACL string

fun lookStep :: "look \<Rightarrow> resolver \<Rightarrow> resolver" where
  "lookStep (LookEvent k) r = r\<lparr>rstore := (rstore r)\<lparr>events := snd (Get k (events (rstore r)))\<rparr>\<rparr>"
| "lookStep (LookGroup k) r = r\<lparr>rstore := (rstore r)\<lparr>eventStateGroup := snd (Get k (eventStateGroup (rstore r)))\<rparr>\<rparr>"
| "lookStep (LookState k) r = r\<lparr>rstore := (rstore r)\<lparr>stateGroups := snd (Get k (stateGroups (rstore r)))\<rparr>\<rparr>"
| "lookStep (LookFiltered k) r = r\<lparr>rstore := (rstore r)\<lparr>filteredState := snd (Get k (filteredState (rstore r)))\<rparr>\<rparr>"
| "lookStep (LookChain k) r = r\<lparr>rstore := (rstore r)\<lparr>authChains := snd (Get k (authChains (rstore r)))\<rparr>\<rparr>"
| "lookStep (LookACL k) r = r\<lparr>acls := snd (Get k (acls r))\<rparr>"

text \<open>The \<open>Add\<close> of each load.\<close>

datatype fill = FillEvent Event | FillGroup string int | FillState int stateMap | FillFiltered FilteredStateKey stateMap
  | FillChain string "string list" | FillACL string "ServerACL option"

fun fillStep :: "fill \<Rightarrow> resolver \<Rightarrow> resolver" where
  "fillStep (FillEvent e) r = r\<lparr>rstore := (rstore r)\<lparr>events := Add (EventID e) e (events (rstore r))\<rparr>\<rparr>"
| "fillStep (FillGroup eid g) r = r\<lparr>rstore := (rstore r)\<lparr>eventStateGroup := Add eid g (eventStateGroup (rstore r))\<rparr>\<rparr>"
| "fillStep (FillState g m) r = r\<lparr>rstore := (rstore r)\<lparr>stateGroups := Add g m (stateGroups (rstore r))\<rparr>\<rparr>"
| "fillStep (FillFiltered k m) r = r\<lparr>rstore := (rstore r)\<lparr>filteredState := Add k m (filteredState (rstore r))\<rparr>\<rparr>"
| "fillStep (FillChain k ids) r = r\<lparr>rstore := (rstore r)\<lparr>authChains := Add k ids (authChains (rstore r))\<rparr>\<rparr>"
| "fillStep (FillACL eid acl) r = r\<lparr>acls := Add eid acl (acls r)\<rparr>"

text \<open>What a load may read and is then going to store.  A filtered view is also cut from a whole map that
  is cached.\<close>

inductive reads :: "(string \<Rightarrow> string) \<Rightarrow> (string \<times> string list) set \<Rightarrow> database \<Rightarrow> resolver \<Rightarrow> fill \<Rightarrow> bool"
  for sha A d r where
  event: "row \<in> set (fst (deliver d ''get events'' (eventQuery d missing))) \<Longrightarrow> reads sha A d r (FillEvent (mkEvent row))"
| group: "queryRow d ''get state group for event'' (filter (\<lambda>(e, _). e = eid) (t_event_groups d)) = Inr (Some (e, Some g)) \<Longrightarrow>
    reads sha A d r (FillGroup eid g)"
| state: "stateTx d ''state for group'' (stateGroupQuery d g) = Inr m \<Longrightarrow> reads sha A d r (FillState g m)"
| types: "validTypes types \<Longrightarrow> stateTx d ''filtered state'' (stateGroupFilteredQuery d g types) = Inr m \<Longrightarrow>
    reads sha A d r (FillFiltered (typesKey g types) m)"
| types_whole: "validTypes types \<Longrightarrow> fst (Get g (stateGroups (rstore r))) = Some whole \<Longrightarrow>
    reads sha A d r (FillFiltered (typesKey g types) (filterByTypes whole types))"
| members: "\<not> containsAny server ''%_'' \<Longrightarrow> stateTx d ''filtered state'' (stateGroupMemberQuery d g server) = Inr m \<Longrightarrow>
    reads sha A d r (FillFiltered (membersKey g server) m)"
| members_whole: "\<not> containsAny server ''%_'' \<Longrightarrow> fst (Get g (stateGroups (rstore r))) = Some whole \<Longrightarrow>
    reads sha A d r (FillFiltered (membersKey g server) (filterMembersForServer whole server))"
| chain: "(room, ids) \<in> A \<Longrightarrow> ids \<noteq> [] \<Longrightarrow> coverChain d room ids = Inr (Some out) \<Longrightarrow>
    reads sha A d r (FillChain (AuthChainKey sha room ids) out)"
| acl: "GetCurrentStateEvent d room ''m.room.server_acl'' '''' = Inr (eid, body) \<Longrightarrow> reads sha A d r (FillACL eid (ParseServerACL body))"

section \<open>Loads are looks, reads and fills\<close>

text \<open>Undisturbed, the loads of the store are exactly these steps.\<close>

lemma fromCache_looks: "snd (fromCache ids out missing (rstore r)) = rstore (fold (\<lambda>k. lookStep (LookEvent k)) ids r)"
proof (induction ids arbitrary: r out missing)
  case (Cons k ids)
  obtain x c where g: "Get k (events (rstore r)) = (x, c)" by fastforce
  show ?case using Cons.IH [of _ _ "lookStep (LookEvent k) r"] by (cases x) (simp_all add: g)
qed simp

text \<open>The trace is the request's own and not part of a cache.\<close>

definition sameCaches :: "store \<Rightarrow> store \<Rightarrow> bool" where
  "sameCaches s t \<longleftrightarrow> events s = events t \<and> eventStateGroup s = eventStateGroup t \<and> stateGroups s = stateGroups t \<and>
     authChains s = authChains t \<and> filteredState s = filteredState t"

lemma sameCaches_simps [simp]:
  "sameCaches s s" "sameCaches (traceN nm h l s) t = sameCaches s t" "sameCaches (trace1 nm hit s) t = sameCaches s t"
  by (simp_all add: sameCaches_def traceN_def trace1_def)

lemma scan_fills:
  "sameCaches s (rstore r) \<Longrightarrow>
    sameCaches (snd (scanEvents True rows out s)) (rstore (fold fillStep (map (\<lambda>row. FillEvent (mkEvent row)) rows) r))"
proof (induction rows arbitrary: s r out)
  case (Cons row rows)
  let ?r = "fillStep (FillEvent (mkEvent row)) r" and ?e = "mkEvent row"
  have "sameCaches (s\<lparr>events := Add (EventID ?e) ?e (events s)\<rparr>) (rstore ?r)" using Cons.prems by (simp add: sameCaches_def)
  from Cons.IH [OF this] show ?case by (simp add: Let_def)
qed simp

text \<open>A load that looks and then, perhaps, fills with what it has read.\<close>

definition stepwise :: "(string \<Rightarrow> string) \<Rightarrow> (string \<times> string list) set \<Rightarrow> database \<Rightarrow> look list \<Rightarrow> resolver \<Rightarrow> store \<Rightarrow> bool" where
  "stepwise sha A d ks r s \<longleftrightarrow>
     (\<exists>fs. list_all (reads sha A d (fold lookStep ks r)) fs \<and> sameCaches s (rstore (fold fillStep fs (fold lookStep ks r))))"

lemma stepwise_I:
  "sameCaches s (rstore (fold lookStep ks r)) \<Longrightarrow> stepwise sha A d ks r s"
  "reads sha A d (fold lookStep ks r) f \<Longrightarrow> sameCaches s (rstore (fillStep f (fold lookStep ks r))) \<Longrightarrow> stepwise sha A d ks r s"
  unfolding stepwise_def by (rule exI [of _ "[]"], simp) (rule exI [of _ "[f]"], simp)

lemma group_load_steps: "stepwise sha A d [LookGroup eid] r (snd (GetStateGroupForEvent d eid (rstore r)))"
proof -
  obtain x c where g: "Get eid (eventStateGroup (rstore r)) = (x, c)" by fastforce
  show ?thesis
  proof (cases "\<exists>e g. x = None \<and>
      queryRow d ''get state group for event'' (filter (\<lambda>(e, _). e = eid) (t_event_groups d)) = Inr (Some (e, Some g))")
    case True
    then obtain e v where v: "x = None"
      "queryRow d ''get state group for event'' (filter (\<lambda>(e, _). e = eid) (t_event_groups d)) = Inr (Some (e, Some v))" by blast
    from stepwise_I(2) [OF reads.group [OF v(2)]] v g show ?thesis by (simp add: GetStateGroupForEvent_def sameCaches_def trace1_def)
  next
    case False
    then show ?thesis
      by (intro stepwise_I(1)) (auto simp: GetStateGroupForEvent_def g sameCaches_def trace1_def Let_def split: option.split sum.split)
  qed
qed

lemma state_load_steps: "stepwise sha A d [LookState g] r (snd (GetStateForGroup d g (rstore r)))"
proof -
  obtain x c where g: "Get g (stateGroups (rstore r)) = (x, c)" by fastforce
  show ?thesis
  proof (cases "\<exists>m. x = None \<and> stateTx d ''state for group'' (stateGroupQuery d g) = Inr m")
    case True
    then obtain m where m: "x = None" "stateTx d ''state for group'' (stateGroupQuery d g) = Inr m" by blast
    from stepwise_I(2) [OF reads.state [OF m(2)]] m g show ?thesis by (simp add: GetStateForGroup_def sameCaches_def trace1_def)
  next
    case False
    then show ?thesis
      by (intro stepwise_I(1)) (auto simp: GetStateForGroup_def g sameCaches_def trace1_def Let_def split: option.split sum.split)
  qed
qed

lemma chain_load_steps:
  assumes "(room, ids) \<in> A" and "ids \<noteq> []"
  shows "stepwise sha A d [LookChain (AuthChainKey sha room ids)] r (snd (GetAuthChainIDs sha d room ids (rstore r)))"
proof -
  obtain x c where g: "Get (AuthChainKey sha room ids) (authChains (rstore r)) = (x, c)" by fastforce
  show ?thesis
  proof (cases "\<exists>out. x = None \<and> coverChain d room ids = Inr (Some out)")
    case True
    then obtain out where m: "x = None" "coverChain d room ids = Inr (Some out)" by blast
    from stepwise_I(2) [OF reads.chain [OF assms m(2)]] m g assms(2) show ?thesis by (simp add: GetAuthChainIDs_def sameCaches_def trace1_def)
  next
    case False
    with assms(2) show ?thesis
      by (intro stepwise_I(1)) (auto simp: GetAuthChainIDs_def g sameCaches_def trace1_def Let_def split: option.split sum.split)
  qed
qed

lemma event_load_steps: "\<exists>ks. set ks \<subseteq> LookEvent ` set ids \<and> stepwise sha A d ks r (snd (getEventsRaw d ids (rstore r)))"
proof -
  define start where "start = (if Enabled (events (rstore r)) then fromCache ids [] [] (rstore r) else (([], ids), rstore r))"
  define ks where "ks = (if Enabled (events (rstore r)) then map LookEvent ids else [])"
  obtain out missing s1 where st: "start = ((out, missing), s1)" by (metis surj_pair)
  have "rstore (fold lookStep ks r) = snd start"
    by (simp add: start_def ks_def fromCache_looks fold_map comp_def)
  then have s1: "s1 = rstore (fold lookStep ks r)" by (simp add: st)
  obtain rows err where del: "deliver d ''get events'' (eventQuery d missing) = (rows, err)" by fastforce
  let ?fs = "map (\<lambda>row. FillEvent (mkEvent row)) rows"
  have "list_all (reads sha A d (fold lookStep ks r)) ?fs" using reads.event [of _ d missing] by (auto simp: list_all_iff del)
  moreover have "sameCaches (snd (scanEvents True rows out (traceN nm h l s1))) (rstore (fold fillStep ?fs (fold lookStep ks r)))" for nm h l
    by (rule scan_fills) (simp add: s1)
  ultimately have fills: "stepwise sha A d ks r (snd (scanEvents True rows out (traceN nm h l s1)))" for nm h l
    unfolding stepwise_def by blast
  have none: "stepwise sha A d ks r (traceN nm h l s1)" for nm h l by (rule stepwise_I(1)) (simp add: s1)
  have "stepwise sha A d (if ids = [] then [] else ks) r (snd (getEventsRaw d ids (rstore r)))"
  proof (cases "ids = [] \<or> missing = []")
    case True
    with none stepwise_I(1) [of "rstore r" "[]" r] show ?thesis
      by (auto simp: getEventsRaw_def getEventsRawOpt_def Let_def start_def [symmetric] st)
  next
    case False
    with fills show ?thesis
      by (simp add: getEventsRaw_def getEventsRawOpt_def Let_def start_def [symmetric] st del case_prod_unfold split: option.split)
  qed
  then show ?thesis by (intro exI [of _ "if ids = [] then [] else ks"]) (auto simp: ks_def)
qed

section \<open>Overlapping requests\<close>

text \<open>Whether an entry is what the database now says; an ACL may also be one of an event that is gone.\<close>

fun fillTrue :: "(string \<Rightarrow> string) \<Rightarrow> (string \<times> string list) set \<Rightarrow> database \<Rightarrow> fill \<Rightarrow> bool" where
  "fillTrue sha A d (FillEvent e) \<longleftrightarrow> eventTruth d (EventID e) = Some e"
| "fillTrue sha A d (FillGroup eid g) \<longleftrightarrow> groupTruth d eid = Some g"
| "fillTrue sha A d (FillState g m) \<longleftrightarrow> stateGroupQuery d g = Some m"
| "fillTrue sha A d (FillFiltered k m) \<longleftrightarrow> filteredTruth d k = Some m"
| "fillTrue sha A d (FillChain k out) \<longleftrightarrow> (\<exists>(room, ids) \<in> A. k = AuthChainKey sha room ids \<and> set out = authAncestors d (set ids))"
| "fillTrue sha A d (FillACL eid acl) \<longleftrightarrow> aclTruth d eid \<in> {None, Some acl}"

fun forACL :: "fill \<Rightarrow> bool" where
  "forACL (FillACL eid acl) = True"
| "forACL f = False"

text \<open>A fill is late when it stores what is no longer so, and nothing that will empty the caches is on its way.\<close>

definition lateFill :: "(string \<Rightarrow> raw) \<Rightarrow> (string \<Rightarrow> string) \<Rightarrow> (string \<times> string list) set \<Rightarrow> world \<Rightarrow> fill \<Rightarrow> bool" where
  "lateFill parse sha A w f \<longleftrightarrow>
     \<not> fillTrue sha A (wdb w) f \<and> (forACL f \<or> wlink w \<and> \<not> list_ex (flushing parse) (wqueue w))"

text \<open>The runs, with the number of late fills, the world and the pending fills.\<close>

inductive raced :: "(string \<Rightarrow> raw) \<Rightarrow> (string \<Rightarrow> string) \<Rightarrow> (string \<times> string list) set \<Rightarrow> nat \<Rightarrow> world \<Rightarrow> fill list \<Rightarrow> bool"
  for parse sha A where
  begins: "started w \<Longrightarrow> raced parse sha A 0 w []"
| whole: "raced parse sha A n w fs \<Longrightarrow> happens parse sha A w w' \<Longrightarrow> raced parse sha A n w' fs"
| look: "raced parse sha A n w fs \<Longrightarrow> raced parse sha A n (withResolver (lookStep k (resolverOf w)) w) fs"
| read: "raced parse sha A n w fs \<Longrightarrow> reads sha A (wdb w) (resolverOf w) f \<Longrightarrow> raced parse sha A n w (fs @ [f])"
| filled: "raced parse sha A n w (fs @ f # gs) \<Longrightarrow>
    raced parse sha A (if lateFill parse sha A w f then n + 1 else n) (withResolver (fillStep f (resolverOf w)) w) (fs @ gs)"
| abandoned: "raced parse sha A n w (fs @ f # gs) \<Longrightarrow> raced parse sha A n w (fs @ gs)"

lemma arises_raced: "arises parse sha A w \<Longrightarrow> raced parse sha A 0 w []"
  by (induction rule: arises.induct) (auto intro: raced.intros)

text \<open>Lookups and fills keep the caches in order.\<close>

lemma look_calm: "storeCalm b (rstore r) \<Longrightarrow> storeCalm b (rstore (lookStep k r))"
  by (cases k) (simp_all add: storeCalm_def)

lemma fill_calm: "storeCalm b (rstore r) \<Longrightarrow> storeCalm b (rstore (fillStep f r))"
  by (cases f) (simp_all add: storeCalm_def)

lemma look_honest:
  assumes "resolverHonest d (authTrue sha d A) r"
  shows "resolverHonest d (authTrue sha d A) (lookStep k r)"
  using assms contents_Get [of "authChains (rstore r)"] lru_inv_Get [of "authChains (rstore r)"] contents_Get [of "acls r"] lru_inv_Get [of "acls r"]
  by (cases k) (auto simp: resolverHonest_def stateHonest_def honest_Get authTrue_def aclHonest_def)

lemma fill_acl: "aclHonest d (acls r) \<Longrightarrow> (forACL f \<Longrightarrow> fillTrue sha A d f) \<Longrightarrow> aclHonest d (acls (fillStep f r))"
proof (cases f)
  case (FillACL eid acl)
  assume a: "aclHonest d (acls r)" and t: "forACL f \<Longrightarrow> fillTrue sha A d f"
  from a have inv: "lru_inv (acls r)" by (simp add: aclHonest_def)
  from lru_inv_Add [OF inv] lru.add_view [OF inv] a t FillACL show ?thesis by (fastforce simp: aclHonest_def)
qed simp_all

lemma fill_honest:
  assumes "resolverHonest d (authTrue sha d A) r" and "fillTrue sha A d f"
  shows "resolverHonest d (authTrue sha d A) (fillStep f r)"
proof (cases f)
  case (FillChain k out)
  have inv: "lru_inv (authChains (rstore r))" using assms(1) by (simp add: resolverHonest_def authTrue_def)
  have "authTrue sha d A (Add k out (authChains (rstore r)))"
    using lru_inv_Add [OF inv] lru.add_view [OF inv, of k out] assms FillChain unfolding resolverHonest_def authTrue_def by fastforce
  with assms(1) FillChain show ?thesis by (simp add: resolverHonest_def stateHonest_def)
next
  case (FillACL eid acl)
  with fill_acl [of d r f sha A] assms show ?thesis by (simp add: resolverHonest_def stateHonest_def)
qed (use assms in \<open>auto simp: resolverHonest_def stateHonest_def honest_Add\<close>)

text \<open>A fill of a load that nothing came between is never late.\<close>

lemma reads_true:
  assumes "soundDb d" and "resolverHonest d (authTrue sha d A) r" and "reads sha A d r f"
  shows "fillTrue sha A d f"
  using assms(3)
proof cases
  case (event row missing)
  have "set (fst (deliver d ''get events'' (eventQuery d missing))) \<subseteq> set (eventQuery d missing)"
    using deliver_prefix [of d "''get events''" "eventQuery d missing"] set_take_subset by fastforce
  with event(2) have "row \<in> set (eventQuery d missing)" by blast
  then have "joinedRow d row" by (simp add: eventQuery_mem)
  with event eventTruth_row [of d row] assms(1) show ?thesis by (simp add: soundDb_def)
next
  case (group eid e g)
  have "(case filter P xs of [] \<Rightarrow> None | x # _ \<Rightarrow> Some x) = find P xs" for P and xs :: "(string \<times> int option) list"
    by (induction xs) auto
  with group queryRow_Inr [OF group(2)] have "find (\<lambda>(e, _). e = eid) (t_event_groups d) = Some (e, Some g)" by simp
  with group(1) show ?thesis by (simp add: groupTruth_def)
next
  case (state g m)
  then show ?thesis using stateTx_Inr gomap_stateGroupQuery by fastforce
next
  case (types types g m)
  have "filteredTruth d (typesKey g types) = Some m"
    by (rule stateTx_Inr [OF types(3) [unfolded filteredQuery_eq, folded filteredTruth_types [OF types(2)]]]) (rule filteredTruth_gomap)
  with types(1) show ?thesis by simp
next
  case (types_whole types g whole)
  have "stateGroupQuery d g = Some whole"
    using assms(2) types_whole(3) honest_hit [of "stateGroupQuery d" "stateGroups (rstore r)" g whole]
    by (metis prod.collapse resolverHonest_def stateHonest_def)
  with types_whole filteredTruth_types [OF types_whole(2)] show ?thesis by simp
next
  case (members server g m)
  have "filteredTruth d (membersKey g server) = Some m"
    by (rule stateTx_Inr [OF members(3) [unfolded memberQuery_eq, folded filteredTruth_members]]) (rule filteredTruth_gomap)
  with members(1) show ?thesis by simp
next
  case (members_whole server g whole)
  have "stateGroupQuery d g = Some whole"
    using assms(2) members_whole(3) honest_hit [of "stateGroupQuery d" "stateGroups (rstore r)" g whole]
    by (metis prod.collapse resolverHonest_def stateHonest_def)
  with members_whole show ?thesis by (simp add: filteredTruth_members)
next
  case (chain room ids out)
  with coverChain_exact [of d room ids] assms(1) show ?thesis by (auto simp: soundDb_def intro!: bexI [of _ "(room, ids)"])
next
  case (acl room eid body)
  with current_aclTruth [OF _ acl(2)] assms(1) show ?thesis by (simp add: soundDb_def)
qed

section \<open>The invariant of overlapping requests\<close>

lemma worldInv_look:
  assumes "worldInv parse sha A w" shows "worldInv parse sha A (withResolver (lookStep k (resolverOf w)) w)"
proof -
  let ?r = "lookStep k (resolverOf w)"
  have "runInv (wrun (withResolver ?r w))"
    using assms look_calm [of _ "resolverOf w" k] by (simp add: worldInv_def runInv_def withResolver_def resolverOf_def)
  moreover have "aclHonest (wdb w) (acls ?r)"
    using assms contents_Get [of "wacl w"] lru_inv_Get [of "wacl w"] by (cases k) (simp_all add: worldInv_def aclHonest_def resolverOf_def)
  ultimately show ?thesis using assms look_honest by (auto simp: worldInv_def honestNow_def)
qed

lemma worldInv_fill:
  assumes "worldInv parse sha A w" and "\<not> lateFill parse sha A w f"
  shows "worldInv parse sha A (withResolver (fillStep f (resolverOf w)) w)"
proof -
  let ?r = "fillStep f (resolverOf w)"
  have "runInv (wrun (withResolver ?r w))"
    using assms(1) fill_calm [of _ "resolverOf w" f] by (simp add: worldInv_def runInv_def withResolver_def resolverOf_def)
  moreover have "aclHonest (wdb w) (acls ?r)"
    by (rule fill_acl) (use assms in \<open>auto simp: worldInv_def lateFill_def resolverOf_def\<close>)
  moreover have "honestNow sha A (withResolver ?r w) \<or> list_ex (flushing parse) (wqueue w) \<or> \<not> wlink w" if "honestNow sha A w"
    using that assms(2) fill_honest [of "wdb w" sha A "resolverOf w" f] by (auto simp: honestNow_def lateFill_def)
  ultimately show ?thesis using assms(1) by (auto simp: worldInv_def)
qed

lemma worldInv_raced:
  assumes "raced parse sha A n w fs" and "separates sha A" "askable A"
  shows "n = 0 \<longrightarrow> worldInv parse sha A w"
  using assms(1)
proof induction
  case (begins w)
  then show ?case by (simp add: worldInv_start)
next
  case (whole n w fs w')
  then show ?case using worldInv_step [OF _ _ assms(2,3)] by blast
qed (simp_all add: worldInv_look worldInv_fill)

section \<open>Properties\<close>


subsection \<open>A late fill\<close>

text \<open>The room's history is for members only and the asking server was not one when the message was sent;
  Synapse then purges the message, with its state group.\<close>

definition purgedDb :: database where
  "purgedDb = (visDb ''leave'')\<lparr>t_events := tl (t_events (visDb ''leave'')), t_event_json := tl (t_event_json (visDb ''leave'')), t_event_groups := []\<rparr>"

definition listening :: world where
  "listening = \<lparr>wdb = visDb ''leave'', wrun = startRun heldSubscriber, wacl = acls freshResolver, wqueue = [], wlink = False\<rparr>"

definition subscribed :: world where
  "subscribed = listening\<lparr>wrun := runStep rowText (Notice (Subscription ''subscribe'')) (wrun listening), wlink := True\<rparr>"

definition purged :: world where
  "purged = subscribed\<lparr>wdb := purgedDb, wrun := runStep rowText (Notice (RedisMessage purgeText)) (wrun subscribed), wqueue := []\<rparr>"

definition msgEvent :: Event where
  "msgEvent = the (eventTruth (visDb ''leave'') ''$msg'')"

definition hiddenFill :: fill where
  "hiddenFill = FillEvent (msgEvent)"

definition staleWorld :: world where
  "staleWorld = withResolver (fillStep hiddenFill (resolverOf purged)) purged"


lemma purged_sound: "soundDb (visDb ''leave'')" "soundDb purgedDb"
  using visDb_ok [of "''leave''"]
  by (simp_all add: soundDb_def index_valid_def links_pos_def purgedDb_def visDb_def sampleDb_def db_keys_def noFaults_def edges_ok_def visRow_def visJson_def)

lemma fresh_acl: "aclHonest d (acls freshResolver)"
  using freshResolver_honest [of "\<lambda>_. True"] by (simp add: resolverHonest_def)


abbreviation rearmed :: "('k, 'v) LRU \<Rightarrow> ('k, 'v) LRU" where
  "rearmed c \<equiv> Purge (SetArmed True (SetArmed False (SetArmed False c)))"

lemma purged_caches:
  "events (caches (sub (wrun purged))) = rearmed (events heldStore)" "eventStateGroup (caches (sub (wrun purged))) = rearmed (eventStateGroup heldStore)"
proof -
  have "phase (wrun listening) = Listening" "caches (sub (wrun listening)) = SetCachesArmed False heldStore"
    by (simp_all add: listening_def startRun_def disarm_def countFlush_def heldSubscriber_def)
  then have s: "phase (wrun subscribed) = Listening"
    "caches (sub (wrun subscribed)) = SetCachesArmed True (SetCachesArmed False (SetCachesArmed False heldStore))"
    by (simp_all add: subscribed_def runStep_def session_def arm_def countFlush_def)
  then show "events (caches (sub (wrun purged))) = rearmed (events heldStore)"
    "eventStateGroup (caches (sub (wrun purged))) = rearmed (eventStateGroup heldStore)"
    by (simp_all add: purged_def runStep_def session_def deletionRow_purges [OF purgeText_deletion] PurgeCaches_def SetCachesArmed_def)
qed

lemma stale_caches:
  "fst (Get ''$msg'' (events (rstore (resolverOf staleWorld)))) = Some msgEvent" "Enabled (events (rstore (resolverOf staleWorld)))"
  "fst (Get ''$msg'' (eventStateGroup (rstore (resolverOf staleWorld)))) = None" "armed (events (rstore (resolverOf staleWorld)))"
proof -
  have e: "events (rstore (resolverOf staleWorld)) = Add ''$msg'' msgEvent (rearmed (events freshStore))"
    and g: "eventStateGroup (rstore (resolverOf staleWorld)) = rearmed (eventStateGroup heldStore)"
    by (simp_all add: staleWorld_def hiddenFill_def resolverOf_def withResolver_def purged_caches msgEvent_def visDb_event heldStore_def)
  show "fst (Get ''$msg'' (events (rstore (resolverOf staleWorld)))) = Some msgEvent" unfolding e by code_simp
  show "Enabled (events (rstore (resolverOf staleWorld)))" unfolding e by code_simp
  show "armed (events (rstore (resolverOf staleWorld)))" unfolding e by code_simp
  show "fst (Get ''$msg'' (eventStateGroup (rstore (resolverOf staleWorld)))) = None" unfolding g by code_simp
qed

lemma purged_reads:
  "IsPartialStateRoom purgedDb (RoomID msgEvent) = Inr False" "IsHostInRoom purgedDb (RoomID msgEvent) ''srv'' = Inr True"
  "getRedactions purgedDb [''$msg''] = Inr []" "AreUsersErased purgedDb [''@u:a''] = Inr []"
  "queryRow purgedDb ''get state group for event'' (filter (\<lambda>(e, _). e = ''$msg'') (t_event_groups purgedDb)) = Inr None"
  by code_simp+

lemma purged_bans: "getBanRedactions purgedDb rooms users = Inr []"
  by (simp add: getBanRedactions_def purgedDb_def visDb_def sampleDb_def bansQuery_def queryRows_def deliver_def gofold_def)

lemma msgEvent_is:
  "Outlier msgEvent = False" "EventID msgEvent = ''$msg''" "IsRedacted msgEvent = False" "senderOf (EJSON msgEvent) = Inr ''@u:a''"
  "applyPDUJSONRules refLib (EJSON msgEvent) 9 = Inr (visMsg [(''body'', JStr ''secret'')])"
  "eventVisibleToServer ''@u:a'' ''srv'' HistoryVisibilityShared [] False []"
proof -
  let ?b = "ej_json (visJson ''$msg'' [(''body'', JStr ''secret'')])"
  have "unmarshalMap ''unsigned'' ?b = Some []" by code_simp
  then show "applyPDUJSONRules refLib (EJSON msgEvent) 9 = Inr (visMsg [(''body'', JStr ''secret'')])"
    by (simp add: msgEvent_def visDb_event applyPDUJSONRules_def applyPDUJSONRulesAt_def keepFields_def persistedUnsignedFields_def
        ageOf_def marshalMap_def refLib_def refSetRaw_def) (simp add: visJson_def)
  have "senderOf ?b = Inr ''@u:a''" by code_simp
  then show "senderOf (EJSON msgEvent) = Inr ''@u:a''" by (simp add: msgEvent_def visDb_event)
  show "eventVisibleToServer ''@u:a'' ''srv'' HistoryVisibilityShared [] False []" by code_simp
qed (simp_all add: msgEvent_def visDb_event IsRedacted_def)

lemma GetEvent_hit:
  assumes "Get eid (events s) = (Some ev, c)" and "Enabled (events s)" and "getRedactions d [eid] = Inr []"
    and "\<And>rooms users. getBanRedactions d rooms users = Inr []"
  shows "GetEvent d eid s = (Inr ev, traceN ''events'' 1 1 (s\<lparr>events := c\<rparr>))"
proof -
  have g: "gset eid ev [] = [(eid, ev)]" by (simp add: gset_def)
  let ?s = "traceN ''events'' 1 1 (s\<lparr>events := c\<rparr>)"
  have raw: "getEventsRaw d [eid] s = (Inr [(eid, ev)], ?s)" using assms(1,2) by (simp add: getEventsRaw_def getEventsRawOpt_def g)
  have "applyRedactions d [(eid, ev)] t = (Inr [(eid, ev)], t)" for t
    using assms(3,4) by (simp add: applyRedactions_def bnd_def lift_def redactOne_def banFor_def Let_def ret_def split: option.split)
  with raw show ?thesis by (simp add: GetEvent_def GetEvents_def bnd_def ret_def)
qed

lemma stale_answer:
  "fst (resolveEvent refLib purgedDb 9 ''srv'' ''me'' ''$msg'' (resolverOf staleWorld)) =
     Inr \<lparr>Origin = ''me'', OriginServerTS = 9, PDUs = [visMsg [(''body'', JStr ''secret'')]]\<rparr>"
proof -
  obtain c where c: "Get ''$msg'' (events (rstore (resolverOf staleWorld))) = (Some msgEvent, c)" using stale_caches(1) by (metis prod.collapse)
  obtain c2 where c2: "Get ''$msg'' (eventStateGroup (rstore (resolverOf staleWorld))) = (None, c2)" using stale_caches(3) by (metis prod.collapse)
  show ?thesis using c2
    by (simp add: resolveEvent_def bnd_def attempt_def GetEvent_hit [OF c stale_caches(2) purged_reads(3) purged_bans] purged_reads msgEvent_is asks_def pdu_def
        eventVisible_def eventVisibleInRoom_def visibilityAt_def GetStateGroupForEvent_def traceN_def trace1_def Let_def)
qed

lemma purged_gone: "eventTruth purgedDb ''$msg'' = None"
  by (simp add: eventTruth_def eventQuery_def purgedDb_def visDb_def visRow_def)

lemma hidden_read: "reads sha A (visDb ''leave'') r hiddenFill"
proof -
  have "eventTruth (visDb ''leave'') ''$msg'' = Some msgEvent" by (simp add: msgEvent_def visDb_event)
  then obtain row where "row \<in> set (eventQuery (visDb ''leave'') [''$msg''])" "msgEvent = mkEvent row"
    unfolding eventTruth_def by (auto dest: find_SomeD)
  with visDb_ok(2) [of "''leave''"] reads.event [of row "visDb ''leave''" "[''$msg'']"] show ?thesis
    by (simp add: hiddenFill_def deliver_def noFaults_def)
qed

lemma subscribed_run: "raced rowText (\<lambda>x. x) {} 0 subscribed [hiddenFill]"
proof -
  let ?R = "raced rowText (\<lambda>x. x) {}"
  have "started listening"
    using fresh_acl purged_sound heldStore_calm by (auto simp: started_def listening_def heldSubscriber_def intro!: exI [of _ heldSubscriber])
  then have "?R 0 listening []" by (rule raced.begins)
  then have "?R 0 (listening\<lparr>wlink := True, wqueue := wqueue listening @ [Subscription ''subscribe'']\<rparr>) []"
    by (rule raced.whole) (rule happens.resubscribed, simp add: listening_def startRun_def)
  from raced.whole [OF this happens.delivered] have "?R 0 subscribed []" by (simp add: subscribed_def listening_def)
  moreover have "reads (\<lambda>x. x) {} (wdb subscribed) (resolverOf subscribed) hiddenFill"
    using hidden_read by (simp add: subscribed_def listening_def)
  ultimately show ?thesis using raced.read by fastforce
qed

lemma subscribed_sel [simp]:
  "wlink subscribed" "wqueue subscribed = []" "wacl subscribed = acls freshResolver" "wdb subscribed = visDb ''leave''"
  by (simp_all add: subscribed_def listening_def)

lemma stale_run: "raced rowText (\<lambda>x. x) {} 1 staleWorld []"
proof -
  let ?R = "raced rowText (\<lambda>x. x) {}" and ?w = "subscribed\<lparr>wdb := purgedDb, wqueue := [RedisMessage purgeText]\<rparr>"
  from raced.whole [OF subscribed_run happens.deletion [OF purged_sound(2) _ purgeText_deletion]] have "?R 0 ?w [hiddenFill]"
    by (simp add: fresh_acl)
  from raced.whole [OF this happens.delivered] have "?R 0 purged [hiddenFill]" by (simp add: purged_def)
  moreover have "lateFill rowText (\<lambda>x. x) {} purged hiddenFill"
    using purged_gone by (simp add: lateFill_def hiddenFill_def msgEvent_is purged_def)
  ultimately show ?thesis using raced.filled [of rowText "\<lambda>x. x" "{}" 0 purged "[]" hiddenFill "[]"] by (simp add: staleWorld_def)
qed


text \<open>C6. A late fill undoes a purge: there is a run in which a message is read by a load, Synapse purges it
  and says so, the caches are emptied, and then the load stores what it had read.  With the subscription
  alive and nothing outstanding, the database has no such event, a message whose content was never for
  the asking server, and \<open>/event\<close> serves it, in full, since the state that hid it is gone as well.\<close>

theorem late_fill_serves_purged_event:
  "\<exists>w. raced rowText (\<lambda>x. x) {} 1 w [] \<and> wlink w \<and> wqueue w = [] \<and> CachesArmed (caches (sub (wrun w))) \<and>
     eventAnswer refLib (visDb ''leave'') 9 ''srv'' ''me'' ''$msg'' = Inr \<lparr>Origin = ''me'', OriginServerTS = 9, PDUs = [visMsg []]\<rparr> \<and>
     eventAnswer refLib (wdb w) 9 ''srv'' ''me'' ''$msg'' = Inl ErrEventNotFound \<and>
     fst (resolveEvent refLib (wdb w) 9 ''srv'' ''me'' ''$msg'' (resolverOf w)) =
       Inr \<lparr>Origin = ''me'', OriginServerTS = 9, PDUs = [visMsg [(''body'', JStr ''secret'')]]\<rparr>"
proof -
  have "wdb staleWorld = purgedDb" "wlink staleWorld" "wqueue staleWorld = []"
    by (simp_all add: staleWorld_def purged_def subscribed_def listening_def)
  moreover have "CachesArmed (caches (sub (wrun staleWorld)))" using stale_caches(4) by (simp add: CachesArmed_def resolverOf_def)
  ultimately show ?thesis using stale_run stale_answer purged_gone visDb_answer [of "''leave''"]
    by (intro exI [of _ staleWorld]) (simp add: eventAnswer_def)
qed

end
