(* ===== verification/RateLimit.thy ===== *)
theory RateLimit
  imports Prelude
begin

text \<open>
  The per-origin federation rate limiter: \<open>internal/ratelimit/config.go\<close> (settings, defaults,
  validation) and \<open>internal/ratelimit/limiter.go\<close> (admission, sleeping, queueing, hand-over of
  slots, cleanup).  Every region the Go code executes under \<open>hostLimiter.mu\<close> is one function on
  the host's state; the interleavings of the goroutines inside \<open>Acquire\<close> and of the release
  functions are the step relation \<open>lstep\<close>.  Times are nanoseconds; a channel is a number, and
  the channels already closed are part of the state.
\<close>

section \<open>Settings\<close>

record FederationSettings =
  WindowSize :: int
  SleepLimit :: int
  SleepDelay :: int
  RejectLimit :: int
  Concurrent :: int

definition DefaultFederationSettings :: FederationSettings where
  "DefaultFederationSettings =
     \<lparr>WindowSize = 1000, SleepLimit = 10, SleepDelay = 500, RejectLimit = 50, Concurrent = 3\<rparr>"

definition withDefaults :: "FederationSettings \<Rightarrow> FederationSettings" where
  "withDefaults s =
     (let d = DefaultFederationSettings;
          s = (if WindowSize s = 0 then s\<lparr>WindowSize := WindowSize d\<rparr> else s);
          s = (if SleepLimit s = 0 then s\<lparr>SleepLimit := SleepLimit d\<rparr> else s);
          s = (if SleepDelay s = 0 then s\<lparr>SleepDelay := SleepDelay d\<rparr> else s);
          s = (if RejectLimit s = 0 then s\<lparr>RejectLimit := RejectLimit d\<rparr> else s)
      in if Concurrent s = 0 then s\<lparr>Concurrent := Concurrent d\<rparr> else s)"

datatype settingsError = NegativeField string

definition FederationValidate :: "FederationSettings \<Rightarrow> settingsError option" where
  "FederationValidate s =
     (if WindowSize s < 0 then Some (NegativeField ''window_size'')
      else if SleepLimit s < 0 then Some (NegativeField ''sleep_limit'')
      else if SleepDelay s < 0 then Some (NegativeField ''sleep_delay'')
      else if RejectLimit s < 0 then Some (NegativeField ''reject_limit'')
      else if Concurrent s < 0 then Some (NegativeField ''concurrent'')
      else None)"

definition RetryAfterMS :: "FederationSettings \<Rightarrow> int" where
  "RetryAfterMS s =
     (let s = withDefaults s in
      if SleepLimit s = 0 then WindowSize s else WindowSize s div SleepLimit s)"

lemma withDefaults_fields [simp]:
  "WindowSize (withDefaults s) = (if WindowSize s = 0 then 1000 else WindowSize s)"
  "SleepLimit (withDefaults s) = (if SleepLimit s = 0 then 10 else SleepLimit s)"
  "SleepDelay (withDefaults s) = (if SleepDelay s = 0 then 500 else SleepDelay s)"
  "RejectLimit (withDefaults s) = (if RejectLimit s = 0 then 50 else RejectLimit s)"
  "Concurrent (withDefaults s) = (if Concurrent s = 0 then 3 else Concurrent s)"
  by (simp_all add: withDefaults_def DefaultFederationSettings_def Let_def)

lemma FederationValidate_None:
  "FederationValidate s = None \<longleftrightarrow>
     0 \<le> WindowSize s \<and> 0 \<le> SleepLimit s \<and> 0 \<le> SleepDelay s \<and> 0 \<le> RejectLimit s \<and> 0 \<le> Concurrent s"
  by (auto simp: FederationValidate_def)

lemma validated_Concurrent_pos:
  "FederationValidate s = None \<Longrightarrow> 0 < Concurrent (withDefaults s)"
  by (auto simp: FederationValidate_None)

section \<open>The state of one origin\<close>

record hostLimiter =
  requestTimes :: "int list"
  sleeping :: int
  queued :: int
  processing :: int
  waiters :: "nat list"
  lastUsed :: int
  closedChans :: "nat set"
  nextChan :: nat

definition newHost :: "int \<Rightarrow> hostLimiter" where
  "newHost now =
     \<lparr>requestTimes = [], sleeping = 0, queued = 0, processing = 0, waiters = [], lastUsed = now,
      closedChans = {}, nextChan = 0\<rparr>"

definition prune :: "int \<Rightarrow> int \<Rightarrow> hostLimiter \<Rightarrow> hostLimiter" where
  "prune now window h =
     (let cutoff = now - window in h\<lparr>requestTimes := filter (\<lambda>t. cutoff < t) (requestTimes h)\<rparr>)"

definition windowOf :: "FederationSettings \<Rightarrow> int" where
  "windowOf s = WindowSize s * 1000000"

datatype arrival = RejectIt | SleepFirst | GoOn

text \<open>The first locked region of \<open>Acquire\<close>.\<close>

definition arrive :: "FederationSettings \<Rightarrow> int \<Rightarrow> hostLimiter \<Rightarrow> arrival \<times> hostLimiter" where
  "arrive s now h =
     (let h = h\<lparr>lastUsed := now\<rparr>;
          h = prune now (windowOf s) h
      in if sleeping h + queued h > RejectLimit s then (RejectIt, h)
         else let h = h\<lparr>requestTimes := requestTimes h @ [now]\<rparr>;
                  shouldSleep = int (length (requestTimes h)) > SleepLimit s
              in if shouldSleep then (SleepFirst, h\<lparr>sleeping := sleeping h + 1\<rparr>)
                 else (GoOn, h))"

text \<open>The region after \<open>clock.Sleep\<close> returned, with or without an error.\<close>

definition wake :: "hostLimiter \<Rightarrow> hostLimiter" where
  "wake h = h\<lparr>sleeping := sleeping h - 1\<rparr>"

text \<open>The region that takes a free slot or appends a fresh channel to the waiters.\<close>

definition enter :: "FederationSettings \<Rightarrow> hostLimiter \<Rightarrow> nat option \<times> hostLimiter" where
  "enter s h =
     (if processing h < Concurrent s then (None, h\<lparr>processing := processing h + 1\<rparr>)
      else let wait = nextChan h
           in (Some wait, h\<lparr>nextChan := wait + 1, waiters := waiters h @ [wait], queued := queued h + 1\<rparr>))"

definition close :: "nat \<Rightarrow> hostLimiter \<Rightarrow> hostLimiter" where
  "close c h = h\<lparr>closedChans := insert c (closedChans h)\<rparr>"

definition release :: "hostLimiter \<Rightarrow> hostLimiter" where
  "release h =
     (case waiters h of
        next # rest \<Rightarrow> close next (h\<lparr>waiters := rest, queued := queued h - 1\<rparr>)
      | [] \<Rightarrow> h\<lparr>processing := processing h - 1\<rparr>)"

definition abandon :: "nat \<Rightarrow> hostLimiter \<Rightarrow> hostLimiter" where
  "abandon wait h =
     (if wait \<in> set (waiters h)
      then h\<lparr>waiters := remove1 wait (waiters h), queued := queued h - 1\<rparr>
      else if wait \<in> closedChans h
      then (case waiters h of
              next # rest \<Rightarrow> close next (h\<lparr>waiters := rest, queued := queued h - 1\<rparr>)
            | [] \<Rightarrow> h\<lparr>processing := processing h - 1\<rparr>)
      else h)"

section \<open>Goroutines inside Acquire\<close>

text \<open>
  Where a request stands: about to take the lock for the first time, in \<open>clock.Sleep\<close>, past
  it, in the \<open>select\<close> on its channel, running with the slot it holds, or returned.
\<close>

datatype pc = Arriving | Sleeping | Entering | Waiting nat | Running | Released | Rejected | Cancelled

record lstate =
  host :: hostLimiter
  pcs :: "pc list"

definition goto :: "nat \<Rightarrow> pc \<Rightarrow> hostLimiter \<Rightarrow> lstate \<Rightarrow> lstate" where
  "goto i p h w = w\<lparr>host := h, pcs := (pcs w)[i := p]\<rparr>"

definition at :: "lstate \<Rightarrow> nat \<Rightarrow> pc \<Rightarrow> bool" where
  "at w i p \<longleftrightarrow> i < length (pcs w) \<and> pcs w ! i = p"

text \<open>What each atomic step of goroutine \<open>i\<close> does.\<close>

definition doArrive :: "FederationSettings \<Rightarrow> int \<Rightarrow> nat \<Rightarrow> lstate \<Rightarrow> lstate" where
  "doArrive s now i w =
     (case arrive s now (host w) of
        (RejectIt, h) \<Rightarrow> goto i Rejected h w
      | (SleepFirst, h) \<Rightarrow> goto i Sleeping h w
      | (GoOn, h) \<Rightarrow> goto i Entering h w)"

definition doEnter :: "FederationSettings \<Rightarrow> nat \<Rightarrow> lstate \<Rightarrow> lstate" where
  "doEnter s i w =
     (case enter s (host w) of
        (None, h) \<Rightarrow> goto i Running h w
      | (Some c, h) \<Rightarrow> goto i (Waiting c) h w)"

text \<open>
  \<open>sync.Once\<close> in \<open>releaseFunc\<close>: the first call releases, later calls find the request in
  \<^const>\<open>Released\<close> and do nothing (rule \<open>again\<close>).  A cancelled context may win the \<open>select\<close>
  even when the channel is closed already, so rule \<open>cancel\<close> has no condition on the channel.
\<close>

inductive lquiet :: "FederationSettings \<Rightarrow> lstate \<Rightarrow> lstate \<Rightarrow> bool" for s where
  spawn: "lquiet s w (w\<lparr>pcs := pcs w @ [Arriving]\<rparr>)"
| slept: "at w i Sleeping \<Longrightarrow> lquiet s w (goto i Entering (wake (host w)) w)"
| sleepCut: "at w i Sleeping \<Longrightarrow> lquiet s w (goto i Cancelled (wake (host w)) w)"
| enters: "at w i Entering \<Longrightarrow> lquiet s w (doEnter s i w)"
| granted: "at w i (Waiting c) \<Longrightarrow> c \<in> closedChans (host w) \<Longrightarrow> lquiet s w (goto i Running (host w) w)"
| cancel: "at w i (Waiting c) \<Longrightarrow> lquiet s w (goto i Cancelled (abandon c (host w)) w)"
| finish: "at w i Running \<Longrightarrow> lquiet s w (goto i Released (release (host w)) w)"
| again: "at w i Released \<Longrightarrow> lquiet s w w"

inductive lstep :: "FederationSettings \<Rightarrow> lstate \<Rightarrow> lstate \<Rightarrow> bool" for s where
  quiet: "lquiet s w w' \<Longrightarrow> lstep s w w'"
| admit: "at w i Arriving \<Longrightarrow> lstep s w (doArrive s now i w)"

inductive reachable :: "FederationSettings \<Rightarrow> lstate \<Rightarrow> bool" for s where
  init: "reachable s \<lparr>host = newHost now, pcs = []\<rparr>"
| step: "reachable s w \<Longrightarrow> lstep s w w' \<Longrightarrow> reachable s w'"

section \<open>Invariant\<close>

text \<open>A goroutine holds a slot when it runs or when its channel has been closed for it.\<close>

definition holds :: "nat set \<Rightarrow> pc \<Rightarrow> bool" where
  "holds C p \<longleftrightarrow> p = Running \<or> (\<exists>c \<in> C. p = Waiting c)"

definition holders :: "lstate \<Rightarrow> nat set" where
  "holders w = {i. i < length (pcs w) \<and> holds (closedChans (host w)) (pcs w ! i)}"

definition sleepers :: "lstate \<Rightarrow> nat set" where
  "sleepers w = {i. i < length (pcs w) \<and> pcs w ! i = Sleeping}"

definition chan_inv :: "lstate \<Rightarrow> bool" where
  "chan_inv w \<longleftrightarrow>
     (\<forall>i j c. at w i (Waiting c) \<longrightarrow> at w j (Waiting c) \<longrightarrow> i = j) \<and>
     (\<forall>c \<in> set (waiters (host w)). \<exists>i. at w i (Waiting c)) \<and>
     (\<forall>i c. at w i (Waiting c) \<longrightarrow> c \<in> set (waiters (host w)) \<or> c \<in> closedChans (host w))"

definition fifo_inv :: "hostLimiter \<Rightarrow> bool" where
  "fifo_inv h \<longleftrightarrow>
     sorted (waiters h) \<and> distinct (waiters h) \<and>
     (\<forall>d \<in> closedChans h. \<forall>c \<in> set (waiters h). d < c) \<and>
     (\<forall>c \<in> set (waiters h) \<union> closedChans h. c < nextChan h)"

definition count_inv :: "FederationSettings \<Rightarrow> lstate \<Rightarrow> bool" where
  "count_inv s w \<longleftrightarrow>
     queued (host w) = int (length (waiters (host w))) \<and>
     sleeping (host w) = int (card (sleepers w)) \<and>
     processing (host w) = int (card (holders w)) \<and>
     processing (host w) \<le> Concurrent s \<and>
     (waiters (host w) \<noteq> [] \<longrightarrow> processing (host w) = Concurrent s)"

definition linv :: "FederationSettings \<Rightarrow> lstate \<Rightarrow> bool" where
  "linv s w \<longleftrightarrow> chan_inv w \<and> fifo_inv (host w) \<and> count_inv s w"

lemma goto_sel [simp]:
  "host (goto i p h w) = h" "pcs (goto i p h w) = (pcs w)[i := p]"
  by (simp_all add: goto_def)

lemma at_goto:
  "at (goto i p h w) j q \<longleftrightarrow> (if j = i then i < length (pcs w) \<and> p = q else at w j q)"
  by (auto simp: at_def)

lemma finite_holders [simp]: "finite (holders w)"
  by (simp add: holders_def)

lemma finite_sleepers [simp]: "finite (sleepers w)"
  by (simp add: sleepers_def)

lemma holders_goto:
  assumes "i < length (pcs w)" and "closedChans h = closedChans (host w)"
  shows "holders (goto i p h w) =
    (if holds (closedChans h) p then insert i (holders w) else holders w - {i})"
proof (rule set_eqI)
  fix j show "j \<in> holders (goto i p h w) \<longleftrightarrow>
      j \<in> (if holds (closedChans h) p then insert i (holders w) else holders w - {i})"
    using assms by (cases "j = i") (simp_all add: holders_def)
qed

lemma sleepers_goto:
  assumes "i < length (pcs w)"
  shows "sleepers (goto i p h w) =
    (if p = Sleeping then insert i (sleepers w) else sleepers w - {i})"
  using assms by (auto simp: sleepers_def nth_list_update split: if_splits)

lemma holders_handover:
  assumes "i < length (pcs w)" and "closedChans h = insert c (closedChans (host w))"
    and j: "at w j (Waiting c)" and uniq: "\<And>j'. at w j' (Waiting c) \<Longrightarrow> j' = j" and "j \<noteq> i"
    and "\<not> holds (closedChans h) p"
  shows "holders (goto i p h w) = insert j (holders w - {i})"
proof (rule set_eqI)
  fix k
  have "k < length (pcs w) \<and> pcs w ! k = Waiting c \<longleftrightarrow> k = j"
    using j uniq [of k] by (auto simp: at_def)
  then show "k \<in> holders (goto i p h w) \<longleftrightarrow> k \<in> insert j (holders w - {i})"
    using assms(1,2,5,6) by (cases "k = i") (auto simp: holders_def holds_def)
qed

lemmas holds_simps [simp] = holds_def

lemma at_holders:
  "at w i p \<Longrightarrow> i \<in> holders w \<longleftrightarrow> holds (closedChans (host w)) p"
  by (auto simp: at_def holders_def)

lemma at_sleepers: "at w i p \<Longrightarrow> i \<in> sleepers w \<longleftrightarrow> p = Sleeping"
  by (auto simp: at_def sleepers_def)

lemma at_len: "at w i p \<Longrightarrow> i < length (pcs w)"
  by (simp add: at_def)

lemma int_card_remove: "finite A \<Longrightarrow> x \<in> A \<Longrightarrow> int (card (A - {x})) = int (card A) - 1"
  by (metis card_Suc_Diff1 add_diff_cancel_left' int_Suc add.commute)

lemma linv_gotoI:
  assumes "chan_inv (goto i p h w)" and "fifo_inv h"
    and "holders (goto i p h w) = H" and "sleepers (goto i p h w) = S"
    and "queued h = int (length (waiters h))" and "sleeping h = int (card S)"
    and "processing h = int (card H)" and "processing h \<le> Concurrent s"
    and "waiters h \<noteq> [] \<Longrightarrow> processing h = Concurrent s"
  shows "linv s (goto i p h w)"
  using assms by (simp add: linv_def count_inv_def)

lemma linvD:
  assumes "linv s w"
  shows "chan_inv w" "fifo_inv (host w)" "queued (host w) = int (length (waiters (host w)))"
    "sleeping (host w) = int (card (sleepers w))" "processing (host w) = int (card (holders w))"
    "processing (host w) \<le> Concurrent s"
    "waiters (host w) \<noteq> [] \<Longrightarrow> processing (host w) = Concurrent s"
  using assms by (simp_all add: linv_def count_inv_def)

subsection \<open>Preservation, one lemma per kind of step\<close>

lemma linv_spawn:
  assumes "linv s w"
  shows "linv s (w\<lparr>pcs := pcs w @ [Arriving]\<rparr>)"
proof -
  have at': "at (w\<lparr>pcs := pcs w @ [Arriving]\<rparr>) i p \<longleftrightarrow> at w i p \<or> i = length (pcs w) \<and> p = Arriving" for i p
    by (auto simp: at_def nth_append)
  have "holders (w\<lparr>pcs := pcs w @ [Arriving]\<rparr>) = holders w"
    and "sleepers (w\<lparr>pcs := pcs w @ [Arriving]\<rparr>) = sleepers w"
    by (auto simp: holders_def sleepers_def nth_append split: if_splits)
  with assms show ?thesis
    by (auto simp: linv_def chan_inv_def count_inv_def at')
qed

text \<open>Leaving a program point for one that waits on no channel.\<close>

lemma chan_inv_leave:
  assumes inv: "chan_inv w" and i: "at w i q" and p: "\<And>c. p \<noteq> Waiting c"
    and gone: "\<And>c. q = Waiting c \<Longrightarrow> c \<notin> set (waiters h)"
    and sub: "set (waiters h) \<subseteq> set (waiters (host w))"
    and cov: "\<And>c. c \<in> set (waiters (host w)) \<Longrightarrow> q \<noteq> Waiting c \<Longrightarrow> c \<in> set (waiters h) \<union> closedChans h"
    and cl: "closedChans (host w) \<subseteq> closedChans h"
  shows "chan_inv (goto i p h w)"
  unfolding chan_inv_def
proof (intro conjI allI ballI impI)
  have same: "at (goto i p h w) j (Waiting c) \<longleftrightarrow> j \<noteq> i \<and> at w j (Waiting c)" for j c
    using p by (simp add: at_goto)
  fix j j' c
  assume "at (goto i p h w) j (Waiting c)" and "at (goto i p h w) j' (Waiting c)"
  then show "j = j'" using inv unfolding same chan_inv_def by blast
next
  fix c assume c: "c \<in> set (waiters (host (goto i p h w)))"
  then have "c \<in> set (waiters (host w))" using sub by auto
  then obtain j where j: "at w j (Waiting c)"
    using inv unfolding chan_inv_def by blast
  with gone c i have "j \<noteq> i" by (auto simp: at_def)
  with j show "\<exists>j. at (goto i p h w) j (Waiting c)" by (auto simp: at_goto)
next
  fix j c assume "at (goto i p h w) j (Waiting c)"
  then have j: "j \<noteq> i" "at w j (Waiting c)" using p by (auto simp: at_goto split: if_splits)
  then have "q \<noteq> Waiting c" using inv i unfolding chan_inv_def by blast
  moreover have "c \<in> set (waiters (host w)) \<or> c \<in> closedChans (host w)"
    using j inv unfolding chan_inv_def by blast
  ultimately show "c \<in> set (waiters (host (goto i p h w))) \<or> c \<in> closedChans (host (goto i p h w))"
    using cov [of c] cl by auto
qed

text \<open>A step between program points that hold no slot and wait on no channel.\<close>

lemma linv_neutral:
  assumes inv: "linv s w" and i: "at w i q"
    and q: "\<not> holds UNIV q" and p: "\<not> holds UNIV p"
    and same: "queued h = queued (host w)" "processing h = processing (host w)"
      "waiters h = waiters (host w)" "closedChans h = closedChans (host w)"
      "nextChan h = nextChan (host w)"
    and sl: "sleeping h = sleeping (host w) - (if q = Sleeping then 1 else 0) + (if p = Sleeping then 1 else 0)"
  shows "linv s (goto i p h w)"
proof -
  have hold: "holders (goto i p h w) = holders w"
    using holders_goto [OF at_len [OF i] same(4), of p] p q at_holders [OF i] by auto
  have chan: "chan_inv (goto i p h w)"
    using inv p q same by (intro chan_inv_leave [OF _ i]) (auto simp: linv_def)
  have "int (card (sleepers (goto i p h w))) = sleeping h"
    using inv sl at_sleepers [OF i] int_card_remove [of "sleepers w" i]
    by (auto simp: sleepers_goto [OF at_len [OF i]] linv_def count_inv_def insert_absorb)
  then show ?thesis
    using inv chan same hold by (auto simp: linv_def fifo_inv_def count_inv_def)
qed

lemma linv_enter_free:
  assumes inv: "linv s w" and i: "at w i Entering" and free: "processing (host w) < Concurrent s"
  shows "linv s (goto i Running ((host w)\<lparr>processing := processing (host w) + 1\<rparr>) w)"
proof -
  let ?h = "(host w)\<lparr>processing := processing (host w) + 1\<rparr>"
  have hold: "holders (goto i Running ?h w) = insert i (holders w)"
    using holders_goto [OF at_len [OF i], of ?h Running] by simp
  have sleep: "sleepers (goto i Running ?h w) = sleepers w"
    using sleepers_goto [OF at_len [OF i], of Running ?h] at_sleepers [OF i] by auto
  have "i \<notin> holders w" using at_holders [OF i] by simp
  moreover have "chan_inv (goto i Running ?h w)"
    using inv by (intro chan_inv_leave [OF _ i]) (auto simp: linv_def)
  ultimately show ?thesis
    using linvD [OF inv] free
    by (intro linv_gotoI [OF _ _ hold sleep]) (auto simp: fifo_inv_def)
qed

lemma linv_enter_wait:
  assumes inv: "linv s w" and i: "at w i Entering" and full: "\<not> processing (host w) < Concurrent s"
  shows "linv s (goto i (Waiting (nextChan (host w)))
    ((host w)\<lparr>nextChan := nextChan (host w) + 1, waiters := waiters (host w) @ [nextChan (host w)],
       queued := queued (host w) + 1\<rparr>) w)"
  (is "linv s (goto i (Waiting ?c) ?h w)")
proof -
  have fresh: "\<And>d. d \<in> set (waiters (host w)) \<Longrightarrow> d < ?c" "\<And>d. d \<in> closedChans (host w) \<Longrightarrow> d < ?c"
    using inv by (auto simp: linv_def fifo_inv_def)
  then have new: "\<not> at w j (Waiting ?c)" for j
    using inv unfolding linv_def chan_inv_def by blast
  have hold: "holders (goto i (Waiting ?c) ?h w) = holders w"
    using holders_goto [OF at_len [OF i], of ?h "Waiting ?c"] at_holders [OF i] fresh(2) by auto
  have sleep: "sleepers (goto i (Waiting ?c) ?h w) = sleepers w"
    using sleepers_goto [OF at_len [OF i], of "Waiting ?c" ?h] at_sleepers [OF i] by auto
  have chan: "chan_inv (goto i (Waiting ?c) ?h w)"
    unfolding chan_inv_def
  proof (intro conjI allI ballI impI)
    fix j j' c
    assume "at (goto i (Waiting ?c) ?h w) j (Waiting c)" and "at (goto i (Waiting ?c) ?h w) j' (Waiting c)"
    then show "j = j'"
      using inv new by (auto simp: at_goto linv_def chan_inv_def split: if_splits)
  next
    fix c assume "c \<in> set (waiters (host (goto i (Waiting ?c) ?h w)))"
    then consider "c = ?c" | j where "at w j (Waiting c)"
      using inv by (auto simp: linv_def chan_inv_def)
    then show "\<exists>j. at (goto i (Waiting ?c) ?h w) j (Waiting c)"
    proof cases
      case 1
      with at_len [OF i] show ?thesis by (auto simp: at_goto intro: exI [of _ i])
    next
      case 2
      then have "j \<noteq> i" using i by (auto simp: at_def)
      with 2 show ?thesis by (auto simp: at_goto intro: exI [of _ j])
    qed
  next
    fix j c assume "at (goto i (Waiting ?c) ?h w) j (Waiting c)"
    then show "c \<in> set (waiters (host (goto i (Waiting ?c) ?h w))) \<or> c \<in> closedChans (host (goto i (Waiting ?c) ?h w))"
      using inv by (auto simp: at_goto linv_def chan_inv_def split: if_splits)
  qed
  have "fifo_inv ?h"
    using inv fresh by (auto simp: linv_def fifo_inv_def sorted_append less_imp_le less_SucI)
  with chan show ?thesis
    by (rule linv_gotoI [OF _ _ hold sleep]) (use linvD [OF inv] full in simp_all)
qed

lemma linv_granted:
  assumes inv: "linv s w" and i: "at w i (Waiting c)" and c: "c \<in> closedChans (host w)"
  shows "linv s (goto i Running (host w) w)"
proof -
  have hold: "holders (goto i Running (host w) w) = holders w"
    using holders_goto [OF at_len [OF i], of "host w" Running] at_holders [OF i] c by auto
  have sleep: "sleepers (goto i Running (host w) w) = sleepers w"
    using sleepers_goto [OF at_len [OF i], of Running "host w"] at_sleepers [OF i] by auto
  have "c \<notin> set (waiters (host w))"
    using inv c by (auto simp: linv_def fifo_inv_def)
  then have "chan_inv (goto i Running (host w) w)"
    using inv by (intro chan_inv_leave [OF _ i]) (auto simp: linv_def)
  with inv show ?thesis
    by (auto simp: linv_def count_inv_def hold sleep)
qed

lemma linv_cancel_queued:
  assumes inv: "linv s w" and i: "at w i (Waiting c)" and c: "c \<in> set (waiters (host w))"
  shows "linv s (goto i Cancelled
    ((host w)\<lparr>waiters := remove1 c (waiters (host w)), queued := queued (host w) - 1\<rparr>) w)"
  (is "linv s (goto i Cancelled ?h w)")
proof -
  have d: "distinct (waiters (host w))" and nc: "c \<notin> closedChans (host w)"
    using inv c by (auto simp: linv_def fifo_inv_def)
  have hold: "holders (goto i Cancelled ?h w) = holders w"
    using holders_goto [OF at_len [OF i], of ?h Cancelled] at_holders [OF i] nc by auto
  have sleep: "sleepers (goto i Cancelled ?h w) = sleepers w"
    using sleepers_goto [OF at_len [OF i], of Cancelled ?h] at_sleepers [OF i] by auto
  have "chan_inv (goto i Cancelled ?h w)"
    using inv d by (intro chan_inv_leave [OF _ i]) (auto simp: linv_def)
  moreover have "fifo_inv ?h"
    using inv d by (auto simp: linv_def fifo_inv_def sorted_remove1)
  moreover have "int (length (remove1 c (waiters (host w)))) = int (length (waiters (host w))) - 1"
    using length_pos_if_in_set [OF c] c by (simp add: length_remove1 of_nat_diff Suc_le_eq)
  moreover have "processing (host w) = Concurrent s"
    using linvD(7) [OF inv] c by (cases "waiters (host w)") auto
  ultimately show ?thesis
    by (intro linv_gotoI [OF _ _ hold sleep]) (use linvD [OF inv] in simp_all)
qed

text \<open>
  A holder gives its slot up, by its release function or because its cancelled \<open>select\<close> lost
  the race with the hand-over.
\<close>

lemma linv_release:
  assumes inv: "linv s w" and i: "at w i q" and q: "holds (closedChans (host w)) q"
    and p: "\<not> holds UNIV p" "p \<noteq> Sleeping"
  shows "linv s (goto i p (release (host w)) w)"
proof (cases "waiters (host w)")
  case Nil
  let ?h = "(host w)\<lparr>processing := processing (host w) - 1\<rparr>"
  have "i \<in> holders w" using at_holders [OF i] q by simp
  moreover have hold: "holders (goto i p ?h w) = holders w - {i}"
    using holders_goto [OF at_len [OF i], of ?h p] p by auto
  moreover have sleep: "sleepers (goto i p ?h w) = sleepers w"
    using sleepers_goto [OF at_len [OF i], of p ?h] at_sleepers [OF i] q p by auto
  moreover have "chan_inv (goto i p ?h w)"
    using inv p Nil by (intro chan_inv_leave [OF _ i]) (auto simp: linv_def)
  ultimately show ?thesis
    using linvD [OF inv] Nil int_card_remove [of "holders w" i]
    by (auto simp: release_def fifo_inv_def intro!: linv_gotoI)
next
  case (Cons c rest)
  let ?h = "close c ((host w)\<lparr>waiters := rest, queued := queued (host w) - 1\<rparr>)"
  obtain j where j: "at w j (Waiting c)"
    using inv Cons by (auto simp: linv_def chan_inv_def)
  have uniq: "j' = j" if "at w j' (Waiting c)" for j'
    using inv j that unfolding linv_def chan_inv_def by blast
  have d: "c \<notin> set rest" "c \<notin> closedChans (host w)"
    using inv Cons by (auto simp: linv_def fifo_inv_def)
  have "q \<noteq> Waiting c" using q d by auto
  then have ji: "j \<noteq> i" using j i by (auto simp: at_def)
  have np: "\<not> holds (closedChans ?h) p" using p by auto
  have hold: "holders (goto i p ?h w) = insert j (holders w - {i})"
    by (rule holders_handover [OF at_len [OF i] _ j uniq ji np]) (simp_all add: close_def)
  have "j \<notin> holders w" "i \<in> holders w" using at_holders [OF j] at_holders [OF i] d q by auto
  then have card: "card (insert j (holders w - {i})) = card (holders w)"
    using card_Suc_Diff1 [OF finite_holders] by simp
  have sleep: "sleepers (goto i p ?h w) = sleepers w"
    using sleepers_goto [OF at_len [OF i], of p ?h] at_sleepers [OF i] q p by auto
  have "chan_inv (goto i p ?h w)"
  proof (rule chan_inv_leave [OF _ i])
    show "\<And>d. q = Waiting d \<Longrightarrow> d \<notin> set (waiters ?h)"
      using q inv Cons by (auto simp: linv_def close_def fifo_inv_def)
  qed (use inv p Cons in \<open>auto simp: linv_def close_def\<close>)
  moreover have "fifo_inv ?h"
    using inv Cons by (auto simp: linv_def fifo_inv_def close_def order_le_less)
  ultimately have "linv s (goto i p ?h w)"
    by (rule linv_gotoI [OF _ _ hold sleep]) (use linvD [OF inv] Cons in \<open>auto simp: card close_def\<close>)
  then show ?thesis by (simp add: release_def Cons)
qed

lemma abandon_release:
  "abandon c h =
     (if c \<in> set (waiters h) then h\<lparr>waiters := remove1 c (waiters h), queued := queued h - 1\<rparr>
      else if c \<in> closedChans h then release h else h)"
  by (simp add: abandon_def release_def)

lemma linv_arrive:
  assumes "linv s w" and "at w i Arriving"
  shows "linv s (doArrive s now i w)"
  using assms unfolding doArrive_def arrive_def prune_def Let_def
  by (auto intro!: linv_neutral [OF assms])

lemma linv_quiet:
  assumes "lquiet s w w'" and "linv s w"
  shows "linv s w'"
  using assms
proof cases
  case spawn
  with assms show ?thesis by (simp add: linv_spawn)
next
  case (slept i)
  with assms show ?thesis by (auto simp: wake_def intro: linv_neutral)
next
  case (sleepCut i)
  with assms show ?thesis by (auto simp: wake_def intro: linv_neutral)
next
  case (enters i)
  with assms linv_enter_free linv_enter_wait show ?thesis
    by (auto simp: doEnter_def enter_def Let_def)
next
  case (granted i c)
  with assms linv_granted show ?thesis by blast
next
  case (cancel i c)
  have "c \<in> set (waiters (host w)) \<or> c \<in> closedChans (host w)"
    using assms(2) cancel unfolding linv_def chan_inv_def by blast
  with cancel assms(2) show ?thesis
    by (auto simp: abandon_release intro: linv_cancel_queued linv_release)
next
  case (finish i)
  with assms(2) show ?thesis by (auto intro: linv_release)
qed (use assms in simp)

lemma linv_step: "lstep s w w' \<Longrightarrow> linv s w \<Longrightarrow> linv s w'"
  by (auto elim!: lstep.cases intro: linv_quiet linv_arrive)

lemma linv_init: "0 \<le> Concurrent s \<Longrightarrow> linv s \<lparr>host = newHost now, pcs = []\<rparr>"
  by (simp add: linv_def chan_inv_def fifo_inv_def count_inv_def newHost_def at_def holders_def sleepers_def)

lemma linv_reachable:
  assumes "reachable s w" and "0 \<le> Concurrent s"
  shows "linv s w"
  using assms by (induction rule: reachable.induct) (auto intro: linv_init linv_step)

section \<open>Properties of the limiter\<close>

text \<open>C11. In every state the goroutines of one origin can reach under valid settings, at most
  \<open>Concurrent\<close> requests hold a slot and \<open>processing\<close> counts exactly them; \<open>queued\<close> and
  \<open>sleeping\<close> count exactly the requests in the queue and in the delay; a request waits only
  while every slot is taken, so no slot is ever lost in a hand-over or a cancellation; and slots
  are handed over in arrival order: every channel already served was queued before every
  channel still waiting.\<close>

theorem limiter_slots:
  assumes "FederationValidate s0 = None" and "reachable (withDefaults s0) w"
  shows "processing (host w) = int (card (holders w)) \<and>
    int (card (holders w)) \<le> Concurrent (withDefaults s0) \<and>
    queued (host w) = int (length (waiters (host w))) \<and>
    sleeping (host w) = int (card (sleepers w)) \<and>
    (waiters (host w) \<noteq> [] \<longrightarrow> int (card (holders w)) = Concurrent (withDefaults s0)) \<and>
    (\<forall>i c. at w i (Waiting c) \<longrightarrow> c \<in> set (waiters (host w)) \<or> c \<in> closedChans (host w)) \<and>
    sorted (waiters (host w)) \<and> (\<forall>d \<in> closedChans (host w). \<forall>c \<in> set (waiters (host w)). d < c)"
proof -
  have "linv (withDefaults s0) w"
    using linv_reachable [OF assms(2)] validated_Concurrent_pos [OF assms(1)] by simp
  then show ?thesis
    unfolding linv_def count_inv_def chan_inv_def fifo_inv_def by metis
qed

text \<open>Schedules, to reach concrete states.\<close>

datatype action = Spawn | Admit int nat | Enter nat

fun perform :: "FederationSettings \<Rightarrow> action \<Rightarrow> lstate \<Rightarrow> lstate" where
  "perform s Spawn w = w\<lparr>pcs := pcs w @ [Arriving]\<rparr>"
| "perform s (Admit now i) w = (if at w i Arriving then doArrive s now i w else w)"
| "perform s (Enter i) w = (if at w i Entering then doEnter s i w else w)"

lemma perform_reachable: "reachable s w \<Longrightarrow> reachable s (perform s a w)"
  by (cases a) (auto intro: reachable.step lstep.intros lquiet.intros)

lemma schedule_reachable:
  "reachable s (fold (perform s) as \<lparr>host = newHost now, pcs = []\<rparr>)"
proof (induction as rule: rev_induct)
  case Nil
  then show ?case by (simp add: reachable.init)
qed (simp add: perform_reachable)

definition oneSlot :: FederationSettings where
  "oneSlot = \<lparr>WindowSize = 1000, SleepLimit = 10, SleepDelay = 500, RejectLimit = 50, Concurrent = 1\<rparr>"

definition twoRequests :: lstate where
  "twoRequests =
     fold (perform (withDefaults oneSlot)) [Spawn, Spawn, Admit 5 0, Enter 0, Admit 6 1, Enter 1]
       \<lparr>host = newHost 5, pcs = []\<rparr>"

lemma oneSlot_valid: "FederationValidate oneSlot = None"
  by (simp add: FederationValidate_def oneSlot_def)

lemma twoRequests_reachable: "reachable (withDefaults oneSlot) twoRequests"
  unfolding twoRequests_def by (rule schedule_reachable)

lemma twoRequests_eval: "pcs twoRequests = [Running, Waiting 0]" "waiters (host twoRequests) = [0]"
  by (simp_all add: twoRequests_def oneSlot_def doEnter_def doArrive_def enter_def arrive_def prune_def
      newHost_def Let_def at_def windowOf_def)

theorem limiter_slots_witness:
  "int (card (holders twoRequests)) = 1 \<and> queued (host twoRequests) = 1"
  using limiter_slots [OF oneSlot_valid twoRequests_reachable]
  by (simp add: twoRequests_eval oneSlot_def)

text \<open>A queued request is served: releasing slots eventually closes its channel.\<close>

lemma holder_exists:
  assumes "linv s w" and "waiters (host w) \<noteq> []" and "0 < Concurrent s"
  obtains j where "j \<in> holders w"
proof -
  have "0 < int (card (holders w))"
    using linvD(5,7) [OF assms(1)] assms(2,3) by simp
  then have "holders w \<noteq> {}" by auto
  with that show thesis by blast
qed

lemma holder_finishes:
  assumes "linv s w" and j: "j \<in> holders w"
  shows "\<exists>w'. (lstep s)\<^sup>*\<^sup>* w w' \<and> linv s w' \<and> host w' = release (host w) \<and>
    (\<forall>i p. i \<noteq> j \<longrightarrow> at w' i p = at w i p)"
proof -
  have run: "\<exists>w'. (lstep s)\<^sup>*\<^sup>* w1 w' \<and> linv s w' \<and> host w' = release (host w1) \<and>
      (\<forall>i p. i \<noteq> j \<longrightarrow> at w' i p = at w1 i p)"
    if "linv s w1" and "at w1 j Running" for w1
  proof -
    have "lstep s w1 (goto j Released (release (host w1)) w1)"
      using that(2) by (intro lstep.quiet lquiet.finish)
    with linv_step that(1) show ?thesis
      by (intro exI [of _ "goto j Released (release (host w1)) w1"]) (auto simp: at_goto)
  qed
  from j consider "at w j Running" | c where "at w j (Waiting c)" "c \<in> closedChans (host w)"
    by (auto simp: holders_def at_def)
  then show ?thesis
  proof cases
    case 1
    with run assms(1) show ?thesis by blast
  next
    case 2
    let ?w1 = "goto j Running (host w) w"
    have st: "lstep s w ?w1" using 2 by (intro lstep.quiet lquiet.granted)
    have "at ?w1 j Running" using 2(1) by (simp add: at_goto at_len)
    from run [OF linv_step [OF st assms(1)] this] obtain w' where
      w': "(lstep s)\<^sup>*\<^sup>* ?w1 w'" "linv s w'" "host w' = release (host w)"
        "\<forall>i p. i \<noteq> j \<longrightarrow> at w' i p = at ?w1 i p" by auto
    with st show ?thesis
      by (intro exI [of _ w']) (auto simp: at_goto intro: converse_rtranclp_into_rtranclp)
  qed
qed

lemma queued_is_served:
  assumes "linv s w" and "waiters (host w) = pre @ c # post" and "at w i (Waiting c)" and "0 < Concurrent s"
  shows "\<exists>w'. (lstep s)\<^sup>*\<^sup>* w w' \<and> at w' i Running"
  using assms
proof (induction pre arbitrary: w)
  case Nil
  obtain j where j: "j \<in> holders w" using holder_exists [OF Nil(1)] Nil(2,4) by auto
  have "c \<notin> closedChans (host w)" using Nil(1,2) by (auto simp: linv_def fifo_inv_def)
  then have ij: "i \<noteq> j" using j Nil(3) by (auto simp: at_def holders_def)
  from holder_finishes [OF Nil(1) j] obtain w' where
    w': "(lstep s)\<^sup>*\<^sup>* w w'" "host w' = release (host w)" "at w' i (Waiting c)" using ij Nil(3) by blast
  have "c \<in> closedChans (host w')" using w'(2) Nil(2) by (simp add: release_def close_def)
  with w'(3) have "lstep s w' (goto i Running (host w') w')" by (intro lstep.quiet lquiet.granted)
  with w'(1) have "(lstep s)\<^sup>*\<^sup>* w (goto i Running (host w') w')" by (rule rtranclp.rtrancl_into_rtrancl)
  moreover have "at (goto i Running (host w') w') i Running" using w'(3) by (simp add: at_goto at_len)
  ultimately show ?case by blast
next
  case (Cons d pre)
  obtain j where j: "j \<in> holders w" using holder_exists [OF Cons(2)] Cons(3,5) by auto
  have "c \<notin> closedChans (host w)" using Cons(2,3) by (auto simp: linv_def fifo_inv_def)
  then have ij: "i \<noteq> j" using j Cons(4) by (auto simp: at_def holders_def)
  from holder_finishes [OF Cons(2) j] obtain w' where
    w': "(lstep s)\<^sup>*\<^sup>* w w'" "linv s w'" "host w' = release (host w)" "at w' i (Waiting c)"
    using ij Cons(4) by blast
  have "waiters (host w') = pre @ c # post" using w'(3) Cons(3) by (simp add: release_def close_def)
  from Cons.IH [OF w'(2) this w'(4) Cons(5)] w'(1) show ?case
    by (meson rtranclp_trans)
qed



section \<open>The sliding window\<close>

text \<open>
  Runs with a clock that does not go back and the log of every arrival that was not rejected.
\<close>

inductive timedRun :: "FederationSettings \<Rightarrow> lstate \<Rightarrow> int list \<Rightarrow> int \<Rightarrow> bool" for s where
  start: "timedRun s \<lparr>host = newHost now, pcs = []\<rparr> [] now"
| other: "timedRun s w log t \<Longrightarrow> lquiet s w w' \<Longrightarrow> timedRun s w' log t"
| arrival: "timedRun s w log t \<Longrightarrow> t \<le> now \<Longrightarrow> at w i Arriving \<Longrightarrow>
    timedRun s (doArrive s now i w) (if fst (arrive s now (host w)) = RejectIt then log else log @ [now]) now"

definition inWindow :: "FederationSettings \<Rightarrow> int \<Rightarrow> int list \<Rightarrow> int list" where
  "inWindow s now log = filter (\<lambda>t. now - windowOf s < t) log"

lemma quiet_requestTimes: "lquiet s w w' \<Longrightarrow> requestTimes (host w') = requestTimes (host w)"
  by (erule lquiet.cases)
    (auto simp: wake_def doEnter_def enter_def release_def abandon_def close_def Let_def split: list.splits)

lemma arrive_requestTimes:
  "requestTimes (snd (arrive s now h)) =
     inWindow s now (requestTimes h) @ (if fst (arrive s now h) = RejectIt then [] else [now])"
  by (simp add: arrive_def prune_def inWindow_def Let_def)

lemma host_doArrive: "host (doArrive s now i w) = snd (arrive s now (host w))"
  by (simp add: doArrive_def split: prod.splits arrival.splits)

lemma inWindow_later:
  "t \<le> now \<Longrightarrow> inWindow s now (inWindow s t log) = inWindow s now log"
  unfolding inWindow_def filter_filter by (rule filter_cong) auto

lemma timedRun_log:
  assumes "timedRun s w log t" and "0 < windowOf s"
  shows "requestTimes (host w) = inWindow s t log"
  using assms
proof (induction rule: timedRun.induct)
  case (arrival w log t now i)
  then show ?case
    by (simp add: host_doArrive arrive_requestTimes inWindow_later inWindow_def [of s now "[now]"])
       (simp add: inWindow_def)
qed (auto simp: newHost_def inWindow_def quiet_requestTimes)

text \<open>The sliding window is exact: whatever other requests do in between, an arrival is
  rejected iff more than \<open>RejectLimit\<close> requests of its origin are asleep or queued, and
  otherwise delayed iff the requests admitted in the last window, itself included, exceed
  \<open>SleepLimit\<close>; a rejected request is not counted.\<close>

theorem arrive_exact_window:
  assumes "FederationValidate s0 = None" and "timedRun (withDefaults s0) w log t" and "t \<le> now"
  shows "fst (arrive (withDefaults s0) now (host w)) =
    (if sleeping (host w) + queued (host w) > RejectLimit (withDefaults s0) then RejectIt
     else if int (length (inWindow (withDefaults s0) now log)) + 1 > SleepLimit (withDefaults s0) then SleepFirst
     else GoOn)"
proof -
  have "0 < windowOf (withDefaults s0)"
    using assms(1) by (auto simp: windowOf_def FederationValidate_None)
  from timedRun_log [OF assms(2) this]
  have "filter (\<lambda>x. now - windowOf (withDefaults s0) < x) (requestTimes (host w)) =
      inWindow (withDefaults s0) now log"
    using inWindow_later [OF assms(3)] by (simp add: inWindow_def)
  then show ?thesis
    by (simp add: arrive_def prune_def Let_def)
qed

theorem arrive_exact_window_witness:
  "fst (arrive (withDefaults oneSlot) 9 (newHost 5)) = GoOn"
  using arrive_exact_window [OF oneSlot_valid timedRun.start [of _ 5], of 9]
  by (simp add: newHost_def inWindow_def oneSlot_def)

section \<open>The limiter: all origins\<close>

text \<open>
  \<open>Limiter.hosts\<close> maps an origin to a pointer; the states are in a heap, because a goroutine
  keeps its pointer after \<open>Cleanup\<close> has dropped the map's.
\<close>

record Limiter =
  settings :: FederationSettings
  hosts :: "(string, nat) gomap"
  heap :: "hostLimiter list"

definition NewWithClock :: "FederationSettings \<Rightarrow> Limiter" where
  "NewWithClock s = \<lparr>settings = withDefaults s, hosts = [], heap = []\<rparr>"

text \<open>\<open>Limiter.hostLimiter\<close>: the pointer for a host, allocated on first use.\<close>

definition hostLimiterOf :: "string \<Rightarrow> int \<Rightarrow> Limiter \<Rightarrow> nat \<times> Limiter" where
  "hostLimiterOf hst now l =
     (case gget (hosts l) hst of
        Some a \<Rightarrow> (a, l)
      | None \<Rightarrow> let a = length (heap l)
                in (a, l\<lparr>hosts := gset hst a (hosts l), heap := heap l @ [newHost now]\<rparr>))"

definition idle :: "int \<Rightarrow> hostLimiter \<Rightarrow> bool" where
  "idle cutoff h \<longleftrightarrow> lastUsed h < cutoff \<and> processing h = 0 \<and> queued h = 0 \<and> sleeping h = 0"

definition Cleanup :: "int \<Rightarrow> int \<Rightarrow> Limiter \<Rightarrow> nat \<times> Limiter" where
  "Cleanup maxIdle now l =
     (let cutoff = now - maxIdle;
          kept = filter (\<lambda>(_, a). \<not> idle cutoff (heap l ! a)) (hosts l)
      in (length (hosts l) - length kept, l\<lparr>hosts := kept\<rparr>))"

definition Hosts :: "Limiter \<Rightarrow> nat" where
  "Hosts l = length (hosts l)"

text \<open>The test at the head of \<open>Acquire\<close> that would switch the limiter off.\<close>

definition acquireDisabled :: "Limiter \<Rightarrow> bool" where
  "acquireDisabled l \<longleftrightarrow>
     RejectLimit (settings l) = 0 \<and> Concurrent (settings l) = 0 \<and> SleepLimit (settings l) = 0"

definition limiter_ok :: "Limiter \<Rightarrow> bool" where
  "limiter_ok l \<longleftrightarrow> gomap (hosts l) \<and> (\<forall>a \<in> snd ` set (hosts l). a < length (heap l)) \<and>
     distinct (map snd (hosts l))"

lemma limiter_ok_new: "limiter_ok (NewWithClock s)"
  by (simp add: limiter_ok_def NewWithClock_def)

lemma gset_fresh: "gget m k = None \<Longrightarrow> gset k v m = m @ [(k, v)]"
  by (simp add: gset_def map_of_eq_None_iff update_nonempty) (induction m; auto)

lemma hostLimiterOf_ok: "limiter_ok l \<Longrightarrow> limiter_ok (snd (hostLimiterOf hst now l))"
  by (fastforce simp: limiter_ok_def hostLimiterOf_def Let_def gset_fresh gomap_def map_of_eq_None_iff
      split: option.splits)

lemma Cleanup_ok: "limiter_ok l \<Longrightarrow> limiter_ok (snd (Cleanup maxIdle now l))"
  by (auto simp: limiter_ok_def Cleanup_def Let_def distinct_map_filter)

text \<open>Cleanup discards exactly the idle origins and no state: an origin with a request
  running, queued or asleep keeps its limiter, every kept origin keeps the same limiter, and the
  reported number is how many origins the map lost.\<close>

theorem Cleanup_exact:
  assumes "limiter_ok l"
  shows "(\<forall>hst. gget (hosts (snd (Cleanup maxIdle now l))) hst =
      (case gget (hosts l) hst of None \<Rightarrow> None
       | Some a \<Rightarrow> if idle (now - maxIdle) (heap l ! a) then None else Some a)) \<and>
    heap (snd (Cleanup maxIdle now l)) = heap l \<and>
    fst (Cleanup maxIdle now l) + Hosts (snd (Cleanup maxIdle now l)) = Hosts l \<and>
    limiter_ok (snd (Cleanup maxIdle now l))"
proof -
  have "map_of (filter (\<lambda>(_, a). P a) m) k = (case map_of m k of None \<Rightarrow> None | Some a \<Rightarrow> if P a then Some a else None)"
    if "distinct (map fst m)" for P and m :: "(string, nat) gomap" and k
    using that by (induction m) (auto simp: map_of_eq_None_iff split: option.splits)
  from this [of "hosts l" "\<lambda>a. \<not> idle (now - maxIdle) (heap l ! a)"] assms Cleanup_ok [OF assms]
  show ?thesis
    by (auto simp: limiter_ok_def gomap_def Cleanup_def Hosts_def Let_def split: option.splits)
qed

definition staleLimiter :: Limiter where
  "staleLimiter = snd (hostLimiterOf ''a'' 0 (NewWithClock DefaultFederationSettings))"

lemma staleLimiter_ok: "limiter_ok staleLimiter"
  by (simp add: staleLimiter_def hostLimiterOf_ok limiter_ok_new)

lemma staleLimiter_eval: "gget (hosts staleLimiter) ''a'' = Some 0" "idle 90 (heap staleLimiter ! 0)"
  by (simp_all add: staleLimiter_def hostLimiterOf_def NewWithClock_def newHost_def idle_def Let_def)

theorem Cleanup_exact_witness:
  "limiter_ok staleLimiter \<and> gget (hosts (snd (Cleanup 10 100 staleLimiter))) ''a'' = None"
  using Cleanup_exact [of staleLimiter 10 100] staleLimiter_ok staleLimiter_eval by simp

text \<open>
  The head of \<open>Acquire\<close> never fires, because the constructor has replaced every zero by its
  default.
\<close>

lemma acquire_never_disabled: "\<not> acquireDisabled (NewWithClock s)"
  by (simp add: acquireDisabled_def NewWithClock_def)

text \<open>
  Between the lookup of the pointer and the first locked region \<open>Cleanup\<close> may drop an origin
  that was idle until then; the next request allocates a second limiter for the same origin.
\<close>

lemma cleanup_race:
  "\<exists>l now. limiter_ok l \<and>
     (let (a, l1) = hostLimiterOf ''a'' now l; (_, l2) = Cleanup 10 now l1; (b, l3) = hostLimiterOf ''a'' now l2
      in a \<noteq> b)"
  by (rule exI [of _ staleLimiter], rule exI [of _ 100])
     (auto simp: staleLimiter_def limiter_ok_def gomap_def Let_def Cleanup_def hostLimiterOf_def
       NewWithClock_def newHost_def idle_def gset_def)

end
