(* ===== verification/Config.thy ===== *)
theory Config
  imports CacheStores RateLimit Replication
begin

text \<open>
  \<open>internal/config\<close>: serving modes and their text form, the configuration and its validation.  YAML
  decoding is a third-party package: \<open>parse\<close> takes it as the function that fills a configuration
  that already holds the defaults.  Error messages are values of a datatype.
\<close>

section \<open>Modes\<close>

record Mode =
  Kind :: string
  CanaryPercent :: int

definition ModeProxy :: string where "ModeProxy = ''proxy''"
definition ModeShadow :: string where "ModeShadow = ''shadow''"
definition ModeCanary :: string where "ModeCanary = ''canary''"
definition ModeNative :: string where "ModeNative = ''native''"

lemmas mode_names = ModeProxy_def ModeShadow_def ModeCanary_def ModeNative_def

datatype modeError =
    TakesNoPercentage string
  | RequiresPercentage string
  | InvalidPercentage string
  | PercentageRange int
  | UnknownMode string

definition parseMode :: "string \<Rightarrow> Mode \<Rightarrow> (modeError, Mode) result" where
  "parseMode raw m =
     (case cut (CHR '':'') raw of (k, pct) \<Rightarrow>
        let kind = trimSpace k in
        if kind \<in> {ModeProxy, ModeShadow, ModeNative} then
          (if pct \<noteq> None then Inl (TakesNoPercentage kind) else Inr (m\<lparr>Kind := kind\<rparr>))
        else if kind = ModeCanary then
          (case pct of
             None \<Rightarrow> Inl (RequiresPercentage kind)
           | Some p \<Rightarrow>
               (case parseInt64 (trimSpace p) of
                  None \<Rightarrow> Inl (InvalidPercentage p)
                | Some n \<Rightarrow>
                    if n < 0 \<or> n > 100 then Inl (PercentageRange n)
                    else Inr (m\<lparr>Kind := kind, CanaryPercent := n\<rparr>)))
        else Inl (UnknownMode raw))"

definition modeString :: "Mode \<Rightarrow> string" where
  "modeString m = (if Kind m = ModeCanary then ''canary:'' @ itoa (CanaryPercent m) else Kind m)"

definition ServesNatively :: "Mode \<Rightarrow> bool" where
  "ServesNatively m \<longleftrightarrow> Kind m = ModeCanary \<or> Kind m = ModeNative"

section \<open>The configuration\<close>

record Auth =
  KeyRefetchMinutes :: int
  AuthTimeoutSeconds :: int
  TrustedKeyServers :: "string list"

record Shadow =
  ShadowConcurrency :: int
  ShadowTimeoutSeconds :: int
  CaptureMB :: int
  VerifyWaitSeconds :: int

record DatabaseCfg =
  DSN :: string
  MaxConns :: int
  ConnectTimeoutSeconds :: int
  CacheCfg :: Settings

record DiffLog =
  Dir :: string
  MaxFileMB :: int
  MaxFiles :: int
  Compress :: "bool option"
  QueueSize :: int
  BodyKB :: int
  ListLimit :: int

record Listen =
  Socket :: string
  Addr :: string
  SocketMode :: string

record Upstream =
  Sockets :: "string list"
  Addrs :: "string list"
  UpstreamTimeoutSeconds :: int
  MaxIdleConns :: int

record Endpoints =
  EventMode :: Mode
  StateMode :: Mode
  StateIDsMode :: Mode
  GetMissingEventsMode :: Mode

record Config =
  ServerName :: string
  ListenCfg :: Listen
  UpstreamCfg :: Upstream
  MetricsAddr :: string
  EndpointsCfg :: Endpoints
  LogLevel :: string
  LogPretty :: bool
  DiffLogCfg :: DiffLog
  DatabaseCfg :: DatabaseCfg
  ShadowCfg :: Shadow
  AuthCfg :: Auth
  NativeTimeoutSeconds :: int
  StreamTimeoutSeconds :: int
  StreamIdleTimeoutSeconds :: int
  ReplicationCfg :: replConfig
  RCFederation :: FederationSettings

definition DatabaseEnabled :: "DatabaseCfg \<Rightarrow> bool" where
  "DatabaseEnabled d \<longleftrightarrow> DSN d \<noteq> ''''"

definition DiffLogEnabled :: "DiffLog \<Rightarrow> bool" where
  "DiffLogEnabled d \<longleftrightarrow> Dir d \<noteq> ''''"

definition CompressRotated :: "DiffLog \<Rightarrow> bool" where
  "CompressRotated d \<longleftrightarrow> (case Compress d of None \<Rightarrow> True | Some b \<Rightarrow> b)"

definition ByName :: "Endpoints \<Rightarrow> (string, Mode) gomap" where
  "ByName e =
     [(''event'', EventMode e), (''state'', StateMode e), (''state_ids'', StateIDsMode e),
      (''get_missing_events'', GetMissingEventsMode e)]"

definition NeedsDatabase :: "Config \<Rightarrow> bool" where
  "NeedsDatabase c \<longleftrightarrow> list_ex (\<lambda>(_, m). Kind m \<noteq> ModeProxy) (ByName (EndpointsCfg c))"

text \<open>\<open>strconv.ParseUint(s, 8, 32)\<close>.\<close>

definition isOctal :: "char \<Rightarrow> bool" where
  "isOctal c \<longleftrightarrow> 48 \<le> (of_char c :: nat) \<and> (of_char c :: nat) \<le> 55"

definition octalVal :: "string \<Rightarrow> int" where
  "octalVal s = foldl (\<lambda>a c. a * 8 + (of_char c - 48)) 0 s"

definition ParsedSocketMode :: "Listen \<Rightarrow> int option" where
  "ParsedSocketMode l =
     (let mode = (if SocketMode l = '''' then ''0660'' else SocketMode l) in
      if list_all isOctal mode \<and> octalVal mode < 2 ^ 32 then Some (octalVal mode) else None)"

datatype configError =
    NoServerName
  | ListenExactlyOne
  | InvalidSocketMode string
  | NoUpstream
  | Negative string
  | BodyKBRange
  | CacheSetting string
  | NoReplicationAddress
  | NoReplicationChannel
  | RateLimitSetting settingsError
  | NoDiffLog string string
  | NoDSN string string
  | DecodeError string

text \<open>The loop over the endpoints; a Go map is visited in no particular order, here in that of \<open>ByName\<close>.\<close>

fun validateModes :: "Config \<Rightarrow> (string, Mode) gomap \<Rightarrow> configError option" where
  "validateModes c [] = None"
| "validateModes c ((name, m) # ms) =
     (if (Kind m = ModeShadow \<or> Kind m = ModeCanary) \<and> \<not> DiffLogEnabled (DiffLogCfg c) then Some (NoDiffLog name (Kind m))
      else if Kind m \<noteq> ModeProxy \<and> \<not> DatabaseEnabled (DatabaseCfg c) then Some (NoDSN name (Kind m))
      else validateModes c ms)"

definition check :: "bool \<Rightarrow> configError \<Rightarrow> (configError, 'a) result \<Rightarrow> (configError, 'a) result" where
  "check bad e k = (if bad then Inl e else k)"

definition defaultSocketMode :: "Config \<Rightarrow> Config" where
  "defaultSocketMode c =
     (if SocketMode (ListenCfg c) = '''' then c\<lparr>ListenCfg := (ListenCfg c)\<lparr>SocketMode := ''0660''\<rparr>\<rparr> else c)"

definition defaultChannel :: "Config \<Rightarrow> Config" where
  "defaultChannel c =
     (if replEnabled (ReplicationCfg c) \<and> replChannel (ReplicationCfg c) = ''''
      then c\<lparr>ReplicationCfg := (ReplicationCfg c)\<lparr>replChannel := ServerName c\<rparr>\<rparr> else c)"

definition configValidate :: "Config \<Rightarrow> (configError, Config) result" where
  "configValidate c =
     check (ServerName c = '''') NoServerName (
     check ((Socket (ListenCfg c) = '''') = (Addr (ListenCfg c) = '''')) ListenExactlyOne (
     let c = defaultSocketMode c in
     check (ParsedSocketMode (ListenCfg c) = None) (InvalidSocketMode (SocketMode (ListenCfg c))) (
     check (Sockets (UpstreamCfg c) = [] \<and> Addrs (UpstreamCfg c) = []) NoUpstream (
     check (UpstreamTimeoutSeconds (UpstreamCfg c) < 0) (Negative ''upstream.timeout_seconds'') (
     check (MaxIdleConns (UpstreamCfg c) < 0) (Negative ''upstream.max_idle_conns'') (
     check (MaxFileMB (DiffLogCfg c) < 0 \<or> MaxFiles (DiffLogCfg c) < 0 \<or> QueueSize (DiffLogCfg c) < 0 \<or> ListLimit (DiffLogCfg c) < 0)
       (Negative ''diff_log'') (
     check (BodyKB (DiffLogCfg c) < -1) BodyKBRange (
     check (MaxConns (DatabaseCfg c) < 0 \<or> ConnectTimeoutSeconds (DatabaseCfg c) < 0) (Negative ''database'') (
     case SettingsValidate (CacheCfg (DatabaseCfg c)) of Some e \<Rightarrow> Inl (CacheSetting e) | None \<Rightarrow>
     check (StreamIdleTimeoutSeconds c < 0) (Negative ''stream_idle_timeout_seconds'') (
     check (NativeTimeoutSeconds c < 0) (Negative ''native_timeout_seconds'') (
     check (replEnabled (ReplicationCfg c) \<and> replAddress (ReplicationCfg c) = '''') NoReplicationAddress (
     let c = defaultChannel c in
     check (replEnabled (ReplicationCfg c) \<and> replChannel (ReplicationCfg c) = '''') NoReplicationChannel (
     check (ShadowConcurrency (ShadowCfg c) < 0 \<or> ShadowTimeoutSeconds (ShadowCfg c) < 0 \<or> CaptureMB (ShadowCfg c) < 0)
       (Negative ''shadow'') (
     check (KeyRefetchMinutes (AuthCfg c) < 0 \<or> AuthTimeoutSeconds (AuthCfg c) < 0) (Negative ''auth'') (
     case FederationValidate (RCFederation c) of Some e \<Rightarrow> Inl (RateLimitSetting e) | None \<Rightarrow>
     case validateModes c (ByName (EndpointsCfg c)) of Some e \<Rightarrow> Inl e | None \<Rightarrow> Inr c)))))))))))))))"

definition proxyMode :: Mode where
  "proxyMode = \<lparr>Kind = ModeProxy, CanaryPercent = 0\<rparr>"

definition defaultConfig :: Config where
  "defaultConfig =
     \<lparr>ServerName = '''', ListenCfg = \<lparr>Socket = '''', Addr = '''', SocketMode = ''0660''\<rparr>,
      UpstreamCfg = \<lparr>Sockets = [], Addrs = [], UpstreamTimeoutSeconds = 0, MaxIdleConns = 0\<rparr>,
      MetricsAddr = '':9200'',
      EndpointsCfg = \<lparr>EventMode = proxyMode, StateMode = proxyMode, StateIDsMode = proxyMode, GetMissingEventsMode = proxyMode\<rparr>,
      LogLevel = ''info'', LogPretty = False,
      DiffLogCfg = \<lparr>Dir = '''', MaxFileMB = 0, MaxFiles = 0, Compress = None, QueueSize = 0, BodyKB = 0, ListLimit = 0\<rparr>,
      DatabaseCfg = \<lparr>DSN = '''', MaxConns = 0, ConnectTimeoutSeconds = 0,
        CacheCfg = \<lparr>StateGroupsMB = 0, EventsMB = 0, EventStateGroupsMB = 0, AuthChainsMB = 0, FilteredStateMB = 0\<rparr>\<rparr>,
      ShadowCfg = \<lparr>ShadowConcurrency = 0, ShadowTimeoutSeconds = 0, CaptureMB = 0, VerifyWaitSeconds = 0\<rparr>,
      AuthCfg = \<lparr>KeyRefetchMinutes = 0, AuthTimeoutSeconds = 0, TrustedKeyServers = []\<rparr>,
      NativeTimeoutSeconds = 0, StreamTimeoutSeconds = 0, StreamIdleTimeoutSeconds = 0,
      ReplicationCfg = \<lparr>replEnabled = False, replAddress = '''', replChannel = '''', replPassword = '''', replDB = 0\<rparr>,
      RCFederation = \<lparr>WindowSize = 0, SleepLimit = 0, SleepDelay = 0, RejectLimit = 0, Concurrent = 0\<rparr>\<rparr>"

definition parseConfig :: "(Config \<Rightarrow> (string, Config) result) \<Rightarrow> (configError, Config) result" where
  "parseConfig decode =
     (case decode defaultConfig of Inl e \<Rightarrow> Inl (DecodeError e) | Inr c \<Rightarrow> configValidate c)"

section \<open>Modes survive their text form\<close>

lemma digit_char: "n < 10 \<Longrightarrow> isDigit (char_of (48 + n)) \<and> (of_char (char_of (48 + n)) :: int) = 48 + int n"
proof -
  assume n: "n < 10"
  then have c: "(of_char (char_of (48 + n)) :: nat) = 48 + n" by simp
  have "(of_char d :: int) = int (of_char d)" for d :: char by (simp add: of_char_def)
  with n c show ?thesis by (simp add: isDigit_def)
qed

lemma natDigits_val: "list_all isDigit (natDigits n) \<and> natDigits n \<noteq> [] \<and> digitsVal (natDigits n) = int n"
proof (induction n rule: natDigits.induct)
  case (1 n)
  show ?case
  proof (cases "n < 10")
    case True
    then show ?thesis using digit_char [of n] by (subst (1 2 3) natDigits.simps) (simp add: digitsVal_def)
  next
    case False
    have "int (n div 10) * 10 + int (n mod 10) = int n" by presburger
    with False 1 digit_char [of "n mod 10"] show ?thesis
      by (subst (1 2 3) natDigits.simps) (simp add: digitsVal_def)
  qed
qed

lemma digits_no_space: "list_all isDigit s \<Longrightarrow> trimSpace s = s"
proof -
  assume a: "list_all isDigit s"
  have nd: "\<not> isSpace c" if "isDigit c" for c using that by (auto simp: isSpace_def isDigit_def)
  have "dropWhile isSpace t = t" if "list_all isDigit t" for t using that nd by (cases t) auto
  from this [OF a] this [of "rev s"] a show ?thesis by (simp add: trimSpace_def list_all_iff)
qed

lemma parse_itoa: "0 \<le> n \<Longrightarrow> n < 2 ^ 63 \<Longrightarrow> parseInt64 (itoa n) = Some n"
proof -
  assume n: "0 \<le> n" "n < 2 ^ 63"
  note v = natDigits_val [of "nat n"]
  then obtain c cs where c: "natDigits (nat n) = c # cs" "isDigit c" by (cases "natDigits (nat n)") auto
  then have "c \<noteq> CHR ''-''" "c \<noteq> CHR ''+''" by (auto simp: isDigit_def)
  with v c n show ?thesis by (simp add: itoa_def parseInt64_def parseDigits_def int64Range_def)
qed

definition validMode :: "Mode \<Rightarrow> bool" where
  "validMode m \<longleftrightarrow> Kind m \<in> {ModeProxy, ModeShadow, ModeCanary, ModeNative} \<and> 0 \<le> CanaryPercent m \<and> CanaryPercent m \<le> 100"

lemma mode_trimmed: "k \<in> {ModeProxy, ModeShadow, ModeCanary, ModeNative} \<Longrightarrow> trimSpace k = k \<and> CHR '':'' \<notin> set k"
  by (auto simp: mode_names trimSpace_def isSpace_def)

lemma mode_distinct: "ModeCanary \<notin> {ModeProxy, ModeShadow, ModeNative}"
  by (simp add: mode_names)

lemma parse_modeString:
  assumes "validMode m" and "Kind m \<noteq> ModeCanary \<longrightarrow> CanaryPercent m = CanaryPercent old"
  shows "parseMode (modeString m) old = Inr (old\<lparr>Kind := Kind m, CanaryPercent := CanaryPercent m\<rparr>)"
proof (cases "Kind m = ModeCanary")
  case True
  have n: "0 \<le> CanaryPercent m" "CanaryPercent m \<le> 100" using assms by (simp_all add: validMode_def)
  have "itoa (CanaryPercent m) = natDigits (nat (CanaryPercent m))" using n by (simp add: itoa_def)
  then have "trimSpace (itoa (CanaryPercent m)) = itoa (CanaryPercent m)" using digits_no_space natDigits_val by simp
  moreover have "cut (CHR '':'') (''canary:'' @ itoa (CanaryPercent m)) = (''canary'', Some (itoa (CanaryPercent m)))"
    using cut_append [of "CHR '':''" "''canary''" "itoa (CanaryPercent m)"] by simp
  moreover have "trimSpace ''canary'' = ModeCanary" using mode_trimmed [of ModeCanary] by (simp add: ModeCanary_def)
  ultimately show ?thesis using True n mode_distinct parse_itoa [of "CanaryPercent m"]
    by (simp add: parseMode_def modeString_def Let_def)
next
  case False
  with assms have k: "Kind m \<in> {ModeProxy, ModeShadow, ModeNative}" by (auto simp: validMode_def)
  then have "cut (CHR '':'') (Kind m) = (Kind m, None)"
    using cut_None [of "CHR '':''" "Kind m"] mode_trimmed [of "Kind m"]
    by (cases "cut (CHR '':'') (Kind m)") (auto simp: mode_names)
  with k False assms(2) mode_trimmed [of "Kind m"] show ?thesis by (auto simp: parseMode_def modeString_def Let_def)
qed


lemma parseMode_valid:
  assumes "parseMode raw old = Inr m" and "0 \<le> CanaryPercent old" "CanaryPercent old \<le> 100"
  shows "validMode m \<and> (Kind m \<noteq> ModeCanary \<longrightarrow> CanaryPercent m = CanaryPercent old) \<and>
    m = old\<lparr>Kind := Kind m, CanaryPercent := CanaryPercent m\<rparr>"
  using assms
  by (auto simp: parseMode_def Let_def validMode_def split: prod.splits if_splits option.splits)

text \<open>The text of a mode is faithful: whatever text is accepted names one of the four modes with a
  percentage between 0 and 100, and the mode's own text is accepted in turn and gives the same mode;
  a percentage is accepted exactly with \<open>canary\<close>.\<close>

theorem mode_text_roundtrip:
  assumes "parseMode raw proxyMode = Inr m"
  shows "parseMode (modeString m) proxyMode = Inr m \<and> validMode m \<and>
    (CHR '':'' \<in> set raw \<longleftrightarrow> Kind m = ModeCanary)"
proof -
  have v: "validMode m" "Kind m \<noteq> ModeCanary \<longrightarrow> CanaryPercent m = CanaryPercent proxyMode"
    "m = proxyMode\<lparr>Kind := Kind m, CanaryPercent := CanaryPercent m\<rparr>"
    using parseMode_valid [OF assms] by (simp_all add: proxyMode_def)
  have "snd (cut (CHR '':'') raw) \<noteq> None \<longleftrightarrow> Kind m = ModeCanary"
    using assms mode_distinct by (auto simp: parseMode_def Let_def split: prod.splits if_splits option.splits)
  with cut_None [of "CHR '':''" raw] parse_modeString [OF v(1,2)] v(1,3) show ?thesis by simp
qed

theorem mode_text_roundtrip_witness:
  "parseMode ('' canary : 5'') proxyMode = Inr \<lparr>Kind = ''canary'', CanaryPercent = 5\<rparr> \<and>
   parseMode (modeString \<lparr>Kind = ''canary'', CanaryPercent = 5\<rparr>) proxyMode = Inr \<lparr>Kind = ''canary'', CanaryPercent = 5\<rparr>"
proof -
  have "parseMode ('' canary : 5'') proxyMode = Inr \<lparr>Kind = ''canary'', CanaryPercent = 5\<rparr>"
    by code_simp
  with mode_text_roundtrip [OF this] show ?thesis by blast
qed

section \<open>What validation guarantees\<close>

lemma check_Inr: "check bad e k = Inr c \<longleftrightarrow> \<not> bad \<and> k = Inr c"
  by (simp add: check_def)

lemma validateModes_None:
  "validateModes c ms = None \<longleftrightarrow>
     (\<forall>(name, m) \<in> set ms. ((Kind m = ModeShadow \<or> Kind m = ModeCanary) \<longrightarrow> DiffLogEnabled (DiffLogCfg c)) \<and>
        (Kind m \<noteq> ModeProxy \<longrightarrow> DatabaseEnabled (DatabaseCfg c)))"
  by (induction c ms rule: validateModes.induct) auto

lemma defaultSocketMode_sel [simp]:
  "ServerName (defaultSocketMode c) = ServerName c" "UpstreamCfg (defaultSocketMode c) = UpstreamCfg c"
  "DiffLogCfg (defaultSocketMode c) = DiffLogCfg c" "DatabaseCfg (defaultSocketMode c) = DatabaseCfg c"
  "StreamIdleTimeoutSeconds (defaultSocketMode c) = StreamIdleTimeoutSeconds c"
  "NativeTimeoutSeconds (defaultSocketMode c) = NativeTimeoutSeconds c" "ReplicationCfg (defaultSocketMode c) = ReplicationCfg c"
  "ShadowCfg (defaultSocketMode c) = ShadowCfg c" "AuthCfg (defaultSocketMode c) = AuthCfg c"
  "RCFederation (defaultSocketMode c) = RCFederation c" "EndpointsCfg (defaultSocketMode c) = EndpointsCfg c"
  "Socket (ListenCfg (defaultSocketMode c)) = Socket (ListenCfg c)" "Addr (ListenCfg (defaultSocketMode c)) = Addr (ListenCfg c)"
  by (simp_all add: defaultSocketMode_def)

lemma defaultSocketMode_set [simp]: "SocketMode (ListenCfg (defaultSocketMode c)) \<noteq> ''''"
  by (simp add: defaultSocketMode_def)

lemma defaultChannel_sel [simp]:
  "ServerName (defaultChannel c) = ServerName c" "UpstreamCfg (defaultChannel c) = UpstreamCfg c"
  "DiffLogCfg (defaultChannel c) = DiffLogCfg c" "DatabaseCfg (defaultChannel c) = DatabaseCfg c"
  "StreamIdleTimeoutSeconds (defaultChannel c) = StreamIdleTimeoutSeconds c"
  "NativeTimeoutSeconds (defaultChannel c) = NativeTimeoutSeconds c" "ListenCfg (defaultChannel c) = ListenCfg c"
  "ShadowCfg (defaultChannel c) = ShadowCfg c" "AuthCfg (defaultChannel c) = AuthCfg c"
  "RCFederation (defaultChannel c) = RCFederation c" "EndpointsCfg (defaultChannel c) = EndpointsCfg c"
  "replEnabled (ReplicationCfg (defaultChannel c)) = replEnabled (ReplicationCfg c)"
  "replAddress (ReplicationCfg (defaultChannel c)) = replAddress (ReplicationCfg c)"
  by (simp_all add: defaultChannel_def)

text \<open>A configuration the worker may run with.\<close>

definition runnable :: "Config \<Rightarrow> bool" where
  "runnable c \<longleftrightarrow> ServerName c \<noteq> '''' \<and> (Socket (ListenCfg c) = '''') \<noteq> (Addr (ListenCfg c) = '''') \<and>
     SocketMode (ListenCfg c) \<noteq> '''' \<and> ParsedSocketMode (ListenCfg c) \<noteq> None \<and>
     (Sockets (UpstreamCfg c) \<noteq> [] \<or> Addrs (UpstreamCfg c) \<noteq> []) \<and>
     0 \<le> UpstreamTimeoutSeconds (UpstreamCfg c) \<and> 0 \<le> MaxIdleConns (UpstreamCfg c) \<and>
     0 \<le> MaxFileMB (DiffLogCfg c) \<and> 0 \<le> MaxFiles (DiffLogCfg c) \<and> 0 \<le> QueueSize (DiffLogCfg c) \<and>
     0 \<le> ListLimit (DiffLogCfg c) \<and> -1 \<le> BodyKB (DiffLogCfg c) \<and>
     0 \<le> MaxConns (DatabaseCfg c) \<and> 0 \<le> ConnectTimeoutSeconds (DatabaseCfg c) \<and>
     SettingsValidate (CacheCfg (DatabaseCfg c)) = None \<and> 0 \<le> StreamIdleTimeoutSeconds c \<and> 0 \<le> NativeTimeoutSeconds c \<and>
     (replEnabled (ReplicationCfg c) \<longrightarrow> replValidate (ReplicationCfg c) = None) \<and>
     0 \<le> ShadowConcurrency (ShadowCfg c) \<and> 0 \<le> ShadowTimeoutSeconds (ShadowCfg c) \<and> 0 \<le> CaptureMB (ShadowCfg c) \<and>
     0 \<le> KeyRefetchMinutes (AuthCfg c) \<and> 0 \<le> AuthTimeoutSeconds (AuthCfg c) \<and>
     FederationValidate (RCFederation c) = None \<and>
     validateModes c (ByName (EndpointsCfg c)) = None"

lemma opt_None_case: "(case x of Some e \<Rightarrow> Inl (f e) | None \<Rightarrow> k) = Inr c \<longleftrightarrow> x = None \<and> k = Inr c"
  by (cases x) auto

lemma replValidate_None: "replValidate r = None \<longleftrightarrow> replAddress r \<noteq> '''' \<and> replChannel r \<noteq> ''''"
  by (simp add: replValidate_def)

lemma configValidate_fills: "configValidate c = Inr c' \<Longrightarrow> c' = defaultChannel (defaultSocketMode c)"
  unfolding configValidate_def Let_def check_Inr opt_None_case by simp

lemma configValidate_runnable:
  assumes "configValidate c = Inr c'" shows "runnable c'"
proof -
  have d: "c' = defaultChannel (defaultSocketMode c)" using configValidate_fills [OF assms] .
  from assms show ?thesis
    unfolding d configValidate_def Let_def check_Inr opt_None_case runnable_def replValidate_None
    by (elim conjE) (simp add: not_less del: not_None_eq)
qed

lemma runnable_accepted: "runnable c \<Longrightarrow> configValidate c = Inr c"
proof -
  assume r: "runnable c"
  then have "defaultSocketMode c = c" "defaultChannel c = c"
    by (auto simp: runnable_def defaultSocketMode_def defaultChannel_def replValidate_None)
  with r show ?thesis
    unfolding configValidate_def Let_def check_Inr opt_None_case runnable_def replValidate_None
    by (elim conjE) (simp add: not_less del: not_None_eq)
qed

lemma named_mode_needs:
  assumes "runnable c" and "gget (ByName (EndpointsCfg c)) name = Some m"
  shows "(Kind m \<noteq> ModeProxy \<longrightarrow> DSN (DatabaseCfg c) \<noteq> '''') \<and>
    (Kind m = ModeShadow \<or> Kind m = ModeCanary \<longrightarrow> Dir (DiffLogCfg c) \<noteq> '''')"
proof -
  have "(name, m) \<in> set (ByName (EndpointsCfg c))" using assms(2) by (rule map_of_SomeD)
  with assms(1) show ?thesis
    by (auto simp: runnable_def validateModes_None DiffLogEnabled_def DatabaseEnabled_def)
qed

text \<open>C40. A configuration that is accepted can be run: exactly the runnable ones pass unchanged, what
  passes is runnable, names the server, has one listener with valid permission bits and an upstream,
  has no negative size or timeout, can reach Redis when replication is on, has a database for every
  endpoint that is not merely proxied and a diff log for every one that is compared; and the worker
  needs the database exactly if some endpoint is not proxied.\<close>

theorem accepted_config_runs:
  assumes "parseConfig decode = Inr c"
  shows "runnable c \<and> configValidate c = Inr c \<and>
    (replEnabled (ReplicationCfg c) \<longrightarrow> (\<forall>s. \<exists>x. newSubscriber (ReplicationCfg c) s = Inr x)) \<and>
    (NeedsDatabase c \<longrightarrow> DatabaseEnabled (DatabaseCfg c)) \<and>
    (\<forall>name m. gget (ByName (EndpointsCfg c)) name = Some m \<longrightarrow>
       (ServesNatively m \<longrightarrow> DatabaseEnabled (DatabaseCfg c)) \<and>
       (Kind m = ModeShadow \<or> Kind m = ModeCanary \<longrightarrow> DiffLogEnabled (DiffLogCfg c)))"
proof -
  from assms obtain c0 where "configValidate c0 = Inr c" by (auto simp: parseConfig_def split: sum.splits)
  then have r: "runnable c" by (rule configValidate_runnable)
  then have "replEnabled (ReplicationCfg c) \<longrightarrow> replValidate (ReplicationCfg c) = None" by (simp add: runnable_def)
  then have "replEnabled (ReplicationCfg c) \<longrightarrow> (\<forall>s. \<exists>x. newSubscriber (ReplicationCfg c) s = Inr x)"
    by (simp add: newSubscriber_def)
  moreover have "NeedsDatabase c \<longrightarrow> DatabaseEnabled (DatabaseCfg c)"
    using r by (auto simp: NeedsDatabase_def list_ex_iff runnable_def validateModes_None)
  ultimately show ?thesis using r runnable_accepted [OF r] named_mode_needs [OF r]
    by (auto simp: ServesNatively_def DatabaseEnabled_def DiffLogEnabled_def mode_names)
qed

definition sampleFile :: "Config \<Rightarrow> (string, Config) result" where
  "sampleFile c = Inr (c\<lparr>ServerName := ''example.com'',
     ListenCfg := (ListenCfg c)\<lparr>Socket := ''/run/w''\<rparr>, UpstreamCfg := (UpstreamCfg c)\<lparr>Addrs := [''a:1'']\<rparr>,
     EndpointsCfg := (EndpointsCfg c)\<lparr>EventMode := \<lparr>Kind = ''native'', CanaryPercent = 0\<rparr>\<rparr>,
     DatabaseCfg := (DatabaseCfg c)\<lparr>DSN := ''db''\<rparr>,
     ReplicationCfg := (ReplicationCfg c)\<lparr>replEnabled := True, replAddress := ''r:1''\<rparr>\<rparr>)"

theorem accepted_config_runs_witness:
  "\<exists>c. parseConfig sampleFile = Inr c \<and> DatabaseEnabled (DatabaseCfg c) \<and> replChannel (ReplicationCfg c) = ''example.com''"
proof -
  have "(case parseConfig sampleFile of Inl _ \<Rightarrow> False | Inr c \<Rightarrow> NeedsDatabase c \<and> replChannel (ReplicationCfg c) = ''example.com'')"
    by code_simp
  then obtain c where c: "parseConfig sampleFile = Inr c" "NeedsDatabase c" "replChannel (ReplicationCfg c) = ''example.com''"
    by (auto split: sum.splits)
  with accepted_config_runs [OF c(1)] show ?thesis by blast
qed

end
