(* ===== verification/Routing.thy ===== *)
theory Routing
  imports Config
begin

text \<open>
  The request side of \<open>internal/fedapi\<close>: which endpoint a path names (\<open>route.go\<close>), how its parameters
  are decoded, and which share of the traffic is answered natively (\<open>canary.go\<close>).  Hashing is
  64-bit FNV-1a, kept at its width.
\<close>

unbundle bit_operations_syntax

section \<open>Routes\<close>

datatype Endpoint = EndpointEvent | EndpointState | EndpointStateIDs | EndpointGetMissingEvents | EndpointUnknown

fun endpointName :: "Endpoint \<Rightarrow> string" where
  "endpointName EndpointEvent = ''event''"
| "endpointName EndpointState = ''state''"
| "endpointName EndpointStateIDs = ''state_ids''"
| "endpointName EndpointGetMissingEvents = ''get_missing_events''"
| "endpointName EndpointUnknown = ''unknown''"

definition Streams :: "Endpoint \<Rightarrow> bool" where
  "Streams e \<longleftrightarrow> e = EndpointState"

definition HasRequestBody :: "Endpoint \<Rightarrow> bool" where
  "HasRequestBody e \<longleftrightarrow> e = EndpointGetMissingEvents"

record Route =
  routeEndpoint :: Endpoint
  Param :: string

definition prefixes :: "(string \<times> Endpoint) list" where
  "prefixes =
     [(''/_matrix/federation/v1/state_ids/'', EndpointStateIDs), (''/_matrix/federation/v1/state/'', EndpointState),
      (''/_matrix/federation/v1/event/'', EndpointEvent),
      (''/_matrix/federation/v1/get_missing_events/'', EndpointGetMissingEvents)]"

fun matchFrom :: "(string \<times> Endpoint) list \<Rightarrow> string \<Rightarrow> Route option" where
  "matchFrom [] path = None"
| "matchFrom ((pfx, endpoint) # ps) path =
     (if \<not> hasPrefix path pfx then matchFrom ps path
      else
        let param = trimSuffix (drop (length pfx) path) ''/'' in
        if param = '''' \<or> CHR ''/'' \<in> set param then None
        else Some \<lparr>routeEndpoint = endpoint, Param = param\<rparr>)"

definition Match :: "string \<Rightarrow> Route option" where
  "Match escapedPath = matchFrom prefixes escapedPath"

section \<open>Parameters\<close>

text \<open>\<open>net/url\<close>: percent decoding of a path segment and of a query component, and \<open>Query().Get\<close>.\<close>

definition hexDigit :: "char \<Rightarrow> nat option" where
  "hexDigit c =
     (let n = (of_char c :: nat) in
      if 48 \<le> n \<and> n \<le> 57 then Some (n - 48)
      else if 97 \<le> n \<and> n \<le> 102 then Some (n - 87)
      else if 65 \<le> n \<and> n \<le> 70 then Some (n - 55) else None)"

fun unescape :: "bool \<Rightarrow> string \<Rightarrow> string option" where
  "unescape query [] = Some []"
| "unescape query (c # cs) =
     (if c = CHR ''%'' then
        (case cs of
           a # b # rest \<Rightarrow>
             (case (hexDigit a, hexDigit b) of
                (Some x, Some y) \<Rightarrow> map_option (Cons (char_of (16 * x + y))) (unescape query rest)
              | _ \<Rightarrow> None)
         | _ \<Rightarrow> None)
      else map_option (Cons (if query \<and> c = CHR ''+'' then CHR '' '' else c)) (unescape query cs))"

definition DecodeParam :: "string \<Rightarrow> string" where
  "DecodeParam s = (case unescape False s of Some t \<Rightarrow> t | None \<Rightarrow> s)"

function splitAll :: "char \<Rightarrow> string \<Rightarrow> string list" where
  "splitAll c s = (case cut c s of (a, None) \<Rightarrow> [a] | (a, Some b) \<Rightarrow> a # splitAll c b)"
  by pat_completeness auto
termination
  by (relation "measure (\<lambda>(_, s). length s)") (auto dest!: cut_Some [OF sym])

declare splitAll.simps [simp del]

definition queryPair :: "string \<Rightarrow> (string \<times> string) option" where
  "queryPair p =
     (if CHR '';'' \<in> set p \<or> p = '''' then None
      else case cut (CHR ''='') p of (k, v) \<Rightarrow>
        (case (unescape True k, unescape True (case v of None \<Rightarrow> '''' | Some x \<Rightarrow> x)) of
           (Some k, Some v) \<Rightarrow> Some (k, v)
         | _ \<Rightarrow> None))"

definition queryGet :: "string \<Rightarrow> string \<Rightarrow> string" where
  "queryGet rawQuery key =
     (case map_of (List.map_filter queryPair (splitAll (CHR ''&'') rawQuery)) key of None \<Rightarrow> '''' | Some v \<Rightarrow> v)"

definition roomIDFor :: "Route \<Rightarrow> string" where
  "roomIDFor route = (if routeEndpoint route = EndpointEvent then '''' else DecodeParam (Param route))"

definition eventIDFor :: "Route \<Rightarrow> string \<Rightarrow> string" where
  "eventIDFor route rawQuery =
     (if routeEndpoint route = EndpointEvent then DecodeParam (Param route) else queryGet rawQuery ''event_id'')"

section \<open>The canary's share\<close>

definition fnvOffset :: "64 word" where "fnvOffset = 14695981039346656037"
definition fnvPrime :: "64 word" where "fnvPrime = 1099511628211"

definition fnv1a :: "string \<Rightarrow> 64 word" where
  "fnv1a s = foldl (\<lambda>h c. (h XOR of_char c) * fnvPrime) fnvOffset s"

definition sampled :: "Mode \<Rightarrow> string \<Rightarrow> bool" where
  "sampled mode key =
     (if Kind mode = ModeNative then True
      else if Kind mode = ModeCanary then
        (if CanaryPercent mode \<le> 0 then False
         else if CanaryPercent mode \<ge> 100 then True
         else if key = '''' then False
         else unat (fnv1a key) mod 100 < nat (CanaryPercent mode))
      else False)"

definition samplingKey :: "Route \<Rightarrow> string \<Rightarrow> string \<Rightarrow> string" where
  "samplingKey route eventID body =
     (if \<not> HasRequestBody (routeEndpoint route) then eventID else DecodeParam (Param route) @ nul # body)"

definition modeFor :: "(string, Mode) gomap \<Rightarrow> Endpoint \<Rightarrow> Mode" where
  "modeFor modes e = (case gget modes (endpointName e) of Some m \<Rightarrow> m | None \<Rightarrow> proxyMode)"

section \<open>Properties\<close>

definition prefixOf :: "Endpoint \<Rightarrow> string" where
  "prefixOf e = ''/_matrix/federation/v1/'' @ endpointName e @ ''/''"

lemma prefixes_prefixOf:
  "prefixes = map (\<lambda>e. (prefixOf e, e)) [EndpointStateIDs, EndpointState, EndpointEvent, EndpointGetMissingEvents]"
  by (simp add: prefixes_def prefixOf_def)

lemma matchFrom_iff:
  assumes "\<forall>p \<in> fst ` set ps. \<forall>q \<in> fst ` set ps. \<forall>x y. p @ x = q @ y \<longrightarrow> p = q" and "distinct (map fst ps)"
  shows "matchFrom ps path = Some r \<longleftrightarrow>
    (\<exists>p. (p, routeEndpoint r) \<in> set ps \<and> Param r \<noteq> '''' \<and> CHR ''/'' \<notin> set (Param r) \<and>
       (path = p @ Param r \<or> path = p @ Param r @ ''/''))"
  using assms
proof (induction ps)
  case (Cons pe ps)
  obtain p e where pe: "pe = (p, e)" by fastforce
  have ih: "matchFrom ps path = Some r \<longleftrightarrow>
    (\<exists>p. (p, routeEndpoint r) \<in> set ps \<and> Param r \<noteq> '''' \<and> CHR ''/'' \<notin> set (Param r) \<and>
       (path = p @ Param r \<or> path = p @ Param r @ ''/''))"
    by (rule Cons.IH) (use Cons.prems in auto)
  show ?case
  proof (cases "hasPrefix path p")
    case False
    then have "path \<noteq> p @ x" for x by (auto simp: hasPrefix_def)
    with False ih pe show ?thesis by auto
  next
    case True
    then obtain rest where rest: "path = p @ rest" by (auto simp: hasPrefix_iff)
    have other: "(q, x) \<notin> set ps" if "path = q @ y" for q x y
    proof
      assume m: "(q, x) \<in> set ps"
      then have "p = q" using Cons.prems(1) pe rest that by (metis fst_conv image_eqI list.set_intros)
      with m Cons.prems(2) pe show False by force
    qed
    have trim: "trimSuffix rest ''/'' = t \<and> CHR ''/'' \<notin> set t \<longleftrightarrow> (rest = t \<or> rest = t @ ''/'') \<and> CHR ''/'' \<notin> set t" for t
      by (cases rest rule: rev_cases) (auto simp: trimSuffix_def hasSuffix_iff)
    have "matchFrom (pe # ps) path = Some r \<longleftrightarrow>
        e = routeEndpoint r \<and> Param r \<noteq> '''' \<and> (trimSuffix rest ''/'' = Param r \<and> CHR ''/'' \<notin> set (Param r))"
      using True pe rest by (cases r) (auto simp: Let_def)
    also have "\<dots> \<longleftrightarrow> e = routeEndpoint r \<and> Param r \<noteq> '''' \<and> (rest = Param r \<or> rest = Param r @ ''/'') \<and> CHR ''/'' \<notin> set (Param r)"
      unfolding trim ..
    also have "\<dots> \<longleftrightarrow> (\<exists>q. (q, routeEndpoint r) \<in> set (pe # ps) \<and> Param r \<noteq> '''' \<and> CHR ''/'' \<notin> set (Param r) \<and>
       (path = q @ Param r \<or> path = q @ Param r @ ''/''))"
      using other rest pe by auto
    finally show ?thesis .
  qed
qed simp

text \<open>A path names an endpoint exactly when it is that endpoint's path with one non-empty segment
  after it, and perhaps a trailing slash: no other path matches, none matches two endpoints, and the
  parameter is the segment as it was sent, still encoded.\<close>

theorem route_match_exact:
  "Match path = Some r \<longleftrightarrow>
     routeEndpoint r \<noteq> EndpointUnknown \<and> Param r \<noteq> '''' \<and> CHR ''/'' \<notin> set (Param r) \<and>
     (path = prefixOf (routeEndpoint r) @ Param r \<or> path = prefixOf (routeEndpoint r) @ Param r @ ''/'')"
proof -
  have "matchFrom prefixes path = Some r \<longleftrightarrow>
    (\<exists>p. (p, routeEndpoint r) \<in> set prefixes \<and> Param r \<noteq> '''' \<and> CHR ''/'' \<notin> set (Param r) \<and>
       (path = p @ Param r \<or> path = p @ Param r @ ''/''))"
    by (rule matchFrom_iff) (simp_all add: prefixes_def)
  moreover have "(p, e) \<in> set prefixes \<longleftrightarrow> e \<noteq> EndpointUnknown \<and> p = prefixOf e" for p e
    unfolding prefixes_prefixOf by (cases e) auto
  ultimately show ?thesis unfolding Match_def by auto
qed

definition bucket :: "string \<Rightarrow> nat" where
  "bucket key = unat (fnv1a key) mod 100"

lemma sampled_iff:
  assumes "validMode m"
  shows "sampled m key \<longleftrightarrow> Kind m = ModeNative \<or>
    Kind m = ModeCanary \<and> (CanaryPercent m = 100 \<or> key \<noteq> '''' \<and> bucket key < nat (CanaryPercent m))"
  using assms by (auto simp: sampled_def validMode_def bucket_def mode_names)

text \<open>The canary's share is fixed by the question and grows with the percentage: under an accepted
  mode a request is answered natively exactly in native mode, at 100 percent, or when its question
  falls into one of the first \<open>n\<close> of a hundred buckets; so at \<open>n\<close> percent exactly \<open>n\<close> buckets are
  served, none in proxy and shadow mode or at zero, and raising the percentage only adds requests.\<close>

theorem canary_share:
  assumes "parseMode raw proxyMode = Inr m"
  shows "(sampled m key \<longleftrightarrow> Kind m = ModeNative \<or>
      Kind m = ModeCanary \<and> (CanaryPercent m = 100 \<or> key \<noteq> '''' \<and> bucket key < nat (CanaryPercent m))) \<and>
    (\<not> ServesNatively m \<longrightarrow> \<not> sampled m key) \<and> bucket key < 100 \<and>
    card {b. b < 100 \<and> b < nat (CanaryPercent m)} = nat (CanaryPercent m) \<and>
    (\<forall>p. CanaryPercent m \<le> p \<longrightarrow> p \<le> 100 \<longrightarrow> sampled m key \<longrightarrow> sampled (m\<lparr>CanaryPercent := p\<rparr>) key)"
proof -
  have v: "validMode m" using parseMode_valid [OF assms] by (simp add: proxyMode_def)
  have "{b. b < 100 \<and> b < nat (CanaryPercent m)} = {..<nat (CanaryPercent m)}" using v by (auto simp: validMode_def)
  then have "card {b. b < 100 \<and> b < nat (CanaryPercent m)} = nat (CanaryPercent m)" by simp
  moreover have "sampled (m\<lparr>CanaryPercent := p\<rparr>) key" if "CanaryPercent m \<le> p" "p \<le> 100" "sampled m key" for p
  proof -
    have "validMode (m\<lparr>CanaryPercent := p\<rparr>)" using v that by (simp add: validMode_def)
    with that v show ?thesis by (auto simp: sampled_iff)
  qed
  moreover have "\<not> ServesNatively m \<longrightarrow> \<not> sampled m key" using v by (auto simp: sampled_iff ServesNatively_def)
  moreover have "bucket key < 100" by (simp add: bucket_def)
  ultimately show ?thesis using sampled_iff [OF v, of key] by blast
qed

theorem canary_share_witness:
  "let m = \<lparr>Kind = ''canary'', CanaryPercent = 25\<rparr> in
   (sampled m ''$e'' \<longleftrightarrow> bucket ''$e'' < 25) \<and> (sampled m ''$e'' \<longrightarrow> sampled (m\<lparr>CanaryPercent := 60\<rparr>) ''$e'')"
proof -
  have p: "parseMode ''canary:25'' proxyMode = Inr \<lparr>Kind = ''canary'', CanaryPercent = 25\<rparr>" by code_simp
  show ?thesis using canary_share [OF p, of "''$e''"] by (simp add: mode_names Let_def)
qed

end
