(* ===== verification/Pducmp.thy ===== *)
theory Pducmp
  imports GoJson
begin

text \<open>
  \<open>internal/pducmp\<close>: when two serialisations of an event agree.  A decoded \<open>map[string]any\<close> is its
  normal form, members in key order with the last of equal keys; \<open>reflect.DeepEqual\<close> of decoded
  values is equality of normal forms, and \<open>json.Marshal\<close> of a decoded map is a function of it.
  Number literals stay text, as \<open>UseNumber\<close> leaves them.  Documents are syntax trees, so the byte
  comparison of two values that are not objects is a comparison of trees.
\<close>

section \<open>Decoding into any\<close>

definition sortedMembers :: "(string \<times> json) list \<Rightarrow> (string \<times> json) list" where
  "sortedMembers ms = (let m = foldl (\<lambda>m (k, v). gset k v m) [] ms in map (\<lambda>k. (k, the (gget m k))) (sort (map fst m)))"

fun decodeAny :: "json \<Rightarrow> json" where
  "decodeAny (JArr xs) = JArr (map decodeAny xs)"
| "decodeAny (JObj ms) = JObj (sortedMembers (map (\<lambda>(k, v). (k, decodeAny v)) ms))"
| "decodeAny v = v"

text \<open>Replacing the \<open>unsigned\<close> object of a decoded event; the source edits the map in place.\<close>

definition mapUnsigned :: "((string \<times> json) list \<Rightarrow> (string \<times> json) list) \<Rightarrow> json \<Rightarrow> json" where
  "mapUnsigned f ev =
     (case ev of
        JObj ms \<Rightarrow>
          (case map_of ms ''unsigned'' of
             Some (JObj u) \<Rightarrow> JObj (AList.update ''unsigned'' (JObj (f u)) ms)
           | _ \<Rightarrow> ev)
      | _ \<Rightarrow> ev)"

section \<open>Comparison\<close>

definition synapseCachePollutedFields :: "string list" where
  "synapseCachePollutedFields = [''prev_content'', ''prev_sender'']"

definition markAge :: "(string \<times> json) list \<Rightarrow> (string \<times> json) list" where
  "markAge u = (if map_of u ''age'' \<noteq> None then AList.update ''age'' (JStr ''<age>'') u else u)"

definition normalise :: "raw \<Rightarrow> json option" where
  "normalise r =
     (case r of
        Doc (JObj ms) \<Rightarrow> Some (mapUnsigned markAge (decodeAny (JObj ms)))
      | Doc JNull \<Rightarrow> Some JNull
      | _ \<Rightarrow> None)"

definition unsignedOf :: "json \<Rightarrow> (string \<times> json) list" where
  "unsignedOf ev =
     (case ev of JObj ms \<Rightarrow> (case map_of ms ''unsigned'' of Some (JObj u) \<Rightarrow> u | _ \<Rightarrow> []) | _ \<Rightarrow> [])"

definition dropSynapseCachePollution :: "json \<Rightarrow> json \<Rightarrow> json" where
  "dropSynapseCachePollution synapse native =
     mapUnsigned (\<lambda>u. fold (\<lambda>f u. if map_of u f \<noteq> None \<and> map_of (unsignedOf native) f = None then AList.delete f u else u)
       synapseCachePollutedFields u) synapse"

definition pduEqual :: "raw \<Rightarrow> raw \<Rightarrow> bool" where
  "pduEqual synapse native =
     (case (normalise synapse, normalise native) of
        (Some ns, Some nn) \<Rightarrow> dropSynapseCachePollution ns nn = nn
      | _ \<Rightarrow> synapse = native)"

definition dropUncomparableUnsigned :: "json \<Rightarrow> json" where
  "dropUncomparableUnsigned ev = mapUnsigned (\<lambda>u. fold AList.delete synapseCachePollutedFields u) ev"

definition Canonical :: "raw \<Rightarrow> json option" where
  "Canonical r = map_option dropUncomparableUnsigned (normalise r)"

section \<open>Lemmas\<close>

lemma fold_polluted:
  "fold AList.delete synapseCachePollutedFields u = AList.delete ''prev_sender'' (AList.delete ''prev_content'' u)"
  by (simp add: synapseCachePollutedFields_def)

lemma delete_absent: "map_of u f = None \<Longrightarrow> AList.delete f u = u"
  by (simp add: map_of_eq_None_iff delete_id)

lemma drop_polluted:
  "AList.delete ''prev_sender'' (AList.delete ''prev_content''
     (fold (\<lambda>f u. if map_of u f \<noteq> None \<and> P f then AList.delete f u else u) synapseCachePollutedFields u)) =
   AList.delete ''prev_sender'' (AList.delete ''prev_content'' u)"
  by (auto simp: synapseCachePollutedFields_def AList.delete_eq intro!: filter_cong)

lemma mapUnsigned_comp:
  "mapUnsigned f (mapUnsigned g ev) = mapUnsigned (\<lambda>u. f (g u)) ev"
proof (cases ev)
  case (JObj ms)
  show ?thesis
  proof (cases "\<exists>u. map_of ms ''unsigned'' = Some (JObj u)")
    case True
    then obtain u where u: "map_of ms ''unsigned'' = Some (JObj u)" by blast
    have "AList.update ''unsigned'' v (AList.update ''unsigned'' w ms) = AList.update ''unsigned'' v ms" for v w
      by (induction ms) auto
    with u JObj show ?thesis by (simp add: mapUnsigned_def update_conv)
  next
    case False
    then have "mapUnsigned h ev = ev" for h using JObj
      by (simp add: mapUnsigned_def split: option.split json.split)
    then show ?thesis by simp
  qed
qed (simp_all add: mapUnsigned_def)

lemma mapUnsigned_id: "(\<And>u. u = unsignedOf ev \<Longrightarrow> f u = u) \<Longrightarrow> mapUnsigned f ev = ev"
proof -
  have upd: "map_of ms k = Some v \<Longrightarrow> AList.update k v ms = ms" for ms :: "(string \<times> json) list" and k v
    by (induction ms) (auto split: if_splits)
  assume "\<And>u. u = unsignedOf ev \<Longrightarrow> f u = u"
  then show ?thesis
    by (auto simp: mapUnsigned_def unsignedOf_def upd split: json.splits option.splits)
qed

section \<open>Properties\<close>

text \<open>The two ways to compare events agree as far as a digest can: events that the pairwise
  comparison accepts have the same canonical form, and events with the same canonical form are
  accepted by the pairwise comparison unless ours carries one of the two fields that only Synapse's
  cache explains.\<close>

theorem canonical_matches_equal:
  assumes "normalise synapse = Some ns" and "normalise native = Some nn"
  shows "(pduEqual synapse native \<longrightarrow> Canonical synapse = Canonical native) \<and>
    (Canonical synapse = Canonical native \<and> map_of (unsignedOf nn) ''prev_content'' = None \<and>
       map_of (unsignedOf nn) ''prev_sender'' = None \<longrightarrow> pduEqual synapse native)"
proof -
  have canon: "Canonical synapse = Canonical native \<longleftrightarrow> dropUncomparableUnsigned ns = dropUncomparableUnsigned nn"
    using assms by (simp add: Canonical_def)
  have eq: "pduEqual synapse native \<longleftrightarrow> dropSynapseCachePollution ns nn = nn"
    using assms by (simp add: pduEqual_def)
  have "dropUncomparableUnsigned (dropSynapseCachePollution ns nn) = dropUncomparableUnsigned ns"
    by (simp only: dropUncomparableUnsigned_def dropSynapseCachePollution_def mapUnsigned_comp fold_polluted drop_polluted)
  then have one: "pduEqual synapse native \<Longrightarrow> Canonical synapse = Canonical native"
    unfolding canon eq by metis
  moreover have "pduEqual synapse native"
    if c: "Canonical synapse = Canonical native" and n: "map_of (unsignedOf nn) ''prev_content'' = None" "map_of (unsignedOf nn) ''prev_sender'' = None"
  proof -
    have nn: "dropUncomparableUnsigned nn = nn"
      unfolding dropUncomparableUnsigned_def by (rule mapUnsigned_id) (simp add: fold_polluted delete_absent n)
    have "(if map_of u f \<noteq> None then AList.delete f u else u) = AList.delete f u" for u :: "(string \<times> json) list" and f
      by (simp add: delete_absent)
    then have "dropSynapseCachePollution ns nn = dropUncomparableUnsigned ns"
      by (simp only: dropSynapseCachePollution_def dropUncomparableUnsigned_def fold_polluted)
        (simp only: synapseCachePollutedFields_def fold_simps comp_apply id_apply n simp_thms)
    with c nn show ?thesis unfolding canon eq by simp
  qed
  ultimately show ?thesis by blast
qed

theorem canonical_matches_equal_witness:
  "pduEqual (Doc (JObj [(''unsigned'', JObj [(''prev_content'', JObj []), (''age'', JNum ''5'')]), (''depth'', JNum ''1'')]))
     (Doc (JObj [(''depth'', JNum ''1''), (''unsigned'', JObj [(''age'', JNum ''7'')])]))"
proof -
  let ?s = "Doc (JObj [(''unsigned'', JObj [(''prev_content'', JObj []), (''age'', JNum ''5'')]), (''depth'', JNum ''1'')])"
  let ?n = "Doc (JObj [(''depth'', JNum ''1''), (''unsigned'', JObj [(''age'', JNum ''7'')])])"
  have s: "normalise ?s = Some (JObj [(''depth'', JNum ''1''), (''unsigned'', JObj [(''age'', JStr ''<age>''), (''prev_content'', JObj [])])])"
    and n: "normalise ?n = Some (JObj [(''depth'', JNum ''1''), (''unsigned'', JObj [(''age'', JStr ''<age>'')])])"
    and "Canonical ?s = Canonical ?n" by code_simp+
  with canonical_matches_equal [OF s n] show ?thesis by (simp add: unsignedOf_def)
qed

text \<open>Integers are compared by their text, so depths that a float would round together stay apart.\<close>

lemma depths_apart:
  "\<not> pduEqual (Doc (JObj [(''depth'', JNum ''9007199254740993'')])) (Doc (JObj [(''depth'', JNum ''9007199254740992'')]))"
  by code_simp

end
