(* ===== verification/StateStream.thy ===== *)
theory StateStream
  imports Answers Pducmp "HOL-Library.Multiset"
begin

text \<open>
  \<open>internal/matrixstate/state.go\<close>: \<open>/state\<close>, streamed to a writer while it is built and digested on
  the way, and the reader that digests the response of the other side.  What is written is a list of
  pieces, literal text or the body of one event; the \<open>n\<close>-th write may fail (\<open>wfail n\<close>); the number of
  bytes of a body is the parameter \<open>blen\<close>, and SHA-256 of a canonical event is the parameter \<open>sha\<close>,
  read as a number.
\<close>

section \<open>Digests\<close>

record digestAccumulator =
  dsum :: int
  dcount :: nat

definition emptyDigest :: digestAccumulator where
  "emptyDigest = \<lparr>dsum = 0, dcount = 0\<rparr>"

definition digestAdd :: "(json \<Rightarrow> int) \<Rightarrow> json \<Rightarrow> digestAccumulator \<Rightarrow> digestAccumulator" where
  "digestAdd sha canonical d = d\<lparr>dsum := dsum d + sha canonical, dcount := dcount d + 1\<rparr>"

text \<open>The 32 bytes of the sum modulo \<open>2 ^ 256\<close>, most significant first.\<close>

definition digestBytes :: "digestAccumulator \<Rightarrow> int list" where
  "digestBytes d = map (\<lambda>i. (dsum d mod 2 ^ 256) div 2 ^ (8 * (31 - i)) mod 256) [0..<32]"

record StateResult =
  srPDUs :: nat
  srAuthChain :: nat
  srBytes :: int
  PDUDigest :: "int list"
  AuthChainDigest :: "int list"

definition Agrees :: "StateResult \<Rightarrow> StateResult \<Rightarrow> bool" where
  "Agrees s t \<longleftrightarrow> PDUDigest s = PDUDigest t \<and> AuthChainDigest s = AuthChainDigest t"

section \<open>Streaming\<close>

datatype wtok = Text string | Body raw

record sink =
  written :: "wtok list"
  writes :: nat
  counted :: int

type_synonym writer = "nat \<Rightarrow> string option"

definition tokBytes :: "(raw \<Rightarrow> nat) \<Rightarrow> wtok \<Rightarrow> int" where
  "tokBytes blen t = (case t of Text s \<Rightarrow> int (length s) | Body b \<Rightarrow> int (blen b))"

text \<open>\<open>countingWriter.Write\<close>; a failed write counts nothing here, and its count is not used.\<close>

definition sinkWrite :: "(raw \<Rightarrow> nat) \<Rightarrow> writer \<Rightarrow> wtok \<Rightarrow> (sink, string, unit) comp" where
  "sinkWrite blen wfail t k =
     (case wfail (writes k) of
        Some e \<Rightarrow> (Inl e, k\<lparr>writes := writes k + 1\<rparr>)
      | None \<Rightarrow> (Inr (), k\<lparr>written := written k @ [t], writes := writes k + 1, counted := counted k + tokBytes blen t\<rparr>))"

definition serialisePDU :: "lib \<Rightarrow> Event \<Rightarrow> (string, raw) result" where
  "serialisePDU lb ev =
     rbind (if IsRedacted ev then redactEvent lb ev else Inr (EJSON ev)) (\<lambda>body. applyPDUJSONRulesAt lb body None)"

definition emitsCachePollution :: "raw \<Rightarrow> bool" where
  "emitsCachePollution body =
     (case unmarshalMap ''unsigned'' body of
        None \<Rightarrow> False
      | Some u \<Rightarrow> list_ex (\<lambda>f. gget u f \<noteq> None) [''prev_content'', ''prev_sender''])"

text \<open>What the callback of \<open>streamEvents\<close> closes over.\<close>

record streaming =
  sk :: sink
  dg :: digestAccumulator
  nwritten :: nat
  found :: "string list"
  polluted :: nat

definition sOnSink :: "(sink, string, unit) comp \<Rightarrow> (streaming, storeError, unit) comp" where
  "sOnSink m u =
     (case m (sk u) of (Inl e, k) \<Rightarrow> (Inl (FnError e), u\<lparr>sk := k\<rparr>) | (Inr _, k) \<Rightarrow> (Inr (), u\<lparr>sk := k\<rparr>))"

definition streamOne :: "lib \<Rightarrow> (raw \<Rightarrow> nat) \<Rightarrow> (json \<Rightarrow> int) \<Rightarrow> writer \<Rightarrow> Event \<Rightarrow> (streaming, storeError, unit) comp" where
  "streamOne lb blen sha wfail ev u =
     (case serialisePDU lb ev of
        Inl e \<Rightarrow> (Inl (FnError e), u)
      | Inr body \<Rightarrow>
          if \<not> depthInCanonicalRange body then (Inr (), u)
          else (case Canonical body of
             None \<Rightarrow> (Inl (FnError ''unparseable event JSON''), u)
           | Some canonical \<Rightarrow>
               bnd (\<lambda>u. if nwritten u > 0 then sOnSink (sinkWrite blen wfail (Text '','')) u else (Inr (), u)) (\<lambda>_.
               bnd (sOnSink (sinkWrite blen wfail (Body body))) (\<lambda>_ u.
               (Inr (), u\<lparr>dg := digestAdd sha canonical (dg u), nwritten := nwritten u + 1\<rparr>)))
               (if emitsCachePollution body then u\<lparr>polluted := polluted u + 1\<rparr> else u)))"

fun streamLoop :: "lib \<Rightarrow> (raw \<Rightarrow> nat) \<Rightarrow> (json \<Rightarrow> int) \<Rightarrow> writer \<Rightarrow> string list \<Rightarrow> eventMap
    \<Rightarrow> (streaming, storeError, unit) comp" where
  "streamLoop lb blen sha wfail [] evs u = (Inr (), u)"
| "streamLoop lb blen sha wfail (eid # ids) evs u =
     (case gget evs eid of
        None \<Rightarrow> streamLoop lb blen sha wfail ids evs u
      | Some ev \<Rightarrow>
          if RejectedReason ev \<noteq> '''' then streamLoop lb blen sha wfail ids evs u
          else bnd (streamOne lb blen sha wfail ev) (\<lambda>_. streamLoop lb blen sha wfail ids evs)
                 (u\<lparr>found := found u @ [eid]\<rparr>))"

definition newStreaming :: "sink \<Rightarrow> streaming" where
  "newStreaming k = \<lparr>sk = k, dg = emptyDigest, nwritten = 0, found = [], polluted = 0\<rparr>"

definition streamEvents :: "lib \<Rightarrow> (raw \<Rightarrow> nat) \<Rightarrow> (json \<Rightarrow> int) \<Rightarrow> writer \<Rightarrow> (nat \<Rightarrow> storeError option) \<Rightarrow> database
    \<Rightarrow> string list \<Rightarrow> (store \<times> streaming, storeError, unit) comp" where
  "streamEvents lb blen sha wfail cancelled d ids =
     GetEventsBatched d cancelled ids (int DefaultEventBatch) (streamLoop lb blen sha wfail ids)"

text \<open>\<open>State\<close>, on the resolver and the sink.\<close>

definition put :: "(raw \<Rightarrow> nat) \<Rightarrow> writer \<Rightarrow> string \<Rightarrow> (resolver \<times> sink, resolverError, unit) comp" where
  "put blen wfail s rk =
     (case sinkWrite blen wfail (Text s) (snd rk) of
        (Inl e, k) \<Rightarrow> (Inl (StoreErr '''' (FnError e)), (fst rk, k))
      | (Inr _, k) \<Rightarrow> (Inr (), (fst rk, k)))"

definition onResolver :: "'a resolverOp \<Rightarrow> (resolver \<times> sink, resolverError, 'a) comp" where
  "onResolver m rk = (case m (fst rk) of (x, r) \<Rightarrow> (x, (r, snd rk)))"

definition stream :: "lib \<Rightarrow> (raw \<Rightarrow> nat) \<Rightarrow> (json \<Rightarrow> int) \<Rightarrow> writer \<Rightarrow> (nat \<Rightarrow> storeError option) \<Rightarrow> database
    \<Rightarrow> string list \<Rightarrow> (resolver \<times> sink, resolverError, streaming) comp" where
  "stream lb blen sha wfail cancelled d ids rk =
     (case streamEvents lb blen sha wfail cancelled d ids (rstore (fst rk), newStreaming (snd rk)) of
        (Inl e, (s, u)) \<Rightarrow> (Inl (StoreErr '''' e), ((fst rk)\<lparr>rstore := s\<rparr>, sk u))
      | (Inr _, (s, u)) \<Rightarrow> (Inr u, ((fst rk)\<lparr>rstore := s\<rparr>, sk u)))"

definition resolveState :: "lib \<Rightarrow> (raw \<Rightarrow> nat) \<Rightarrow> (json \<Rightarrow> int) \<Rightarrow> (string \<Rightarrow> string) \<Rightarrow> writer \<Rightarrow> (nat \<Rightarrow> storeError option)
    \<Rightarrow> database \<Rightarrow> string \<Rightarrow> string \<Rightarrow> string \<Rightarrow> (resolver \<times> sink, resolverError, StateResult) comp" where
  "resolveState lb blen sha sha256 wfail cancelled d origin roomID eventID =
     bnd (onResolver (checkAccess d origin roomID)) (\<lambda>_.
     bnd (onResolver (stateIDsForEvent d roomID eventID)) (\<lambda>ids.
     bnd (put blen wfail ''{\"pdus\":['') (\<lambda>_.
     bnd (stream lb blen sha wfail cancelled d ids) (\<lambda>p.
     bnd (put blen wfail ''],\"auth_chain\":['') (\<lambda>_.
     bnd (onResolver (onStore ''auth chain'' (GetAuthChainIDsWithFallback sha256 d roomID (found p)))) (\<lambda>(authIDs, _).
     bnd (stream lb blen sha wfail cancelled d authIDs) (\<lambda>a.
     bnd (put blen wfail '']}'') (\<lambda>_ rk.
     (Inr \<lparr>srPDUs = nwritten p, srAuthChain = nwritten a, srBytes = counted (snd rk),
           PDUDigest = digestBytes (dg p), AuthChainDigest = digestBytes (dg a)\<rparr>, rk)))))))))"

section \<open>Reading a response\<close>

text \<open>\<open>scanArray\<close> and \<open>ScanStateResponse\<close> on the document the decoder walks: the visitor threads its
  own state, \<open>index\<close> counts the elements of the array being read.\<close>

fun scanArray :: "(string \<Rightarrow> nat \<Rightarrow> json \<Rightarrow> json \<Rightarrow> ('v, string, unit) comp) \<Rightarrow> string \<Rightarrow> json list \<Rightarrow> nat
    \<Rightarrow> 'v \<Rightarrow> (string option \<times> nat) \<times> 'v" where
  "scanArray visit array [] n v = ((None, n), v)"
| "scanArray visit array (x # xs) n v =
     (case Canonical (Doc x) of
        None \<Rightarrow> ((Some ''unparseable pdu'', n), v)
      | Some canonical \<Rightarrow>
          (case visit array n canonical x v of
             (Inl e, v') \<Rightarrow> ((Some e, n), v')
           | (Inr _, v') \<Rightarrow> scanArray visit array xs (n + 1) v'))"

definition ArrayPDUs :: string where "ArrayPDUs = ''pdus''"
definition ArrayAuthChain :: string where "ArrayAuthChain = ''auth_chain''"

fun scanMembers :: "(string \<Rightarrow> nat \<Rightarrow> json \<Rightarrow> json \<Rightarrow> ('v, string, unit) comp) \<Rightarrow> (string \<times> json) list \<Rightarrow> nat \<Rightarrow> nat
    \<Rightarrow> 'v \<Rightarrow> (string option \<times> nat \<times> nat) \<times> 'v" where
  "scanMembers visit [] p a v = ((None, p, a), v)"
| "scanMembers visit ((key, x) # ms) p a v =
     (if key = ArrayPDUs then
        (case x of
           JArr xs \<Rightarrow>
             (case scanArray visit ArrayPDUs xs 0 v of
                ((Some e, n), v') \<Rightarrow> ((Some e, n, a), v')
              | ((None, n), v') \<Rightarrow> scanMembers visit ms n a v')
         | _ \<Rightarrow> ((Some ''expected array'', 0, a), v))
      else if key = ArrayAuthChain then
        (case x of
           JArr xs \<Rightarrow>
             (case scanArray visit ArrayAuthChain xs 0 v of
                ((Some e, n), v') \<Rightarrow> ((Some e, p, n), v')
              | ((None, n), v') \<Rightarrow> scanMembers visit ms p n v')
         | _ \<Rightarrow> ((Some ''expected array'', p, 0), v))
      else scanMembers visit ms p a v)"

definition ScanStateResponse :: "(string \<Rightarrow> nat \<Rightarrow> json \<Rightarrow> json \<Rightarrow> ('v, string, unit) comp) \<Rightarrow> raw
    \<Rightarrow> 'v \<Rightarrow> (string option \<times> nat \<times> nat) \<times> 'v" where
  "ScanStateResponse visit r v =
     (case r of
        Doc (JObj ms) \<Rightarrow> scanMembers visit ms 0 0 v
      | Doc _ \<Rightarrow> ((Some ''expected object'', 0, 0), v)
      | Junk _ \<Rightarrow> ((Some ''invalid'', 0, 0), v))"

definition digestVisit :: "(json \<Rightarrow> int) \<Rightarrow> string \<Rightarrow> nat \<Rightarrow> json \<Rightarrow> json \<Rightarrow> (digestAccumulator \<times> digestAccumulator, string, unit) comp" where
  "digestVisit sha array i canonical x v =
     (Inr (), if array = ArrayPDUs then (digestAdd sha canonical (fst v), snd v)
              else (fst v, digestAdd sha canonical (snd v)))"

definition DigestStateResponse :: "(json \<Rightarrow> int) \<Rightarrow> raw \<Rightarrow> (string, StateResult) result" where
  "DigestStateResponse sha r =
     (case ScanStateResponse (digestVisit sha) r (emptyDigest, emptyDigest) of
        ((Some e, _), _) \<Rightarrow> Inl e
      | ((None, p, a), (pd, ad)) \<Rightarrow>
          Inr \<lparr>srPDUs = p, srAuthChain = a, srBytes = 0, PDUDigest = digestBytes pd, AuthChainDigest = digestBytes ad\<rparr>)"

section \<open>What is streamed\<close>

text \<open>The bodies of a list of identifiers, and the identifiers that count as found.\<close>

definition acceptedEvent :: "database \<Rightarrow> string \<Rightarrow> Event option" where
  "acceptedEvent d i =
     (case eventTruth d i of None \<Rightarrow> None | Some e \<Rightarrow> if RejectedReason e = '''' then Some (servedEvent d e) else None)"

definition bodyOf :: "lib \<Rightarrow> database \<Rightarrow> string \<Rightarrow> raw list" where
  "bodyOf lb d i =
     (case acceptedEvent d i of
        None \<Rightarrow> []
      | Some e \<Rightarrow> (case serialisePDU lb e of Inl _ \<Rightarrow> [] | Inr b \<Rightarrow> if depthInCanonicalRange b then [b] else []))"

definition pduBodies :: "lib \<Rightarrow> database \<Rightarrow> string list \<Rightarrow> raw list" where
  "pduBodies lb d ids = concat (map (bodyOf lb d) ids)"

definition foundIds :: "database \<Rightarrow> string list \<Rightarrow> string list" where
  "foundIds d ids = filter (\<lambda>i. acceptedEvent d i \<noteq> None) ids"

definition serialisable :: "lib \<Rightarrow> database \<Rightarrow> string list \<Rightarrow> bool" where
  "serialisable lb d ids \<longleftrightarrow> (\<forall>i \<in> set ids. \<forall>e. acceptedEvent d i = Some e \<longrightarrow>
     (\<exists>b. serialisePDU lb e = Inr b \<and> (depthInCanonicalRange b \<longrightarrow> Canonical b \<noteq> None)))"

fun sepBodies :: "nat \<Rightarrow> raw list \<Rightarrow> wtok list" where
  "sepBodies n [] = []"
| "sepBodies n (b # bs) = (if n > 0 then [Text '','', Body b] else [Body b]) @ sepBodies (n + 1) bs"

lemma sepBodies_append: "sepBodies n (xs @ ys) = sepBodies n xs @ sepBodies (n + length xs) ys"
  by (induction n xs rule: sepBodies.induct) auto

definition digestAll :: "(json \<Rightarrow> int) \<Rightarrow> raw list \<Rightarrow> digestAccumulator \<Rightarrow> digestAccumulator" where
  "digestAll sha bs d = foldl (\<lambda>d b. digestAdd sha (the (Canonical b)) d) d bs"

text \<open>The effect of streaming some bodies on what the callback closes over.\<close>

definition emitted :: "(raw \<Rightarrow> nat) \<Rightarrow> (json \<Rightarrow> int) \<Rightarrow> raw list \<Rightarrow> string list \<Rightarrow> streaming \<Rightarrow> streaming \<Rightarrow> bool" where
  "emitted blen sha bs fs u u' \<longleftrightarrow>
     written (sk u') = written (sk u) @ sepBodies (nwritten u) bs \<and>
     counted (sk u') = counted (sk u) + sum_list (map (tokBytes blen) (sepBodies (nwritten u) bs)) \<and>
     dg u' = digestAll sha bs (dg u) \<and> nwritten u' = nwritten u + length bs \<and> found u' = found u @ fs"

lemma emitted_refl: "emitted blen sha [] [] u u"
  by (simp add: emitted_def digestAll_def)

lemma emitted_trans:
  "emitted blen sha bs fs u v \<Longrightarrow> emitted blen sha bs' fs' v w \<Longrightarrow> emitted blen sha (bs @ bs') (fs @ fs') u w"
  by (simp add: emitted_def sepBodies_append digestAll_def)

lemma streamOne_emits:
  assumes "serialisePDU lb e = Inr b" and "depthInCanonicalRange b \<longrightarrow> Canonical b \<noteq> None"
  shows "\<exists>u'. streamOne lb blen sha (\<lambda>_. None) e u = (Inr (), u') \<and>
    emitted blen sha (if depthInCanonicalRange b then [b] else []) [] u u'"
  using assms
  by (auto simp: streamOne_def emitted_def digestAll_def bnd_def sOnSink_def sinkWrite_def split: option.splits)

lemma streamLoop_emits:
  assumes "serialisable lb d c"
    and "\<And>x. gget evs x = (if x \<in> set c then map_option (servedEvent d) (eventTruth d x) else None)"
  shows "\<exists>u'. streamLoop lb blen sha (\<lambda>_. None) ids evs u = (Inr (), u') \<and>
    emitted blen sha (pduBodies lb d (filter (\<lambda>i. i \<in> set c) ids)) (foundIds d (filter (\<lambda>i. i \<in> set c) ids)) u u'"
proof (induction ids arbitrary: u)
  case Nil
  then show ?case by (simp add: pduBodies_def foundIds_def emitted_refl)
next
  case (Cons eid ids)
  show ?case
  proof (cases "eid \<in> set c \<and> acceptedEvent d eid \<noteq> None")
    case False
    then have "gget evs eid = None \<or> (\<exists>ev. gget evs eid = Some ev \<and> RejectedReason ev \<noteq> '''')"
      using assms(2) [of eid] by (auto simp: acceptedEvent_def split: option.splits)
    moreover have "pduBodies lb d (filter (\<lambda>i. i \<in> set c) (eid # ids)) = pduBodies lb d (filter (\<lambda>i. i \<in> set c) ids)"
      "foundIds d (filter (\<lambda>i. i \<in> set c) (eid # ids)) = foundIds d (filter (\<lambda>i. i \<in> set c) ids)"
      using False by (auto simp: pduBodies_def foundIds_def bodyOf_def)
    ultimately show ?thesis using Cons.IH [of u] by auto
  next
    case True
    then obtain e where e: "eventTruth d eid = Some e" "RejectedReason e = ''''" "acceptedEvent d eid = Some (servedEvent d e)"
      by (auto simp: acceptedEvent_def split: option.splits if_splits)
    with True assms(2) [of eid] have g: "gget evs eid = Some (servedEvent d e)" by simp
    from assms(1) True e obtain b where b: "serialisePDU lb (servedEvent d e) = Inr b" "depthInCanonicalRange b \<longrightarrow> Canonical b \<noteq> None"
      unfolding serialisable_def by blast
    let ?u = "u\<lparr>found := found u @ [eid]\<rparr>"
    obtain u1 where u1: "streamOne lb blen sha (\<lambda>_. None) (servedEvent d e) ?u = (Inr (), u1)"
      and em: "emitted blen sha (if depthInCanonicalRange b then [b] else []) [] ?u u1"
      using streamOne_emits [OF b] by blast
    from em have em1: "emitted blen sha (bodyOf lb d eid) [eid] u u1"
      by (simp add: emitted_def bodyOf_def e(3) b(1))
    obtain u2 where u2: "streamLoop lb blen sha (\<lambda>_. None) ids evs u1 = (Inr (), u2)"
      and em2: "emitted blen sha (pduBodies lb d (filter (\<lambda>i. i \<in> set c) ids)) (foundIds d (filter (\<lambda>i. i \<in> set c) ids)) u1 u2"
      using Cons.IH by blast
    have "streamLoop lb blen sha (\<lambda>_. None) (eid # ids) evs u = (Inr (), u2)"
      using g e(2) u1 u2 by (simp add: bnd_known)
    with emitted_trans [OF em1 em2] True e(3) show ?thesis
      by (auto simp: pduBodies_def foundIds_def)
  qed
qed

lemma filter_middle:
  assumes "distinct (a @ c @ b)"
  shows "filter (\<lambda>i. i \<in> set c) (a @ c @ b) = c"
proof -
  have "filter (\<lambda>i. i \<in> set c) a = []" "filter (\<lambda>i. i \<in> set c) b = []"
    using assms by (auto simp: filter_empty_conv)
  then show ?thesis by simp
qed

text \<open>Streaming a list with repetitions may write an event more than once, so the bodies are given as a
  set, and exactly when there are none.\<close>

definition streams :: "lib \<Rightarrow> database \<Rightarrow> string list \<Rightarrow> raw list \<Rightarrow> string list \<Rightarrow> bool" where
  "streams lb d ids bs fs \<longleftrightarrow> set bs = set (pduBodies lb d ids) \<and> set fs = set (foundIds d ids) \<and>
     (distinct ids \<longrightarrow> bs = pduBodies lb d ids \<and> fs = foundIds d ids)"

lemma bodies_append:
  "pduBodies lb d (xs @ ys) = pduBodies lb d xs @ pduBodies lb d ys" "foundIds d (xs @ ys) = foundIds d xs @ foundIds d ys"
  by (simp_all add: pduBodies_def foundIds_def)

lemma bodies_set:
  "set xs = set ys \<Longrightarrow> set (pduBodies lb d xs) = set (pduBodies lb d ys) \<and> set (foundIds d xs) = set (foundIds d ys)"
  by (simp add: pduBodies_def foundIds_def)

lemma batch_emits:
  assumes "ids = pre @ c @ post" and "serialisable lb d ids"
    and "\<And>x. gget evs x = (if x \<in> set c then map_option (servedEvent d) (eventTruth d x) else None)"
  shows "\<exists>u' bs fs. streamLoop lb blen sha (\<lambda>_. None) ids evs u = (Inr (), u') \<and> emitted blen sha bs fs u u' \<and>
    set bs = set (pduBodies lb d c) \<and> set fs = set (foundIds d c) \<and> (distinct ids \<longrightarrow> bs = pduBodies lb d c \<and> fs = foundIds d c)"
proof -
  let ?f = "filter (\<lambda>i. i \<in> set c) ids"
  have "serialisable lb d c" using assms(1,2) by (auto simp: serialisable_def)
  from streamLoop_emits [OF this assms(3), where ids = ids] obtain u' where
    "streamLoop lb blen sha (\<lambda>_. None) ids evs u = (Inr (), u')"
    "emitted blen sha (pduBodies lb d ?f) (foundIds d ?f) u u'" by blast
  moreover have "set ?f = set c" using assms(1) by auto
  moreover have "distinct ids \<Longrightarrow> ?f = c" using filter_middle assms(1) by metis
  ultimately show ?thesis using bodies_set [of ?f c lb d] by (metis (no_types))
qed

lemma batches_emit:
  assumes "db_keys d" and "noFaults d" and "serialisable lb d ids" and "ids = pre @ rest" and "eventsHonest d s"
  shows "\<exists>s' u' bs fs. batches d (\<lambda>_. None) n 1000 rest (streamLoop lb blen sha (\<lambda>_. None) ids) (s, u) = (Inr (), (s', u')) \<and>
      eventsHonest d s' \<and> otherCaches s' = otherCaches s \<and> emitted blen sha bs fs u u' \<and>
      set bs = set (pduBodies lb d rest) \<and> set fs = set (foundIds d rest) \<and>
      (distinct ids \<longrightarrow> bs = pduBodies lb d rest \<and> fs = foundIds d rest)"
  using assms(4,5)
proof (induction "length rest" arbitrary: pre rest n s u rule: less_induct)
  case less
  show ?case
  proof (cases "rest = []")
    case True
    with less show ?thesis using emitted_refl by (fastforce simp: batches.simps pduBodies_def foundIds_def)
  next
    case False
    let ?c = "take 1000 rest" and ?rest = "drop 1000 rest"
    obtain r s1 where b: "bnd (getEventsRawOpt d ?c False) (applyRedactions d) s = (r, s1)" by fastforce
    note spec = loaded_then_redacted [OF assms(1) less(3), of ?c False, unfolded b Let_def]
    then obtain evs where r: "r = Inr evs" and s1: "eventsHonest d s1" "otherCaches s1 = otherCaches s"
      and evs: "\<And>x. gget evs x = (if x \<in> set ?c then map_option (servedEvent d) (eventTruth d x) else None)"
      using assms(2) by auto
    have "ids = pre @ ?c @ ?rest" using less(2) by simp
    from batch_emits [OF this assms(3) evs] obtain u1 bs1 fs1 where
      u1: "streamLoop lb blen sha (\<lambda>_. None) ids evs u = (Inr (), u1)" "emitted blen sha bs1 fs1 u u1"
      and e1: "set bs1 = set (pduBodies lb d ?c)" "set fs1 = set (foundIds d ?c)"
        "distinct ids \<longrightarrow> bs1 = pduBodies lb d ?c \<and> fs1 = foundIds d ?c" by blast
    have "length ?rest < length rest" and "ids = (pre @ ?c) @ ?rest" using False less(2) by simp_all
    from less(1) [OF this s1(1), of "Suc n" u1] obtain s' u' bs2 fs2 where
      rest: "batches d (\<lambda>_. None) (Suc n) 1000 ?rest (streamLoop lb blen sha (\<lambda>_. None) ids) (s1, u1) = (Inr (), (s', u'))"
      and s': "eventsHonest d s'" "otherCaches s' = otherCaches s1" and em: "emitted blen sha bs2 fs2 u1 u'"
      and e2: "set bs2 = set (pduBodies lb d ?rest)" "set fs2 = set (foundIds d ?rest)"
        "distinct ids \<longrightarrow> bs2 = pduBodies lb d ?rest \<and> fs2 = foundIds d ?rest" by blast
    have run: "batches d (\<lambda>_. None) n 1000 rest (streamLoop lb blen sha (\<lambda>_. None) ids) (s, u) = (Inr (), (s', u'))"
      using False b r u1(1) rest by (subst batches.simps) simp
    have "pduBodies lb d rest = pduBodies lb d ?c @ pduBodies lb d ?rest" "foundIds d rest = foundIds d ?c @ foundIds d ?rest"
      using bodies_append(1) [of lb d ?c ?rest] bodies_append(2) [of d ?c ?rest] by simp_all
    with run s' s1(2) emitted_trans [OF u1(2) em] e1 e2 show ?thesis
      by (intro exI [of _ s'] exI [of _ u'] exI [of _ "bs1 @ bs2"] exI [of _ "fs1 @ fs2"]) simp
  qed
qed

lemma streamEvents_emits:
  assumes "db_keys d" and "noFaults d" and "eventsHonest d s" and "serialisable lb d ids"
  shows "\<exists>s' u' bs fs. streamEvents lb blen sha (\<lambda>_. None) (\<lambda>_. None) d ids (s, u) = (Inr (), (s', u')) \<and>
    eventsHonest d s' \<and> otherCaches s' = otherCaches s \<and> emitted blen sha bs fs u u' \<and> streams lb d ids bs fs"
  using batches_emit [OF assms(1,2,4), where pre = "[]" and rest = ids and n = 0 and u = u, OF _ assms(3)]
  by (simp add: streamEvents_def GetEventsBatched_def DefaultEventBatch_def streams_def)

section \<open>Round trip\<close>

text \<open>The pieces of a whole response, and reading them as a document.\<close>

definition responseToks :: "raw list \<Rightarrow> raw list \<Rightarrow> wtok list" where
  "responseToks ps as = [Text ''{\"pdus\":[''] @ sepBodies 0 ps @ [Text ''],\"auth_chain\":[''] @ sepBodies 0 as @ [Text '']}'']"

fun readBodies :: "wtok list \<Rightarrow> json list \<times> wtok list" where
  "readBodies (Body (Doc j) # Text s # ts) =
     (if s = '','' then (j # fst (readBodies ts), snd (readBodies ts)) else ([j], Text s # ts))"
| "readBodies ts = ([], ts)"

definition readResponse :: "wtok list \<Rightarrow> json option" where
  "readResponse ts =
     (case ts of
        Text a # ts \<Rightarrow>
          (case readBodies ts of
             (ps, Text b # ts) \<Rightarrow>
               (case readBodies ts of
                  (as, [Text c]) \<Rightarrow>
                    if a = ''{\"pdus\":['' \<and> b = ''],\"auth_chain\":['' \<and> c = '']}''
                    then Some (JObj [(''pdus'', JArr ps), (''auth_chain'', JArr as)]) else None
                | _ \<Rightarrow> None)
           | _ \<Rightarrow> None)
      | _ \<Rightarrow> None)"

definition docOf :: "raw \<Rightarrow> json" where
  "docOf r = (case r of Doc j \<Rightarrow> j | Junk _ \<Rightarrow> JNull)"

lemma Canonical_Doc: "Canonical r \<noteq> None \<Longrightarrow> r = Doc (docOf r)"
  by (cases r) (auto simp: Canonical_def normalise_def docOf_def)

lemma readBodies_tail:
  assumes "t \<noteq> '',''" and "list_all (\<lambda>b. Canonical b \<noteq> None) (b # bs)" and "0 < n"
  shows "readBodies (Body b # sepBodies n bs @ Text t # ts) = (map docOf (b # bs), Text t # ts)"
  using assms(2,3)
proof (induction bs arbitrary: b n)
  case Nil
  then have "Canonical b \<noteq> None" by simp
  then obtain j where "b = Doc j" using Canonical_Doc by blast
  with assms(1) show ?case by (simp add: docOf_def)
next
  case (Cons c bs)
  then have "Canonical b \<noteq> None" by simp
  then obtain j where b: "b = Doc j" using Canonical_Doc by blast
  from Cons.IH [of c "n + 1"] Cons.prems show ?case by (simp add: b docOf_def)
qed

lemma readBodies_sep:
  assumes "t \<noteq> '',''" and "list_all (\<lambda>b. Canonical b \<noteq> None) bs"
  shows "readBodies (sepBodies 0 bs @ Text t # ts) = (map docOf bs, Text t # ts)"
proof (cases bs)
  case (Cons b cs)
  with readBodies_tail [OF assms(1), of b cs 1] assms(2) show ?thesis by simp
qed simp

lemma readResponse_toks:
  assumes "list_all (\<lambda>b. Canonical b \<noteq> None) (ps @ as)"
  shows "readResponse (responseToks ps as) = Some (JObj [(''pdus'', JArr (map docOf ps)), (''auth_chain'', JArr (map docOf as))])"
proof -
  have "list_all (\<lambda>b. Canonical b \<noteq> None) ps" "list_all (\<lambda>b. Canonical b \<noteq> None) as" using assms by simp_all
  then show ?thesis
    by (simp add: responseToks_def readResponse_def readBodies_sep)
qed

lemma scan_digests:
  assumes "list_all (\<lambda>b. Canonical b \<noteq> None) bs"
  shows "scanArray (digestVisit sha) array (map docOf bs) n v =
    ((None, n + length bs), if array = ArrayPDUs then (digestAll sha bs (fst v), snd v) else (fst v, digestAll sha bs (snd v)))"
  using assms
proof (induction bs arbitrary: n v)
  case (Cons b bs)
  then obtain c where c: "Canonical b = Some c" by auto
  then have "Canonical (Doc (docOf b)) = Some c" by (metis Canonical_Doc option.distinct(1))
  with Cons c show ?case by (simp add: digestVisit_def digestAll_def)
qed (simp add: digestAll_def)

lemma digest_response:
  assumes "list_all (\<lambda>b. Canonical b \<noteq> None) (ps @ as)"
  shows "DigestStateResponse sha (Doc (JObj [(''pdus'', JArr (map docOf ps)), (''auth_chain'', JArr (map docOf as))])) =
    Inr \<lparr>srPDUs = length ps, srAuthChain = length as, srBytes = 0, PDUDigest = digestBytes (digestAll sha ps emptyDigest),
      AuthChainDigest = digestBytes (digestAll sha as emptyDigest)\<rparr>"
proof -
  have "list_all (\<lambda>b. Canonical b \<noteq> None) ps" "list_all (\<lambda>b. Canonical b \<noteq> None) as" using assms by simp_all
  then show ?thesis
    by (simp add: DigestStateResponse_def ScanStateResponse_def ArrayPDUs_def ArrayAuthChain_def scan_digests)
qed

section \<open>Properties\<close>

lemma meets_run: "meets I m R \<Longrightarrow> I s \<Longrightarrow> m s = (x, s') \<Longrightarrow> I s' \<and> R x"
  by (metis fst_conv meets_def snd_conv)

lemma put_ok:
  "put blen (\<lambda>_. None) t (r, k) =
    (Inr (), (r, k\<lparr>written := written k @ [Text t], writes := writes k + 1, counted := counted k + int (length t)\<rparr>))"
  by (simp add: put_def sinkWrite_def tokBytes_def)

lemma stream_ok:
  assumes "db_keys d" and "noFaults d" and "resolverHonest d P r" and "serialisable lb d ids"
  shows "\<exists>r' u bs fs. stream lb blen sha (\<lambda>_. None) (\<lambda>_. None) d ids (r, k) = (Inr u, (r', sk u)) \<and>
    resolverHonest d P r' \<and> emitted blen sha bs fs (newStreaming k) u \<and> streams lb d ids bs fs"
proof -
  have "eventsHonest d (rstore r)" "stateHonest d (rstore r)" using assms(3) by (simp_all add: resolverHonest_def)
  from streamEvents_emits [OF assms(1,2) this(1) assms(4)] obtain s' u bs fs where
    run: "streamEvents lb blen sha (\<lambda>_. None) (\<lambda>_. None) d ids (rstore r, newStreaming k) = (Inr (), (s', u))"
    and s': "eventsHonest d s'" "otherCaches s' = otherCaches (rstore r)"
    and em: "emitted blen sha bs fs (newStreaming k) u" "streams lb d ids bs fs" by blast
  have "stateHonest d s'" "authChains s' = authChains (rstore r)"
    using otherCaches_kept [OF s'(2)] \<open>stateHonest d (rstore r)\<close> by blast+
  with resolverHonest_store [OF assms(3) s'(1)] assms(3) have "resolverHonest d P (r\<lparr>rstore := s'\<rparr>)"
    by (simp add: resolverHonest_def)
  with run em show ?thesis by (auto simp: stream_def)
qed

lemma bodies_canonical:
  assumes "serialisable lb d ids" and "set bs = set (pduBodies lb d ids)"
  shows "list_all (\<lambda>b. Canonical b \<noteq> None) bs"
proof -
  have "Canonical b \<noteq> None" if b: "b \<in> set (pduBodies lb d ids)" for b
  proof -
    from b obtain i e where i: "i \<in> set ids" "acceptedEvent d i = Some e" "serialisePDU lb e = Inr b" "depthInCanonicalRange b"
      by (auto simp: pduBodies_def bodyOf_def split: option.splits sum.splits if_splits) metis
    from assms(1) i(1,2) obtain b' where "serialisePDU lb e = Inr b'" "depthInCanonicalRange b' \<longrightarrow> Canonical b' \<noteq> None"
      unfolding serialisable_def by blast
    with i(3,4) show ?thesis by simp
  qed
  with assms(2) show ?thesis by (simp add: list_all_iff)
qed

text \<open>C21. \<open>/state\<close> streams the right response: for a server the gates let in and an event whose state is
  known, on a database that answers and a writer that takes everything, it writes one well-formed
  response whose first array holds, in order, the accepted and canonical events of the state before
  the event, and whose second array holds those of the auth ancestors of the events found, the ones
  the depth filter drops included; it counts them, and its caches stay honest.\<close>

theorem state_stream_exact:
  assumes "db_keys d" and "noFaults d" and "edges_ok d" and "index_valid d" and "separates sha256 A" and "askable A"
    and "resolverHonest d (authTrue sha256 d A) r" and "gates d origin room = Inr ()"
    and "stateIDsAnswer d room eid = Inr ids" and "distinct ids" and "(room, foundIds d ids) \<in> A"
    and "serialisable lb d ids" and "\<forall>out. set out = authAncestors d (set (foundIds d ids)) \<longrightarrow> serialisable lb d out"
  shows "\<exists>res r' k' as. resolveState lb blen sha sha256 (\<lambda>_. None) (\<lambda>_. None) d origin room eid (r, \<lparr>written = [], writes = 0, counted = 0\<rparr>) =
      (Inr res, (r', k')) \<and> resolverHonest d (authTrue sha256 d A) r' \<and>
    written k' = responseToks (pduBodies lb d ids) as \<and>
    set as = (\<Union>i \<in> authAncestors d (set (foundIds d ids)). set (bodyOf lb d i)) \<and>
    list_all (\<lambda>b. Canonical b \<noteq> None) (pduBodies lb d ids @ as) \<and>
    res = \<lparr>srPDUs = length (pduBodies lb d ids), srAuthChain = length as, srBytes = sum_list (map (tokBytes blen) (written k')),
      PDUDigest = digestBytes (digestAll sha (pduBodies lb d ids) emptyDigest), AuthChainDigest = digestBytes (digestAll sha as emptyDigest)\<rparr>"
proof -
  let ?I = "resolverHonest d (authTrue sha256 d A)" and ?k = "\<lparr>written = [], writes = 0, counted = 0\<rparr> :: sink"
  obtain r1 where r1: "checkAccess d origin room r = (Inr (), r1)" "?I r1"
    using meets_run [OF checkAccess_meets [OF assms(1)] assms(7)] assms(8) by (metis surj_pair)
  obtain r2 where r2: "stateIDsForEvent d room eid r1 = (Inr ids, r2)" "?I r2"
    using meets_run [OF stateIDsForEvent_meets [OF assms(1-3)] r1(2)] assms(9) by (metis surj_pair)
  obtain k1 where k1: "put blen (\<lambda>_. None) ''{\"pdus\":['' (r2, ?k) = (Inr (), (r2, k1))"
    "written k1 = [Text ''{\"pdus\":['']" "counted k1 = int (length ''{\"pdus\":['')" unfolding put_ok by simp
  from stream_ok [OF assms(1,2) r2(2) assms(12)] assms(10) obtain r3 p where
    p: "stream lb blen sha (\<lambda>_. None) (\<lambda>_. None) d ids (r2, k1) = (Inr p, (r3, sk p))" "?I r3"
      "emitted blen sha (pduBodies lb d ids) (foundIds d ids) (newStreaming k1) p"
    unfolding streams_def by blast
  then have fp: "found p = foundIds d ids" by (simp add: emitted_def newStreaming_def)
  obtain k2 where k2: "put blen (\<lambda>_. None) ''],\"auth_chain\":['' (r3, sk p) = (Inr (), (r3, k2))"
    "written k2 = written (sk p) @ [Text ''],\"auth_chain\":['']" "counted k2 = counted (sk p) + int (length ''],\"auth_chain\":['')"
    unfolding put_ok by simp
  obtain out fb r4 where a: "onStore ''auth chain'' (GetAuthChainIDsWithFallback sha256 d room (found p)) r3 = (Inr (out, fb), r4)"
    "?I r4" "set out = authAncestors d (set (foundIds d ids))"
    using meets_run [OF authChain_meets [OF assms(4-6,11,2)] p(2)] unfolding fp by (metis surj_pair)
  have ser: "serialisable lb d out" using assms(13) a(3) by blast
  from stream_ok [OF assms(1,2) a(2) ser] obtain r5 q as fs where
    q: "stream lb blen sha (\<lambda>_. None) (\<lambda>_. None) d out (r4, k2) = (Inr q, (r5, sk q))" "?I r5"
      "emitted blen sha as fs (newStreaming k2) q" "streams lb d out as fs" by blast
  obtain k3 where k3: "put blen (\<lambda>_. None) '']}'' (r5, sk q) = (Inr (), (r5, k3))"
    "written k3 = written (sk q) @ [Text '']}'']" "counted k3 = counted (sk q) + int (length '']}'')" unfolding put_ok by simp
  let ?res = "\<lparr>srPDUs = nwritten p, srAuthChain = nwritten q, srBytes = counted k3, PDUDigest = digestBytes (dg p), AuthChainDigest = digestBytes (dg q)\<rparr>"
  have run: "resolveState lb blen sha sha256 (\<lambda>_. None) (\<lambda>_. None) d origin room eid (r, ?k) = (Inr ?res, (r5, k3))"
    unfolding resolveState_def using r1(1) r2(1) k1(1) p(1) k2(1) a(1) q(1) k3(1)
    by (simp add: bnd_def onResolver_def)
  have w: "written k3 = responseToks (pduBodies lb d ids) as"
    using k1 k2 k3 p(3) q(3) by (simp add: responseToks_def emitted_def newStreaming_def)
  have n: "counted k3 = sum_list (map (tokBytes blen) (written k3))"
    unfolding w using k1(3) k2(3) k3(3) p(3) q(3) by (simp add: responseToks_def emitted_def newStreaming_def tokBytes_def)
  have as: "set as = set (pduBodies lb d out)" using q(4) by (simp add: streams_def)
  have "list_all (\<lambda>b. Canonical b \<noteq> None) (pduBodies lb d ids @ as)"
    using bodies_canonical [OF assms(12) refl] bodies_canonical [OF ser as] by simp
  moreover have "set as = (\<Union>i \<in> authAncestors d (set (foundIds d ids)). set (bodyOf lb d i))"
    by (simp add: as pduBodies_def flip: a(3))
  ultimately show ?thesis
    using run q(2) w n p(3) q(3) by (auto simp: emitted_def newStreaming_def)
qed


lemma digestAll_sum:
  "dsum (digestAll sha bs d) = dsum d + sum_list (map (\<lambda>b. sha (the (Canonical b))) bs) \<and>
   dcount (digestAll sha bs d) = dcount d + length bs"
  by (induction bs arbitrary: d) (simp_all add: digestAll_def digestAdd_def)

lemma digits_determine:
  "(\<And>j. j < n \<Longrightarrow> v div 256 ^ j mod 256 = w div 256 ^ j mod 256) \<Longrightarrow> v mod 256 ^ n = w mod (256 ^ n :: int)"
proof (induction n)
  case (Suc n)
  have "x mod 256 ^ Suc n = 256 ^ n * (x div 256 ^ n mod 256) + x mod 256 ^ n" for x :: int
    using mod_mult2_eq' [of x "256 ^ n" 256] by (simp add: mult.commute)
  with Suc show ?case by simp
qed simp

lemma digestBytes_sum: "digestBytes d = digestBytes e \<longleftrightarrow> dsum d mod 2 ^ 256 = dsum e mod 2 ^ 256"
proof
  assume eq: "digestBytes d = digestBytes e"
  have "dsum d mod 2 ^ 256 div 256 ^ j mod 256 = dsum e mod 2 ^ 256 div 256 ^ j mod 256" if "j < 32" for j
  proof -
    have "digestBytes x ! (31 - j) = dsum x mod 2 ^ 256 div 2 ^ (8 * j) mod 256" for x
      using that nth_upt [of 0 "31 - j" 32] by (simp add: digestBytes_def)
    moreover have "(2 :: int) ^ (8 * j) = 256 ^ j" by (simp add: power_mult)
    ultimately show ?thesis using eq by metis
  qed
  then have "dsum d mod 2 ^ 256 mod 256 ^ 32 = dsum e mod 2 ^ 256 mod 256 ^ 32" by (rule digits_determine)
  then show "dsum d mod 2 ^ 256 = dsum e mod 2 ^ 256" by simp
qed (simp add: digestBytes_def)

text \<open>A digest does not see the order of the events, and does see how often one occurs: equal
  multisets of canonical forms have equal digests, and one more copy of an event changes the digest
  unless its hash is zero modulo \<open>2 ^ 256\<close>.\<close>

theorem digest_of_multiset:
  "(mset (map Canonical xs) = mset (map Canonical ys) \<longrightarrow>
      digestBytes (digestAll sha xs emptyDigest) = digestBytes (digestAll sha ys emptyDigest)) \<and>
   (digestBytes (digestAll sha (x # xs) emptyDigest) = digestBytes (digestAll sha xs emptyDigest) \<longrightarrow>
      sha (the (Canonical x)) mod 2 ^ 256 = 0)"
proof -
  have sum: "dsum (digestAll sha zs emptyDigest) = sum_mset (image_mset (\<lambda>c. sha (the c)) (mset (map Canonical zs)))" for zs
    using digestAll_sum [of sha zs emptyDigest]
    by (simp add: emptyDigest_def multiset.map_comp comp_def flip: sum_mset_sum_list)
  have "dsum (digestAll sha (x # xs) emptyDigest) = sha (the (Canonical x)) + dsum (digestAll sha xs emptyDigest)"
    by (simp add: sum)
  then have "digestBytes (digestAll sha (x # xs) emptyDigest) = digestBytes (digestAll sha xs emptyDigest) \<Longrightarrow>
      sha (the (Canonical x)) mod 2 ^ 256 = 0"
    unfolding digestBytes_sum by (metis add_diff_cancel_right' mod_0 mod_diff_eq diff_self)
  moreover have "mset (map Canonical xs) = mset (map Canonical ys) \<Longrightarrow>
      digestBytes (digestAll sha xs emptyDigest) = digestBytes (digestAll sha ys emptyDigest)"
    unfolding digestBytes_sum sum by simp
  ultimately show ?thesis by blast
qed

theorem digest_of_multiset_witness:
  "digestBytes (digestAll (\<lambda>_. 1) [Doc (JObj []), Doc JNull] emptyDigest) =
     digestBytes (digestAll (\<lambda>_. 1) [Doc JNull, Doc (JObj [])] emptyDigest) \<and>
   digestBytes (digestAll (\<lambda>_. 1) [Doc JNull, Doc JNull] emptyDigest) \<noteq> digestBytes (digestAll (\<lambda>_. 1) [Doc JNull] emptyDigest)"
  using digest_of_multiset [of "[Doc (JObj []), Doc JNull]" "[Doc JNull, Doc (JObj [])]" "\<lambda>_. 1" "Doc JNull"]
    digest_of_multiset [of "[Doc JNull]" "[]" "\<lambda>_. 1" "Doc JNull"]
  by (simp add: add_mset_commute)


definition stEvent :: "string \<Rightarrow> Event" where
  "stEvent i = \<lparr>EventID = i, RoomID = ''!r'', EType = ''m.room.power_levels'', EStateKey = Some '''', RoomVersion = ''10'',
     EJSON = ej_json (visJson i []), InternalMetadata = Doc (JObj []), StreamOrdering = 1, Outlier = False, FormatVersion = 3,
     RejectedReason = '''', RedactedBy = ''''\<rparr>"

lemma stDb_events: "acceptedEvent stDb ''$b'' = Some (stEvent ''$b'')" "acceptedEvent stDb ''$c'' = Some (stEvent ''$c'')"
  by code_simp+

lemma stEvent_wire:
  "serialisePDU refLib (stEvent i) = Inr (visMsg [])" "Canonical (visMsg []) \<noteq> None" "depthInCanonicalRange (visMsg [])"
proof -
  have "unmarshalMap ''unsigned'' (ej_json (visJson i [])) = Some []" by code_simp
  then show "serialisePDU refLib (stEvent i) = Inr (visMsg [])"
    by (simp add: serialisePDU_def stEvent_def IsRedacted_def applyPDUJSONRulesAt_def keepFields_def persistedUnsignedFields_def
        ageOf_def marshalMap_def refLib_def refSetRaw_def) (simp add: visJson_def)
  show "Canonical (visMsg []) \<noteq> None" "depthInCanonicalRange (visMsg [])" by code_simp+
qed

theorem state_stream_exact_witness:
  "\<exists>res r' k'. resolveState refLib (\<lambda>_. 1) (\<lambda>_. 1) (\<lambda>x. x) (\<lambda>_. None) (\<lambda>_. None) stDb ''srv'' ''!r'' ''$m''
       (freshResolver, \<lparr>written = [], writes = 0, counted = 0\<rparr>) = (Inr res, (r', k')) \<and>
     srPDUs res = 1 \<and> visMsg [] \<in> set (pduBodies refLib stDb [''$b''])"
proof -
  let ?A = "{(''!r'', [''$b''])}"
  have ids: "stateIDsAnswer stDb ''!r'' ''$m'' = Inr [''$b'']" by code_simp
  have g: "gates stDb ''srv'' ''!r'' = Inr ()" by code_simp
  have A: "separates (\<lambda>x. x) ?A" "askable ?A" by (simp_all add: separates_def askable_def)
  have hon: "resolverHonest stDb (authTrue (\<lambda>x. x) stDb ?A) freshResolver"
    by (rule freshResolver_honest) (simp add: authTrue_def freshStore_inv freshStore_empty)
  have f: "foundIds stDb [''$b''] = [''$b'']" by (simp add: foundIds_def stDb_events)
  have E: "authEdges stDb = {(''$b'', ''$c''), (''$m'', ''$b'')}" by (simp add: stDb_ok(5) authDb_edges)
  have "x = ''$c''" if "(''$b'', x) \<in> (authEdges stDb)\<^sup>+" for x
  proof -
    from tranclD [OF that] have "(''$c'', x) \<in> (authEdges stDb)\<^sup>*" by (auto simp: E)
    then show ?thesis by (cases rule: converse_rtranclE) (auto simp: E)
  qed
  then have anc: "authAncestors stDb {''$b''} = {''$c''}" by (auto simp: authAncestors_def E)
  have c: "\<exists>y. Canonical (visMsg []) = Some y" using stEvent_wire(2) by auto
  have s1: "serialisable refLib stDb [''$b'']" using c by (simp add: serialisable_def stDb_events stEvent_wire)
  have s2: "\<forall>out. set out = authAncestors stDb (set (foundIds stDb [''$b''])) \<longrightarrow> serialisable refLib stDb out"
    using c by (simp add: f anc serialisable_def stDb_events stEvent_wire)
  have b: "pduBodies refLib stDb [''$b''] = [visMsg []]"
    by (simp add: pduBodies_def bodyOf_def stDb_events stEvent_wire)
  have "distinct [''$b'']" and "(''!r'', foundIds stDb [''$b'']) \<in> ?A" by (simp_all add: f)
  from state_stream_exact [OF stDb_ok(1-4) A hon g ids this s1 s2, of "\<lambda>_. 1" "\<lambda>_. 1"] b show ?thesis by auto
qed

end
