(* ===== verification/Native.thy ===== *)
theory Native
  imports StateStream
begin

text \<open>
  \<open>internal/native\<close>: the dispatch of a request to the resolver, and how its errors become answers.
  The \<open>Resolver\<close> interface is a record of operations on a state of its own; the resolver of
  \<open>internal/matrixstate\<close> is one.  A request body is bytes, and \<open>parse\<close> reads them as a document; a
  response body is its document, \<open>None\<close> for no bytes at all.
\<close>

record 's nativeResolver =
  nStateIDs :: "string \<Rightarrow> string \<Rightarrow> string \<Rightarrow> ('s, resolverError, StateIDsResponse) comp"
  nEvent :: "string \<Rightarrow> string \<Rightarrow> string \<Rightarrow> ('s, resolverError, TransactionResponse) comp"
  nGetMissingEvents :: "string \<Rightarrow> string \<Rightarrow> string \<Rightarrow> string list \<Rightarrow> string list \<Rightarrow> int
    \<Rightarrow> ('s, resolverError, MissingEventsResponse) comp"

record nativeRequest =
  reqEndpoint :: string
  reqOrigin :: string
  reqRoomID :: string
  reqEventID :: string
  reqBody :: string

section \<open>The request body\<close>

record MissingEventsRequest =
  EarliestEvents :: "string list"
  LatestEvents :: "string list"
  Limit :: "int option"

text \<open>
  A \<open>[]string\<close> field: an array is decoded over the elements already there, so that \<open>null\<close> leaves the
  element of an earlier occurrence of the field, and is the empty string otherwise.
\<close>

fun decodeElems :: "json list \<Rightarrow> string list \<Rightarrow> string list option" where
  "decodeElems [] old = Some []"
| "decodeElems (JStr s # vs) old = map_option (Cons s) (decodeElems vs (tl old))"
| "decodeElems (JNull # vs) old = map_option (Cons (case old of [] \<Rightarrow> '''' | x # _ \<Rightarrow> x)) (decodeElems vs (tl old))"
| "decodeElems (_ # vs) old = None"

fun decodeStrings :: "json list \<Rightarrow> string list \<Rightarrow> string list option" where
  "decodeStrings [] acc = Some acc"
| "decodeStrings (JArr es # vs) acc = Option.bind (decodeElems es acc) (decodeStrings vs)"
| "decodeStrings (JNull # vs) acc = decodeStrings vs []"
| "decodeStrings (_ # vs) acc = None"

text \<open>A \<open>*int\<close> field.\<close>

fun decodeIntPtr :: "json list \<Rightarrow> int option \<Rightarrow> int option option" where
  "decodeIntPtr [] acc = Some acc"
| "decodeIntPtr (JNum s # vs) acc = (case parseInt64 s of None \<Rightarrow> None | Some n \<Rightarrow> decodeIntPtr vs (Some n))"
| "decodeIntPtr (JNull # vs) acc = decodeIntPtr vs None"
| "decodeIntPtr (_ # vs) acc = None"

definition decodeMissing :: "raw \<Rightarrow> MissingEventsRequest option" where
  "decodeMissing r =
     Option.bind (topObj r) (\<lambda>ms.
     Option.bind (decodeStrings (fieldVals ''earliest_events'' ms) []) (\<lambda>earliest.
     Option.bind (decodeStrings (fieldVals ''latest_events'' ms) []) (\<lambda>latest.
     Option.bind (decodeIntPtr (fieldVals ''limit'' ms) None) (\<lambda>lim.
     Some \<lparr>EarliestEvents = earliest, LatestEvents = latest, Limit = lim\<rparr>))))"

section \<open>Answers\<close>

datatype nativeError =
    Internal resolverError
  | MarshalError
  | NoImplementation string
  | ErrPanicked

record nativeAnswer =
  aBody :: "json option"
  aStatus :: int
  aTruncated :: bool

text \<open>\<open>json.Marshal\<close> of a slice of raw messages: bytes that are not JSON make it fail.\<close>

fun marshalRaws :: "raw list \<Rightarrow> json list option" where
  "marshalRaws [] = Some []"
| "marshalRaws (Doc j # rs) = map_option (Cons j) (marshalRaws rs)"
| "marshalRaws (Junk b # rs) = None"

definition marshalStateIDs :: "StateIDsResponse \<Rightarrow> json" where
  "marshalStateIDs r = JObj [(''pdu_ids'', JArr (map JStr (PDUIDs r))), (''auth_chain_ids'', JArr (map JStr (AuthChainIDs r)))]"

definition marshalTransaction :: "TransactionResponse \<Rightarrow> json option" where
  "marshalTransaction r =
     map_option (\<lambda>ps. JObj [(''origin'', JStr (Origin r)), (''origin_server_ts'', JNum (itoa (OriginServerTS r))), (''pdus'', JArr ps)])
       (marshalRaws (PDUs r))"

definition marshalMissing :: "MissingEventsResponse \<Rightarrow> json option" where
  "marshalMissing r = map_option (\<lambda>es. JObj [(''events'', JArr es)]) (marshalRaws (Events r))"

definition answered :: "json option \<Rightarrow> int \<Rightarrow> bool \<Rightarrow> nativeAnswer" where
  "answered b st t = \<lparr>aBody = b, aStatus = st, aTruncated = t\<rparr>"

definition matrixError :: "resolverError \<Rightarrow> (nativeError, nativeAnswer) result" where
  "matrixError e =
     (case e of
        MErr me \<Rightarrow> Inr (answered (Some (fst (ErrorResponse me))) (Status me) False)
      | _ \<Rightarrow> Inl (Internal e))"

definition Answer :: "(string \<Rightarrow> raw) \<Rightarrow> 's nativeResolver \<Rightarrow> string \<Rightarrow> nativeRequest \<Rightarrow> 's \<Rightarrow> (nativeError, nativeAnswer) result \<times> 's" where
  "Answer parse r serverName q s =
     (if reqEndpoint q = ''state_ids'' then
        (case nStateIDs r (reqOrigin q) (reqRoomID q) (reqEventID q) s of
           (Inl e, s) \<Rightarrow> (matrixError e, s)
         | (Inr resp, s) \<Rightarrow> (Inr (answered (Some (marshalStateIDs resp)) 200 False), s))
      else if reqEndpoint q = ''get_missing_events'' then
        (case (if reqBody q \<noteq> '''' then decodeMissing (parse (reqBody q))
               else Some \<lparr>EarliestEvents = [], LatestEvents = [], Limit = None\<rparr>) of
           None \<Rightarrow> (matrixError (MErr ErrBadJSON), s)
         | Some b \<Rightarrow>
             (case nGetMissingEvents r (reqOrigin q) serverName (reqRoomID q) (EarliestEvents b) (LatestEvents b)
                     (case Limit b of None \<Rightarrow> 10 | Some n \<Rightarrow> n) s of
                (Inl e, s) \<Rightarrow> (matrixError e, s)
              | (Inr resp, s) \<Rightarrow>
                  ((case marshalMissing resp of None \<Rightarrow> Inl MarshalError
                    | Some j \<Rightarrow> Inr (answered (Some j) 200 (WalkTruncated resp))), s)))
      else if reqEndpoint q = ''event'' then
        (case nEvent r (reqOrigin q) serverName (reqEventID q) s of
           (Inl ErrEventNotFound, s) \<Rightarrow> (Inr (answered None 404 False), s)
         | (Inl e, s) \<Rightarrow> (matrixError e, s)
         | (Inr resp, s) \<Rightarrow>
             ((case marshalTransaction resp of None \<Rightarrow> Inl MarshalError | Some j \<Rightarrow> Inr (answered (Some j) 200 False)), s))
      else (Inl (NoImplementation (reqEndpoint q)), s))"

text \<open>The resolver of \<open>internal/matrixstate\<close> over a database.\<close>

definition dbResolver :: "lib \<Rightarrow> (string \<Rightarrow> string) \<Rightarrow> database \<Rightarrow> int \<Rightarrow> resolver nativeResolver" where
  "dbResolver lb sha d now =
     \<lparr>nStateIDs = StateIDs sha d, nEvent = resolveEvent lb d now, nGetMissingEvents = resolveMissingEvents lb d now\<rparr>"

end
