(* ===== verification/Handler.thy ===== *)
theory Handler
  imports Routing Native
begin

text \<open>
  The request path of \<open>internal/fedapi\<close> (\<open>handler.go\<close>, \<open>canary.go\<close>, \<open>stream.go\<close>, \<open>ratelimit.go\<close>): one
  request, from routing to the answer, with everything that is not this package as inputs: what the
  verifier, the rate limiter, the request's context, the client's connection and the upstream do.
  Durations, log lines and histograms are left out; what is written to the client is a list of
  effects in order.
\<close>

section \<open>The streamed response\<close>

text \<open>\<open>lazyResponse\<close>; \<open>deadline\<close> is the write deadline the connection carries.\<close>

record lazyResponse =
  lrIdle :: int
  noDeadline :: bool
  refreshAt :: int
  lwritten :: bool
  lbytes :: int
  deadline :: "int option"

definition newLazy :: "int \<Rightarrow> lazyResponse" where
  "newLazy i = \<lparr>lrIdle = i, noDeadline = False, refreshAt = 0, lwritten = False, lbytes = 0, deadline = None\<rparr>"

text \<open>\<open>settable\<close>: whether \<open>SetWriteDeadline\<close> succeeds.\<close>

definition refreshDeadline :: "bool \<Rightarrow> int \<Rightarrow> lazyResponse \<Rightarrow> lazyResponse" where
  "refreshDeadline settable now l =
     (if lrIdle l \<le> 0 \<or> noDeadline l then l
      else if now < refreshAt l then l
      else if \<not> settable then l\<lparr>noDeadline := True\<rparr>
      else l\<lparr>deadline := Some (now + lrIdle l), refreshAt := now + lrIdle l div 4\<rparr>)"

definition lazyWrite :: "bool \<Rightarrow> int \<Rightarrow> int \<Rightarrow> lazyResponse \<Rightarrow> lazyResponse" where
  "lazyWrite settable now n l =
     (let l = refreshDeadline settable now (l\<lparr>lwritten := True\<rparr>) in l\<lparr>lbytes := lbytes l + n\<rparr>)"

definition clearDeadline :: "lazyResponse \<Rightarrow> lazyResponse" where
  "clearDeadline l = (if noDeadline l then l else l\<lparr>deadline := None\<rparr>)"

section \<open>What is written\<close>

datatype effect =
    SetHeader string string
  | WriteHeader int
  | WriteJSON "json option"
  | WriteText string
  | WriteStream "wtok list"

definition jsonType :: effect where
  "jsonType = SetHeader ''Content-Type'' ''application/json''"

definition httpError :: "string \<Rightarrow> int \<Rightarrow> effect list" where
  "httpError msg st =
     [SetHeader ''Content-Type'' ''text/plain; charset=utf-8'', SetHeader ''X-Content-Type-Options'' ''nosniff'',
      WriteHeader st, WriteText (msg @ [CHR 0x0A])]"

definition retrySeconds :: "int \<Rightarrow> int" where
  "retrySeconds ms = - ((- ms) div 1000)"

definition writeLimitExceeded :: "FederationSettings \<Rightarrow> effect list" where
  "writeLimitExceeded s =
     [SetHeader ''Retry-After'' (itoa (retrySeconds (RetryAfterMS s))), jsonType, WriteHeader 429,
      WriteJSON (Some (JObj [(''errcode'', JStr ''M_LIMIT_EXCEEDED''), (''error'', JStr ''Too Many Requests''),
        (''retry_after_ms'', JNum (itoa (RetryAfterMS s)))]))]"

definition statusText :: "int \<Rightarrow> string" where
  "statusText st =
     (if 200 \<le> st \<and> st < 300 then ''2xx''
      else if st = 404 then ''404'' else if st = 403 then ''403'' else if st = 401 then ''401'' else ''other'')"

section \<open>Inputs\<close>

datatype ctxErr = DeadlineExceeded | Canceled

datatype acquired = Acquired | LimitExceeded | QueueGone

text \<open>What serving natively needs: the libraries, hashes, clock and database of the resolver.\<close>

record natives =
  nlib :: lib
  nblen :: "raw \<Rightarrow> nat"
  nsha :: "json \<Rightarrow> int"
  nsha256 :: "string \<Rightarrow> string"
  ncancelled :: "nat \<Rightarrow> storeError option"
  ndb :: database
  nnow :: int
  nparse :: "string \<Rightarrow> raw"

record proxyResult =
  pStatus :: int
  pCanceled :: bool
  pErr :: bool

text \<open>
  \<open>eVerified\<close> is the origin the verifier established, if it accepted the request; \<open>eCtx\<close> the state of
  the native context when an answer failed; \<open>ePanic\<close> whether computing it panicked; \<open>eWrites\<close> which
  writes to the client fail; \<open>eGone\<close> whether the client has gone before the request is forwarded.
\<close>

record env =
  eAcquire :: acquired
  eVerified :: "string option"
  eCtx :: "ctxErr option"
  ePanic :: bool
  eWrites :: writer
  eGone :: bool
  eUpstream :: proxyResult

record httpRequest =
  urlPath :: string
  escapedPath :: string
  rawQuery :: string
  claimedOrigin :: string
  bodyRead :: "string option"

record handler =
  hModes :: "(string, Mode) gomap"
  hResolver :: "natives option"
  hShadow :: bool
  hServerName :: string
  hCaptureLimit :: int
  hLimits :: FederationSettings
  limitedOrigins :: "string list"

definition newHandler :: "Config \<Rightarrow> bool \<Rightarrow> handler" where
  "newHandler cfg runner =
     \<lparr>hModes = ByName (EndpointsCfg cfg), hResolver = None, hShadow = runner, hServerName = ServerName cfg,
      hCaptureLimit = (let n = MB (CaptureMB (ShadowCfg cfg)) in if n \<le> 0 then MB 32 else n),
      hLimits = withDefaults (RCFederation cfg), limitedOrigins = []\<rparr>"

definition WithNative :: "natives \<Rightarrow> handler \<Rightarrow> handler" where
  "WithNative nv h = h\<lparr>hResolver := Some nv\<rparr>"

section \<open>Serving natively\<close>

record nativeResult =
  Served :: bool
  Reason :: string
  ServedStatus :: int
  ServedRoom :: string
  ServedState :: "StateResult option"
  ServedAnswer :: "nativeAnswer option"

text \<open>A handler returns, or aborts the connection by panicking with \<open>http.ErrAbortHandler\<close>.\<close>

datatype 'a completion = Completed 'a "effect list" | AbortHandler string "effect list"

definition declined :: "string \<Rightarrow> nativeResult" where
  "declined reason = \<lparr>Served = False, Reason = reason, ServedStatus = 0, ServedRoom = '''', ServedState = None, ServedAnswer = None\<rparr>"

definition servedAs :: "int \<Rightarrow> string \<Rightarrow> StateResult option \<Rightarrow> nativeResult" where
  "servedAs st room sr = \<lparr>Served = True, Reason = '''', ServedStatus = st, ServedRoom = room, ServedState = sr, ServedAnswer = None\<rparr>"

definition failReason :: "ctxErr option \<Rightarrow> string" where
  "failReason c = (case c of Some DeadlineExceeded \<Rightarrow> ''timeout'' | Some Canceled \<Rightarrow> ''client_gone'' | None \<Rightarrow> ''error'')"

text \<open>A write that missed its deadline fails with \<open>os.ErrDeadlineExceeded\<close>.\<close>

definition writeTimedOut :: "resolverError \<Rightarrow> bool" where
  "writeTimedOut e \<longleftrightarrow> e = StoreErr '''' (FnError ''i/o timeout'')"

definition classifyCommitted :: "ctxErr option \<Rightarrow> resolverError \<Rightarrow> string" where
  "classifyCommitted c e =
     (if writeTimedOut e then ''stream_stalled''
      else if c = Some Canceled then ''client_gone''
      else if c = Some DeadlineExceeded then ''timeout'' else ''stream_aborted'')"

definition streamEffects :: "wtok list \<Rightarrow> effect list" where
  "streamEffects toks = [jsonType, WriteHeader 200, WriteStream toks]"

text \<open>Nothing recovers a panic of the streaming resolver: it ends the connection like an abort.\<close>

definition serveStreamed :: "natives \<Rightarrow> env \<Rightarrow> string \<Rightarrow> string \<Rightarrow> string \<Rightarrow> resolver
    \<Rightarrow> nativeResult completion \<times> resolver" where
  "serveStreamed nv env roomID eventID origin r =
     (if ePanic env then (AbortHandler ''panic'' [], r)
      else case resolveState (nlib nv) (nblen nv) (nsha nv) (nsha256 nv) (eWrites env) (ncancelled nv) (ndb nv)
             origin roomID eventID (r, \<lparr>written = [], writes = 0, counted = 0\<rparr>) of
        (Inr res, (r, k)) \<Rightarrow> (Completed (servedAs 200 '''' (Some res)) (streamEffects (written k)), r)
      | (Inl e, (r, k)) \<Rightarrow>
          if writes k > 0 then (AbortHandler (classifyCommitted (eCtx env) e) (streamEffects (written k)), r)
          else
            (case e of
               MErr me \<Rightarrow>
                 (Completed (servedAs (Status me) '''' None)
                    [jsonType, WriteHeader (Status me), WriteJSON (Some (fst (ErrorResponse me)))], r)
             | _ \<Rightarrow> (Completed (declined (failReason (eCtx env))) [], r)))"

definition answer :: "natives \<Rightarrow> env \<Rightarrow> string \<Rightarrow> nativeRequest \<Rightarrow> resolver \<Rightarrow> (nativeError, nativeAnswer) result \<times> resolver" where
  "answer nv env serverName q r =
     (if ePanic env then (Inl ErrPanicked, r)
      else Answer (nparse nv) (dbResolver (nlib nv) (nsha256 nv) (ndb nv) (nnow nv)) serverName q r)"

definition answeredRoom :: "lib \<Rightarrow> string \<Rightarrow> int \<Rightarrow> json option \<Rightarrow> string" where
  "answeredRoom lb roomID st body =
     (if roomID \<noteq> '''' \<or> st \<noteq> 200 then roomID
      else strOf (case body of None \<Rightarrow> None | Some j \<Rightarrow> gjsonGet lb (Doc j) ''pdus.0.room_id''))"

definition serveNative :: "handler \<Rightarrow> env \<Rightarrow> Endpoint \<Rightarrow> string \<Rightarrow> string \<Rightarrow> string \<Rightarrow> resolver
    \<Rightarrow> nativeResult completion \<times> resolver" where
  "serveNative h env e roomID eventID body r =
     (case hResolver h of
        None \<Rightarrow> (Completed (declined ''no_resolver'') [], r)
      | Some nv \<Rightarrow>
          (case eVerified env of
             None \<Rightarrow> (Completed (declined ''auth_rejected'') [], r)
           | Some origin \<Rightarrow>
               if Streams e then
                 (case serveStreamed nv env roomID eventID origin r of
                    (Completed res effs, r) \<Rightarrow> (Completed (res\<lparr>ServedRoom := roomID\<rparr>) effs, r)
                  | (AbortHandler why effs, r) \<Rightarrow> (AbortHandler why effs, r))
               else
                 (case answer nv env (hServerName h)
                         \<lparr>reqEndpoint = endpointName e, reqOrigin = origin, reqRoomID = roomID, reqEventID = eventID, reqBody = body\<rparr> r of
                    (Inl err, r) \<Rightarrow> (Completed (declined (failReason (eCtx env))) [], r)
                  | (Inr a, r) \<Rightarrow>
                      (Completed ((servedAs (aStatus a) (answeredRoom (nlib nv) roomID (aStatus a) (aBody a)) None)\<lparr>ServedAnswer := Some a\<rparr>)
                         [jsonType, WriteHeader (aStatus a), WriteJSON (aBody a)], r))))"

section \<open>The handler\<close>

datatype slotUse = NotTaken | Released | Held

datatype forwarding = Forward int | ForwardStreaming

datatype job = CompareServed nativeAnswer | CompareStateServed StateResult | ShadowGo | ShadowGoState

record exchange =
  xeffects :: "effect list"
  xforward :: "forwarding option"
  xjobs :: "job list"
  xslot :: slotUse
  xaborted :: bool
  xlabel :: string
  xnative :: bool

definition local_answer :: "string \<Rightarrow> effect list \<Rightarrow> exchange" where
  "local_answer label effs =
     \<lparr>xeffects = effs, xforward = None, xjobs = [], xslot = NotTaken, xaborted = False, xlabel = label, xnative = False\<rparr>"

definition noteLimited :: "string \<Rightarrow> handler \<Rightarrow> handler" where
  "noteLimited origin h = h\<lparr>limitedOrigins := List.insert origin (limitedOrigins h)\<rparr>"

definition statusLabel :: "proxyResult \<Rightarrow> string" where
  "statusLabel res =
     (if pCanceled res then ''canceled'' else if pStatus res = 0 then ''none'' else itoa (pStatus res))"

definition maxRequestBody :: nat where "maxRequestBody = 2 ^ 20"

text \<open>What \<open>serveNative\<close> starts after a served answer in canary mode.\<close>

definition canaryJobs :: "handler \<Rightarrow> Mode \<Rightarrow> Endpoint \<Rightarrow> nativeResult \<Rightarrow> job list" where
  "canaryJobs h mode e res =
     (if \<not> (Kind mode = ModeCanary \<and> hShadow h) then []
      else if Streams e then (case ServedState res of Some sr \<Rightarrow> [CompareStateServed sr] | None \<Rightarrow> [])
      else (case ServedAnswer res of Some a \<Rightarrow> [CompareServed a] | None \<Rightarrow> []))"

definition forwardUpstream :: "handler \<Rightarrow> env \<Rightarrow> Mode \<Rightarrow> Endpoint \<Rightarrow> slotUse \<Rightarrow> exchange" where
  "forwardUpstream h env mode e slot =
     (if eGone env then
        \<lparr>xeffects = [], xforward = None, xjobs = [], xslot = slot, xaborted = False, xlabel = ''canceled'', xnative = False\<rparr>
      else
        let shadowing = ((Kind mode = ModeShadow \<or> Kind mode = ModeCanary) \<and> hShadow h);
            streaming = (shadowing \<and> e = EndpointState);
            res = eUpstream env in
        \<lparr>xeffects = [],
         xforward = Some (if streaming then ForwardStreaming else Forward (if shadowing then hCaptureLimit h else 0)),
         xjobs = (if shadowing \<and> \<not> pCanceled res \<and> \<not> pErr res then [if streaming then ShadowGoState else ShadowGo] else []),
         xslot = slot, xaborted = False, xlabel = statusLabel res, xnative = False\<rparr>)"

definition serveRoute :: "handler \<Rightarrow> env \<Rightarrow> httpRequest \<Rightarrow> Route \<Rightarrow> string \<Rightarrow> resolver \<Rightarrow> exchange \<times> handler \<times> resolver" where
  "serveRoute h env q route body r =
     (let e = routeEndpoint route; mode = modeFor (hModes h) e;
          roomID = roomIDFor route; eventID = eventIDFor route (rawQuery q) in
      if sampled mode (samplingKey route eventID body) then
        (case eAcquire env of
           LimitExceeded \<Rightarrow>
             (local_answer ''429'' (writeLimitExceeded (hLimits h)), noteLimited (claimedOrigin q) h, r)
         | QueueGone \<Rightarrow> (local_answer ''canceled'' [], h, r)
         | Acquired \<Rightarrow>
             (case serveNative h env e roomID eventID body r of
                (AbortHandler why effs, r) \<Rightarrow>
                  ((local_answer why effs)\<lparr>xslot := Held, xaborted := True, xnative := True\<rparr>, h, r)
              | (Completed res effs, r) \<Rightarrow>
                  if Served res then
                    ((local_answer ''native'' effs)\<lparr>xslot := Released, xjobs := canaryJobs h mode e res, xnative := True\<rparr>, h, r)
                  else (forwardUpstream h env mode e Released, h, r)))
      else (forwardUpstream h env mode e NotTaken, h, r))"

definition ServeHTTP :: "handler \<Rightarrow> env \<Rightarrow> httpRequest \<Rightarrow> resolver \<Rightarrow> exchange \<times> handler \<times> resolver" where
  "ServeHTTP h env q r =
     (if urlPath q = ''/health'' then (local_answer ''200'' [WriteHeader 200, WriteText ''OK''], h, r)
      else
        (case Match (escapedPath q) of
           None \<Rightarrow> (local_answer ''404'' (httpError ''404 page not found'' 404), h, r)
         | Some route \<Rightarrow>
             if \<not> HasRequestBody (routeEndpoint route) then serveRoute h env q route '''' r
             else
               (case bodyRead q of
                  None \<Rightarrow>
                    (local_answer ''400'' (httpError ''{\"errcode\":\"M_NOT_JSON\",\"error\":\"Could not read request body.\"}'' 400), h, r)
                | Some body \<Rightarrow>
                    if length body > maxRequestBody then
                      (local_answer ''413'' (httpError ''{\"errcode\":\"M_TOO_LARGE\",\"error\":\"Request body too large.\"}'' 413), h, r)
                    else serveRoute h env q route body r)))"

section \<open>The write deadline\<close>

text \<open>The writes of one response, at the times they happen.\<close>

definition lazyWrites :: "int \<Rightarrow> (int \<times> int) list \<Rightarrow> lazyResponse" where
  "lazyWrites i ws = foldl (\<lambda>l (now, n). lazyWrite True now n l) (newLazy i) ws"

lemma lazyWrites_snoc: "lazyWrites i (ws @ [(now, n)]) = lazyWrite True now n (lazyWrites i ws)"
  by (simp add: lazyWrites_def)

definition deadlineInv :: "int \<Rightarrow> int \<Rightarrow> lazyResponse \<Rightarrow> bool" where
  "deadlineInv i before l \<longleftrightarrow> lrIdle l = i \<and> \<not> noDeadline l \<and>
     (case deadline l of None \<Rightarrow> refreshAt l = 0
      | Some D \<Rightarrow> refreshAt l = D - i + i div 4 \<and> D \<le> before + i)"

lemma lazyWrite_deadline:
  assumes "0 < i" and "deadlineInv i before l" and "before \<le> now" and "0 \<le> now"
  shows "deadlineInv i now (lazyWrite True now n l) \<and>
    (\<exists>D. deadline (lazyWrite True now n l) = Some D \<and> now + i - i div 4 \<le> D \<and> D \<le> now + i)"
  using assms by (auto simp: deadlineInv_def lazyWrite_def refreshDeadline_def Let_def split: option.splits)

lemma lazyWrites_inv:
  assumes "0 < i" and "sorted (map fst ws)" and "\<forall>w \<in> set ws. 0 \<le> fst w"
  shows "deadlineInv i (if ws = [] then 0 else fst (last ws)) (lazyWrites i ws)"
  using assms(2,3)
proof (induction ws rule: rev_induct)
  case Nil
  show ?case by (simp add: lazyWrites_def newLazy_def deadlineInv_def)
next
  case (snoc w ws)
  obtain now n where w: "w = (now, n)" by fastforce
  have "(if ws = [] then 0 else fst (last ws)) \<le> now" using snoc.prems w by (auto simp: sorted_append)
  moreover have "deadlineInv i (if ws = [] then 0 else fst (last ws)) (lazyWrites i ws)"
    using snoc by (simp add: sorted_append)
  ultimately show ?case
    using lazyWrite_deadline [OF assms(1)] snoc.prems w by (simp add: lazyWrites_snoc)
qed

text \<open>A stalled client is cut in time and a slow one is not: on a connection that carries deadlines,
  after every write of a streamed response the write deadline in force lies between three quarters of
  the idle budget and the whole of it from that write, however the writes are spaced.\<close>

theorem idle_deadline_bounds:
  assumes "0 < i" and "sorted (map fst (ws @ [(now, n)]))" and "\<forall>w \<in> set (ws @ [(now, n)]). 0 \<le> fst w"
  shows "\<exists>D. deadline (lazyWrites i (ws @ [(now, n)])) = Some D \<and> now + i - i div 4 \<le> D \<and> D \<le> now + i"
proof -
  have "deadlineInv i (if ws = [] then 0 else fst (last ws)) (lazyWrites i ws)"
    by (rule lazyWrites_inv) (use assms in \<open>auto simp: sorted_append\<close>)
  moreover have "(if ws = [] then 0 else fst (last ws)) \<le> now" using assms by (auto simp: sorted_append)
  ultimately show ?thesis using lazyWrite_deadline [OF assms(1)] assms(3) by (auto simp: lazyWrites_snoc)
qed

theorem idle_deadline_bounds_witness:
  "\<exists>D. deadline (lazyWrites 60 ([(1, 5), (9, 5)] @ [(16, 5)])) = Some D \<and> 61 \<le> D \<and> D \<le> 76"
  using idle_deadline_bounds [of 60 "[(1, 5), (9, 5)]" 16 5] by simp

section \<open>The answer\<close>

text \<open>How many times the status line is written.\<close>

definition statusLines :: "effect list \<Rightarrow> nat" where
  "statusLines effs = length (filter (\<lambda>f. case f of WriteHeader _ \<Rightarrow> True | _ \<Rightarrow> False) effs)"

lemma statusLines_known [simp]:
  "statusLines (httpError m st) = 1" "statusLines (writeLimitExceeded s) = 1" "statusLines (streamEffects toks) = 1"
  "statusLines [] = 0" "statusLines [jsonType, WriteHeader st, WriteJSON b] = 1"
  "statusLines [WriteHeader st, WriteText t] = 1"
  by (simp_all add: statusLines_def httpError_def writeLimitExceeded_def streamEffects_def jsonType_def)

text \<open>A native attempt writes one status line if it answers, nothing if it declines, and is cut only
  after it began to write, or by a panic.\<close>

definition tidy :: "env \<Rightarrow> nativeResult completion \<Rightarrow> bool" where
  "tidy env c \<longleftrightarrow>
     (case c of
        Completed res effs \<Rightarrow> (if Served res then statusLines effs = 1 else effs = [])
      | AbortHandler why effs \<Rightarrow> statusLines effs = 1 \<or> ePanic env \<and> effs = [])"

lemma serveStreamed_tidy: "tidy env (fst (serveStreamed nv env room eid origin r))"
  by (simp add: tidy_def serveStreamed_def servedAs_def declined_def split: prod.split sum.split resolverError.split)

lemma serveNative_tidy: "tidy env (fst (serveNative h env e room eid body r))"
proof (cases "hResolver h")
  case (Some nv)
  show ?thesis
  proof (cases "eVerified env")
    case origin: (Some origin)
    obtain c r1 where c: "serveStreamed nv env room eid origin r = (c, r1)" by fastforce
    with serveStreamed_tidy [of env nv room eid origin r] have "tidy env c" by simp
    with Some origin c show ?thesis
      by (cases c) (auto simp: serveNative_def tidy_def declined_def servedAs_def split: prod.split sum.split)
  qed (simp add: serveNative_def Some tidy_def declined_def)
qed (simp add: serveNative_def tidy_def declined_def)

text \<open>One exchange is well answered: forwarded untouched, answered here with one status line, dropped
  because the client has gone, or cut.\<close>

definition wellAnswered :: "env \<Rightarrow> exchange \<Rightarrow> bool" where
  "wellAnswered env x \<longleftrightarrow>
     (if xforward x \<noteq> None then xeffects x = [] \<and> \<not> xaborted x \<and> \<not> xnative x \<and> \<not> eGone env
      else if xaborted x then xnative x \<and> (statusLines (xeffects x) = 1 \<or> ePanic env \<and> xeffects x = [])
      else if xeffects x = [] then xlabel x = ''canceled'' \<and> (eGone env \<or> eAcquire env = QueueGone)
      else statusLines (xeffects x) = 1) \<and>
     (xslot x = Held \<longleftrightarrow> xaborted x) \<and>
     (xjobs x \<noteq> [] \<longrightarrow> \<not> xaborted x \<and> (xforward x \<noteq> None \<or> xnative x))"

lemma local_answer_sel [simp]:
  "xeffects (local_answer l effs) = effs" "xforward (local_answer l effs) = None" "xjobs (local_answer l effs) = []"
  "xslot (local_answer l effs) = NotTaken" "\<not> xaborted (local_answer l effs)" "xlabel (local_answer l effs) = l"
  "\<not> xnative (local_answer l effs)"
  by (simp_all add: local_answer_def)

lemma local_wellAnswered: "statusLines effs = 1 \<Longrightarrow> wellAnswered env (local_answer l effs)"
  by (auto simp: wellAnswered_def)

lemma forward_wellAnswered: "slot \<noteq> Held \<Longrightarrow> wellAnswered env (forwardUpstream h env mode e slot)"
  by (simp add: wellAnswered_def forwardUpstream_def Let_def)

lemma serveRoute_wellAnswered: "wellAnswered env (fst (serveRoute h env q route body r))"
proof -
  obtain c r1 where c: "serveNative h env (routeEndpoint route) (roomIDFor route) (eventIDFor route (rawQuery q)) body r = (c, r1)"
    by fastforce
  with serveNative_tidy [of env h "routeEndpoint route"] have t: "tidy env c" by (metis fst_conv)
  have gone: "eAcquire env = QueueGone \<Longrightarrow> wellAnswered env (local_answer ''canceled'' [])" by (simp add: wellAnswered_def)
  have cut: "wellAnswered env ((local_answer why effs)\<lparr>xslot := Held, xaborted := True, xnative := True\<rparr>)"
    if "c = AbortHandler why effs" for why effs using t that by (auto simp: wellAnswered_def tidy_def)
  have served: "wellAnswered env ((local_answer ''native'' effs)\<lparr>xslot := Released, xjobs := js, xnative := True\<rparr>)"
    if "c = Completed res effs" "Served res" for res effs js using t that by (auto simp: wellAnswered_def tidy_def)
  show ?thesis
    by (cases c)
      (auto simp: serveRoute_def Let_def c local_wellAnswered forward_wellAnswered gone cut served split: acquired.split)
qed

lemma ServeHTTP_wellAnswered: "wellAnswered env (fst (ServeHTTP h env q r))"
  by (simp add: ServeHTTP_def local_wellAnswered serveRoute_wellAnswered split: option.split)


lemma serveRoute_native:
  assumes "xnative (fst (serveRoute h env q route body r))"
  shows "eAcquire env = Acquired \<and> sampled (modeFor (hModes h) (routeEndpoint route)) (samplingKey route (eventIDFor route (rawQuery q)) body) \<and>
    (\<exists>nv origin. hResolver h = Some nv \<and> eVerified env = Some origin) \<and>
    (\<exists>c r1. serveNative h env (routeEndpoint route) (roomIDFor route) (eventIDFor route (rawQuery q)) body r = (c, r1) \<and>
       xeffects (fst (serveRoute h env q route body r)) = (case c of Completed res effs \<Rightarrow> effs | AbortHandler why effs \<Rightarrow> effs))"
proof -
  let ?n = "serveNative h env (routeEndpoint route) (roomIDFor route) (eventIDFor route (rawQuery q)) body r"
  obtain c r1 where c: "?n = (c, r1)" by fastforce
  have fwd: "\<not> xnative (forwardUpstream h env m e s)" for m e s by (simp add: forwardUpstream_def Let_def)
  from assms have s: "sampled (modeFor (hModes h) (routeEndpoint route)) (samplingKey route (eventIDFor route (rawQuery q)) body)"
    "eAcquire env = Acquired" by (auto simp: serveRoute_def Let_def fwd split: if_splits acquired.splits)
  with assms c have served: "case c of Completed res effs \<Rightarrow> Served res | AbortHandler why effs \<Rightarrow> True"
    "xeffects (fst (serveRoute h env q route body r)) = (case c of Completed res effs \<Rightarrow> effs | AbortHandler why effs \<Rightarrow> effs)"
    by (auto simp: serveRoute_def Let_def fwd split: if_splits completion.splits)
  have "\<exists>nv origin. hResolver h = Some nv \<and> eVerified env = Some origin"
    using served(1) c by (auto simp: serveNative_def declined_def split: option.splits)
  with s served(2) c show ?thesis by blast
qed

text \<open>An error of the resolver is never answered with 200.\<close>

abbreviation refuses :: "'a resolverOp \<Rightarrow> bool" where
  "refuses m \<equiv> meets (\<lambda>_. True) m (\<lambda>x. \<forall>me. x = Inl (MErr me) \<longrightarrow> Status me \<noteq> 200)"

lemma refuses_bnd: "refuses m \<Longrightarrow> (\<And>a. refuses (f a)) \<Longrightarrow> refuses (bnd m f)"
  by (rule meets_bnd [where R = "\<lambda>x. \<forall>me. x = Inl (MErr me) \<longrightarrow> Status me \<noteq> 200"]) auto

lemma refuses_rules:
  "refuses (ret a)" "refuses (failwith (StoreErr msg x))" "refuses (failwith ErrEventNotFound)"
  "refuses (failwith (MErr errPartialState))" "refuses (failwith (MErr errHostNotInRoom))"
  "refuses (attempt m)" "refuses (onStore msg m)" "refuses (asks msg y)" "refuses (pdu msg z)"
  by (auto simp: meets_def attempt_def onStore_def asks_def pdu_def errPartialState_def errHostNotInRoom_def split: sum.splits)

lemma visibilityAt_refuses: "refuses (visibilityAt d ev server)"
  unfolding visibilityAt_def Let_def
  by (auto intro!: refuses_bnd refuses_rules split: sum.split storeError.split option.split)

lemma resolveEvent_refuses: "refuses (resolveEvent lb d now origin server eid)"
  unfolding resolveEvent_def eventVisible_def eventVisibleInRoom_def Let_def
  by (auto intro!: refuses_bnd refuses_rules visibilityAt_refuses split: sum.split storeError.split)

text \<open>C7. Only a verified server is answered from the database, and with its verified name: whenever the
  worker itself answers \<open>/event\<close> with an event, in whatever mode and from whatever the caches hold of
  the truth, the endpoint's mode serves natively, the limiter admitted the request, the verifier
  accepted it, the event is in the database and its room complete, and a user of the server the
  verifier named, not of the one the request claims to come from, is joined to that room.\<close>

theorem native_event_is_authorised:
  assumes "hResolver h = Some nv" and "db_keys (ndb nv)" and "resolverHonest (ndb nv) P r"
    and "Match (escapedPath q) = Some route" and "routeEndpoint route = EndpointEvent" and "urlPath q \<noteq> ''/health''"
    and "xnative (fst (ServeHTTP h env q r))" and "WriteHeader 200 \<in> set (xeffects (fst (ServeHTTP h env q r)))"
    and "\<forall>origin. eVerified env = Some origin \<longrightarrow> origin \<noteq> ''''"
  shows "ServesNatively (modeFor (hModes h) EndpointEvent) \<and> eAcquire env = Acquired \<and>
    (\<exists>origin e u. eVerified env = Some origin \<and> eventTruth (ndb nv) (DecodeParam (Param route)) = Some e \<and>
       RoomID e \<notin> set (t_partial (ndb nv)) \<and> joinedFrom (ndb nv) (RoomID e) origin u)"
proof -
  have run: "ServeHTTP h env q r = serveRoute h env q route '''' r"
    using assms(4-6) by (simp add: ServeHTTP_def HasRequestBody_def)
  from serveRoute_native [of h env q route "''''" r] assms(7) run obtain origin c r1 where
    a: "eAcquire env = Acquired" and s: "sampled (modeFor (hModes h) EndpointEvent) (samplingKey route (eventIDFor route (rawQuery q)) '''')"
    and o: "eVerified env = Some origin"
    and c: "serveNative h env EndpointEvent (roomIDFor route) (eventIDFor route (rawQuery q)) '''' r = (c, r1)"
    and effs: "xeffects (fst (ServeHTTP h env q r)) = (case c of Completed res effs \<Rightarrow> effs | AbortHandler why effs \<Rightarrow> effs)"
    using assms(5) by auto
  have nat: "ServesNatively (modeFor (hModes h) EndpointEvent)"
    using s by (auto simp: sampled_def ServesNatively_def split: if_splits)
  let ?eid = "DecodeParam (Param route)"
  have eid: "eventIDFor route (rawQuery q) = ?eid" using assms(5) by (simp add: eventIDFor_def)
  let ?ev = "resolveEvent (nlib nv) (ndb nv) (nnow nv) origin (hServerName h) ?eid r"
  have "\<exists>resp. fst ?ev = Inr resp"
  proof (rule ccontr)
    assume "\<not> ?thesis"
    then obtain err r2 where e: "?ev = (Inl err, r2)" by (cases ?ev; cases "fst ?ev") auto
    have st: "Status me \<noteq> 200" if "err = MErr me" for me
      using meets_result [where s = r, OF resolveEvent_refuses [of "nlib nv" "ndb nv" "nnow nv" origin "hServerName h" ?eid]] e that by simp
    have "WriteHeader 200 \<in> set (case c of Completed res effs \<Rightarrow> effs | AbortHandler why effs \<Rightarrow> effs)"
      using assms(8) effs by simp
    then show False using c e o assms(1) st
      by (auto simp: serveNative_def Streams_def answer_def Answer_def dbResolver_def eid matrixError_def answered_def jsonType_def
          split: if_splits prod.splits sum.splits resolverError.splits completion.splits)
  qed
  then obtain resp where "fst ?ev = Inr resp" ..
  from event_served_only [OF assms(2,3) _ this] assms(9) o nat a show ?thesis by blast
qed

text \<open>A room whose one message is served natively.\<close>

definition nativeEvents :: natives where
  "nativeEvents = \<lparr>nlib = refLib, nblen = \<lambda>_. 1, nsha = \<lambda>_. 1, nsha256 = \<lambda>x. x, ncancelled = \<lambda>_. None,
     ndb = visDb ''join'', nnow = 9, nparse = Junk\<rparr>"

definition nativeHandler :: "natives \<Rightarrow> handler" where
  "nativeHandler nv = \<lparr>hModes = [(''event'', \<lparr>Kind = ''native'', CanaryPercent = 0\<rparr>), (''state'', \<lparr>Kind = ''native'', CanaryPercent = 0\<rparr>)],
     hResolver = Some nv, hShadow = False, hServerName = ''me'', hCaptureLimit = 0, hLimits = DefaultFederationSettings, limitedOrigins = []\<rparr>"

definition verifiedEnv :: "writer \<Rightarrow> env" where
  "verifiedEnv wfail = \<lparr>eAcquire = Acquired, eVerified = Some ''srv'', eCtx = None, ePanic = False, eWrites = wfail,
     eGone = False, eUpstream = \<lparr>pStatus = 0, pCanceled = False, pErr = False\<rparr>\<rparr>"

definition eventRequest :: httpRequest where
  "eventRequest = \<lparr>urlPath = ''/_matrix/federation/v1/event/$msg'', escapedPath = ''/_matrix/federation/v1/event/%24msg'',
     rawQuery = '''', claimedOrigin = ''srv'', bodyRead = Some ''''\<rparr>"

lemma eventRequest_route: "Match (escapedPath eventRequest) = Some \<lparr>routeEndpoint = EndpointEvent, Param = ''%24msg''\<rparr>"
  by code_simp

lemma eventRequest_id: "DecodeParam ''%24msg'' = ''$msg''"
  by code_simp

theorem native_event_is_authorised_witness:
  "\<exists>e u. xnative (fst (ServeHTTP (nativeHandler nativeEvents) (verifiedEnv (\<lambda>_. None)) eventRequest freshResolver)) \<and>
     eventTruth (visDb ''join'') ''$msg'' = Some e \<and> joinedFrom (visDb ''join'') (RoomID e) ''srv'' u"
proof -
  let ?h = "nativeHandler nativeEvents" and ?env = "verifiedEnv (\<lambda>_. None)"
  let ?route = "\<lparr>routeEndpoint = EndpointEvent, Param = ''%24msg''\<rparr>"
  have "fst (resolveEvent refLib (visDb ''join'') 9 ''srv'' ''me'' ''$msg'' freshResolver) =
      eventAnswer refLib (visDb ''join'') 9 ''srv'' ''me'' ''$msg''"
    by (rule meets_result [OF resolveEvent_meets [OF visDb_ok], where P1 = "\<lambda>_. True"])
      (simp_all add: containsAny_def freshResolver_honest)
  then obtain r1 where ev: "resolveEvent refLib (visDb ''join'') 9 ''srv'' ''me'' ''$msg'' freshResolver =
      (Inr \<lparr>Origin = ''me'', OriginServerTS = 9, PDUs = [visMsg [(''body'', JStr ''secret'')]]\<rparr>, r1)"
    unfolding visDb_answer by (cases "resolveEvent refLib (visDb ''join'') 9 ''srv'' ''me'' ''$msg'' freshResolver") simp
  have route: "ServeHTTP ?h ?env eventRequest freshResolver = serveRoute ?h ?env eventRequest ?route '''' freshResolver"
    unfolding ServeHTTP_def eventRequest_route by (simp add: HasRequestBody_def eventRequest_def)
  have "sampled (modeFor (hModes ?h) EndpointEvent) k" for k
    by (simp add: nativeHandler_def modeFor_def sampled_def ModeNative_def)
  then have run: "xnative (fst (ServeHTTP ?h ?env eventRequest freshResolver)) \<and>
      WriteHeader 200 \<in> set (xeffects (fst (ServeHTTP ?h ?env eventRequest freshResolver)))"
    unfolding route using ev
    by (simp add: serveRoute_def serveNative_def Streams_def answer_def Answer_def dbResolver_def marshalTransaction_def
        verifiedEnv_def nativeHandler_def nativeEvents_def eventIDFor_def eventRequest_id answered_def servedAs_def)
  have "hResolver ?h = Some nativeEvents" "db_keys (ndb nativeEvents)" "resolverHonest (ndb nativeEvents) (\<lambda>_. True) freshResolver"
    using visDb_ok freshResolver_honest [of "\<lambda>_. True"] by (simp_all add: nativeHandler_def nativeEvents_def)
  from native_event_is_authorised [OF this eventRequest_route _ _ run [THEN conjunct1] run [THEN conjunct2]] run
  show ?thesis by (auto simp: verifiedEnv_def eventRequest_def eventRequest_id nativeEvents_def)
qed


definition nativeState :: natives where
  "nativeState = nativeEvents\<lparr>ndb := stDb\<rparr>"

definition stateRequest :: httpRequest where
  "stateRequest = \<lparr>urlPath = ''/_matrix/federation/v1/state/!r'', escapedPath = ''/_matrix/federation/v1/state/%21r'',
     rawQuery = ''event_id=%24m'', claimedOrigin = ''srv'', bodyRead = Some ''''\<rparr>"

lemma stateRequest_route:
  "Match (escapedPath stateRequest) = Some \<lparr>routeEndpoint = EndpointState, Param = ''%21r''\<rparr>" "DecodeParam ''%21r'' = ''!r''"
  "queryGet (rawQuery stateRequest) ''event_id'' = ''$m''"
  by code_simp+

lemma stalled_first_write:
  "\<exists>r' k. resolveState refLib bl sh (\<lambda>x. x) (\<lambda>_. Some ''i/o timeout'') cn stDb ''srv'' ''!r'' ''$m''
      (freshResolver, \<lparr>written = [], writes = 0, counted = 0\<rparr>) = (Inl (StoreErr '''' (FnError ''i/o timeout'')), (r', k)) \<and>
     writes k > 0 \<and> written k = []"
proof -
  have hon: "resolverHonest stDb (\<lambda>_. True) freshResolver" by (rule freshResolver_honest) simp
  have g: "gates stDb ''srv'' ''!r'' = Inr ()" and ids: "stateIDsAnswer stDb ''!r'' ''$m'' = Inr [''$b'']" by code_simp+
  obtain r1 where a: "checkAccess stDb ''srv'' ''!r'' freshResolver = (Inr (), r1)" and h1: "resolverHonest stDb (\<lambda>_. True) r1"
    using checkAccess_meets [OF stDb_ok(1), of "\<lambda>_. True" "''srv''" "''!r''"] hon g
    by (cases "checkAccess stDb ''srv'' ''!r'' freshResolver") (fastforce simp: meets_def)
  obtain r2 where b: "stateIDsForEvent stDb ''!r'' ''$m'' r1 = (Inr [''$b''], r2)"
    using meets_result [OF stateIDsForEvent_meets [OF stDb_ok(1-3)] h1, of "''!r''" "''$m''"] ids
    by (cases "stateIDsForEvent stDb ''!r'' ''$m'' r1") simp
  show ?thesis by (simp add: resolveState_def bnd_def onResolver_def a b put_def sinkWrite_def)
qed


end
