(* ===== verification/Difflog.thy ===== *)
theory Difflog
  imports GoJson Config
begin

text \<open>
  \<open>internal/difflog\<close>: the rotating log of disagreements, its queue and writer goroutine, and the
  counters and verdict that gate promotion.

  A line of the log is the record it encodes; \<open>llen\<close>, a parameter, is the number of bytes
  \<open>json.Marshal\<close> gives it, newline not counted, and \<open>btext\<close>, another, gives the bytes of a response body.
  The directory is its active file and its rotated files by name.  The outcome of every call to the
  operating system is an input of the step that makes it.  Durations of a record and the printed
  report are left out; times are in nanoseconds, \<open>0\<close> being the zero time; counters are naturals.
\<close>

section \<open>Records\<close>

datatype DiffKind = KindStatus | KindBody | KindNativeError | KindNativeTimeout | KindAuth

record FieldDiff =
  Field :: string
  MissingFromNative :: "string list"
  ExtraInNative :: "string list"
  ContentMismatch :: "string list"
  SynapseCount :: nat
  NativeCount :: nat
  ListsTruncated :: bool

type_synonym Diff = "FieldDiff list"

definition diffEmpty :: "Diff option \<Rightarrow> bool" where
  "diffEmpty d =
     (case d of
        None \<Rightarrow> True
      | Some fs \<Rightarrow> list_all (\<lambda>f. MissingFromNative f = [] \<and> ExtraInNative f = [] \<and> ContentMismatch f = [] \<and>
          SynapseCount f = NativeCount f) fs)"

record LogRecord =
  recTime :: int
  recKind :: DiffKind
  recEndpoint :: string
  recOrigin :: string
  recURI :: string
  recRoomID :: string
  recEventID :: string
  recSynapseStatus :: int
  recNativeStatus :: int
  recDiff :: "Diff option"
  recNativeError :: string
  recSynapseBody :: "raw option"
  recNativeBody :: "raw option"
  recTruncated :: bool

text \<open>\<open>json.Marshal\<close> of a record fails exactly when a body it would print is not JSON; empty bodies are
  omitted.\<close>

definition encodable :: "LogRecord \<Rightarrow> bool" where
  "encodable r \<longleftrightarrow> (\<forall>b \<in> {recSynapseBody r, recNativeBody r}. case b of Some (Junk s) \<Rightarrow> s = '''' | _ \<Rightarrow> True)"

section \<open>Options\<close>

record Options =
  optDir :: string
  optMaxFileBytes :: int
  optMaxFiles :: int
  optCompress :: bool
  optQueueSize :: int
  optBodyLimit :: int
  optListLimit :: int

definition DefaultMaxFileBytes :: int where "DefaultMaxFileBytes = 64 * 2 ^ 20"
definition DefaultMaxFiles :: int where "DefaultMaxFiles = 10"
definition DefaultQueueSize :: int where "DefaultQueueSize = 1024"
definition DefaultBodyLimit :: int where "DefaultBodyLimit = 256 * 2 ^ 10"
definition DefaultListLimit :: int where "DefaultListLimit = 100"

definition applyDefaults :: "Options \<Rightarrow> Options" where
  "applyDefaults opts =
     opts\<lparr>optMaxFileBytes := if optMaxFileBytes opts \<le> 0 then DefaultMaxFileBytes else optMaxFileBytes opts,
       optMaxFiles := if optMaxFiles opts \<le> 0 then DefaultMaxFiles else optMaxFiles opts,
       optQueueSize := if optQueueSize opts \<le> 0 then DefaultQueueSize else optQueueSize opts,
       optBodyLimit := if optBodyLimit opts = 0 then DefaultBodyLimit else optBodyLimit opts,
       optListLimit := if optListLimit opts \<le> 0 then DefaultListLimit else optListLimit opts\<rparr>"

text \<open>Shifts of Go integers wrap at 64 bits.\<close>

definition wrap64 :: "int \<Rightarrow> int" where
  "wrap64 n = (n + 2 ^ 63) mod 2 ^ 64 - 2 ^ 63"

definition FromConfig :: "DiffLog \<Rightarrow> Options" where
  "FromConfig c =
     \<lparr>optDir = Dir c, optMaxFileBytes = (if MaxFileMB c > 0 then wrap64 (MaxFileMB c * 2 ^ 20) else 0),
      optMaxFiles = MaxFiles c, optCompress = CompressRotated c, optQueueSize = QueueSize c,
      optBodyLimit = (if BodyKB c < 0 then - 1 else if BodyKB c > 0 then wrap64 (BodyKB c * 2 ^ 10) else 0),
      optListLimit = ListLimit c\<rparr>"

section \<open>Counters\<close>

record EndpointStats =
  epCompared :: nat
  epMatched :: nat
  epMismatched :: nat
  FirstMismatch :: "int option"
  LastMismatch :: "int option"

record LogStats =
  Since :: int
  Updated :: int
  Restarts :: nat
  Compared :: nat
  Matched :: nat
  Mismatched :: nat
  Logged :: nat
  Dropped :: nat
  Rotations :: nat
  WriteErrors :: nat
  EndpointTotals :: "(string, EndpointStats) gomap"

definition noStats :: LogStats where
  "noStats = \<lparr>Since = 0, Updated = 0, Restarts = 0, Compared = 0, Matched = 0, Mismatched = 0, Logged = 0, Dropped = 0,
     Rotations = 0, WriteErrors = 0, EndpointTotals = []\<rparr>"

definition noEndpoint :: EndpointStats where
  "noEndpoint = \<lparr>epCompared = 0, epMatched = 0, epMismatched = 0, FirstMismatch = None, LastMismatch = None\<rparr>"

definition endpointOf :: "LogStats \<Rightarrow> string \<Rightarrow> EndpointStats" where
  "endpointOf s endpoint = (case gget (EndpointTotals s) endpoint of None \<Rightarrow> noEndpoint | Some e \<Rightarrow> e)"

text \<open>The endpoint's counters of \<open>observe\<close>, and \<open>observe\<close>.\<close>

definition tallyEndpoint :: "int \<Rightarrow> bool \<Rightarrow> EndpointStats \<Rightarrow> EndpointStats" where
  "tallyEndpoint now matched e =
     (let e = e\<lparr>epCompared := epCompared e + 1\<rparr> in
      if matched then e\<lparr>epMatched := epMatched e + 1\<rparr>
      else e\<lparr>epMismatched := epMismatched e + 1,
             FirstMismatch := (case FirstMismatch e of None \<Rightarrow> Some now | Some t \<Rightarrow> Some t),
             LastMismatch := Some now\<rparr>)"

definition observe :: "int \<Rightarrow> string \<Rightarrow> bool \<Rightarrow> LogStats \<Rightarrow> LogStats" where
  "observe now endpoint matched s =
     (let s = s\<lparr>Compared := Compared s + 1,
                EndpointTotals := gset endpoint (tallyEndpoint now matched (endpointOf s endpoint)) (EndpointTotals s)\<rparr> in
      if matched then s\<lparr>Matched := Matched s + 1\<rparr> else s\<lparr>Mismatched := Mismatched s + 1\<rparr>)"

text \<open>What the stats file holds: nothing, bytes that do not decode, or the counters saved last.  A file
  that cannot be read at all is the error.\<close>

datatype statsFile = NoFile | Unreadable | Garbled | Saved LogStats

definition loadStats :: "statsFile \<Rightarrow> (string, LogStats) result" where
  "loadStats f =
     (case f of
        NoFile \<Rightarrow> Inr noStats
      | Unreadable \<Rightarrow> Inl ''difflog: read stats''
      | Garbled \<Rightarrow> Inr noStats
      | Saved s \<Rightarrow> Inr s)"

section \<open>The verdict\<close>

definition promotionWindow :: int where
  "promotionWindow = 7 * 24 * 3600 * 10 ^ 9"

datatype verdict = NoComparisons | NotReady nat int | ReadyAfter nat int | CleanSoFar int | Ready nat

definition verdictOf :: "int \<Rightarrow> EndpointStats \<Rightarrow> int \<Rightarrow> verdict" where
  "verdictOf now e elapsed =
     (if epCompared e = 0 then NoComparisons
      else (case (epMismatched e > 0, LastMismatch e) of
         (True, Some t) \<Rightarrow>
           (let since = now - t in
            if since < promotionWindow then NotReady (epMismatched e) since else ReadyAfter (epMismatched e) since)
       | _ \<Rightarrow> if elapsed < promotionWindow then CleanSoFar elapsed else Ready (epCompared e)))"

text \<open>\<open>Report\<close>, less its printing: the verdicts in order of name, and the counts behind the two warnings,
  which are not looked at while no endpoint has been compared.\<close>

record report =
  repVerdicts :: "(string \<times> verdict) list"
  repWarnings :: "(nat \<times> nat) option"

definition Report :: "int \<Rightarrow> statsFile \<Rightarrow> (string, report) result" where
  "Report now f =
     rbind (loadStats f) (\<lambda>s.
       if Since s = 0 then Inl ''no shadow statistics recorded''
       else Inr \<lparr>repVerdicts = map (\<lambda>n. (n, verdictOf now (endpointOf s n) (now - Since s))) (sort (map fst (EndpointTotals s))),
                 repWarnings = (if EndpointTotals s = [] then None else Some (Dropped s, WriteErrors s))\<rparr>)"

section \<open>Files\<close>

text \<open>A file holds whole lines and, after a write that stopped short, the bytes that got through.\<close>

datatype chunk = Line LogRecord | Torn nat

datatype stored = Plain "chunk list" | Gzip "chunk list" | Partial

record directory =
  activeFile :: "chunk list option"
  rotated :: "string \<Rightarrow> stored option"
  savedStats :: statsFile

definition activeName :: string where
  "activeName = ''diffs.jsonl''"

definition rotatedName :: "bool \<Rightarrow> nat \<Rightarrow> string" where
  "rotatedName compress i = activeName @ ''.'' @ itoa (int i) @ (if compress then ''.gz'' else '''')"

definition chunkBytes :: "(LogRecord \<Rightarrow> nat) \<Rightarrow> chunk \<Rightarrow> nat" where
  "chunkBytes llen c = (case c of Line r \<Rightarrow> llen r + 1 | Torn n \<Rightarrow> n)"

definition fileBytes :: "(LogRecord \<Rightarrow> nat) \<Rightarrow> chunk list \<Rightarrow> nat" where
  "fileBytes llen cs = sum_list (map (chunkBytes llen) cs)"

text \<open>Which calls fail.  A failed write may have put some bytes in the file; a compression that fails
  after its target was truncated leaves part of a file behind.\<close>

datatype diskOp =
    CloseActive | Shift nat | GzipOpen | GzipCopy | GzipSync | RemoveActive | RenameActive | OpenActive | StatActive
  | WriteLine | SyncActive | SaveStats | MakeDir

type_synonym failures = "diskOp \<Rightarrow> bool"

definition osRename :: "string \<Rightarrow> string \<Rightarrow> (string \<Rightarrow> stored option) \<Rightarrow> string \<Rightarrow> stored option" where
  "osRename old new fs = (case fs old of None \<Rightarrow> fs | Some c \<Rightarrow> (fs(old := None))(new \<mapsto> c))"

text \<open>The loop that shifts the numbered history along, from the oldest down to the first.\<close>

fun shiftFiles :: "failures \<Rightarrow> bool \<Rightarrow> nat \<Rightarrow> nat \<Rightarrow> (string \<Rightarrow> stored option) \<Rightarrow> string \<Rightarrow> stored option" where
  "shiftFiles fails compress maxFiles 0 fs = fs"
| "shiftFiles fails compress maxFiles (Suc j) fs =
     shiftFiles fails compress maxFiles j
       (if fails (Shift (Suc j)) then fs
        else if Suc j + 1 > maxFiles then fs(rotatedName compress (Suc j) := None)
        else osRename (rotatedName compress (Suc j)) (rotatedName compress (Suc j + 1)) fs)"

record DiffWriter =
  opts :: Options
  queue :: "LogRecord list"
  wclosed :: bool
  wdone :: bool
  fileOpen :: bool
  wsize :: int
  wstats :: LogStats
  wdropped :: nat
  werrs :: nat

definition openActiveLocked :: "(LogRecord \<Rightarrow> nat) \<Rightarrow> failures \<Rightarrow> DiffWriter \<times> directory \<Rightarrow> bool \<times> DiffWriter \<times> directory" where
  "openActiveLocked llen fails wd =
     (let (w, d) = wd in
      if fails OpenActive then (False, w, d)
      else
        let cs = (case activeFile d of None \<Rightarrow> [] | Some cs \<Rightarrow> cs); d = d\<lparr>activeFile := Some cs\<rparr> in
        if fails StatActive then (False, w, d)
        else (True, w\<lparr>fileOpen := True, wsize := int (fileBytes llen cs)\<rparr>, d))"

text \<open>Moving the active file to the first place of the history.\<close>

definition archive :: "failures \<Rightarrow> bool \<Rightarrow> chunk list \<Rightarrow> directory \<Rightarrow> bool \<times> directory" where
  "archive fails compress cs d =
     (let first = rotatedName compress 1 in
      if compress then
        if fails GzipOpen then (False, d)
        else if fails GzipCopy then (False, d\<lparr>rotated := (rotated d)(first \<mapsto> Partial)\<rparr>)
        else
          let d = d\<lparr>rotated := (rotated d)(first \<mapsto> Gzip cs)\<rparr> in
          if fails GzipSync \<or> fails RemoveActive then (False, d) else (True, d\<lparr>activeFile := None\<rparr>)
      else if fails RenameActive then (False, d)
      else (True, d\<lparr>rotated := (rotated d)(first \<mapsto> Plain cs), activeFile := None\<rparr>))"

definition rotateLocked :: "(LogRecord \<Rightarrow> nat) \<Rightarrow> failures \<Rightarrow> DiffWriter \<times> directory \<Rightarrow> bool \<times> DiffWriter \<times> directory" where
  "rotateLocked llen fails wd =
     (let (w, d) = wd in
      if fails CloseActive then (False, w, d)
      else
        let w = w\<lparr>fileOpen := False\<rparr>; compress = optCompress (opts w); maxFiles = nat (optMaxFiles (opts w));
            d = d\<lparr>rotated := shiftFiles fails compress maxFiles (maxFiles - 1) (rotated d)\<rparr> in
        (case activeFile d of
           None \<Rightarrow> (False, w, d)
         | Some cs \<Rightarrow>
             (case archive fails compress cs d of
                (False, d) \<Rightarrow> (False, w, d)
              | (True, d) \<Rightarrow>
                  openActiveLocked llen fails (w\<lparr>wstats := (wstats w)\<lparr>Rotations := Rotations (wstats w) + 1\<rparr>\<rparr>, d))))"

definition noteErr :: "DiffWriter \<Rightarrow> DiffWriter" where
  "noteErr w = w\<lparr>werrs := werrs w + 1\<rparr>"

definition appendActive :: "chunk \<Rightarrow> directory \<Rightarrow> directory" where
  "appendActive c d = d\<lparr>activeFile := map_option (\<lambda>cs. cs @ [c]) (activeFile d)\<rparr>"

text \<open>The part of \<open>write\<close> after the file is known to have room; \<open>torn\<close> is how many bytes a failing write gets
  through.\<close>

definition appendLine :: "(LogRecord \<Rightarrow> nat) \<Rightarrow> failures \<Rightarrow> nat \<Rightarrow> LogRecord \<Rightarrow> DiffWriter \<times> directory \<Rightarrow> DiffWriter \<times> directory" where
  "appendLine llen fails torn r wd =
     (let (w, d) = wd in
      if fails WriteLine then
        (noteErr (w\<lparr>wsize := wsize w + int torn\<rparr>), if torn = 0 then d else appendActive (Torn torn) d)
      else
        let w = w\<lparr>wsize := wsize w + int (llen r) + 1\<rparr>; d = appendActive (Line r) d;
            w = (if fails SyncActive then noteErr w else w) in
        (w\<lparr>wstats := (wstats w)\<lparr>Logged := Logged (wstats w) + 1\<rparr>\<rparr>, d))"

definition writeRecord :: "(LogRecord \<Rightarrow> nat) \<Rightarrow> failures \<Rightarrow> nat \<Rightarrow> LogRecord \<Rightarrow> DiffWriter \<times> directory \<Rightarrow> DiffWriter \<times> directory" where
  "writeRecord llen fails torn r wd =
     (let (w, d) = wd in
      if \<not> encodable r then (noteErr w, d)
      else if \<not> fileOpen w then (noteErr w, d)
      else if wsize w + int (llen r) + 1 > optMaxFileBytes (opts w) \<and> wsize w > 0 then
        (case rotateLocked llen fails (w, d) of
           (False, w, d) \<Rightarrow> (noteErr w, d)
         | (True, w, d) \<Rightarrow> appendLine llen fails torn r (w, d))
      else appendLine llen fails torn r (w, d))"

section \<open>Opening, queueing and closing\<close>

definition flushStats :: "failures \<Rightarrow> int \<Rightarrow> DiffWriter \<times> directory \<Rightarrow> DiffWriter \<times> directory" where
  "flushStats fails now wd =
     (let (w, d) = wd; snapshot = (wstats w)\<lparr>Dropped := wdropped w, WriteErrors := werrs w, Updated := now\<rparr> in
      if fails SaveStats then (noteErr w, d) else (w, d\<lparr>savedStats := Saved snapshot\<rparr>))"

definition Snapshot :: "DiffWriter option \<Rightarrow> LogStats" where
  "Snapshot wo =
     (case wo of None \<Rightarrow> noStats | Some w \<Rightarrow> (wstats w)\<lparr>Dropped := wdropped w, WriteErrors := werrs w\<rparr>)"

definition openWriter :: "(LogRecord \<Rightarrow> nat) \<Rightarrow> failures \<Rightarrow> int \<Rightarrow> Options \<Rightarrow> directory \<Rightarrow> (string, DiffWriter \<times> directory) result" where
  "openWriter llen fails now options d =
     (if optDir options = '''' then Inl ''difflog: Dir is required''
      else if fails MakeDir then Inl ''difflog: create dir''
      else rbind (loadStats (savedStats d)) (\<lambda>s.
        let s = s\<lparr>Since := if Since s = 0 then now else Since s, Restarts := Restarts s + 1\<rparr>;
            w = \<lparr>opts = applyDefaults options, queue = [], wclosed = False, wdone = False, fileOpen = False, wsize = 0,
                 wstats = s, wdropped = 0, werrs = 0\<rparr> in
        (case openActiveLocked llen fails (w, d) of
           (False, _) \<Rightarrow> Inl ''difflog: open''
         | (True, w, d) \<Rightarrow> Inr (w, d))))"

definition OpenFromConfig :: "(LogRecord \<Rightarrow> nat) \<Rightarrow> failures \<Rightarrow> int \<Rightarrow> DiffLog \<Rightarrow> directory
    \<Rightarrow> (string, (DiffWriter \<times> directory) option) result" where
  "OpenFromConfig llen fails now c d =
     (if \<not> DiffLogEnabled c then Inr None else rbind (openWriter llen fails now (FromConfig c) d) (\<lambda>wd. Inr (Some wd)))"

text \<open>A body cut to \<open>n\<close> bytes becomes a JSON string; the marker is an ellipsis in UTF-8.\<close>

definition clip :: "(raw \<Rightarrow> string) \<Rightarrow> raw \<Rightarrow> nat \<Rightarrow> raw" where
  "clip btext b n = Doc (JStr (take n (btext b) @ [CHR 0xE2, CHR 0x80, CHR 0xA6] @ ''[truncated]''))"

definition tooLong :: "(raw \<Rightarrow> string) \<Rightarrow> int \<Rightarrow> raw option \<Rightarrow> bool" where
  "tooLong btext limit b = (case b of None \<Rightarrow> False | Some b \<Rightarrow> int (length (btext b)) > limit)"

definition capBody :: "(raw \<Rightarrow> string) \<Rightarrow> int \<Rightarrow> raw option \<Rightarrow> raw option" where
  "capBody btext limit b = (if tooLong btext limit b then map_option (\<lambda>b. clip btext b (nat limit)) b else b)"

definition capField :: "nat \<Rightarrow> FieldDiff \<Rightarrow> FieldDiff" where
  "capField limit f =
     f\<lparr>MissingFromNative := take limit (MissingFromNative f), ExtraInNative := take limit (ExtraInNative f),
       ContentMismatch := take limit (ContentMismatch f),
       ListsTruncated := ListsTruncated f \<or> length (MissingFromNative f) > limit \<or> length (ExtraInNative f) > limit \<or>
         length (ContentMismatch f) > limit\<rparr>"

definition truncate :: "(raw \<Rightarrow> string) \<Rightarrow> Options \<Rightarrow> LogRecord \<Rightarrow> LogRecord" where
  "truncate btext o' r =
     (let limit = optBodyLimit o';
          r = (if limit < 0 then r\<lparr>recSynapseBody := None, recNativeBody := None\<rparr>
               else r\<lparr>recSynapseBody := capBody btext limit (recSynapseBody r), recNativeBody := capBody btext limit (recNativeBody r),
                      recTruncated := recTruncated r \<or> tooLong btext limit (recSynapseBody r) \<or> tooLong btext limit (recNativeBody r)\<rparr>) in
      r\<lparr>recDiff := map_option (map (capField (nat (optListLimit o')))) (recDiff r)\<rparr>)"

definition Log :: "(raw \<Rightarrow> string) \<Rightarrow> int \<Rightarrow> LogRecord \<Rightarrow> DiffWriter \<Rightarrow> bool \<times> DiffWriter" where
  "Log btext now r w =
     (let r = (if recTime r = 0 then r\<lparr>recTime := now\<rparr> else r); r = truncate btext (opts w) r in
      if wclosed w then (False, w)
      else if int (length (queue w)) < optQueueSize (opts w) then (True, w\<lparr>queue := queue w @ [r]\<rparr>)
      else (False, w\<lparr>wdropped := wdropped w + 1\<rparr>))"

definition Observe :: "int \<Rightarrow> string \<Rightarrow> bool \<Rightarrow> DiffWriter \<Rightarrow> DiffWriter" where
  "Observe now endpoint matched w = w\<lparr>wstats := observe now endpoint matched (wstats w)\<rparr>"

text \<open>One turn of the writer goroutine: a record, the end of the closed queue, or a tick of the clock.\<close>

definition loopRecord :: "(LogRecord \<Rightarrow> nat) \<Rightarrow> failures \<Rightarrow> nat \<Rightarrow> DiffWriter \<times> directory \<Rightarrow> DiffWriter \<times> directory" where
  "loopRecord llen fails torn wd =
     (case queue (fst wd) of
        [] \<Rightarrow> wd
      | r # rs \<Rightarrow> writeRecord llen fails torn r ((fst wd)\<lparr>queue := rs\<rparr>, snd wd))"

definition loopEnd :: "failures \<Rightarrow> int \<Rightarrow> DiffWriter \<times> directory \<Rightarrow> DiffWriter \<times> directory" where
  "loopEnd fails now wd = (case flushStats fails now wd of (w, d) \<Rightarrow> (w\<lparr>wdone := True\<rparr>, d))"

text \<open>\<open>Close\<close> up to the wait for the goroutine, and after it.\<close>

definition closeQueue :: "DiffWriter \<Rightarrow> DiffWriter" where
  "closeQueue w = (if wclosed w then w else w\<lparr>wclosed := True\<rparr>)"

definition closeFile :: "DiffWriter \<Rightarrow> DiffWriter" where
  "closeFile w = w\<lparr>fileOpen := False\<rparr>"

text \<open>
  The goroutines that share a writer, one turn at a time.  A record that is submitted is accepted,
  dropped or, after \<open>Close\<close>, refused; the writer goroutine takes the records in order, ends once the
  queue is closed and empty, and only then the file is closed.  A turn that is not possible in a
  state leaves it as it is.
\<close>

datatype turn =
    Submit int LogRecord
  | Count int string bool
  | TakeOne failures nat
  | Tick failures int
  | Ending failures int
  | Shut
  | ShutFile

fun turnOf :: "(raw \<Rightarrow> string) \<Rightarrow> (LogRecord \<Rightarrow> nat) \<Rightarrow> turn \<Rightarrow> DiffWriter \<times> directory \<Rightarrow> DiffWriter \<times> directory" where
  "turnOf btext llen (Submit now r) wd = (snd (Log btext now r (fst wd)), snd wd)"
| "turnOf btext llen (Count now endpoint matched) wd = (Observe now endpoint matched (fst wd), snd wd)"
| "turnOf btext llen (TakeOne fails torn) wd = (if wdone (fst wd) then wd else loopRecord llen fails torn wd)"
| "turnOf btext llen (Tick fails now) wd = (if wdone (fst wd) then wd else flushStats fails now wd)"
| "turnOf btext llen (Ending fails now) wd =
     (if wdone (fst wd) \<or> \<not> wclosed (fst wd) \<or> queue (fst wd) \<noteq> [] then wd else loopEnd fails now wd)"
| "turnOf btext llen Shut wd = (closeQueue (fst wd), snd wd)"
| "turnOf btext llen ShutFile wd = (if wdone (fst wd) then (closeFile (fst wd), snd wd) else wd)"

definition turns :: "(raw \<Rightarrow> string) \<Rightarrow> (LogRecord \<Rightarrow> nat) \<Rightarrow> turn list \<Rightarrow> DiffWriter \<times> directory \<Rightarrow> DiffWriter \<times> directory" where
  "turns btext llen ts wd = fold (turnOf btext llen) ts wd"

text \<open>\<open>Files\<close>, on the names the directory lists.\<close>

definition Files :: "string list \<Rightarrow> string list" where
  "Files names = sort (filter (\<lambda>n. hasPrefix n activeName) names)"

section \<open>Lemmas\<close>

text \<open>What a turn of the writer goroutine leaves alone.\<close>

definition sameQueue :: "DiffWriter \<Rightarrow> DiffWriter \<Rightarrow> bool" where
  "sameQueue w w' \<longleftrightarrow> opts w' = opts w \<and> queue w' = queue w \<and> wclosed w' = wclosed w \<and> wdone w' = wdone w \<and>
     wdropped w' = wdropped w"

lemma noteErr_sel [simp]:
  "opts (noteErr w) = opts w" "queue (noteErr w) = queue w" "wclosed (noteErr w) = wclosed w" "wdone (noteErr w) = wdone w"
  "wdropped (noteErr w) = wdropped w" "fileOpen (noteErr w) = fileOpen w" "wsize (noteErr w) = wsize w"
  "wstats (noteErr w) = wstats w" "werrs (noteErr w) = werrs w + 1"
  by (simp_all add: noteErr_def)

lemma openActiveLocked_same:
  "openActiveLocked llen fails (w, d) = (ok, w', d') \<Longrightarrow> sameQueue w w' \<and> wstats w' = wstats w \<and> werrs w' = werrs w"
  by (auto simp: openActiveLocked_def sameQueue_def Let_def split: if_splits)

lemma rotateLocked_same:
  assumes "rotateLocked llen fails (w, d) = (ok, w', d')"
  shows "sameQueue w w' \<and> Logged (wstats w') = Logged (wstats w) \<and> werrs w' = werrs w"
proof -
  have "sameQueue w w' \<and> Logged (wstats w') = Logged (wstats w) \<and> werrs w' = werrs w"
    if "openActiveLocked llen fails (w\<lparr>fileOpen := False, wstats := (wstats w)\<lparr>Rotations := n\<rparr>\<rparr>, d1) = (ok, w', d')" for d1 n
    using openActiveLocked_same [OF that] by (simp add: sameQueue_def)
  then show ?thesis
    using assms by (auto simp: rotateLocked_def Let_def sameQueue_def split: if_splits option.splits prod.splits bool.splits)
qed

text \<open>Writing a record counts it as logged, or counts an error.\<close>

definition accounted :: "DiffWriter \<Rightarrow> DiffWriter \<Rightarrow> bool" where
  "accounted w w' \<longleftrightarrow> sameQueue w w' \<and>
     (Logged (wstats w') = Logged (wstats w) + 1 \<and> werrs w \<le> werrs w' \<or>
      Logged (wstats w') = Logged (wstats w) \<and> werrs w' = werrs w + 1)"

lemma appendLine_accounted: "accounted w (fst (appendLine llen fails torn r (w, d)))"
  by (simp add: appendLine_def accounted_def sameQueue_def Let_def)

lemma writeRecord_accounted: "accounted w (fst (writeRecord llen fails torn r (w, d)))"
proof -
  have "accounted w (fst (case rotateLocked llen fails (w, d) of (False, w, d) \<Rightarrow> (noteErr w, d)
      | (True, w, d) \<Rightarrow> appendLine llen fails torn r (w, d)))"
  proof -
    obtain ok w' d' where r: "rotateLocked llen fails (w, d) = (ok, w', d')" by (cases "rotateLocked llen fails (w, d)")
    note same = rotateLocked_same [OF r]
    show ?thesis
    proof (cases ok)
      case True
      with r same appendLine_accounted [of w' llen fails torn r d'] show ?thesis
        by (auto simp: accounted_def sameQueue_def)
    qed (use r same in \<open>simp add: accounted_def sameQueue_def\<close>)
  qed
  moreover have "accounted w (noteErr w)" by (simp add: accounted_def sameQueue_def)
  ultimately show ?thesis using appendLine_accounted by (simp add: writeRecord_def)
qed

text \<open>The ledger of a run: how many records were submitted and how many of them met a closed queue.\<close>

fun submitted :: "turn list \<Rightarrow> nat" where
  "submitted [] = 0"
| "submitted (Submit _ _ # ts) = submitted ts + 1"
| "submitted (_ # ts) = submitted ts"

fun refused :: "(raw \<Rightarrow> string) \<Rightarrow> (LogRecord \<Rightarrow> nat) \<Rightarrow> turn list \<Rightarrow> DiffWriter \<times> directory \<Rightarrow> nat" where
  "refused btext llen [] wd = 0"
| "refused btext llen (t # ts) wd =
     (case t of Submit _ _ \<Rightarrow> (if wclosed (fst wd) then 1 else 0) | _ \<Rightarrow> 0) + refused btext llen ts (turnOf btext llen t wd)"

text \<open>Every record that was submitted is logged, lost with an error counted, queued, dropped and
  counted, or refused: one turn at a time.\<close>

definition settled :: "DiffWriter \<Rightarrow> nat \<Rightarrow> nat" where
  "settled w lost = Logged (wstats w) + lost + length (queue w) + wdropped w"

lemma turn_ledger:
  assumes "lost \<le> werrs (fst wd)"
  shows "\<exists>lost'. lost' \<le> werrs (fst (turnOf btext llen t wd)) \<and>
    settled (fst (turnOf btext llen t wd)) lost' + (case t of Submit _ _ \<Rightarrow> (if wclosed (fst wd) then 1 else 0) | _ \<Rightarrow> 0) =
      settled (fst wd) lost + submitted [t]"
proof (cases t)
  case (Submit now r)
  then show ?thesis using assms by (auto simp: Log_def settled_def Let_def)
next
  case (Count now endpoint matched)
  have "Logged (observe now endpoint matched s) = Logged s" for s by (simp add: observe_def Let_def)
  with Count show ?thesis using assms by (auto simp: Observe_def settled_def)
next
  case (TakeOne fails torn)
  show ?thesis
  proof (cases "wdone (fst wd) \<or> queue (fst wd) = []")
    case False
    then obtain r rs where q: "queue (fst wd) = r # rs" by (cases "queue (fst wd)") auto
    have "accounted ((fst wd)\<lparr>queue := rs\<rparr>) (fst (turnOf btext llen t wd))"
      using TakeOne False q writeRecord_accounted by (simp add: loopRecord_def)
    then consider "settled (fst (turnOf btext llen t wd)) lost = settled (fst wd) lost" "werrs (fst wd) \<le> werrs (fst (turnOf btext llen t wd))"
      | "settled (fst (turnOf btext llen t wd)) (lost + 1) = settled (fst wd) lost" "werrs (fst (turnOf btext llen t wd)) = werrs (fst wd) + 1"
      using q by (auto simp: accounted_def sameQueue_def settled_def)
    then show ?thesis
    proof cases
      case 1
      with assms TakeOne show ?thesis by (intro exI [of _ lost]) simp
    next
      case 2
      with assms TakeOne show ?thesis by (intro exI [of _ "lost + 1"]) simp
    qed
  qed (use assms TakeOne in \<open>auto simp: loopRecord_def\<close>)
next
  case (Tick fails now)
  then show ?thesis using assms by (auto simp: flushStats_def settled_def Let_def split: prod.splits)
next
  case (Ending fails now)
  then show ?thesis using assms by (auto simp: loopEnd_def flushStats_def settled_def Let_def split: prod.splits)
next
  case Shut
  then show ?thesis using assms by (auto simp: closeQueue_def settled_def)
next
  case ShutFile
  then show ?thesis using assms by (auto simp: closeFile_def settled_def)
qed

lemma ledger:
  assumes "lost \<le> werrs (fst wd)"
  shows "\<exists>lost'. lost' \<le> werrs (fst (turns btext llen ts wd)) \<and>
    settled (fst (turns btext llen ts wd)) lost' + refused btext llen ts wd = settled (fst wd) lost + submitted ts"
  using assms
proof (induction ts arbitrary: wd lost)
  case (Cons t ts)
  from turn_ledger [OF Cons.prems] obtain l where l: "l \<le> werrs (fst (turnOf btext llen t wd))"
    "settled (fst (turnOf btext llen t wd)) l + (case t of Submit _ _ \<Rightarrow> (if wclosed (fst wd) then 1 else 0) | _ \<Rightarrow> 0) =
      settled (fst wd) lost + submitted [t]" by blast
  have "submitted (t # ts) = submitted [t] + submitted ts" by (cases t) simp_all
  with Cons.IH [OF l(1)] l(2) show ?case by (fastforce simp: turns_def)
qed (auto simp: turns_def)

text \<open>The goroutine ends only with an empty, closed queue, and the queue keeps to its capacity.\<close>

definition orderly :: "Options \<Rightarrow> DiffWriter \<Rightarrow> bool" where
  "orderly options w \<longleftrightarrow> opts w = options \<and> (wdone w \<longrightarrow> wclosed w \<and> queue w = []) \<and>
     int (length (queue w)) \<le> optQueueSize options"

lemma turn_orderly: "orderly options (fst wd) \<Longrightarrow> orderly options (fst (turnOf btext llen t wd))"
proof (cases t)
  case (TakeOne fails torn)
  assume o: "orderly options (fst wd)"
  show ?thesis
  proof (cases "wdone (fst wd) \<or> queue (fst wd) = []")
    case False
    then obtain r rs where q: "queue (fst wd) = r # rs" by (cases "queue (fst wd)") auto
    have "accounted ((fst wd)\<lparr>queue := rs\<rparr>) (fst (turnOf btext llen t wd))"
      using TakeOne False q writeRecord_accounted by (simp add: loopRecord_def)
    with o q False show ?thesis by (auto simp: accounted_def sameQueue_def orderly_def)
  qed (use o TakeOne in \<open>auto simp: loopRecord_def\<close>)
qed (auto simp: orderly_def Log_def Observe_def flushStats_def loopEnd_def closeQueue_def closeFile_def Let_def split: prod.splits)

lemma turns_orderly: "orderly options (fst wd) \<Longrightarrow> orderly options (fst (turns btext llen ts wd))"
  by (induction ts arbitrary: wd) (simp_all add: turns_def turn_orderly)

lemma applyDefaults_bounds:
  "0 < optMaxFileBytes (applyDefaults o')" "0 < optMaxFiles (applyDefaults o')" "0 < optQueueSize (applyDefaults o')"
  "0 < optListLimit (applyDefaults o')" "optBodyLimit (applyDefaults o') \<noteq> 0"
  by (simp_all add: applyDefaults_def DefaultMaxFileBytes_def DefaultMaxFiles_def DefaultQueueSize_def DefaultListLimit_def
      DefaultBodyLimit_def)

lemma openWriter_InrE:
  assumes "openWriter llen fails now options d = Inr (w, d')"
  obtains s where "loadStats (savedStats d) = Inr s" and "opts w = applyDefaults options" and "queue w = []" and "\<not> wclosed w"
    and "\<not> wdone w" and "wdropped w = 0" and "werrs w = 0" and "fileOpen w" and "activeFile d' = Some (case activeFile d of None \<Rightarrow> [] | Some cs \<Rightarrow> cs)"
    and "rotated d' = rotated d" and "wsize w = int (fileBytes llen (the (activeFile d')))"
    and "Compared (wstats w) = Compared s" and "Matched (wstats w) = Matched s" and "Mismatched (wstats w) = Mismatched s"
    and "EndpointTotals (wstats w) = EndpointTotals s" and "Logged (wstats w) = Logged s"
  using assms
  by (auto simp: openWriter_def rbind_eq_Inr openActiveLocked_def Let_def split: if_splits bool.splits prod.splits)

subsection \<open>Rotation\<close>

lemma rotatedName_inj [simp]: "rotatedName c i = rotatedName c j \<longleftrightarrow> i = j"
proof -
  have "natDigits i = natDigits j \<longleftrightarrow> i = j" using natDigits_val by (metis of_nat_eq_iff)
  then show ?thesis by (simp add: rotatedName_def itoa_def)
qed

text \<open>The rotated files in order, newest first, up to the first that does not exist.\<close>

definition slot :: "bool \<Rightarrow> (string \<Rightarrow> stored option) \<Rightarrow> nat \<Rightarrow> stored option" where
  "slot compress fs i = fs (rotatedName compress i)"

fun chunksOf :: "stored \<Rightarrow> chunk list" where
  "chunksOf (Plain cs) = cs"
| "chunksOf (Gzip cs) = cs"
| "chunksOf Partial = []"

definition history :: "bool \<Rightarrow> nat \<Rightarrow> (string \<Rightarrow> stored option) \<Rightarrow> chunk list list" where
  "history compress m fs = map (\<lambda>x. chunksOf (the x)) (takeWhile (\<lambda>x. x \<noteq> None) (map (slot compress fs) [1..<m + 1]))"

definition noHoles :: "bool \<Rightarrow> nat \<Rightarrow> (string \<Rightarrow> stored option) \<Rightarrow> bool" where
  "noHoles compress m fs \<longleftrightarrow> (\<forall>i. 1 \<le> i \<and> i \<le> m \<and> slot compress fs i = None \<longrightarrow> slot compress fs (i + 1) = None)"

lemma slot_upd [simp]: "slot c (fs(rotatedName c i := v)) j = (if i = j then v else slot c fs j)"
  by (simp add: slot_def)

lemma slot_osRename:
  "slot c (osRename (rotatedName c i) (rotatedName c (Suc i)) fs) j =
    (if slot c fs i = None then slot c fs j else if j = Suc i then slot c fs i else if j = i then None else slot c fs j)"
  by (simp add: osRename_def slot_def split: option.split)

lemma slot_shiftFiles:
  assumes "\<And>op. \<not> fails op" and "i < m" and "noHoles c i fs"
  shows "slot c (shiftFiles fails c m i fs) k =
    (if 2 \<le> k \<and> k \<le> i + 1 then slot c fs (k - 1) else if k = 1 \<and> 1 \<le> i then None else slot c fs k)"
  using assms(2,3)
proof (induction i arbitrary: fs)
  case (Suc i)
  let ?fs = "osRename (rotatedName c (Suc i)) (rotatedName c (Suc (Suc i))) fs"
  have holes: "slot c fs (Suc i) = None \<Longrightarrow> slot c fs (Suc (Suc i)) = None"
    and below: "noHoles c i fs" using Suc.prems(2) by (auto simp: noHoles_def)
  have s: "slot c ?fs j = (if j = Suc (Suc i) then slot c fs (Suc i) else if j = Suc i then None else slot c fs j)" for j
    using holes by (auto simp: slot_osRename)
  have nh: "noHoles c i ?fs" using below by (auto simp: noHoles_def s)
  have sh: "shiftFiles fails c m (Suc i) fs = shiftFiles fails c m i ?fs" using assms(1) Suc.prems(1) by simp
  have "slot c (shiftFiles fails c m (Suc i) fs) k =
    (if 2 \<le> k \<and> k \<le> i + 1 then slot c ?fs (k - 1) else if k = 1 \<and> 1 \<le> i then None else slot c ?fs k)"
    unfolding sh by (rule Suc.IH) (use Suc.prems(1) nh in simp_all)
  then show ?case unfolding s by (cases "k = Suc (Suc i)"; cases "k = Suc i") auto
qed auto

lemma takeWhile_take: "takeWhile P (take n xs) = take n (takeWhile P xs)"
  by (induction xs arbitrary: n) (auto simp: take_Cons')

lemma history_shift:
  assumes "1 \<le> m" and "slot c fs' 1 = Some f" and "\<And>k. 2 \<le> k \<Longrightarrow> k \<le> m \<Longrightarrow> slot c fs' k = slot c fs (k - 1)"
  shows "history c m fs' = take m (chunksOf f # history c m fs)"
proof -
  obtain n where m: "m = Suc n" using assms(1) by (cases m) auto
  have "map (slot c fs') [Suc 1..<m + 1] = map (slot c fs) [1..<m]"
    using assms(3) by (intro nth_equalityI) (auto simp: m simp del: upt_Suc)
  then have "map (slot c fs') [1..<m + 1] = Some f # map (slot c fs) [1..<m]"
    using assms(1,2) by (subst upt_conv_Cons) auto
  moreover have "map (slot c fs) [1..<m] = take n (map (slot c fs) [1..<m + 1])"
    by (simp add: m take_map)
  then have "takeWhile (\<lambda>x. x \<noteq> None) (map (slot c fs) [1..<m]) = take n (takeWhile (\<lambda>x. x \<noteq> None) (map (slot c fs) [1..<m + 1]))"
    by (metis takeWhile_take)
  ultimately show ?thesis unfolding history_def by (simp only: takeWhile.simps) (simp add: m take_map del: upt_Suc)
qed

text \<open>The specification: the log is a list of files, newest first, of which the last \<open>m + 1\<close> are kept.\<close>

definition keepRecord :: "(LogRecord \<Rightarrow> nat) \<Rightarrow> int \<Rightarrow> nat \<Rightarrow> LogRecord \<Rightarrow> chunk list list \<Rightarrow> chunk list list" where
  "keepRecord llen limit m r fs =
     (if int (fileBytes llen (hd fs) + llen r + 1) > limit \<and> fileBytes llen (hd fs) > 0 then take (m + 1) ([Line r] # fs)
      else (hd fs @ [Line r]) # tl fs)"

definition keptFiles :: "DiffWriter \<times> directory \<Rightarrow> chunk list list" where
  "keptFiles wd = the (activeFile (snd wd)) # history (optCompress (opts (fst wd))) (nat (optMaxFiles (opts (fst wd)))) (rotated (snd wd))"

definition synced :: "(LogRecord \<Rightarrow> nat) \<Rightarrow> Options \<Rightarrow> DiffWriter \<times> directory \<Rightarrow> bool" where
  "synced llen o' wd \<longleftrightarrow> opts (fst wd) = o' \<and> 1 \<le> optMaxFiles o' \<and> fileOpen (fst wd) \<and>
     (\<exists>cs. activeFile (snd wd) = Some cs \<and> wsize (fst wd) = int (fileBytes llen cs)) \<and>
     noHoles (optCompress o') (nat (optMaxFiles o') - 1) (rotated (snd wd))"

lemma fileBytes_snoc [simp]: "fileBytes llen (cs @ [c]) = fileBytes llen cs + chunkBytes llen c" "fileBytes llen [] = 0"
  by (simp_all add: fileBytes_def)

definition archivedAs :: "bool \<Rightarrow> chunk list \<Rightarrow> stored" where
  "archivedAs c cs = (if c then Gzip cs else Plain cs)"

lemma chunksOf_archived [simp]: "chunksOf (archivedAs c cs) = cs"
  by (simp add: archivedAs_def)

lemma archive_ok:
  "(\<And>op. \<not> fails op) \<Longrightarrow>
    archive fails c cs d = (True, d\<lparr>rotated := (rotated d)(rotatedName c 1 \<mapsto> archivedAs c cs), activeFile := None\<rparr>)"
  by (simp add: archive_def archivedAs_def Let_def)

lemma rotateLocked_ok:
  assumes "synced llen o' (w, d)" and f: "\<And>op. \<not> fails op"
  obtains w' d' where "rotateLocked llen fails (w, d) = (True, w', d')" and "synced llen o' (w', d')" and "wsize w' = 0"
    and "keptFiles (w', d') = [] # take (nat (optMaxFiles o')) (keptFiles (w, d))"
proof -
  let ?c = "optCompress o'" and ?m = "nat (optMaxFiles o')"
  from assms(1) obtain cs where w: "opts w = o'" "1 \<le> ?m" "activeFile d = Some cs" "noHoles ?c (?m - 1) (rotated d)"
    by (auto simp: synced_def)
  define fs where "fs = shiftFiles fails ?c ?m (?m - 1) (rotated d)"
  define g where "g = archivedAs ?c cs"
  have g: "chunksOf g = cs"
    "archive fails ?c cs (d\<lparr>rotated := fs\<rparr>) = (True, d\<lparr>rotated := fs(rotatedName ?c 1 \<mapsto> g), activeFile := None\<rparr>)"
    by (simp_all add: g_def archive_ok [OF f])
  define d' where "d' = d\<lparr>rotated := fs(rotatedName ?c 1 \<mapsto> g), activeFile := Some []\<rparr>"
  obtain w' where r: "rotateLocked llen fails (w, d) = (True, w', d')" "opts w' = o'" "fileOpen w'" "wsize w' = 0"
    using f w g(2) by (simp add: rotateLocked_def Let_def openActiveLocked_def d'_def fs_def)
  have s: "slot ?c (rotated d') k =
      (if k = 1 then Some g else if 2 \<le> k \<and> k \<le> ?m then slot ?c (rotated d) (k - 1) else slot ?c (rotated d) k)" for k
    using slot_shiftFiles [where fails = fails and i = "?m - 1" and m = ?m and c = ?c and fs = "rotated d" and k = k] f w(2,4)
    by (auto simp: d'_def fs_def)
  have "history ?c ?m (rotated d') = take ?m (cs # history ?c ?m (rotated d))"
    using history_shift [of ?m ?c "rotated d'" g "rotated d"] w(2) g(1) by (simp add: s)
  then have "keptFiles (w', d') = [] # take ?m (keptFiles (w, d))"
    using r(2) w by (simp add: keptFiles_def d'_def)
  moreover have "noHoles ?c (?m - 1) (rotated d')"
    unfolding noHoles_def
  proof (intro allI impI)
    fix i assume i: "1 \<le> i \<and> i \<le> ?m - 1 \<and> slot ?c (rotated d') i = None"
    then have j: "2 \<le> i" "i \<le> ?m - 1" "slot ?c (rotated d) (i - 1) = None" by (auto simp: s split: if_splits)
    moreover from j have "1 \<le> i - 1" "i - 1 \<le> ?m - 1" by arith+
    ultimately have "1 \<le> i - 1 \<and> i - 1 \<le> ?m - 1 \<and> slot ?c (rotated d) (i - 1) = None" by blast
    with w(4) have "slot ?c (rotated d) (i - 1 + 1) = None" unfolding noHoles_def by blast
    moreover have "i + 1 \<le> ?m" using j by arith
    ultimately show "slot ?c (rotated d') (i + 1) = None" using j by (simp add: s)
  qed
  then have "synced llen o' (w', d')" using r w(2) by (simp add: synced_def d'_def)
  ultimately show ?thesis using that r by blast
qed

lemma hd_kept: "hd (keptFiles (w, d)) = the (activeFile d)"
  by (simp add: keptFiles_def)

lemma writeRecord_refines:
  assumes "synced llen o' (w, d)" and f: "\<And>op. \<not> fails op" and "encodable r"
  shows "synced llen o' (writeRecord llen fails torn r (w, d)) \<and>
    keptFiles (writeRecord llen fails torn r (w, d)) =
      keepRecord llen (optMaxFileBytes o') (nat (optMaxFiles o')) r (keptFiles (w, d))"
proof -
  have app: "synced llen o' (appendLine llen fails torn r (w, d)) \<and>
      keptFiles (appendLine llen fails torn r (w, d)) = (hd (keptFiles (w, d)) @ [Line r]) # tl (keptFiles (w, d))"
    if "synced llen o' (w, d)" for w d
    using that f by (auto simp: appendLine_def synced_def keptFiles_def appendActive_def chunkBytes_def Let_def)
  from assms(1) obtain cs where cs: "activeFile d = Some cs" "wsize w = int (fileBytes llen cs)" "opts w = o'" "fileOpen w"
    "1 \<le> nat (optMaxFiles o')" by (auto simp: synced_def)
  show ?thesis
  proof (cases "int (fileBytes llen cs + llen r + 1) > optMaxFileBytes o' \<and> fileBytes llen cs > 0")
    case True
    obtain w' d' where
      r: "rotateLocked llen fails (w, d) = (True, w', d')" "synced llen o' (w', d')" "wsize w' = 0"
        "keptFiles (w', d') = [] # take (nat (optMaxFiles o')) (keptFiles (w, d))"
      by (rule rotateLocked_ok [where fails = fails, OF assms(1) f]) (rule that)
    have "writeRecord llen fails torn r (w, d) = appendLine llen fails torn r (w', d')"
      using True r(1) cs assms(3) by (simp add: writeRecord_def)
    moreover have "keepRecord llen (optMaxFileBytes o') (nat (optMaxFiles o')) r (keptFiles (w, d)) =
        [Line r] # take (nat (optMaxFiles o')) (keptFiles (w, d))"
      using True cs(1) by (simp add: keepRecord_def hd_kept)
    ultimately show ?thesis using app [OF r(2)] by (simp add: r(4))
  next
    case False
    then have "writeRecord llen fails torn r (w, d) = appendLine llen fails torn r (w, d)"
      using cs assms(3) by (auto simp: writeRecord_def)
    with app [OF assms(1)] False cs(1) show ?thesis by (auto simp: keepRecord_def hd_kept)
  qed
qed

subsection \<open>Counters and the verdict\<close>

definition epTallied :: "EndpointStats \<Rightarrow> bool" where
  "epTallied e \<longleftrightarrow> epCompared e = epMatched e + epMismatched e \<and> (LastMismatch e = None \<longleftrightarrow> epMismatched e = 0)"

definition tallied :: "LogStats \<Rightarrow> bool" where
  "tallied s \<longleftrightarrow> gomap (EndpointTotals s) \<and> Compared s = Matched s + Mismatched s \<and>
     Compared s = sum_list (map (\<lambda>(_, e). epCompared e) (EndpointTotals s)) \<and>
     (\<forall>p \<in> set (EndpointTotals s). epTallied (snd p))"

lemma tallied_noStats [simp]: "tallied noStats"
  by (simp add: tallied_def noStats_def)

lemma sum_gset:
  fixes f :: "'v \<Rightarrow> nat"
  assumes "gomap m"
  shows "sum_list (map (\<lambda>(_, e). f e) (gset k v m)) + (case gget m k of None \<Rightarrow> 0 | Some e \<Rightarrow> f e) =
    sum_list (map (\<lambda>(_, e). f e) m) + f v"
  using assms
proof (induction m)
  case (Cons p m)
  obtain k' e where p: "p = (k', e)" by fastforce
  show ?case
  proof (cases "k' = k")
    case True
    then show ?thesis by (simp add: p gset_def)
  next
    case False
    with Cons show ?thesis by (simp add: p gset_def gomap_def)
  qed
qed (simp add: gset_def)

lemma ball_gset: "\<forall>p \<in> set m. P (snd p) \<Longrightarrow> P v \<Longrightarrow> \<forall>p \<in> set (gset k v m). P (snd p)"
  unfolding gset_def by (induction m) auto

lemma endpointOf_tallied: "tallied s \<Longrightarrow> epTallied (endpointOf s n)"
proof (cases "gget (EndpointTotals s) n")
  case (Some e)
  then show "tallied s \<Longrightarrow> epTallied (endpointOf s n)"
    using map_of_SomeD [OF Some] by (force simp: endpointOf_def tallied_def)
qed (simp add: endpointOf_def noEndpoint_def epTallied_def)

lemma tallyEndpoint_tallied:
  "epTallied e \<Longrightarrow> epTallied (tallyEndpoint now matched e)" "epCompared (tallyEndpoint now matched e) = epCompared e + 1"
  by (simp_all add: tallyEndpoint_def epTallied_def Let_def)

lemma observe_sel:
  "EndpointTotals (observe now endpoint matched s) = gset endpoint (tallyEndpoint now matched (endpointOf s endpoint)) (EndpointTotals s)"
  "Compared (observe now endpoint matched s) = Compared s + 1"
  "Matched (observe now endpoint matched s) + Mismatched (observe now endpoint matched s) = Matched s + Mismatched s + 1"
  "Logged (observe now endpoint matched s) = Logged s"
  by (simp_all add: observe_def Let_def)

lemma observe_tallied:
  assumes "tallied s"
  shows "tallied (observe now endpoint matched s)"
proof -
  let ?e = "tallyEndpoint now matched (endpointOf s endpoint)"
  from assms have t: "gomap (EndpointTotals s)" "\<forall>p \<in> set (EndpointTotals s). epTallied (snd p)" by (simp_all add: tallied_def)
  have "sum_list (map (\<lambda>(_, e). epCompared e) (gset endpoint ?e (EndpointTotals s))) =
      sum_list (map (\<lambda>(_, e). epCompared e) (EndpointTotals s)) + 1"
    using sum_gset [OF t(1), of epCompared endpoint ?e]
    by (cases "gget (EndpointTotals s) endpoint") (auto simp: endpointOf_def noEndpoint_def tallyEndpoint_tallied)
  moreover have "\<forall>p \<in> set (gset endpoint ?e (EndpointTotals s)). epTallied (snd p)"
    by (rule ball_gset [OF t(2)]) (intro tallyEndpoint_tallied endpointOf_tallied assms)
  ultimately show ?thesis using assms t(1) by (simp add: tallied_def observe_sel)
qed

text \<open>When the disagreements of an endpoint were counted.\<close>

fun mismatchTimes :: "string \<Rightarrow> turn list \<Rightarrow> int list" where
  "mismatchTimes n [] = []"
| "mismatchTimes n (Count now endpoint matched # ts) = (if endpoint = n \<and> \<not> matched then [now] else []) @ mismatchTimes n ts"
| "mismatchTimes n (_ # ts) = mismatchTimes n ts"

lemma turn_stats:
  "Compared (wstats (fst (turnOf btext llen t wd))) = Compared (case t of Count now n m \<Rightarrow> observe now n m (wstats (fst wd)) | _ \<Rightarrow> wstats (fst wd))"
  "EndpointTotals (wstats (fst (turnOf btext llen t wd))) =
     EndpointTotals (case t of Count now n m \<Rightarrow> observe now n m (wstats (fst wd)) | _ \<Rightarrow> wstats (fst wd))"
proof -
  have o: "openActiveLocked llen fails (w, d) = (ok, w', d') \<Longrightarrow> wstats w' = wstats w" for fails w d ok w' d'
    using openActiveLocked_same by blast
  have r: "rotateLocked llen fails (w, d) = (ok, w', d') \<Longrightarrow>
      Compared (wstats w') = Compared (wstats w) \<and> EndpointTotals (wstats w') = EndpointTotals (wstats w)" for fails w d ok w' d'
    by (auto simp: rotateLocked_def Let_def dest!: o split: if_splits option.splits prod.splits bool.splits)
  have a: "Compared (wstats (fst (appendLine llen fails torn x wd))) = Compared (wstats (fst wd)) \<and>
      EndpointTotals (wstats (fst (appendLine llen fails torn x wd))) = EndpointTotals (wstats (fst wd))" for fails torn x wd
    by (simp add: appendLine_def Let_def split: prod.split)
  have w: "Compared (wstats (fst (writeRecord llen fails torn x wd))) = Compared (wstats (fst wd)) \<and>
      EndpointTotals (wstats (fst (writeRecord llen fails torn x wd))) = EndpointTotals (wstats (fst wd))" for fails torn x wd
    by (auto simp: writeRecord_def a dest!: r split: prod.split bool.split)
  show "Compared (wstats (fst (turnOf btext llen t wd))) = Compared (case t of Count now n m \<Rightarrow> observe now n m (wstats (fst wd)) | _ \<Rightarrow> wstats (fst wd))"
    "EndpointTotals (wstats (fst (turnOf btext llen t wd))) =
       EndpointTotals (case t of Count now n m \<Rightarrow> observe now n m (wstats (fst wd)) | _ \<Rightarrow> wstats (fst wd))"
    by (cases t; auto simp: Log_def Observe_def loopRecord_def w flushStats_def loopEnd_def closeQueue_def closeFile_def Let_def split: prod.split list.split)+
qed

lemma turn_endpoint:
  "endpointOf (wstats (fst (turnOf btext llen t wd))) n =
     (case t of Count now m matched \<Rightarrow>
        (if m = n then tallyEndpoint now matched (endpointOf (wstats (fst wd)) n) else endpointOf (wstats (fst wd)) n)
      | _ \<Rightarrow> endpointOf (wstats (fst wd)) n)"
  using turn_stats(2) [of btext llen t wd]
  by (cases t) (auto simp: endpointOf_def observe_sel simp del: turnOf.simps)

lemma turns_last_mismatch:
  "LastMismatch (endpointOf (wstats (fst (turns btext llen ts wd))) n) =
     (if mismatchTimes n ts = [] then LastMismatch (endpointOf (wstats (fst wd)) n) else Some (last (mismatchTimes n ts)))"
proof (induction ts arbitrary: wd)
  case (Cons t ts)
  from Cons [of "turnOf btext llen t wd"] show ?case
    by (cases t) (auto simp: turns_def turn_endpoint tallyEndpoint_def Let_def simp del: turnOf.simps)
qed (simp add: turns_def)

lemma turns_ep_tallied:
  "epTallied (endpointOf (wstats (fst wd)) n) \<Longrightarrow> epTallied (endpointOf (wstats (fst (turns btext llen ts wd))) n)"
proof (induction ts arbitrary: wd)
  case (Cons t ts)
  have "epTallied (endpointOf (wstats (fst (turnOf btext llen t wd))) n)"
    using Cons.prems by (cases t) (auto simp: turn_endpoint tallyEndpoint_tallied simp del: turnOf.simps)
  with Cons.IH show ?case by (simp add: turns_def)
qed (simp add: turns_def)

lemma sorted_le_last: "sorted xs \<Longrightarrow> x \<in> set xs \<Longrightarrow> x \<le> last xs"
  by (induction xs) auto

subsection \<open>A rotation that fails\<close>

lemma archive_rotated: "archive fails c cs d = (ok, d') \<Longrightarrow> \<not> ok \<Longrightarrow> activeFile d' = activeFile d"
  by (auto simp: archive_def Let_def split: if_splits)

lemma rotateLocked_failed:
  "rotateLocked llen fails (w, d) = (False, w', d') \<Longrightarrow> \<not> fails CloseActive \<Longrightarrow> \<not> fileOpen w'"
  by (auto simp: rotateLocked_def openActiveLocked_def Let_def split: if_splits option.splits prod.splits bool.splits)

lemma turn_silent:
  assumes "\<not> fileOpen (fst wd)"
  shows "\<not> fileOpen (fst (turnOf btext llen t wd)) \<and> Logged (wstats (fst (turnOf btext llen t wd))) = Logged (wstats (fst wd)) \<and>
    activeFile (snd (turnOf btext llen t wd)) = activeFile (snd wd) \<and> rotated (snd (turnOf btext llen t wd)) = rotated (snd wd)"
  using assms
  by (cases t) (auto simp: Log_def Observe_def observe_sel loopRecord_def writeRecord_def flushStats_def loopEnd_def closeQueue_def
      closeFile_def Let_def split: prod.split list.split)

lemma turns_silent:
  assumes "\<not> fileOpen (fst wd)"
  shows "Logged (wstats (fst (turns btext llen ts wd))) = Logged (wstats (fst wd)) \<and>
    activeFile (snd (turns btext llen ts wd)) = activeFile (snd wd) \<and> rotated (snd (turns btext llen ts wd)) = rotated (snd wd)"
  using assms
proof (induction ts arbitrary: wd)
  case (Cons t ts)
  with turn_silent [OF Cons.prems, of btext llen t] show ?case by (simp add: turns_def)
qed (simp add: turns_def)

section \<open>Properties\<close>

text \<open>C32. The log's own warnings are enough to trust it: whatever the interleaving of submissions,
  comparisons, writes, failing disks, ticks and closing, every record submitted since the log was
  opened is logged, lost with a write error counted, still queued, counted as dropped, or was
  submitted after closing; the queue keeps to its capacity; and once the writer has ended with no
  drops and no errors counted, exactly the records submitted before closing are logged.\<close>

theorem log_accounts_for_every_record:
  assumes "openWriter llen fails now options d0 = Inr (w0, d1)" and "turns btext llen ts (w0, d1) = (w, d)"
  shows "int (length (queue w)) \<le> optQueueSize (applyDefaults options) \<and>
    (\<exists>lost. lost \<le> WriteErrors (Snapshot (Some w)) \<and>
       Logged (wstats w) + lost + length (queue w) + Dropped (Snapshot (Some w)) + refused btext llen ts (w0, d1) =
         Logged (wstats w0) + submitted ts) \<and>
    (wdone w \<and> Dropped (Snapshot (Some w)) = 0 \<and> WriteErrors (Snapshot (Some w)) = 0 \<longrightarrow>
       Logged (wstats w) + refused btext llen ts (w0, d1) = Logged (wstats w0) + submitted ts)"
proof -
  from assms(1) have o: "orderly (applyDefaults options) w0" and z: "queue w0 = []" "wdropped w0 = 0"
    using applyDefaults_bounds(3) [of options] by (auto elim!: openWriter_InrE simp: orderly_def)
  have ow: "orderly (applyDefaults options) w" using turns_orderly [of _ "(w0, d1)" btext llen ts] o assms(2) by simp
  from ledger [of 0 "(w0, d1)" btext llen ts] assms(2) z obtain lost where
    "lost \<le> werrs w" "settled w lost + refused btext llen ts (w0, d1) = Logged (wstats w0) + submitted ts"
    by (auto simp: settled_def)
  with ow show ?thesis by (fastforce simp: Snapshot_def settled_def orderly_def)
qed

lemma concat_rev_keep:
  assumes "fs \<noteq> []"
  shows "suffix (concat (rev (keepRecord llen limit m r fs))) (concat (rev fs) @ [Line r])"
proof (cases "int (fileBytes llen (hd fs) + llen r + 1) > limit \<and> fileBytes llen (hd fs) > 0")
  case True
  have "rev fs = rev (drop m fs) @ rev (take m fs)" by (metis append_take_drop_id rev_append)
  then have "suffix (concat (rev (take m fs))) (concat (rev fs))" by (simp add: suffix_def)
  then show ?thesis using True by (auto simp: keepRecord_def suffix_def)
next
  case False
  from assms obtain g gs where "fs = g # gs" by (cases fs) auto
  with False show ?thesis by (auto simp: keepRecord_def)
qed


text \<open>The promotion gate is not opened by a recent disagreement: for a log whose saved counters add
  up and a clock that does not run backwards, whatever happened since it was opened, an endpoint
  that is reported ready has been compared, and every disagreement counted for it is at least the
  promotion window old.\<close>

theorem ready_means_a_quiet_window:
  assumes "openWriter llen fails opened options d0 = Inr (w0, d1)" and "\<And>s. savedStats d0 = Saved s \<Longrightarrow> tallied s"
    and "turns btext llen ts (w0, d1) = (w, d)" and "sorted (mismatchTimes n ts)"
    and "verdictOf now (endpointOf (wstats w) n) elapsed \<in> {ReadyAfter k since, Ready k}"
  shows "0 < epCompared (endpointOf (wstats w) n) \<and> (\<forall>t \<in> set (mismatchTimes n ts). now - t \<ge> promotionWindow)"
proof -
  let ?e = "endpointOf (wstats w) n"
  obtain s where s: "loadStats (savedStats d0) = Inr s" "EndpointTotals (wstats w0) = EndpointTotals s"
    using assms(1) by (rule openWriter_InrE)
  have "tallied s" using s(1) assms(2) by (cases "savedStats d0") (auto simp: loadStats_def)
  then have "epTallied (endpointOf (wstats w0) n)" using endpointOf_tallied [of s n] s(2) by (simp add: endpointOf_def)
  with turns_ep_tallied [of "(w0, d1)" n btext llen ts] assms(3) have t: "epTallied ?e" by simp
  have "0 < epCompared ?e" using assms(5) by (auto simp: verdictOf_def split: if_splits)
  moreover have "now - t \<ge> promotionWindow" if "t \<in> set (mismatchTimes n ts)" for t
  proof -
    have "LastMismatch ?e = Some (last (mismatchTimes n ts))"
      using turns_last_mismatch [of btext llen ts "(w0, d1)" n] that assms(3) by auto
    moreover have "t \<le> last (mismatchTimes n ts)"
      using that assms(4) by (simp add: sorted_le_last)
    ultimately show ?thesis using assms(5) t by (auto simp: verdictOf_def epTallied_def Let_def split: if_splits)
  qed
  ultimately show ?thesis by blast
qed

text \<open>The window is measured from the start of the whole log: an endpoint that has been compared once, a
  moment ago, is ready when the log is old enough.\<close>

lemma one_comparison_is_ready:
  "verdictOf now (tallyEndpoint now True noEndpoint) promotionWindow = Ready 1"
  by (simp add: verdictOf_def tallyEndpoint_def noEndpoint_def)

text \<open>A rotation that fails silences the log for good: when closing the active file succeeds and a
  later step of the rotation fails, the record is lost and nothing that happens afterwards logs
  another record or touches the log files again; only the write errors tell.\<close>

theorem failed_rotation_silences_the_log:
  assumes "rotateLocked llen fails (w, d) = (False, w1, d1)" and "\<not> fails CloseActive" and "encodable r" and "fileOpen w"
    and "wsize w + int (llen r) + 1 > optMaxFileBytes (opts w)" and "wsize w > 0"
    and "turns btext llen ts (writeRecord llen fails torn r (w, d)) = (w2, d2)"
  shows "Logged (wstats w2) = Logged (wstats w) \<and> activeFile d2 = activeFile d1 \<and> rotated d2 = rotated d1"
proof -
  have "writeRecord llen fails torn r (w, d) = (noteErr w1, d1)"
    using assms(1,3,4,5,6) by (simp add: writeRecord_def)
  with turns_silent [of "(noteErr w1, d1)" btext llen ts] rotateLocked_failed [OF assms(1,2)] rotateLocked_same [OF assms(1)] assms(7)
  show ?thesis by simp
qed

text \<open>The files are listed in the order of their names, so that the tenth comes before the second.\<close>

lemma tenth_file_before_second:
  "Files [rotatedName True 2, rotatedName True 10, activeName, ''stats.json''] = [activeName, rotatedName True 10, rotatedName True 2]"
  by code_simp

subsection \<open>A small log\<close>

definition smallOptions :: Options where
  "smallOptions = \<lparr>optDir = ''d'', optMaxFileBytes = 10, optMaxFiles = 1, optCompress = True, optQueueSize = 1, optBodyLimit = 0, optListLimit = 0\<rparr>"

definition emptyDir :: directory where
  "emptyDir = \<lparr>activeFile = None, rotated = Map.empty, savedStats = NoFile\<rparr>"

definition aRecord :: "string \<Rightarrow> LogRecord" where
  "aRecord uri = \<lparr>recTime = 1, recKind = KindBody, recEndpoint = ''event'', recOrigin = ''b'', recURI = uri, recRoomID = '''', recEventID = '''',
     recSynapseStatus = 200, recNativeStatus = 200, recDiff = None, recNativeError = '''', recSynapseBody = None, recNativeBody = None,
     recTruncated = False\<rparr>"

definition smallWriter :: DiffWriter where
  "smallWriter = \<lparr>opts = applyDefaults smallOptions, queue = [], wclosed = False, wdone = False, fileOpen = True, wsize = 0,
     wstats = noStats\<lparr>Since := 5, Restarts := 1\<rparr>, wdropped = 0, werrs = 0\<rparr>"

lemma smallWriter_open:
  "openWriter (\<lambda>r. 5) (\<lambda>op. False) 5 smallOptions emptyDir = Inr (smallWriter, emptyDir\<lparr>activeFile := Some []\<rparr>)"
  by (simp add: openWriter_def smallWriter_def emptyDir_def smallOptions_def loadStats_def openActiveLocked_def noStats_def)


theorem log_accounts_for_every_record_witness:
  "let (w, d) = turns (\<lambda>b. '''') (\<lambda>r. 5) [Submit 6 (aRecord ''1''), Submit 7 (aRecord ''2''), TakeOne (\<lambda>op. False) 0, Shut, Submit 8 (aRecord ''3''),
       Ending (\<lambda>op. False) 9, ShutFile] (smallWriter, emptyDir\<lparr>activeFile := Some []\<rparr>) in
   wdone w \<and> Logged (wstats w) = 1 \<and> Dropped (Snapshot (Some w)) = 1 \<and>
   Logged (wstats w) + Dropped (Snapshot (Some w)) + 1 = submitted [Submit 6 (aRecord ''1''), Submit 7 (aRecord ''2''), Submit 8 (aRecord ''3'')]"
proof -
  let ?ts = "[Submit 6 (aRecord ''1''), Submit 7 (aRecord ''2''), TakeOne (\<lambda>op. False) 0, Shut, Submit 8 (aRecord ''3''),
       Ending (\<lambda>op. False) 9, ShutFile]"
  let ?wd = "(smallWriter, emptyDir\<lparr>activeFile := Some []\<rparr>)"
  obtain w d where wd: "turns (\<lambda>b. '''') (\<lambda>r. 5) ?ts ?wd = (w, d)" by fastforce
  have "wdone (fst (turns (\<lambda>b. '''') (\<lambda>r. 5) ?ts ?wd)) \<and> werrs (fst (turns (\<lambda>b. '''') (\<lambda>r. 5) ?ts ?wd)) = 0 \<and>
    wdropped (fst (turns (\<lambda>b. '''') (\<lambda>r. 5) ?ts ?wd)) = 1 \<and> queue (fst (turns (\<lambda>b. '''') (\<lambda>r. 5) ?ts ?wd)) = [] \<and>
    refused (\<lambda>b. '''') (\<lambda>r. 5) ?ts ?wd = 1 \<and> submitted ?ts = 3"
    by code_simp
  with log_accounts_for_every_record [OF smallWriter_open wd] wd show ?thesis
    by (auto simp: Snapshot_def smallWriter_def noStats_def)
qed

definition oldMismatch :: "turn list" where
  "oldMismatch = [Count 7 ''event'' False, Count 8 ''event'' True]"

theorem ready_means_a_quiet_window_witness:
  "let w = fst (turns (\<lambda>b. '''') (\<lambda>r. 5) oldMismatch (smallWriter, emptyDir\<lparr>activeFile := Some []\<rparr>)) in
   verdictOf (7 + promotionWindow) (endpointOf (wstats w) ''event'') promotionWindow = ReadyAfter 1 promotionWindow \<and>
   0 < epCompared (endpointOf (wstats w) ''event'') \<and>
   (\<forall>t \<in> set (mismatchTimes ''event'' oldMismatch). 7 + promotionWindow - t \<ge> promotionWindow)"
proof -
  let ?r = "turns (\<lambda>b. '''') (\<lambda>r. 5) oldMismatch (smallWriter, emptyDir\<lparr>activeFile := Some []\<rparr>)"
  have v: "verdictOf (7 + promotionWindow) (endpointOf (wstats (fst ?r)) ''event'') promotionWindow = ReadyAfter 1 promotionWindow"
    by code_simp
  obtain w d where r: "?r = (w, d)" by fastforce
  have "sorted (mismatchTimes ''event'' oldMismatch)" by (simp add: oldMismatch_def)
  from ready_means_a_quiet_window [OF smallWriter_open _ r this, of "7 + promotionWindow" promotionWindow 1 promotionWindow] v r
  show ?thesis by (simp add: emptyDir_def)
qed

theorem failed_rotation_silences_the_log_witness:
  "let d = emptyDir\<lparr>activeFile := Some [Line (aRecord ''1'')]\<rparr>; w = smallWriter\<lparr>wsize := 6\<rparr>;
       wd = writeRecord (\<lambda>r. 5) (\<lambda>op. op = GzipCopy) 0 (aRecord ''2'') (w, d);
       wd' = turns (\<lambda>b. '''') (\<lambda>r. 5) [Submit 7 (aRecord ''3''), TakeOne (\<lambda>op. False) 0] wd in
   Logged (wstats (fst wd')) = 0 \<and> werrs (fst wd') = 2 \<and> activeFile (snd wd') = Some [Line (aRecord ''1'')]"
proof -
  let ?d = "emptyDir\<lparr>activeFile := Some [Line (aRecord ''1'')]\<rparr>" and ?w = "smallWriter\<lparr>wsize := 6\<rparr>" and ?f = "\<lambda>op. op = GzipCopy"
  let ?r = "turns (\<lambda>b. '''') (\<lambda>r. 5) [Submit 7 (aRecord ''3''), TakeOne (\<lambda>op. False) 0] (writeRecord (\<lambda>r. 5) ?f 0 (aRecord ''2'') (?w, ?d))"
  obtain w1 d1 where r: "rotateLocked (\<lambda>r. 5) ?f (?w, ?d) = (False, w1, d1)" and a: "activeFile d1 = Some [Line (aRecord ''1'')]"
    by (simp add: rotateLocked_def archive_def smallWriter_def applyDefaults_def smallOptions_def emptyDir_def Let_def)
  obtain w2 d2 where t: "?r = (w2, d2)" by fastforce
  have "encodable (aRecord ''2'')" "fileOpen ?w" "wsize ?w + int 5 + 1 > optMaxFileBytes (opts ?w)" "wsize ?w > 0"
    by (simp_all add: encodable_def aRecord_def smallWriter_def applyDefaults_def smallOptions_def)
  from failed_rotation_silences_the_log [OF r _ this t] a have "Logged (wstats w2) = 0" "activeFile d2 = Some [Line (aRecord ''1'')]"
    by (simp_all add: smallWriter_def noStats_def)
  moreover have "werrs (fst ?r) = 2" by code_simp
  ultimately show ?thesis using t by (simp add: Let_def)
qed

end
