(* ===== verification/Compare.thy ===== *)
theory Compare
  imports Native Difflog
begin

text \<open>
  \<open>internal/shadow/compare.go\<close>: how two answers to one request are compared.  Maps that are ranged over
  only to fill a list that is sorted afterwards are association lists in the order of their keys'
  first assignment.  \<open>quote\<close>, a parameter, is the \<open>%q\<close> of \<open>fmt\<close>.
\<close>

section \<open>Identifiers\<close>

definition diffIDSets :: "string \<Rightarrow> string list \<Rightarrow> string list \<Rightarrow> FieldDiff" where
  "diffIDSets field synapse native =
     (let synSet = remdups synapse; natSet = remdups native in
      \<lparr>Field = field, MissingFromNative = sort (filter (\<lambda>i. i \<notin> set natSet) synSet),
       ExtraInNative = sort (filter (\<lambda>i. i \<notin> set synSet) natSet), ContentMismatch = [],
       SynapseCount = length synSet, NativeCount = length natSet, ListsTruncated = False\<rparr>)"

definition diffUnlessEmpty :: "Diff \<Rightarrow> Diff option" where
  "diffUnlessEmpty d = (if diffEmpty (Some d) then None else Some d)"

definition decodeStateIDs :: "raw \<Rightarrow> (string list \<times> string list) option" where
  "decodeStateIDs r =
     Option.bind (topObj r) (\<lambda>ms.
     Option.bind (decodeStrings (fieldVals ''pdu_ids'' ms) []) (\<lambda>ps.
     Option.bind (decodeStrings (fieldVals ''auth_chain_ids'' ms) []) (\<lambda>as. Some (ps, as))))"

datatype compareError = ParseSynapse | ParseNative | NoComparator string

definition CompareStateIDs :: "raw \<Rightarrow> raw \<Rightarrow> (compareError, Diff option) result" where
  "CompareStateIDs synapseBody nativeBody =
     (case decodeStateIDs synapseBody of
        None \<Rightarrow> Inl ParseSynapse
      | Some syn \<Rightarrow>
          (case decodeStateIDs nativeBody of
             None \<Rightarrow> Inl ParseNative
           | Some nat' \<Rightarrow>
               Inr (diffUnlessEmpty [diffIDSets ''pdu_ids'' (fst syn) (fst nat'), diffIDSets ''auth_chain_ids'' (snd syn) (snd nat')])))"

section \<open>Events\<close>

text \<open>A \<open>[]json.RawMessage\<close> field: an array replaces what an earlier occurrence left, \<open>null\<close> clears it.\<close>

fun decodeRaws :: "json list \<Rightarrow> json list \<Rightarrow> json list option" where
  "decodeRaws [] acc = Some acc"
| "decodeRaws (JArr es # vs) acc = decodeRaws vs es"
| "decodeRaws (JNull # vs) acc = decodeRaws vs []"
| "decodeRaws (_ # vs) acc = None"

definition decodeTransaction :: "raw \<Rightarrow> (string \<times> json list) option" where
  "decodeTransaction r =
     Option.bind (topObj r) (\<lambda>ms.
     Option.bind (decodeString (fieldVals ''origin'' ms) '''') (\<lambda>origin.
     Option.bind (decodeIntPtr (fieldVals ''origin_server_ts'' ms) None) (\<lambda>_.
     Option.bind (decodeRaws (fieldVals ''pdus'' ms) []) (\<lambda>ps. Some (origin, ps)))))"

definition positionKey :: "nat \<Rightarrow> string" where
  "positionKey i = ''#'' @ itoa (int i)"

definition pduKey :: "nat \<Rightarrow> json \<Rightarrow> string" where
  "pduKey i p = (case unmarshalStr ''event_id'' (Doc p) of Some e \<Rightarrow> if e \<noteq> '''' then e else positionKey i | None \<Rightarrow> positionKey i)"

definition indexPDUs :: "json list \<Rightarrow> (string, json) gomap" where
  "indexPDUs pdus = gofold (\<lambda>(i, p). (pduKey i p, p)) (enumerate 0 pdus)"

definition absentFrom :: "('k, 'v) gomap \<Rightarrow> ('k, 'v) gomap \<Rightarrow> ('k \<times> 'v) list" where
  "absentFrom m other = filter (\<lambda>(k, _). gget other k = None) m"

definition contentDiffers :: "(string, json) gomap \<Rightarrow> (string \<times> json) \<Rightarrow> bool" where
  "contentDiffers natPDUs p = (case gget natPDUs (fst p) of None \<Rightarrow> False | Some n \<Rightarrow> \<not> pduEqual (Doc (snd p)) (Doc n))"

definition CompareEvent :: "(string \<Rightarrow> string) \<Rightarrow> raw \<Rightarrow> raw \<Rightarrow> (compareError, Diff option) result" where
  "CompareEvent quote synapseBody nativeBody =
     (case decodeTransaction synapseBody of
        None \<Rightarrow> Inl ParseSynapse
      | Some syn \<Rightarrow>
          (case decodeTransaction nativeBody of
             None \<Rightarrow> Inl ParseNative
           | Some nat' \<Rightarrow>
               let synPDUs = indexPDUs (snd syn); natPDUs = indexPDUs (snd nat');
                   origins = (if fst syn \<noteq> fst nat' then [''origin: synapse='' @ quote (fst syn) @ '' native='' @ quote (fst nat')] else []) in
               Inr (diffUnlessEmpty
                 [\<lparr>Field = ''pdus'', MissingFromNative = sort (map fst (absentFrom synPDUs natPDUs)),
                   ExtraInNative = sort (map fst (absentFrom natPDUs synPDUs)),
                   ContentMismatch = sort (origins @ map fst (filter (contentDiffers natPDUs) synPDUs)),
                   SynapseCount = length (snd syn), NativeCount = length (snd nat'), ListsTruncated = False\<rparr>])))"

definition CompareStatus :: "int \<Rightarrow> int \<Rightarrow> bool \<times> bool" where
  "CompareStatus synapseStatus nativeStatus =
     (if synapseStatus \<noteq> nativeStatus then (False, False) else (True, synapseStatus = 200))"

section \<open>Missing events\<close>

definition decodeEvents :: "raw \<Rightarrow> json list option" where
  "decodeEvents r = Option.bind (topObj r) (\<lambda>ms. decodeRaws (fieldVals ''events'' ms) [])"

text \<open>The key of an event: its canonical form, or its position when it has none; the bytes of a canonical
  form never start with the mark of a position.\<close>

datatype contentKey = ByContent json | ByPosition nat

definition contentKeyOf :: "nat \<Rightarrow> json \<Rightarrow> contentKey" where
  "contentKeyOf i p = (case Canonical (Doc p) of Some c \<Rightarrow> ByContent c | None \<Rightarrow> ByPosition i)"

definition indexByContent :: "json list \<Rightarrow> (contentKey, json) gomap" where
  "indexByContent evs = gofold (\<lambda>(i, p). (contentKeyOf i p, p)) (enumerate 0 evs)"

text \<open>A \<open>*string\<close> field.\<close>

fun decodeStringPtr :: "json list \<Rightarrow> string option \<Rightarrow> string option option" where
  "decodeStringPtr [] acc = Some acc"
| "decodeStringPtr (JStr s # vs) acc = decodeStringPtr vs (Some s)"
| "decodeStringPtr (JNull # vs) acc = decodeStringPtr vs None"
| "decodeStringPtr (_ # vs) acc = None"

definition describeEvent :: "json \<Rightarrow> string" where
  "describeEvent p =
     (case Option.bind (topObj (Doc p)) (\<lambda>ms.
             Option.bind (decodeString (fieldVals ''event_id'' ms) '''') (\<lambda>eid.
             Option.bind (decodeString (fieldVals ''type'' ms) '''') (\<lambda>ty.
             Option.bind (decodeString (fieldVals ''sender'' ms) '''') (\<lambda>sender.
             Option.bind (decodeStringPtr (fieldVals ''state_key'' ms) None) (\<lambda>key. Some (eid, ty, sender, key)))))) of
        None \<Rightarrow> ''<unparseable>''
      | Some (eid, ty, sender, key) \<Rightarrow>
          if eid \<noteq> '''' then eid
          else (case key of
                  Some k \<Rightarrow> ty @ ''/'' @ k @ '' from '' @ sender
                | None \<Rightarrow> ty @ '' from '' @ sender))"

definition missingEventsLimit :: "(string \<Rightarrow> raw) \<Rightarrow> string \<Rightarrow> int" where
  "missingEventsLimit parse requestBody =
     (let limit = (if requestBody = '''' then 10
                   else (case Option.bind (topObj (parse requestBody)) (\<lambda>ms. decodeIntPtr (fieldVals ''limit'' ms) None) of
                           Some (Some n) \<Rightarrow> n
                         | _ \<Rightarrow> 10)) in
      if limit > 20 then 20 else limit)"

definition CompareGetMissingEvents :: "(string \<Rightarrow> raw) \<Rightarrow> string \<Rightarrow> raw \<Rightarrow> raw \<Rightarrow> bool
    \<Rightarrow> (compareError, Diff option \<times> string) result" where
  "CompareGetMissingEvents parse requestBody synapseBody nativeBody nativeWalkTruncated =
     (case decodeEvents synapseBody of
        None \<Rightarrow> Inl ParseSynapse
      | Some syn \<Rightarrow>
          (case decodeEvents nativeBody of
             None \<Rightarrow> Inl ParseNative
           | Some nat' \<Rightarrow>
               let synSet = indexByContent syn; natSet = indexByContent nat';
                   fd = \<lparr>Field = ''events'', MissingFromNative = sort (map (describeEvent \<circ> snd) (absentFrom synSet natSet)),
                         ExtraInNative = sort (map (describeEvent \<circ> snd) (absentFrom natSet synSet)), ContentMismatch = [],
                         SynapseCount = length syn, NativeCount = length nat', ListsTruncated = False\<rparr> in
               case diffUnlessEmpty [fd] of
                 None \<Rightarrow> Inr (None, '''')
               | Some d \<Rightarrow>
                   if nativeWalkTruncated \<or> int (length syn) \<ge> missingEventsLimit parse requestBody then Inr (None, ''walk_truncated'')
                   else Inr (Some d, '''')))"

section \<open>Lemmas\<close>

lemma diffIDSets_clean:
  "diffEmpty (Some [diffIDSets f xs ys]) \<longleftrightarrow> set xs = set ys"
proof -
  have "set xs = set ys \<Longrightarrow> length (remdups xs) = length (remdups ys)" by (simp add: length_remdups_card_conv)
  moreover have "sort zs = [] \<longleftrightarrow> zs = []" for zs :: "string list" by (metis set_sort set_empty)
  ultimately show ?thesis by (auto simp: diffEmpty_def diffIDSets_def Let_def filter_empty_conv)
qed

lemma diffEmpty_Cons: "diffEmpty (Some (f # fs)) \<longleftrightarrow> diffEmpty (Some [f]) \<and> diffEmpty (Some fs)"
  by (simp add: diffEmpty_def)

lemma decodeElems_strings: "decodeElems (map JStr xs) old = Some xs"
  by (induction xs arbitrary: old) auto

lemma fieldVals_stateIDs:
  "fieldVals ''pdu_ids'' [(''pdu_ids'', a), (''auth_chain_ids'', b)] = [a]"
  "fieldVals ''auth_chain_ids'' [(''pdu_ids'', a), (''auth_chain_ids'', b)] = [b]"
  by (simp_all add: upChar_def Let_def of_char_def)

text \<open>Our own answer is read back as it was written.\<close>

lemma decode_marshal_stateIDs: "decodeStateIDs (Doc (marshalStateIDs r)) = Some (PDUIDs r, AuthChainIDs r)"
  by (simp add: decodeStateIDs_def marshalStateIDs_def topObj_def fieldVals_stateIDs decodeElems_strings del: fieldVals_Cons)

lemma sort_Nil_iff [simp]: "sort xs = [] \<longleftrightarrow> xs = []"
  by (metis set_empty set_sort)

lemma absentFrom_Nil_iff: "absentFrom m other = [] \<longleftrightarrow> set (map fst m) \<subseteq> set (map fst other)"
  by (auto simp: absentFrom_def filter_empty_conv map_of_eq_None_iff subset_iff) (metis fst_conv image_eqI)+

lemma keys_gofold: "set (map fst (gofold f rs)) = (\<lambda>r. fst (f r)) ` set rs"
  using gget_gofold_None [of f rs] by (auto simp: map_of_eq_None_iff)

definition keysByContent :: "json list \<Rightarrow> contentKey set" where
  "keysByContent es = (\<lambda>(i, p). contentKeyOf i p) ` set (enumerate 0 es)"

lemma keys_indexByContent: "set (map fst (indexByContent es)) = keysByContent es"
  unfolding indexByContent_def keys_gofold by (simp add: keysByContent_def case_prod_unfold)

lemma keysByContent_canonical:
  assumes "list_all (\<lambda>p. Canonical (Doc p) \<noteq> None) es"
  shows "keysByContent es = ByContent ` (\<lambda>p. the (Canonical (Doc p))) ` set es"
proof -
  have "contentKeyOf i p = ByContent (the (Canonical (Doc p)))" if "p \<in> set es" for i p
    using that assms by (auto simp: contentKeyOf_def list_all_iff)
  then have "keysByContent es = (\<lambda>(i, p). ByContent (the (Canonical (Doc p)))) ` set (enumerate 0 es)"
    by (auto simp: keysByContent_def in_set_enumerate_eq intro!: image_cong)
  also have "\<dots> = ByContent ` (\<lambda>p. the (Canonical (Doc p))) ` snd ` set (enumerate 0 es)"
    by (auto simp: image_image case_prod_unfold)
  also have "snd ` set (enumerate 0 es) = set es" by (metis list.set_map map_snd_enumerate)
  finally show ?thesis .
qed

text \<open>When the comparison of two missing events answers finds nothing to report.\<close>

lemma CompareGetMissingEvents_cases:
  assumes "decodeEvents syn = Some es" and "decodeEvents nat' = Some fs"
  shows "CompareGetMissingEvents parse req syn nat' trunc =
    (if keysByContent es = keysByContent fs \<and> length es = length fs then Inr (None, '''')
     else if trunc \<or> int (length es) \<ge> missingEventsLimit parse req then Inr (None, ''walk_truncated'')
     else Inr (Some [\<lparr>Field = ''events'', MissingFromNative = sort (map (describeEvent \<circ> snd) (absentFrom (indexByContent es) (indexByContent fs))),
            ExtraInNative = sort (map (describeEvent \<circ> snd) (absentFrom (indexByContent fs) (indexByContent es))), ContentMismatch = [],
            SynapseCount = length es, NativeCount = length fs, ListsTruncated = False\<rparr>], ''''))"
  using assms
  by (auto simp: CompareGetMissingEvents_def diffUnlessEmpty_def diffEmpty_def Let_def absentFrom_Nil_iff keys_indexByContent
      simp del: set_map list.set_map)

lemma decodeEvents_events: "decodeEvents (Doc (JObj [(''events'', JArr es)])) = Some es"
  by (simp add: decodeEvents_def topObj_def)

text \<open>One event against one event, which is what \<open>/event\<close> answers.\<close>

lemma CompareEvent_single:
  assumes "decodeTransaction syn = Some (os, [p])" and "decodeTransaction nat' = Some (on, [q])"
  shows "CompareEvent quote syn nat' = Inr None \<longleftrightarrow> os = on \<and> pduKey 0 p = pduKey 0 q \<and> pduEqual (Doc p) (Doc q)"
  using assms
  by (auto simp: CompareEvent_def Let_def diffUnlessEmpty_def diffEmpty_def indexPDUs_def gofold_def gset_def absentFrom_def contentDiffers_def)

end

