(* ===== verification/Runner.thy ===== *)
theory Runner
  imports Compare
begin

text \<open>
  \<open>internal/shadow/runner.go\<close> and \<open>state.go\<close>: computing our answer beside the one Synapse gave, comparing
  the two, and counting the outcome.  A runner is its difference log, its slots and the labels of the
  counters it has incremented, newest last.  Durations, logging and the diagnosis goroutine's own run
  are left out; what starts a diagnosis is kept.

  Parameters: \<open>parse\<close> reads bytes as a document; \<open>verify\<close> is the verifier's verdict on a replayed request,
  \<open>None\<close> for a runner without a verifier; \<open>uriOK\<close> is whether \<open>url.ParseRequestURI\<close> accepts the text;
  \<open>errText\<close> and \<open>isDeadline\<close> read an internal error, and the resolver's operations are its record.
\<close>

record Request =
  rqEndpoint :: string
  rqOrigin :: string
  rqRoomID :: string
  rqEventID :: string
  rqURI :: string
  rqMethod :: string
  rqAuthHeader :: string
  rqBody :: string

record ProxyResult =
  prStatus :: int
  prBody :: string
  prTruncated :: bool

record synthRequest =
  synMethod :: string
  synURI :: string
  synBody :: string
  synAuth :: string

record runnerTools =
  tParse :: "string \<Rightarrow> raw"
  tText :: "raw \<Rightarrow> string"
  tQuote :: "string \<Rightarrow> string"
  tVerify :: "(synthRequest \<Rightarrow> (MatrixError, string) result) option"
  tURIOK :: "string \<Rightarrow> bool"
  tErrText :: "nativeError \<Rightarrow> string"
  tCompareText :: "compareError \<Rightarrow> string"
  tDeadline :: "nativeError \<Rightarrow> bool"
  tNow :: int

record runner =
  rDiffs :: "DiffWriter option"
  rCapacity :: nat
  rBusy :: nat
  rSkipped :: "(string \<times> string) list"
  rResults :: "(string \<times> string) list"
  rVerdicts :: "string list"
  rCanaryCompared :: "string list"
  rReplayers :: bool
  rDiagnoses :: "Request list"

definition NewRunner :: "DiffWriter option \<Rightarrow> int \<Rightarrow> runner" where
  "NewRunner diffs concurrency =
     \<lparr>rDiffs = diffs, rCapacity = (if concurrency \<le> 0 then 4 else nat concurrency), rBusy = 0, rSkipped = [], rResults = [], rVerdicts = [],
      rCanaryCompared = [], rReplayers = False, rDiagnoses = []\<rparr>"

definition SetStateReplayers :: "bool \<Rightarrow> bool \<Rightarrow> runner \<Rightarrow> runner" where
  "SetStateReplayers native forward r = r\<lparr>rReplayers := native \<and> forward\<rparr>"

section \<open>Counting\<close>

definition skipReq :: "Request \<Rightarrow> string \<Rightarrow> runner \<Rightarrow> runner" where
  "skipReq req why r = r\<lparr>rSkipped := rSkipped r @ [(rqEndpoint req, why)]\<rparr>"

definition kindText :: "DiffKind \<Rightarrow> string" where
  "kindText k =
     (case k of KindStatus \<Rightarrow> ''status_mismatch'' | KindBody \<Rightarrow> ''body_mismatch'' | KindNativeError \<Rightarrow> ''native_error''
      | KindNativeTimeout \<Rightarrow> ''native_timeout'' | KindAuth \<Rightarrow> ''auth_mismatch'')"

definition logRecord :: "runnerTools \<Rightarrow> LogRecord \<Rightarrow> runner \<Rightarrow> runner" where
  "logRecord t rec r = r\<lparr>rDiffs := map_option (\<lambda>w. snd (Log (tText t) (tNow t) rec w)) (rDiffs r)\<rparr>"

definition observed :: "runnerTools \<Rightarrow> string \<Rightarrow> bool \<Rightarrow> runner \<Rightarrow> runner" where
  "observed t endpoint matched r = r\<lparr>rDiffs := map_option (Observe (tNow t) endpoint matched) (rDiffs r)\<rparr>"

definition matchReq :: "runnerTools \<Rightarrow> Request \<Rightarrow> runner \<Rightarrow> runner" where
  "matchReq t req r =
     (observed t (rqEndpoint req) True r)\<lparr>rResults := rResults r @ [(rqEndpoint req, ''match'')]\<rparr>"

definition blankRecord :: "DiffKind \<Rightarrow> LogRecord" where
  "blankRecord k = \<lparr>recTime = 0, recKind = k, recEndpoint = '''', recOrigin = '''', recURI = '''', recRoomID = '''', recEventID = '''',
     recSynapseStatus = 0, recNativeStatus = 0, recDiff = None, recNativeError = '''', recSynapseBody = None, recNativeBody = None,
     recTruncated = False\<rparr>"

definition recordReq :: "runnerTools \<Rightarrow> Request \<Rightarrow> ProxyResult \<Rightarrow> LogRecord \<Rightarrow> runner \<Rightarrow> runner" where
  "recordReq t req proxy rec r =
     (let r = (observed t (rqEndpoint req) False r)\<lparr>rResults := rResults r @ [(rqEndpoint req, kindText (recKind rec))]\<rparr> in
      logRecord t (rec\<lparr>recEndpoint := rqEndpoint req, recOrigin := rqOrigin req, recURI := rqURI req, recRoomID := rqRoomID req,
        recEventID := rqEventID req, recSynapseStatus := prStatus proxy,
        recSynapseBody := (if prTruncated proxy then recSynapseBody rec else if prBody proxy = '''' then None else Some (tParse t (prBody proxy)))\<rparr>) r)"

definition upstreamCouldNotFetchKeys :: "runnerTools \<Rightarrow> ProxyResult \<Rightarrow> bool" where
  "upstreamCouldNotFetchKeys t proxy =
     (if prStatus proxy \<noteq> 401 \<or> prTruncated proxy \<or> prBody proxy = '''' then False
      else (case Option.bind (topObj (tParse t (prBody proxy))) (\<lambda>ms.
                   Option.bind (decodeString (fieldVals ''errcode'' ms) '''') (\<lambda>code.
                   Option.bind (decodeString (fieldVals ''error'' ms) '''') (\<lambda>err. Some (code, err)))) of
              None \<Rightarrow> False
            | Some (code, err) \<Rightarrow> code = ''M_UNAUTHORIZED'' \<and> containsSub err ''Failed to find any key to satisfy''))"

section \<open>Comparing\<close>

definition diffAnswers :: "runnerTools \<Rightarrow> Request \<Rightarrow> raw \<Rightarrow> raw \<Rightarrow> bool \<Rightarrow> (compareError, Diff option \<times> string) result" where
  "diffAnswers t req synapseBody nativeBody walkTruncated =
     (if rqEndpoint req = ''state_ids'' then rbind (CompareStateIDs synapseBody nativeBody) (\<lambda>d. Inr (d, ''''))
      else if rqEndpoint req = ''event'' then rbind (CompareEvent (tQuote t) synapseBody nativeBody) (\<lambda>d. Inr (d, ''''))
      else if rqEndpoint req = ''get_missing_events'' then
        CompareGetMissingEvents (tParse t) (rqBody req) synapseBody nativeBody walkTruncated
      else Inl (NoComparator (rqEndpoint req)))"

text \<open>Our body as bytes; no bytes at all do not parse.\<close>

definition nativeRaw :: "json option \<Rightarrow> raw" where
  "nativeRaw b = (case b of Some j \<Rightarrow> Doc j | None \<Rightarrow> Junk '''')"

definition finish :: "runnerTools \<Rightarrow> Request \<Rightarrow> ProxyResult \<Rightarrow> json option \<Rightarrow> int \<Rightarrow> bool \<Rightarrow> runner \<Rightarrow> runner" where
  "finish t req proxy nativeBody nativeStatus walkTruncated r =
     (let (agree, compareBodies) = CompareStatus (prStatus proxy) nativeStatus; ours = map_option Doc nativeBody in
      if \<not> agree then
        if nativeStatus \<noteq> 401 \<and> upstreamCouldNotFetchKeys t proxy then skipReq req ''upstream_key_fetch_failed'' r
        else if prStatus proxy = 429 \<and> nativeStatus \<noteq> 429 then skipReq req ''upstream_rate_limited'' r
        else recordReq t req proxy ((blankRecord KindStatus)\<lparr>recNativeStatus := nativeStatus, recNativeBody := ours\<rparr>) r
      else if \<not> compareBodies then matchReq t req r
      else if prTruncated proxy then skipReq req ''truncated'' r
      else (case diffAnswers t req (tParse t (prBody proxy)) (nativeRaw nativeBody) walkTruncated of
              Inl e \<Rightarrow>
                recordReq t req proxy ((blankRecord KindNativeError)\<lparr>recNativeStatus := nativeStatus, recNativeError := tCompareText t e,
                  recNativeBody := ours\<rparr>) r
            | Inr (d, why) \<Rightarrow>
                if why \<noteq> '''' then skipReq req why r
                else (case d of
                        None \<Rightarrow> matchReq t req r
                      | Some d \<Rightarrow>
                          recordReq t req proxy ((blankRecord KindBody)\<lparr>recNativeStatus := nativeStatus, recNativeBody := ours,
                            recDiff := Some d\<rparr>) r)))"

section \<open>Authentication\<close>

definition synthesiseRequest :: "runnerTools \<Rightarrow> Request \<Rightarrow> synthRequest option" where
  "synthesiseRequest t req =
     (if \<not> tURIOK t (rqURI req) then None
      else Some \<lparr>synMethod = (if rqMethod req = '''' then ''GET'' else rqMethod req), synURI = rqURI req, synBody = rqBody req,
                 synAuth = rqAuthHeader req\<rparr>)"

definition logAuthMismatch :: "runnerTools \<Rightarrow> Request \<Rightarrow> ProxyResult \<Rightarrow> string \<Rightarrow> string \<Rightarrow> runner \<Rightarrow> runner" where
  "logAuthMismatch t req proxy authErr why r =
     logRecord t ((blankRecord KindAuth)\<lparr>recEndpoint := rqEndpoint req, recOrigin := rqOrigin req, recURI := rqURI req,
       recRoomID := rqRoomID req, recEventID := rqEventID req, recSynapseStatus := prStatus proxy, recNativeError := why @ '': '' @ authErr\<rparr>) r"

definition verdict :: "string \<Rightarrow> runner \<Rightarrow> runner" where
  "verdict v r = r\<lparr>rVerdicts := rVerdicts r @ [v]\<rparr>"

definition verifyOrigin :: "runnerTools \<Rightarrow> Request \<Rightarrow> ProxyResult \<Rightarrow> runner \<Rightarrow> (string \<times> MatrixError option) \<times> runner" where
  "verifyOrigin t req proxy r =
     (case tVerify t of
        None \<Rightarrow> ((rqOrigin req, None), r)
      | Some verify \<Rightarrow>
          (case synthesiseRequest t req of
             None \<Rightarrow> ((rqOrigin req, None), verdict ''replay_failed'' r)
           | Some synth \<Rightarrow>
               let synapseAccepted = (prStatus proxy \<noteq> 401 \<and> prStatus proxy \<noteq> 403) in
               (case verify synth of
                  Inr origin \<Rightarrow>
                    ((origin, None),
                     if prStatus proxy = 401 \<and> upstreamCouldNotFetchKeys t proxy then verdict ''synapse_key_fetch_failed'' r
                     else if prStatus proxy = 401 then
                       logAuthMismatch t req proxy '''' ''we accepted a request Synapse rejected'' (verdict ''we_accept_synapse_rejects'' r)
                     else verdict ''agree_accept'' r)
                | Inl e \<Rightarrow>
                    ((rqOrigin req, Some e),
                     if synapseAccepted then
                       logAuthMismatch t req proxy (Message e) ''we rejected a request Synapse accepted'' (verdict ''we_reject_synapse_accepts'' r)
                     else verdict ''agree_reject'' r))))"

section \<open>Shadow comparisons\<close>

text \<open>\<open>json.Marshal\<close> of a \<open>MatrixError\<close>.\<close>

definition errorBody :: "MatrixError \<Rightarrow> json option" where
  "errorBody e = Some (fst (ErrorResponse e))"

definition internalKind :: "runnerTools \<Rightarrow> nativeError \<Rightarrow> DiffKind" where
  "internalKind t e = (if tDeadline t e then KindNativeTimeout else KindNativeError)"

definition run :: "runnerTools \<Rightarrow> 's nativeResolver \<Rightarrow> string \<Rightarrow> Request \<Rightarrow> ProxyResult \<Rightarrow> runner \<Rightarrow> 's \<Rightarrow> runner \<times> 's" where
  "run t nr serverName req proxy r s =
     (case verifyOrigin t req proxy r of
        ((origin, Some e), r) \<Rightarrow> (finish t req proxy (errorBody e) (Status e) False r, s)
      | ((origin, None), r) \<Rightarrow>
          (case Answer (tParse t) nr serverName \<lparr>reqEndpoint = rqEndpoint req, reqOrigin = origin, reqRoomID = rqRoomID req,
                   reqEventID = rqEventID req, reqBody = rqBody req\<rparr> s of
             (Inl e, s) \<Rightarrow> (recordReq t req proxy ((blankRecord (internalKind t e))\<lparr>recNativeError := tErrText t e\<rparr>) r, s)
           | (Inr a, s) \<Rightarrow> (finish t req proxy (aBody a) (aStatus a) (aTruncated a) r, s)))"

section \<open>Streamed answers\<close>

definition stateDiff :: "StateResult \<Rightarrow> StateResult \<Rightarrow> Diff" where
  "stateDiff ours upstream =
     (if srPDUs ours \<noteq> srPDUs upstream \<or> PDUDigest ours \<noteq> PDUDigest upstream then
        [\<lparr>Field = ''pdus'', MissingFromNative = [], ExtraInNative = [], ContentMismatch = [], SynapseCount = srPDUs upstream,
          NativeCount = srPDUs ours, ListsTruncated = False\<rparr>] else []) @
     (if srAuthChain ours \<noteq> srAuthChain upstream \<or> AuthChainDigest ours \<noteq> AuthChainDigest upstream then
        [\<lparr>Field = ''auth_chain'', MissingFromNative = [], ExtraInNative = [], ContentMismatch = [], SynapseCount = srAuthChain upstream,
          NativeCount = srAuthChain ours, ListsTruncated = False\<rparr>] else [])"

definition diagnose :: "Request \<Rightarrow> runner \<Rightarrow> runner" where
  "diagnose req r = (if rReplayers r then r\<lparr>rDiagnoses := rDiagnoses r @ [req]\<rparr> else r)"

definition stateMismatch :: "runnerTools \<Rightarrow> Request \<Rightarrow> ProxyResult \<Rightarrow> StateResult \<Rightarrow> StateResult \<Rightarrow> runner \<Rightarrow> runner" where
  "stateMismatch t req proxy ours upstream r =
     diagnose req (recordReq t req proxy ((blankRecord KindBody)\<lparr>recNativeStatus := 200, recDiff := Some (stateDiff ours upstream)\<rparr>) r)"

text \<open>\<open>compareState\<close>: the resolver's answer is its digest, an answer in its own right when it is a Matrix
  error, or an internal failure.\<close>

definition compareState :: "runnerTools \<Rightarrow> (string \<Rightarrow> (resolverError, StateResult) result) \<Rightarrow> Request \<Rightarrow> ProxyResult
    \<Rightarrow> (string, StateResult) result \<Rightarrow> runner \<Rightarrow> runner" where
  "compareState t state req proxy upstream r =
     (case upstream of
        Inl e \<Rightarrow> skipReq req ''upstream_undigestible'' r
      | Inr up \<Rightarrow>
          if prStatus proxy = 0 \<or> prStatus proxy = 502 then skipReq req ''upstream_unavailable'' r
          else
            (case verifyOrigin t req proxy r of
               ((origin, Some e), r) \<Rightarrow> finish t req proxy (errorBody e) (Status e) False r
             | ((origin, None), r) \<Rightarrow>
                 (case state origin of
                    Inl (MErr me) \<Rightarrow> finish t req proxy (errorBody me) (Status me) False r
                  | Inl e \<Rightarrow>
                      recordReq t req proxy ((blankRecord (internalKind t (Internal e)))\<lparr>recNativeError := tErrText t (Internal e)\<rparr>) r
                  | Inr ours \<Rightarrow>
                      if prStatus proxy \<noteq> 200 then finish t req proxy None 200 False r
                      else if Agrees ours up then matchReq t req r
                      else stateMismatch t req proxy ours up r)))"

section \<open>Slots\<close>

text \<open>A comparison that panics counts as skipped.  \<open>panics\<close> is whether this one does.\<close>

definition guardedRun :: "Request \<Rightarrow> bool \<Rightarrow> (runner \<Rightarrow> runner) \<Rightarrow> runner \<Rightarrow> runner" where
  "guardedRun req panics body r =
     (let r = (if panics then skipReq req ''panic'' r else body r) in r\<lparr>rBusy := rBusy r - 1\<rparr>)"

text \<open>\<open>Go\<close> and \<open>GoState\<close> take a slot or give up at once; the goroutine they start is a later step.\<close>

definition schedule :: "Request \<Rightarrow> runner \<Rightarrow> bool \<times> runner" where
  "schedule req r =
     (if rBusy r < rCapacity r then (True, r\<lparr>rBusy := rBusy r + 1\<rparr>) else (False, skipReq req ''busy'' r))"

text \<open>Verification of a served answer waits for a slot.  What runs during the wait are steps before this one,
  so that the slots are full here only when the wait has run out.\<close>

definition acquireForVerification :: "Request \<Rightarrow> runner \<Rightarrow> bool \<times> runner" where
  "acquireForVerification req r =
     (if rBusy r < rCapacity r then (True, r\<lparr>rBusy := rBusy r + 1\<rparr>) else (False, skipReq req ''busy_verify'' r))"

definition canaryCount :: "Request \<Rightarrow> runner \<Rightarrow> runner" where
  "canaryCount req r = r\<lparr>rCanaryCompared := rCanaryCompared r @ [rqEndpoint req]\<rparr>"

definition CompareServed :: "runnerTools \<Rightarrow> bool \<Rightarrow> Request \<Rightarrow> ProxyResult \<Rightarrow> json option \<Rightarrow> int \<Rightarrow> bool \<Rightarrow> runner \<Rightarrow> runner" where
  "CompareServed t panics req proxy nativeBody nativeStatus walkTruncated r =
     (case acquireForVerification req r of
        (False, r) \<Rightarrow> r
      | (True, r) \<Rightarrow>
          guardedRun req panics (\<lambda>r.
            if prStatus proxy = 0 \<or> prStatus proxy = 502 then skipReq req ''upstream_unavailable'' r
            else finish t req proxy nativeBody nativeStatus walkTruncated (canaryCount req r)) r)"

definition CompareStateServed :: "runnerTools \<Rightarrow> bool \<Rightarrow> Request \<Rightarrow> ProxyResult \<Rightarrow> (string, StateResult) result \<Rightarrow> StateResult
    \<Rightarrow> runner \<Rightarrow> runner" where
  "CompareStateServed t panics req proxy upstream ours r =
     (case acquireForVerification req r of
        (False, r) \<Rightarrow> r
      | (True, r) \<Rightarrow>
          guardedRun req panics (\<lambda>r.
            case upstream of
              Inl e \<Rightarrow> skipReq req ''upstream_undigestible'' r
            | Inr up \<Rightarrow>
                if prStatus proxy = 0 \<or> prStatus proxy = 502 then skipReq req ''upstream_unavailable'' r
                else if prStatus proxy \<noteq> 200 then
                  recordReq t req proxy ((blankRecord KindStatus)\<lparr>recNativeStatus := 200\<rparr>) r
                else if Agrees ours up then matchReq t req (canaryCount req r)
                else stateMismatch t req proxy ours up (canaryCount req r)) r)"

section \<open>Lemmas\<close>

lemma counts_sel [simp]:
  "rResults (skipReq req why r) = rResults r" "rDiffs (skipReq req why r) = rDiffs r" "rBusy (skipReq req why r) = rBusy r"
  "rSkipped (skipReq req why r) = rSkipped r @ [(rqEndpoint req, why)]" "rCapacity (skipReq req why r) = rCapacity r"
  "rResults (matchReq t req r) = rResults r @ [(rqEndpoint req, ''match'')]" "rSkipped (matchReq t req r) = rSkipped r"
  "rBusy (matchReq t req r) = rBusy r" "rCapacity (matchReq t req r) = rCapacity r"
  "rDiffs (matchReq t req r) = map_option (Observe (tNow t) (rqEndpoint req) True) (rDiffs r)"
  "rResults (recordReq t req proxy rec r) = rResults r @ [(rqEndpoint req, kindText (recKind rec))]"
  "rSkipped (recordReq t req proxy rec r) = rSkipped r" "rBusy (recordReq t req proxy rec r) = rBusy r"
  "rCapacity (recordReq t req proxy rec r) = rCapacity r"
  by (simp_all add: skipReq_def matchReq_def observed_def recordReq_def logRecord_def Let_def)

lemma kindText_not_match [simp]: "kindText k \<noteq> ''match''"
  by (cases k) (simp_all add: kindText_def)

text \<open>One comparison adds one outcome, and leaves the slots alone.\<close>

definition judgesOnce :: "runner \<Rightarrow> runner \<Rightarrow> bool" where
  "judgesOnce r r' \<longleftrightarrow> length (rResults r') + length (rSkipped r') = length (rResults r) + length (rSkipped r) + 1 \<and>
     prefix (rResults r) (rResults r') \<and> prefix (rSkipped r) (rSkipped r') \<and> rBusy r' = rBusy r \<and> rCapacity r' = rCapacity r"

lemma judges_intros [simp]:
  "judgesOnce r (skipReq req why r)" "judgesOnce r (matchReq t req r)" "judgesOnce r (recordReq t req proxy rec r)"
  by (simp_all add: judgesOnce_def)

lemma finish_judges [simp]: "judgesOnce r (finish t req proxy nb ns tr r)"
  by (simp add: finish_def Let_def split: prod.split sum.split option.split)

definition sameCounts :: "runner \<Rightarrow> runner \<Rightarrow> bool" where
  "sameCounts r r' \<longleftrightarrow> rResults r' = rResults r \<and> rSkipped r' = rSkipped r \<and> rBusy r' = rBusy r \<and> rCapacity r' = rCapacity r"

lemma verifyOrigin_counts: "sameCounts r (snd (verifyOrigin t req proxy r))"
  by (simp add: sameCounts_def verifyOrigin_def verdict_def logAuthMismatch_def logRecord_def Let_def split: option.split sum.split)

lemma sameCounts_judges: "sameCounts r r1 \<Longrightarrow> judgesOnce r1 r2 \<Longrightarrow> judgesOnce r r2"
  by (simp add: sameCounts_def judgesOnce_def)

lemma judges_sameCounts: "judgesOnce r r1 \<Longrightarrow> sameCounts r1 r2 \<Longrightarrow> judgesOnce r r2"
  by (simp add: sameCounts_def judgesOnce_def)

lemma run_judges: "judgesOnce r (fst (run t nr serverName req proxy r s))"
proof -
  obtain o' e r1 where v: "verifyOrigin t req proxy r = ((o', e), r1)" by (metis surj_pair)
  from verifyOrigin_counts [of r t req proxy] v have c: "sameCounts r r1" by simp
  have "judgesOnce r1 (fst (run t nr serverName req proxy r s))"
    unfolding run_def v by (cases e) (simp_all split: prod.split sum.split)
  with c show ?thesis by (rule sameCounts_judges)
qed

lemma stateMismatch_judges [simp]: "judgesOnce r (stateMismatch t req proxy ours up r)"
proof -
  have "sameCounts r1 (diagnose req r1)" for r1 by (simp add: sameCounts_def diagnose_def)
  then show ?thesis unfolding stateMismatch_def by (rule judges_sameCounts [rotated]) simp
qed

lemma compareState_judges: "judgesOnce r (compareState t state req proxy upstream r)"
proof -
  obtain o' e r1 where v: "verifyOrigin t req proxy r = ((o', e), r1)" by (metis surj_pair)
  from verifyOrigin_counts [of r t req proxy] v have c: "sameCounts r r1" by simp
  have "judgesOnce r (case e of Some e \<Rightarrow> finish t req proxy (errorBody e) (Status e) False r1
      | None \<Rightarrow> (case state o' of
                    Inl (MErr me) \<Rightarrow> finish t req proxy (errorBody me) (Status me) False r1
                  | Inl e \<Rightarrow> recordReq t req proxy ((blankRecord (internalKind t (Internal e)))\<lparr>recNativeError := tErrText t (Internal e)\<rparr>) r1
                  | Inr ours \<Rightarrow>
                      if prStatus proxy \<noteq> 200 then finish t req proxy None 200 False r1
                      else if Agrees ours up then matchReq t req r1
                      else stateMismatch t req proxy ours up r1))" for up
    by (rule sameCounts_judges [OF c]) (simp split: option.split sum.split resolverError.split)
  then show ?thesis unfolding compareState_def v by (simp split: sum.split option.split)
qed

lemma canaryCount_judges: "judgesOnce (canaryCount req r) r' \<Longrightarrow> judgesOnce r r'"
  by (simp add: judgesOnce_def canaryCount_def)

lemma guardedRun_releases:
  assumes "\<And>r. judgesOnce r (body r)" and "0 < rBusy r"
  shows "judgesOnce (r\<lparr>rBusy := rBusy r - 1\<rparr>) (guardedRun req panics body r)"
  using assms(1) [of r] assms(2) by (simp add: guardedRun_def judgesOnce_def Let_def)

lemma served_judges:
  "(\<And>r. judgesOnce r (body r)) \<Longrightarrow>
    judgesOnce r (case acquireForVerification req r of (False, r) \<Rightarrow> r | (True, r) \<Rightarrow> guardedRun req panics body r)"
  using guardedRun_releases [of body "r\<lparr>rBusy := rBusy r + 1\<rparr>" req panics]
  by (simp add: acquireForVerification_def judgesOnce_def)

lemma CompareServed_judges: "judgesOnce r (CompareServed t panics req proxy nb ns tr r)"
  unfolding CompareServed_def by (rule served_judges) (auto intro: canaryCount_judges [of req])

lemma CompareStateServed_judges: "judgesOnce r (CompareStateServed t panics req proxy upstream ours r)"
  unfolding CompareStateServed_def by (rule served_judges) (auto intro: canaryCount_judges [of req] split: sum.split)

text \<open>The comparisons asked of a runner, in any order and interleaving.  \<open>ran\<close> and \<open>ran_state\<close> are the goroutines
  that \<open>Go\<close> and \<open>GoState\<close> started, whatever they compute and whether or not they panic.\<close>

inductive comparisons :: "nat \<Rightarrow> runner \<Rightarrow> bool" where
  fresh: "comparisons 0 (NewRunner diffs concurrency)"
| wired: "comparisons n r \<Longrightarrow> comparisons n (SetStateReplayers a b r)"
| go: "comparisons n r \<Longrightarrow> comparisons (n + 1) (snd (schedule req r))"
| ran: "comparisons n r \<Longrightarrow> 0 < rBusy r \<Longrightarrow>
    comparisons n (guardedRun req panics (\<lambda>r. fst (run t nr serverName req proxy r (s :: resolver))) r)"
| ran_state: "comparisons n r \<Longrightarrow> 0 < rBusy r \<Longrightarrow>
    comparisons n (guardedRun req panics (compareState t state req proxy upstream) r)"
| served: "comparisons n r \<Longrightarrow> comparisons (n + 1) (CompareServed t panics req proxy nb ns tr r)"
| served_state: "comparisons n r \<Longrightarrow> comparisons (n + 1) (CompareStateServed t panics req proxy upstream ours r)"

text \<open>What it means that two bodies agree, endpoint by endpoint.\<close>

definition eventsAgree :: "json list \<Rightarrow> json list \<Rightarrow> bool" where
  "eventsAgree ps qs \<longleftrightarrow> length ps = length qs \<and>
     (\<forall>k. rel_option (\<lambda>p q. pduEqual (Doc p) (Doc q)) (gget (indexPDUs ps) k) (gget (indexPDUs qs) k))"

definition answersAgree :: "string \<Rightarrow> raw \<Rightarrow> raw \<Rightarrow> bool" where
  "answersAgree endpoint syn ours \<longleftrightarrow>
     endpoint = ''state_ids'' \<and>
       (\<exists>ps as ps' as'. decodeStateIDs syn = Some (ps, as) \<and> decodeStateIDs ours = Some (ps', as') \<and> set ps = set ps' \<and> set as = set as') \<or>
     endpoint = ''event'' \<and>
       (\<exists>origin ps qs. decodeTransaction syn = Some (origin, ps) \<and> decodeTransaction ours = Some (origin, qs) \<and> eventsAgree ps qs) \<or>
     endpoint = ''get_missing_events'' \<and>
       (\<exists>es fs. decodeEvents syn = Some es \<and> decodeEvents ours = Some fs \<and> keysByContent es = keysByContent fs \<and> length es = length fs)"

lemma gomap_indexPDUs: "gomap (indexPDUs ps)"
  by (simp add: indexPDUs_def)

lemma content_clean:
  assumes "gomap m" and "gomap n"
  shows "absentFrom m n = [] \<and> absentFrom n m = [] \<and> filter (contentDiffers n) m = [] \<longleftrightarrow>
    (\<forall>k. rel_option (\<lambda>p q. pduEqual (Doc p) (Doc q)) (gget m k) (gget n k))"
proof -
  have dom: "set (map fst m') = {k. gget m' k \<noteq> None}" for m' :: "(string, json) gomap"
    by (auto simp: map_of_eq_None_iff)
  have content: "filter (contentDiffers n) m = [] \<longleftrightarrow> (\<forall>k p q. gget m k = Some p \<longrightarrow> gget n k = Some q \<longrightarrow> pduEqual (Doc p) (Doc q))"
    using gomap_set [OF assms(1)] by (auto simp: filter_empty_conv contentDiffers_def split: option.split) (metis fst_conv snd_conv)
  show ?thesis unfolding absentFrom_Nil_iff dom content
    by (auto simp: subset_iff option_rel_Some1 rel_option_iff split: option.split)
qed

lemma CompareEvent_clean:
  "CompareEvent quote syn ours = Inr None \<longleftrightarrow>
     (\<exists>origin ps qs. decodeTransaction syn = Some (origin, ps) \<and> decodeTransaction ours = Some (origin, qs) \<and> eventsAgree ps qs)"
proof -
  have "(\<forall>k. rel_option (\<lambda>p q. pduEqual (Doc p) (Doc q)) (gget (indexPDUs ps) k) (gget (indexPDUs qs) k)) \<longleftrightarrow>
      absentFrom (indexPDUs ps) (indexPDUs qs) = [] \<and> absentFrom (indexPDUs qs) (indexPDUs ps) = [] \<and>
      filter (contentDiffers (indexPDUs qs)) (indexPDUs ps) = []" for ps qs
    using content_clean [OF gomap_indexPDUs gomap_indexPDUs] by blast
  then show ?thesis
    by (auto simp: CompareEvent_def eventsAgree_def diffUnlessEmpty_def diffEmpty_def Let_def split: option.split if_splits)
qed

lemma CompareStateIDs_clean:
  "CompareStateIDs syn ours = Inr None \<longleftrightarrow>
     (\<exists>ps as ps' as'. decodeStateIDs syn = Some (ps, as) \<and> decodeStateIDs ours = Some (ps', as') \<and> set ps = set ps' \<and> set as = set as')"
  by (auto simp: CompareStateIDs_def diffUnlessEmpty_def diffEmpty_Cons [of _ "[_]"] diffIDSets_clean split: option.split if_splits)

lemma CompareGetMissingEvents_clean:
  "CompareGetMissingEvents parse body syn ours tr = Inr (None, '''') \<longleftrightarrow>
     (\<exists>es fs. decodeEvents syn = Some es \<and> decodeEvents ours = Some fs \<and> keysByContent es = keysByContent fs \<and> length es = length fs)"
proof (cases "decodeEvents syn = None \<or> decodeEvents ours = None")
  case True
  then show ?thesis by (auto simp: CompareGetMissingEvents_def split: option.split)
next
  case False
  then obtain es fs where "decodeEvents syn = Some es" "decodeEvents ours = Some fs" by auto
  from CompareGetMissingEvents_cases [OF this, of parse body tr] this show ?thesis by simp
qed

lemma diffAnswers_clean: "diffAnswers t req syn ours tr = Inr (None, '''') \<longleftrightarrow> answersAgree (rqEndpoint req) syn ours"
  using CompareEvent_clean [of "tQuote t" syn ours] CompareStateIDs_clean [of syn ours]
    CompareGetMissingEvents_clean [of "tParse t" "rqBody req" syn ours tr]
  by (auto simp: diffAnswers_def answersAgree_def rbind_eq_Inr)

text \<open>Every body agrees with itself, if it can be read at all.\<close>

lemma dropSynapseCachePollution_self: "dropSynapseCachePollution ns ns = ns"
  unfolding dropSynapseCachePollution_def
  by (rule mapUnsigned_id) (auto simp: synapseCachePollutedFields_def)

lemma pduEqual_refl [simp]: "pduEqual p p"
  by (simp add: pduEqual_def dropSynapseCachePollution_self split: option.split)

lemma eventsAgree_refl [simp]: "eventsAgree ps ps"
  by (simp add: eventsAgree_def option.rel_refl)

definition readable :: "string \<Rightarrow> raw \<Rightarrow> bool" where
  "readable endpoint b \<longleftrightarrow>
     endpoint = ''state_ids'' \<and> decodeStateIDs b \<noteq> None \<or> endpoint = ''event'' \<and> decodeTransaction b \<noteq> None \<or>
     endpoint = ''get_missing_events'' \<and> decodeEvents b \<noteq> None"

text \<open>What the runner relies on of a comparator: it finds no difference exactly when both bodies can be read and
  what was read agrees, and a reading agrees with itself.\<close>

locale comparator =
  fixes clean :: "raw \<Rightarrow> raw \<Rightarrow> bool" and decode :: "raw \<Rightarrow> 'a option" and agree :: "'a \<Rightarrow> 'a \<Rightarrow> bool"
  assumes clean_iff: "clean x y \<longleftrightarrow> (\<exists>a b. decode x = Some a \<and> decode y = Some b \<and> agree a b)"
    and agree_refl: "agree a a"
begin

lemma itself: "decode x \<noteq> None \<Longrightarrow> clean x x"
  unfolding clean_iff using agree_refl by blast

lemma unreadable: "decode x = None \<or> decode y = None \<Longrightarrow> \<not> clean x y"
  unfolding clean_iff by auto

end

interpretation idsCmp: comparator "\<lambda>x y. CompareStateIDs x y = Inr None" decodeStateIDs
    "\<lambda>a b. set (fst a) = set (fst b) \<and> set (snd a) = set (snd b)"
  by unfold_locales (auto simp: CompareStateIDs_clean)

interpretation eventCmp: comparator "\<lambda>x y. CompareEvent quote x y = Inr None" decodeTransaction
    "\<lambda>a b. fst a = fst b \<and> eventsAgree (snd a) (snd b)" for quote
  by unfold_locales (auto simp: CompareEvent_clean)

interpretation missingCmp: comparator "\<lambda>x y. CompareGetMissingEvents parse body x y tr = Inr (None, '''')" decodeEvents
    "\<lambda>a b. keysByContent a = keysByContent b \<and> length a = length b" for parse body tr
  by unfold_locales (auto simp: CompareGetMissingEvents_clean)

lemma answersAgree_refl:
  assumes "readable endpoint b"
  shows "answersAgree endpoint b b"
  using assms idsCmp.itself [of b] eventCmp.itself [of b "\<lambda>s. s"] missingCmp.itself [of b "\<lambda>s. b" "''''" False]
  unfolding readable_def answersAgree_def CompareStateIDs_clean CompareEvent_clean CompareGetMissingEvents_clean by blast

text \<open>The Matrix errors of the resolver are refusals and misses.\<close>

definition refusals :: "'a resolverOp \<Rightarrow> bool" where
  "refusals m \<longleftrightarrow> (\<forall>s me. fst (m s) = Inl (MErr me) \<longrightarrow> Status me \<in> {403, 404})"

lemma refusals_bnd: "refusals m \<Longrightarrow> (\<And>a. refusals (f a)) \<Longrightarrow> refusals (bnd m f)"
  by (auto simp: refusals_def bnd_run split: sum.splits)

lemma refusals_simple [simp]:
  "refusals (ret a)" "refusals (Pair (Inr b))" "refusals (failwith (StoreErr msg e))" "refusals (failwith ErrEventNotFound)" "refusals (attempt so)"
  "refusals (onStore msg so)" "refusals (asks msg x)" "refusals (pdu msg y)" "refusals (serverACL d room)"
  "refusals (failwith (MErr me)) \<longleftrightarrow> Status me \<in> {403, 404}"
  by (auto simp: refusals_def attempt_def onStore_def asks_def pdu_def serverACL_def split: sum.splits storeError.splits prod.splits option.splits)

lemmas refusals_rules = refusals_bnd errPartialState_def errHostNotInRoom_def errServerBanned_def errEventNotFound_def
  errEventNotInRoom_def errStateNotKnown_def

lemma refusals_visibilityAt: "refusals (visibilityAt d ev target)"
  unfolding visibilityAt_def Let_def
  by (auto intro!: refusals_bnd split: option.split sum.split storeError.split)

lemma refusals_eventVisibleInRoom: "refusals (eventVisibleInRoom d ev target localServer partial)"
  unfolding eventVisibleInRoom_def Let_def
  by (auto intro!: refusals_bnd refusals_visibilityAt split: prod.split)

lemma refusals_missingBodies: "refusals (missingBodies lb d origin sn partial now evs withheld ids)"
  by (induction ids) (auto simp: missingEventBody_def intro!: refusals_bnd refusals_eventVisibleInRoom split: option.split)

lemma refusals_operations:
  "refusals (StateIDs sha d origin room eid)" "refusals (resolveEvent lb d now origin sn eid)"
  "refusals (resolveMissingEvents lb d now origin sn room earliest latest limit)"
proof -
  show "refusals (StateIDs sha d origin room eid)"
    unfolding StateIDs_def checkAccess_def computeStateIDs_def stateIDsForEvent_def
    by (auto intro!: refusals_bnd simp: refusals_rules(2-) split: sum.split storeError.split prod.split)
  show "refusals (resolveEvent lb d now origin sn eid)"
    unfolding resolveEvent_def eventVisible_def
    by (auto intro!: refusals_bnd refusals_eventVisibleInRoom simp: refusals_rules(2-) split: sum.split storeError.split)
  show "refusals (resolveMissingEvents lb d now origin sn room earliest latest limit)"
    unfolding resolveMissingEvents_def
    by (auto intro!: refusals_bnd refusals_missingBodies simp: refusals_rules(2-) split: prod.split)
qed

lemma decode_marshal_transaction:
  assumes "0 \<le> OriginServerTS r" and "OriginServerTS r < 2 ^ 63" and "marshalTransaction r = Some j"
  shows "decodeTransaction (Doc j) \<noteq> None"
proof -
  from assms(3) obtain ps where j: "j = JObj [(''origin'', JStr (Origin r)), (''origin_server_ts'', JNum (itoa (OriginServerTS r))), (''pdus'', JArr ps)]"
    by (auto simp: marshalTransaction_def)
  have "fieldVals ''origin'' [(''origin'', a), (''origin_server_ts'', b), (''pdus'', c)] = [a]"
    "fieldVals ''origin_server_ts'' [(''origin'', a), (''origin_server_ts'', b), (''pdus'', c)] = [b]"
    "fieldVals ''pdus'' [(''origin'', a), (''origin_server_ts'', b), (''pdus'', c)] = [c]" for a b c
    by (simp_all add: upChar_def Let_def of_char_def)
  with parse_itoa [OF assms(1,2)] show ?thesis unfolding j
    by (simp add: decodeTransaction_def topObj_def del: fieldVals_Cons)
qed

lemma resolveEvent_stamps:
  assumes "resolveEvent lb d now origin serverName eventID s = (Inr resp, s')"
  shows "OriginServerTS resp = now"
  using assms unfolding resolveEvent_def
  by (auto elim!: bnd_InrE split: sum.splits storeError.splits if_splits)

text \<open>What is served natively can be read back by the comparison.\<close>

lemma refusal_not_200: "f s = (Inl e, s1) \<Longrightarrow> refusals f \<Longrightarrow> aStatus a = 200 \<Longrightarrow> matrixError e \<noteq> Inr a"
  unfolding refusals_def
  by (drule spec [of _ s]) (auto simp: matrixError_def answered_def split: resolverError.splits)

lemma Answer_readable:
  assumes "Answer parse (dbResolver lb sha d now) serverName q s = (Inr a, s')" and "0 \<le> now" and "now < 2 ^ 63" and "aStatus a = 200"
  shows "readable (reqEndpoint q) (nativeRaw (aBody a))"
proof -
  have me: "matrixError e \<noteq> Inr a" if "\<And>me. e = MErr me \<Longrightarrow> Status me \<in> {403, 404, 400}" for e
    using that assms(4) by (auto simp: matrixError_def answered_def split: resolverError.splits)
  have m: "decodeEvents (Doc j) \<noteq> None" if "marshalMissing resp = Some j" for resp j
    using that decodeEvents_events by (auto simp: marshalMissing_def)
  have e: "decodeTransaction (Doc j) \<noteq> None"
    if "resolveEvent lb d now x y z s = (Inr resp, s1)" "marshalTransaction resp = Some j" for x y z resp s1 j
    using decode_marshal_transaction [OF _ _ that(2)] resolveEvent_stamps [OF that(1)] assms(2,3) by simp
  note err = refusal_not_200 [OF _ _ assms(4)]
  consider "reqEndpoint q = ''state_ids''" | "reqEndpoint q = ''get_missing_events''" | "reqEndpoint q = ''event''"
    | "reqEndpoint q \<notin> {''state_ids'', ''get_missing_events'', ''event''}" by blast
  then show ?thesis
  proof cases
    case 1
    with assms(1) err [OF _ refusals_operations(1)] show ?thesis
      by (auto simp: Answer_def readable_def nativeRaw_def answered_def dbResolver_def decode_marshal_stateIDs split: prod.splits sum.splits)
  next
    case 2
    with assms(1) err [OF _ refusals_operations(3)] me [of "MErr ErrBadJSON"] show ?thesis
      by (auto simp: Answer_def readable_def nativeRaw_def answered_def dbResolver_def ErrBadJSON_def dest!: m split: prod.splits sum.splits option.splits)
  next
    case 3
    with assms(1,4) err [OF _ refusals_operations(2)] show ?thesis
      by (auto simp: Answer_def readable_def nativeRaw_def answered_def dbResolver_def dest!: e split: prod.splits sum.splits option.splits resolverError.splits)
  next
    case 4
    with assms(1) show ?thesis by (simp add: Answer_def)
  qed
qed

section \<open>Properties\<close>

text \<open>C30. Nothing asked of the runner is lost or counted twice: over every interleaving of scheduled
  comparisons, verifications of served answers and goroutines that finish or panic, each request is
  in progress, skipped with a reason, or judged, exactly once, and no more comparisons are in
  progress than there are slots.\<close>

theorem comparisons_counted_once:
  assumes "comparisons n r"
  shows "n = rBusy r + length (rSkipped r) + length (rResults r) \<and> rBusy r \<le> rCapacity r \<and> 0 < rCapacity r"
  using assms
proof induction
  case (go n r req)
  then show ?case by (auto simp: schedule_def)
next
  case (ran n r req panics t nr serverName proxy s)
  from guardedRun_releases [of "\<lambda>r. fst (run t nr serverName req proxy r s)" r req panics, OF run_judges ran.hyps(2)] ran
  show ?case by (auto simp: judgesOnce_def)
next
  case (ran_state n r req panics t state proxy upstream)
  from guardedRun_releases [of "compareState t state req proxy upstream" r req panics, OF compareState_judges ran_state.hyps(2)] ran_state
  show ?case by (auto simp: judgesOnce_def)
next
  case (served n r t panics req proxy nb ns tr)
  with CompareServed_judges [of r t panics req proxy nb ns tr] show ?case by (simp add: judgesOnce_def)
next
  case (served_state n r t panics req proxy upstream ours)
  with CompareStateServed_judges [of r t panics req proxy upstream ours] show ?case by (simp add: judgesOnce_def)
qed (auto simp: NewRunner_def SetStateReplayers_def)

text \<open>A match is agreement and nothing else: a comparison is counted as a match exactly when the two
  statuses are equal and, if they are both 200, Synapse's body was captured whole and the two bodies
  agree: the same sets of identifiers, events that the event comparison accepts under the same
  identifiers from the same origin, or the same canonical events in the same number.\<close>

theorem match_means_agreement:
  "rResults (finish t req proxy nativeBody nativeStatus walkTruncated r) = rResults r @ [(rqEndpoint req, ''match'')] \<longleftrightarrow>
     prStatus proxy = nativeStatus \<and>
     (nativeStatus \<noteq> 200 \<or> \<not> prTruncated proxy \<and> answersAgree (rqEndpoint req) (tParse t (prBody proxy)) (nativeRaw nativeBody))"
  unfolding diffAnswers_clean [of t req "tParse t (prBody proxy)" "nativeRaw nativeBody" walkTruncated, symmetric]
  by (auto simp: finish_def CompareStatus_def Let_def blankRecord_def split: sum.split option.split)

text \<open>A Synapse that did not judge the request is no evidence: when it shed the load, or could not fetch
  the key it needed, and our answer has another status, the comparison is skipped with its reason,
  and neither the counters nor the log move.\<close>

theorem upstream_failures_are_skipped:
  assumes "prStatus proxy \<noteq> nativeStatus" and "prStatus proxy = 429 \<or> nativeStatus \<noteq> 401 \<and> upstreamCouldNotFetchKeys t proxy"
  shows "rDiffs (finish t req proxy nativeBody nativeStatus walkTruncated r) = rDiffs r \<and>
    rResults (finish t req proxy nativeBody nativeStatus walkTruncated r) = rResults r \<and>
    rSkipped (finish t req proxy nativeBody nativeStatus walkTruncated r) = rSkipped r @
      [(rqEndpoint req, if prStatus proxy = 429 then ''upstream_rate_limited'' else ''upstream_key_fetch_failed'')]"
proof -
  have "upstreamCouldNotFetchKeys t proxy \<Longrightarrow> prStatus proxy = 401" by (simp add: upstreamCouldNotFetchKeys_def split: if_splits)
  with assms show ?thesis by (auto simp: finish_def CompareStatus_def Let_def)
qed

text \<open>The streamed comparison of a served answer has no such rule: there, a Synapse that shed the load is
  counted as a disagreement.\<close>

lemma served_state_rate_limited_is_recorded:
  assumes "prStatus proxy = 429" and "rBusy r < rCapacity r"
  shows "rResults (CompareStateServed t False req proxy (Inr up) ours r) = rResults r @ [(rqEndpoint req, ''status_mismatch'')]"
  using assms by (simp add: CompareStateServed_def acquireForVerification_def guardedRun_def blankRecord_def kindText_def)

text \<open>C29. The comparison raises no false alarm: an answer computed natively from a database, compared with a
  Synapse answer of the same status whose body is the same document, is a match, whatever the
  endpoint and whether or not the walk was cut.\<close>

theorem identical_answers_match:
  assumes "Answer (tParse t) (dbResolver lb sha d now) serverName q s = (Inr a, s')" and "0 \<le> now" and "now < 2 ^ 63"
    and "reqEndpoint q = rqEndpoint req" and "prStatus proxy = aStatus a" and "\<not> prTruncated proxy"
    and "tParse t (prBody proxy) = nativeRaw (aBody a)"
  shows "finish t req proxy (aBody a) (aStatus a) (aTruncated a) r = matchReq t req r"
proof (cases "aStatus a = 200")
  case True
  from Answer_readable [OF assms(1-3) True] assms(4) have "answersAgree (rqEndpoint req) (nativeRaw (aBody a)) (nativeRaw (aBody a))"
    by (auto intro: answersAgree_refl)
  then have "diffAnswers t req (nativeRaw (aBody a)) (nativeRaw (aBody a)) (aTruncated a) = Inr (None, '''')"
    by (simp add: diffAnswers_clean)
  with True assms show ?thesis by (simp add: finish_def CompareStatus_def)
qed (use assms in \<open>simp add: finish_def CompareStatus_def\<close>)

subsection \<open>Witnesses\<close>

definition missingParse :: "string \<Rightarrow> raw" where
  "missingParse b =
     (if b = ''req'' then Doc (JObj [(''earliest_events'', JArr [JStr ''$a'']), (''latest_events'', JArr [JStr ''$c''])])
      else (case visMsg [(''body'', JStr ''secret'')] of Doc j \<Rightarrow> Doc (JObj [(''events'', JArr [j])]) | Junk s \<Rightarrow> Junk s))"

definition missingTools :: runnerTools where
  "missingTools = \<lparr>tParse = missingParse, tText = \<lambda>b. '''', tQuote = \<lambda>s. s, tVerify = None, tURIOK = \<lambda>u. True, tErrText = \<lambda>e. '''',
     tCompareText = \<lambda>e. '''', tDeadline = \<lambda>e. False, tNow = 9\<rparr>"

definition missingReq :: Request where
  "missingReq = \<lparr>rqEndpoint = ''get_missing_events'', rqOrigin = ''srv'', rqRoomID = ''!r'', rqEventID = '''', rqURI = '''', rqMethod = ''POST'',
     rqAuthHeader = '''', rqBody = ''req''\<rparr>"

definition okProxy :: ProxyResult where
  "okProxy = \<lparr>prStatus = 200, prBody = ''res'', prTruncated = False\<rparr>"

definition idsTools :: runnerTools where
  "idsTools = missingTools\<lparr>tParse := \<lambda>b. Doc (JObj [(''pdu_ids'', JArr [JStr ''$a'', JStr ''$b'']), (''auth_chain_ids'', JArr [])])\<rparr>"

definition idsReq :: Request where
  "idsReq = missingReq\<lparr>rqEndpoint := ''state_ids''\<rparr>"

text \<open>Two lists of identifiers in another order, one with a repetition, are a match.\<close>

theorem match_means_agreement_witness:
  "rResults (finish idsTools idsReq okProxy
       (Some (JObj [(''pdu_ids'', JArr [JStr ''$b'', JStr ''$a'', JStr ''$a'']), (''auth_chain_ids'', JArr [])])) 200 False (NewRunner None 1)) =
     [(''state_ids'', ''match'')]"
proof -
  have "decodeStateIDs (Doc (JObj [(''pdu_ids'', JArr [JStr ''$a'', JStr ''$b'']), (''auth_chain_ids'', JArr [])])) = Some ([''$a'', ''$b''], [])"
    and "decodeStateIDs (Doc (JObj [(''pdu_ids'', JArr [JStr ''$b'', JStr ''$a'', JStr ''$a'']), (''auth_chain_ids'', JArr [])])) =
      Some ([''$b'', ''$a'', ''$a''], [])" by code_simp+
  then have "answersAgree ''state_ids'' (tParse idsTools (prBody okProxy))
      (nativeRaw (Some (JObj [(''pdu_ids'', JArr [JStr ''$b'', JStr ''$a'', JStr ''$a'']), (''auth_chain_ids'', JArr [])])))"
    by (simp add: answersAgree_def idsTools_def nativeRaw_def) blast
  then show ?thesis
    using match_means_agreement [of idsTools idsReq okProxy
      "Some (JObj [(''pdu_ids'', JArr [JStr ''$b'', JStr ''$a'', JStr ''$a'']), (''auth_chain_ids'', JArr [])])" 200 False "NewRunner None 1"]
    by (simp add: okProxy_def idsReq_def missingReq_def NewRunner_def)
qed

theorem identical_answers_match_witness:
  "\<exists>a s'. Answer missingParse (dbResolver refLib (\<lambda>x. x) missDb 9) ''me''
       \<lparr>reqEndpoint = ''get_missing_events'', reqOrigin = ''srv'', reqRoomID = ''!r'', reqEventID = '''', reqBody = ''req''\<rparr> freshResolver = (Inr a, s') \<and>
     rResults (finish missingTools missingReq okProxy (aBody a) (aStatus a) (aTruncated a) (NewRunner None 1)) = [(''get_missing_events'', ''match'')]"
proof -
  let ?q = "\<lparr>reqEndpoint = ''get_missing_events'', reqOrigin = ''srv'', reqRoomID = ''!r'', reqEventID = '''', reqBody = ''req''\<rparr>"
  let ?ans = "Answer missingParse (dbResolver refLib (\<lambda>x. x) missDb 9) ''me'' ?q freshResolver"
  have dec: "decodeMissing (missingParse ''req'') = Some \<lparr>EarliestEvents = [''$a''], LatestEvents = [''$c''], Limit = None\<rparr>" by code_simp
  obtain resp s' where run: "resolveMissingEvents refLib missDb 9 ''srv'' ''me'' ''!r'' [''$a''] [''$c''] 10 freshResolver = (Inr resp, s')"
    and ev: "Events resp = [visMsg [(''body'', JStr ''secret'')]]" using missDb_run by (metis prod.collapse)
  obtain j where j: "visMsg [(''body'', JStr ''secret'')] = Doc j" by (simp add: visJson_def)
  have a: "?ans = (Inr (answered (Some (JObj [(''events'', JArr [j])])) 200 (WalkTruncated resp)), s')"
    using run by (simp add: Answer_def dec dbResolver_def marshalMissing_def ev j)
  have p: "tParse missingTools (prBody okProxy) = Doc (JObj [(''events'', JArr [j])])"
    by (simp add: missingTools_def okProxy_def missingParse_def j)
  from a have t: "Answer (tParse missingTools) (dbResolver refLib (\<lambda>x. x) missDb 9) ''me'' ?q freshResolver =
      (Inr (answered (Some (JObj [(''events'', JArr [j])])) 200 (WalkTruncated resp)), s')" by (simp add: missingTools_def)
  have p': "tParse missingTools (prBody okProxy) = nativeRaw (aBody (answered (Some (JObj [(''events'', JArr [j])])) 200 (WalkTruncated resp)))"
    by (simp add: p answered_def nativeRaw_def)
  from identical_answers_match [OF t _ _ _ _ _ p', where req = missingReq and r = "NewRunner None 1"] a
  show ?thesis by (simp add: missingReq_def okProxy_def answered_def nativeRaw_def NewRunner_def p)
qed

definition limitedProxy :: ProxyResult where
  "limitedProxy = \<lparr>prStatus = 429, prBody = '''', prTruncated = False\<rparr>"

theorem upstream_failures_are_skipped_witness:
  "rSkipped (finish missingTools missingReq limitedProxy None 200 False (NewRunner None 1)) = [(''get_missing_events'', ''upstream_rate_limited'')]"
proof -
  have "prStatus limitedProxy \<noteq> 200" "prStatus limitedProxy = 429 \<or> (200 :: int) \<noteq> 401 \<and> upstreamCouldNotFetchKeys missingTools limitedProxy"
    by (simp_all add: limitedProxy_def)
  from upstream_failures_are_skipped [OF this, of missingReq None False "NewRunner None 1"] show ?thesis
    by (simp add: limitedProxy_def missingReq_def NewRunner_def)
qed

theorem comparisons_counted_once_witness:
  "let r = CompareServed missingTools True missingReq okProxy None 200 False (snd (schedule missingReq (NewRunner None 1))) in
   2 = rBusy r + length (rSkipped r) + length (rResults r) \<and> rBusy r \<le> rCapacity r"
proof -
  have "comparisons (0 + 1 + 1) (CompareServed missingTools True missingReq okProxy None 200 False (snd (schedule missingReq (NewRunner None 1))))"
    by (intro comparisons.served comparisons.go comparisons.fresh)
  from comparisons_counted_once [OF this] show ?thesis by (simp add: Let_def)
qed

end
