(* ===== verification/Diagnose.thy ===== *)
theory Diagnose
  imports StateStream "HOL-Library.Multiset"
begin

text \<open>
  \<open>internal/shadow/diagnose.go\<close>: naming the events behind a \<open>/state\<close> mismatch.  A replayer's stream is the
  document it wrote and the error it returned; the pipe between it and the scanner is left out.
  \<open>sha\<close> is the hash of a canonical form, \<open>intOf\<close> is gjson's \<open>Int\<close>: both are parameters.
\<close>

record EventIdentity =
  idType :: string
  idStateKey :: string
  idSender :: string
  idOriginServerTS :: int
  idDepth :: int

record ArrayDiagnosis =
  NativeOnly :: int
  SynapseOnly :: int
  NativeSamples :: "EventIdentity list"
  SynapseSamples :: "EventIdentity list"

record StateDiagnosis =
  diagPDUs :: ArrayDiagnosis
  diagAuthChain :: ArrayDiagnosis

definition diagnosisEmpty :: "StateDiagnosis \<Rightarrow> bool" where
  "diagnosisEmpty d \<longleftrightarrow> NativeOnly (diagPDUs d) = 0 \<and> SynapseOnly (diagPDUs d) = 0 \<and>
     NativeOnly (diagAuthChain d) = 0 \<and> SynapseOnly (diagAuthChain d) = 0"

definition defaultDiagnosisSamples :: int where
  "defaultDiagnosisSamples = 10"

definition identify :: "lib \<Rightarrow> (json option \<Rightarrow> int) \<Rightarrow> json \<Rightarrow> EventIdentity" where
  "identify lb intOf p =
     \<lparr>idType = strOf (gjsonGet lb (Doc p) ''type''), idStateKey = strOf (gjsonGet lb (Doc p) ''state_key''),
      idSender = strOf (gjsonGet lb (Doc p) ''sender''), idOriginServerTS = intOf (gjsonGet lb (Doc p) ''origin_server_ts''),
      idDepth = intOf (gjsonGet lb (Doc p) ''depth'')\<rparr>"

section \<open>The first pass\<close>

type_synonym tallies = "(int, int) gomap"

definition tallyOf :: "tallies \<Rightarrow> int \<Rightarrow> int" where
  "tallyOf m h = (case gget m h of None \<Rightarrow> 0 | Some n \<Rightarrow> n)"

text \<open>\<open>m[h] += sign\<close>, and the entry is deleted when it cancels.\<close>

definition bump :: "int \<Rightarrow> int \<Rightarrow> tallies \<Rightarrow> tallies" where
  "bump sign h m = (let n = tallyOf m h + sign in if n = 0 then AList.delete h m else gset h n m)"

text \<open>A visitor works on the state of the array it is called for.\<close>

definition onArray :: "string \<Rightarrow> ('a \<Rightarrow> 'a) \<Rightarrow> 'a \<times> 'a \<Rightarrow> 'a \<times> 'a" where
  "onArray array f v =
     (if array = ArrayPDUs then (f (fst v), snd v) else if array = ArrayAuthChain then (fst v, f (snd v)) else v)"

definition tally :: "(json \<Rightarrow> int) \<Rightarrow> int \<Rightarrow> string \<Rightarrow> nat \<Rightarrow> json \<Rightarrow> json \<Rightarrow> (tallies \<times> tallies, string, unit) comp" where
  "tally sha sign array i canonical x v = (Inr (), onArray array (bump sign (sha canonical)) v)"

type_synonym stream = "raw \<times> string option"

definition replay :: "(string \<Rightarrow> nat \<Rightarrow> json \<Rightarrow> json \<Rightarrow> ('v, string, unit) comp) \<Rightarrow> stream \<Rightarrow> ('v, string, unit) comp" where
  "replay visit side v =
     (case ScanStateResponse visit (fst side) v of
        ((Some e, _), v) \<Rightarrow> (Inl e, v)
      | ((None, _), v) \<Rightarrow> (case snd side of Some e \<Rightarrow> (Inl e, v) | None \<Rightarrow> (Inr (), v)))"

definition countResidue :: "tallies \<Rightarrow> ArrayDiagnosis" where
  "countResidue m =
     \<lparr>NativeOnly = sum_list (map (\<lambda>(_, n). if n > 0 then n else 0) m), SynapseOnly = sum_list (map (\<lambda>(_, n). if n > 0 then 0 else - n) m),
      NativeSamples = [], SynapseSamples = []\<rparr>"

section \<open>The second pass\<close>

definition wanted :: "int \<Rightarrow> tallies \<Rightarrow> tallies" where
  "wanted sign m = map (\<lambda>(h, n). (h, n * sign)) (filter (\<lambda>(h, n). n * sign > 0) m)"

text \<open>One event: named when its hash is still wanted, as far as the samples reach.\<close>

definition capture :: "nat \<Rightarrow> (json \<Rightarrow> EventIdentity) \<Rightarrow> int \<Rightarrow> json \<Rightarrow> tallies \<times> EventIdentity list \<Rightarrow> tallies \<times> EventIdentity list" where
  "capture samples ident h x v =
     (let (m, out) = v in
      if tallyOf m h \<le> 0 then v
      else (gset h (tallyOf m h - 1) m, if length out < samples then out @ [ident x] else out))"

definition collectVisit :: "(json \<Rightarrow> int) \<Rightarrow> nat \<Rightarrow> (json \<Rightarrow> EventIdentity) \<Rightarrow> string \<Rightarrow> nat \<Rightarrow> json \<Rightarrow> json
    \<Rightarrow> ((tallies \<times> EventIdentity list) \<times> (tallies \<times> EventIdentity list), string, unit) comp" where
  "collectVisit sha samples ident array i canonical x v = (Inr (), onArray array (capture samples ident (sha canonical) x) v)"

definition startCollect :: "int \<Rightarrow> tallies \<times> tallies \<Rightarrow> (tallies \<times> EventIdentity list) \<times> (tallies \<times> EventIdentity list)" where
  "startCollect sign residue = ((wanted sign (fst residue), []), (wanted sign (snd residue), []))"

definition withNative :: "(tallies \<times> EventIdentity list) \<times> (tallies \<times> EventIdentity list) \<Rightarrow> StateDiagnosis \<Rightarrow> StateDiagnosis" where
  "withNative v d = d\<lparr>diagPDUs := (diagPDUs d)\<lparr>NativeSamples := snd (fst v)\<rparr>, diagAuthChain := (diagAuthChain d)\<lparr>NativeSamples := snd (snd v)\<rparr>\<rparr>"

definition withSynapse :: "(tallies \<times> EventIdentity list) \<times> (tallies \<times> EventIdentity list) \<Rightarrow> StateDiagnosis \<Rightarrow> StateDiagnosis" where
  "withSynapse v d = d\<lparr>diagPDUs := (diagPDUs d)\<lparr>SynapseSamples := snd (fst v)\<rparr>, diagAuthChain := (diagAuthChain d)\<lparr>SynapseSamples := snd (snd v)\<rparr>\<rparr>"

text \<open>
  The whole diagnosis, on the streams the two sides produce for the first and for the second pass,
  \<open>None\<close> for a side that is not wired.  A second pass that fails still returns the counts and what it
  has named.
\<close>

definition DiagnoseStateMismatch :: "(json \<Rightarrow> int) \<Rightarrow> (json \<Rightarrow> EventIdentity) \<Rightarrow> (stream \<times> stream) option \<Rightarrow> (stream \<times> stream) option \<Rightarrow> int
    \<Rightarrow> StateDiagnosis option \<times> string option" where
  "DiagnoseStateMismatch sha ident native synapse samples =
     (case (native, synapse) of
        (Some (n1, n2), Some (s1, s2)) \<Rightarrow>
          let samples = nat (if samples \<le> 0 then defaultDiagnosisSamples else samples) in
          (case replay (tally sha 1) n1 ([], []) of
             (Inl e, _) \<Rightarrow> (None, Some (''replay native: '' @ e))
           | (Inr _, v) \<Rightarrow>
               (case replay (tally sha (- 1)) s1 v of
                  (Inl e, _) \<Rightarrow> (None, Some (''replay synapse: '' @ e))
                | (Inr _, residue) \<Rightarrow>
                    let d = \<lparr>diagPDUs = countResidue (fst residue), diagAuthChain = countResidue (snd residue)\<rparr> in
                    if diagnosisEmpty d then (Some d, None)
                    else
                      (case replay (collectVisit sha samples ident) n2 (startCollect 1 residue) of
                         (Inl e, v) \<Rightarrow> (Some (withNative v d), Some (''identify native: '' @ e))
                       | (Inr _, v) \<Rightarrow>
                           let d = withNative v d in
                           (case replay (collectVisit sha samples ident) s2 (startCollect (- 1) residue) of
                              (Inl e, v) \<Rightarrow> (Some (withSynapse v d), Some (''identify synapse: '' @ e))
                            | (Inr _, v) \<Rightarrow> (Some (withSynapse v d), None)))))
      | _ \<Rightarrow> (None, Some ''shadow: /state diagnosis needs both replayers''))"

section \<open>Lemmas\<close>

abbreviation canon :: "json \<Rightarrow> json" where
  "canon x \<equiv> the (Canonical (Doc x))"

abbreviation canonicals :: "json list \<Rightarrow> bool" where
  "canonicals xs \<equiv> list_all (\<lambda>x. Canonical (Doc x) \<noteq> None) xs"

definition stateDoc :: "json list \<Rightarrow> json list \<Rightarrow> raw" where
  "stateDoc ps as = Doc (JObj [(''pdus'', JArr ps), (''auth_chain'', JArr as)])"

lemma scanArray_total:
  assumes "\<And>i c x v. visit array i c x v = (Inr (), g c x v)" and "canonicals xs"
  shows "scanArray visit array xs n v = ((None, n + length xs), fold (\<lambda>x. g (canon x) x) xs v)"
  using assms(2)
proof (induction xs arbitrary: n v)
  case (Cons x xs)
  then obtain c where "Canonical (Doc x) = Some c" by auto
  with Cons show ?case by (simp add: assms(1))
qed simp

lemma fold_onArray:
  "fold (\<lambda>x. onArray ArrayPDUs (f x)) xs v = (fold f xs (fst v), snd v)"
  "fold (\<lambda>x. onArray ArrayAuthChain (f x)) xs v = (fst v, fold f xs (snd v))"
proof -
  have "ArrayAuthChain \<noteq> ArrayPDUs" by (simp add: ArrayPDUs_def ArrayAuthChain_def)
  then show "fold (\<lambda>x. onArray ArrayPDUs (f x)) xs v = (fold f xs (fst v), snd v)"
    "fold (\<lambda>x. onArray ArrayAuthChain (f x)) xs v = (fst v, fold f xs (snd v))"
    by (induction xs arbitrary: v) (auto simp: onArray_def)
qed

text \<open>A replay that works runs the visitor over each array on its own state.\<close>

lemma replay_state:
  assumes "\<And>array i c x v. visit array i c x v = (Inr (), onArray array (f c x) v)" and "canonicals ps" and "canonicals as"
  shows "replay visit (stateDoc ps as, None) v = (Inr (), fold (\<lambda>x. f (canon x) x) ps (fst v), fold (\<lambda>x. f (canon x) x) as (snd v))"
proof -
  have "ArrayAuthChain \<noteq> ArrayPDUs" by (simp add: ArrayPDUs_def ArrayAuthChain_def)
  moreover have "scanArray visit array xs n v = ((None, n + length xs), fold (\<lambda>x. onArray array (f (canon x) x)) xs v)" if "canonicals xs" for array xs n v
    by (rule scanArray_total [OF assms(1) that])
  ultimately show ?thesis
    using assms(2,3)
    by (simp add: replay_def ScanStateResponse_def stateDoc_def fold_onArray flip: ArrayPDUs_def ArrayAuthChain_def)
qed

subsection \<open>Tallies are differences of multisets\<close>

definition nonzero :: "tallies \<Rightarrow> bool" where
  "nonzero m \<longleftrightarrow> gomap m \<and> (\<forall>(h, n) \<in> set m. n \<noteq> 0)"

lemma gomap_delete: "gomap m \<Longrightarrow> gomap (AList.delete h m)"
  by (simp add: gomap_def distinct_delete)

lemma tallyOf_bump: "tallyOf (bump sign h m) k = tallyOf m k + (if k = h then sign else 0)"
  by (auto simp: tallyOf_def bump_def Let_def delete_conv split: option.split)

lemma nonzero_bump: "nonzero m \<Longrightarrow> nonzero (bump sign h m)"
proof -
  assume m: "nonzero m"
  have "set (AList.delete h m) \<subseteq> set m" by (simp add: AList.delete_eq)
  moreover have "set (gset h n m) \<subseteq> insert (h, n) (set m)" for n unfolding gset_def by (induction m) auto
  ultimately show ?thesis using m by (fastforce simp: nonzero_def bump_def Let_def gomap_delete)
qed

lemma fold_bump:
  "tallyOf (fold (\<lambda>x. bump sign (f x)) xs m) k = tallyOf m k + sign * int (count (mset (map f xs)) k)"
  "nonzero m \<Longrightarrow> nonzero (fold (\<lambda>x. bump sign (f x)) xs m)"
  by (induction xs arbitrary: m) (auto simp: tallyOf_bump nonzero_bump algebra_simps)

text \<open>The positive and the negative part of a residue.\<close>

definition part :: "int \<Rightarrow> tallies \<Rightarrow> int multiset" where
  "part sign m = sum_list (map (\<lambda>(h, n). replicate_mset (nat (n * sign)) h) m)"

lemma count_part: "gomap m \<Longrightarrow> count (part sign m) k = nat (tallyOf m k * sign)"
proof (induction m)
  case (Cons p m)
  obtain h n where p: "p = (h, n)" by fastforce
  with Cons have "h \<notin> fst ` set m" by (auto simp: gomap_def)
  then have "tallyOf m h = 0" by (simp add: tallyOf_def map_of_eq_None_iff [THEN iffD2])
  with Cons p show ?case by (auto simp: part_def tallyOf_def gomap_def)
qed (simp add: part_def tallyOf_def)

lemma size_part: "int (size (part sign m)) = sum_list (map (\<lambda>(_, n). if n * sign > 0 then n * sign else 0) m)"
  by (induction m) (auto simp: part_def)

lemma countResidue_parts:
  "NativeOnly (countResidue m) = int (size (part 1 m))" "SynapseOnly (countResidue m) = int (size (part (- 1) m))"
  "NativeSamples (countResidue m) = []" "SynapseSamples (countResidue m) = []"
proof -
  have "(if n > 0 then 0 else - n) = (if n * - 1 > 0 then n * - 1 else 0)" for n :: int by auto
  then show "NativeOnly (countResidue m) = int (size (part 1 m))" "SynapseOnly (countResidue m) = int (size (part (- 1) m))"
    by (simp_all add: countResidue_def size_part cong: if_cong)
qed (simp_all add: countResidue_def)

lemma residue_parts:
  assumes "m = fold (\<lambda>x. bump (- 1) (f x)) ys (fold (\<lambda>x. bump 1 (f x)) xs [])"
  shows "gomap m \<and> part 1 m = mset (map f xs) - mset (map f ys) \<and> part (- 1) m = mset (map f ys) - mset (map f xs)"
proof -
  have "nonzero m" unfolding assms by (intro fold_bump(2)) (simp add: nonzero_def)
  then have g: "gomap m" by (simp add: nonzero_def)
  have t: "tallyOf m k = int (count (mset (map f xs)) k) - int (count (mset (map f ys)) k)" for k
    unfolding assms fold_bump(1) by (simp add: tallyOf_def)
  have "part 1 m = mset (map f xs) - mset (map f ys)" "part (- 1) m = mset (map f ys) - mset (map f xs)"
    by (auto simp: multiset_eq_iff count_part [OF g] t nat_diff_distrib simp del: mset_map)
  with g show ?thesis by blast
qed

subsection \<open>Naming the residue\<close>

text \<open>The events the second pass would name if it had no limit.\<close>

fun picked :: "(json \<Rightarrow> int) \<Rightarrow> tallies \<Rightarrow> json list \<Rightarrow> json list" where
  "picked f m [] = []"
| "picked f m (x # xs) =
     (if tallyOf m (f x) \<le> 0 then picked f m xs else x # picked f (gset (f x) (tallyOf m (f x) - 1) m) xs)"

lemma tallyOf_gset: "tallyOf (gset h n m) k = (if k = h then n else tallyOf m k)"
  by (simp add: tallyOf_def)

lemma fold_capture:
  assumes "length out \<le> samples"
  shows "snd (fold (\<lambda>x. capture samples ident (f x) x) xs (m, out)) = take samples (out @ map ident (picked f m xs))"
  using assms
proof (induction xs arbitrary: m out)
  case (Cons x xs)
  show ?case
  proof (cases "tallyOf m (f x) \<le> 0")
    case False
    with Cons.IH [of "if length out < samples then out @ [ident x] else out" "gset (f x) (tallyOf m (f x) - 1) m"] Cons.prems
    show ?thesis by (auto simp: capture_def take_Cons')
  qed (use Cons in \<open>simp add: capture_def\<close>)
qed simp

lemma picked_subset: "set (picked f m xs) \<subseteq> set xs"
  by (induction xs arbitrary: m) auto

lemma count_picked:
  assumes "\<And>k. 0 \<le> tallyOf m k"
  shows "count (mset (map f (picked f m xs))) k = min (count (mset (map f xs)) k) (nat (tallyOf m k))"
  using assms
proof (induction xs arbitrary: m)
  case (Cons x xs)
  show ?case
  proof (cases "tallyOf m (f x) \<le> 0")
    case True
    with Cons.prems have "tallyOf m (f x) = 0" by (simp add: order_antisym)
    with Cons True show ?thesis by auto
  next
    case False
    then have "0 \<le> tallyOf (gset (f x) (tallyOf m (f x) - 1) m) k" for k using Cons.prems by (simp add: tallyOf_gset)
    from Cons.IH [OF this] False show ?thesis by (auto simp: tallyOf_gset min_def nat_diff_distrib)
  qed
qed simp

lemma tallyOf_wanted:
  assumes "gomap m" and "sign \<in> {1, - 1}"
  shows "tallyOf (wanted sign m) k = int (count (part sign m) k)"
  unfolding count_part [OF assms(1)] using assms
proof (induction m)
  case (Cons p m)
  obtain h n where p: "p = (h, n)" by fastforce
  with Cons have h: "h \<notin> fst ` set m" "gomap m" by (auto simp: gomap_def)
  then have "gget (map (\<lambda>(h, n). (h, n * sign)) (filter (\<lambda>(h, n). n * sign > 0) m)) h = None"
    by (force simp: map_of_eq_None_iff)
  with Cons h(2) p show ?case by (auto simp: wanted_def tallyOf_def)
qed (simp add: wanted_def tallyOf_def)

text \<open>What is named of a side that replays the same events: as many as there are in the residue, up to the
  limit, and only events of the residue.\<close>

definition named :: "nat \<Rightarrow> (json \<Rightarrow> EventIdentity) \<Rightarrow> (json \<Rightarrow> int) \<Rightarrow> json list \<Rightarrow> json list \<Rightarrow> EventIdentity list \<Rightarrow> bool" where
  "named samples ident f xs ys out \<longleftrightarrow>
     length out = min samples (size (mset (map f xs) - mset (map f ys))) \<and>
     set out \<subseteq> ident ` {x \<in> set xs. f x \<in># mset (map f xs) - mset (map f ys)}"

lemma capture_names:
  assumes "gomap m" and "sign \<in> {1, - 1}" and "part sign m = mset (map f xs) - mset (map f ys)"
  shows "named samples ident f xs ys (snd (fold (\<lambda>x. capture samples ident (f x) x) xs (wanted sign m, [])))"
proof -
  let ?p = "picked f (wanted sign m) xs" and ?R = "mset (map f xs) - mset (map f ys)"
  have "count (mset (map f ?p)) k = count ?R k" for k
    using count_picked [of "wanted sign m" f xs k] assms by (simp add: tallyOf_wanted)
  then have p: "mset (map f ?p) = ?R" by (simp add: multiset_eq_iff)
  have "length ?p = size ?R" by (metis p length_map size_mset)
  moreover have "f x \<in># ?R" if "x \<in> set ?p" for x
    using that arg_cong [OF p, of set_mset] by (auto simp del: mset_map)
  moreover have "snd (fold (\<lambda>x. capture samples ident (f x) x) xs (wanted sign m, [])) = take samples (map ident ?p)"
    by (simp add: fold_capture)
  ultimately show ?thesis using picked_subset [of f "wanted sign m" xs]
    by (auto simp: named_def take_map simp del: mset_map dest!: in_set_takeD)
qed

definition diagnosed :: "nat \<Rightarrow> (json \<Rightarrow> EventIdentity) \<Rightarrow> (json \<Rightarrow> int) \<Rightarrow> json list \<Rightarrow> json list \<Rightarrow> ArrayDiagnosis \<Rightarrow> bool" where
  "diagnosed samples ident f xs ys a \<longleftrightarrow>
     NativeOnly a = int (size (mset (map f xs) - mset (map f ys))) \<and> SynapseOnly a = int (size (mset (map f ys) - mset (map f xs))) \<and>
     named samples ident f xs ys (NativeSamples a) \<and> named samples ident f ys xs (SynapseSamples a)"

section \<open>Properties\<close>

text \<open>C31. The diagnosis is exact: when both sides replay the same answers in both passes, it counts for each
  array exactly the events, with their multiplicity, that one side has and the other does not, and
  names as many of each as it may, all of them events of the difference.\<close>

theorem diagnosis_is_exact:
  assumes "canonicals (ps @ as @ qs @ bs)"
  shows "\<exists>d. DiagnoseStateMismatch sha ident (Some ((stateDoc ps as, None), (stateDoc ps as, None)))
        (Some ((stateDoc qs bs, None), (stateDoc qs bs, None))) samples = (Some d, None) \<and>
    diagnosed (nat (if samples \<le> 0 then 10 else samples)) ident (\<lambda>x. sha (canon x)) ps qs (diagPDUs d) \<and>
    diagnosed (nat (if samples \<le> 0 then 10 else samples)) ident (\<lambda>x. sha (canon x)) as bs (diagAuthChain d)"
proof -
  let ?k = "nat (if samples \<le> 0 then 10 else samples)" and ?f = "\<lambda>x. sha (canon x)"
  define m where "m = fold (\<lambda>x. bump (- 1) (?f x)) qs (fold (\<lambda>x. bump 1 (?f x)) ps [])"
  define n where "n = fold (\<lambda>x. bump (- 1) (?f x)) bs (fold (\<lambda>x. bump 1 (?f x)) as [])"
  note parts = residue_parts [OF m_def] residue_parts [OF n_def]
  from assms have c: "canonicals ps" "canonicals as" "canonicals qs" "canonicals bs" by simp_all
  have tally: "replay (tally sha sign) (stateDoc xs ys, None) v = (Inr (), fold (\<lambda>x. bump sign (?f x)) xs (fst v), fold (\<lambda>x. bump sign (?f x)) ys (snd v))"
    if "canonicals xs" "canonicals ys" for sign xs ys v
    using replay_state [where visit = "tally sha sign" and f = "\<lambda>c x. bump sign (sha c)", OF _ that] by (simp add: tally_def)
  have collectVisit: "replay (collectVisit sha k ident) (stateDoc xs ys, None) v =
      (Inr (), fold (\<lambda>x. capture k ident (?f x) x) xs (fst v), fold (\<lambda>x. capture k ident (?f x) x) ys (snd v))"
    if "canonicals xs" "canonicals ys" for k xs ys v
    using replay_state [where visit = "collectVisit sha k ident" and f = "\<lambda>c x. capture k ident (sha c) x", OF _ that] by (simp add: collectVisit_def)
  have none: "named ?k ident ?f xs ys []" if "size (mset (map ?f xs) - mset (map ?f ys)) = 0" for xs ys
    using that by (simp add: named_def)
  define d where "d = \<lparr>diagPDUs = countResidue m, diagAuthChain = countResidue n\<rparr>"
  note pass1 = tally [OF c(1,2)] tally [OF c(3,4)]
  show ?thesis
  proof (cases "diagnosisEmpty d")
    case True
    then have "DiagnoseStateMismatch sha ident (Some ((stateDoc ps as, None), (stateDoc ps as, None)))
        (Some ((stateDoc qs bs, None), (stateDoc qs bs, None))) samples = (Some d, None)"
      by (simp add: DiagnoseStateMismatch_def pass1 d_def m_def n_def)
    moreover have "diagnosed ?k ident ?f ps qs (countResidue m)" "diagnosed ?k ident ?f as bs (countResidue n)"
      using True parts none by (simp_all add: diagnosed_def countResidue_parts diagnosisEmpty_def d_def del: mset_map)
    ultimately show ?thesis by (intro exI [of _ d]) (simp add: d_def)
  next
    case False
    define v where "v = (\<lambda>sign xs ys. (fold (\<lambda>x. capture ?k ident (?f x) x) xs (wanted sign m, []), fold (\<lambda>x. capture ?k ident (?f x) x) ys (wanted sign n, [])))"
    from False have "DiagnoseStateMismatch sha ident (Some ((stateDoc ps as, None), (stateDoc ps as, None)))
        (Some ((stateDoc qs bs, None), (stateDoc qs bs, None))) samples = (Some (withSynapse (v (- 1) qs bs) (withNative (v 1 ps as) d)), None)"
      by (simp add: DiagnoseStateMismatch_def pass1 collectVisit [OF c(1,2)] collectVisit [OF c(3,4)] defaultDiagnosisSamples_def d_def m_def [symmetric] n_def [symmetric]
          startCollect_def v_def Let_def)
    moreover have "named ?k ident ?f ps qs (snd (fst (v 1 ps as)))" "named ?k ident ?f as bs (snd (snd (v 1 ps as)))"
      "named ?k ident ?f qs ps (snd (fst (v (- 1) qs bs)))" "named ?k ident ?f bs as (snd (snd (v (- 1) qs bs)))"
      unfolding v_def fst_conv snd_conv using parts by (auto intro!: capture_names simp del: mset_map)
    ultimately show ?thesis
      using parts by (intro exI [of _ "withSynapse (v (- 1) qs bs) (withNative (v 1 ps as) d)"])
        (simp add: diagnosed_def withSynapse_def withNative_def d_def countResidue_parts del: mset_map)
  qed
qed

definition wName :: json where
  "wName = JObj [(''type'', JStr ''m.room.name'')]"

definition wTopic :: json where
  "wTopic = JObj [(''sender'', JStr ''@a:b''), (''type'', JStr ''m.room.topic'')]"

definition wSha :: "json \<Rightarrow> int" where
  "wSha j = (case j of JObj ms \<Rightarrow> int (length ms) | _ \<Rightarrow> 0)"

theorem diagnosis_is_exact_witness:
  "\<exists>d. DiagnoseStateMismatch wSha (identify refLib (\<lambda>_. 0)) (Some ((stateDoc [wName, wTopic] [], None), (stateDoc [wName, wTopic] [], None)))
      (Some ((stateDoc [wName] [], None), (stateDoc [wName] [], None))) 0 = (Some d, None) \<and>
    NativeOnly (diagPDUs d) = 1 \<and> SynapseOnly (diagPDUs d) = 0 \<and> length (NativeSamples (diagPDUs d)) = 1"
proof -
  have c: "Canonical (Doc wName) = Some wName" "Canonical (Doc wTopic) = Some wTopic" by code_simp+
  then have "canonicals ([wName, wTopic] @ [] @ [wName] @ [])" by simp
  from diagnosis_is_exact [OF this, of wSha "identify refLib (\<lambda>_. 0)" 0] c show ?thesis
    by (fastforce simp: diagnosed_def named_def wSha_def wName_def wTopic_def)
qed

end

