(* ===== verification/FedAuth.thy ===== *)
theory FedAuth
  imports MissingEvents Acl
begin

text \<open>
  \<open>internal/fedauth\<close>: verification of a request's X-Matrix signature, with the layers of the key cache in
  front of the network.  Everything of mautrix is a parameter, collected in one record: the in-memory
  cache, decoding a key response, parsing the header, asking a notary, and authenticating a request,
  which reads and fills the cache itself.  Times are in milliseconds.
\<close>

record ServerKeyResponse =
  krServerName :: string
  krValidUntil :: int
  krHasKey :: "string \<Rightarrow> bool"
  krSelfSigned :: bool

record RespError =
  reStatusCode :: int
  reErrCode :: string
  reErr :: string

record fedRequest =
  fMethod :: string
  fURI :: string
  fBody :: "string option"
  fAuthorization :: string

record 'm mautrix =
  memLoad :: "'m \<Rightarrow> string \<Rightarrow> (string, ServerKeyResponse option) result"
  memStore :: "ServerKeyResponse \<Rightarrow> 'm \<Rightarrow> 'm"
  decodeKeys :: "raw \<Rightarrow> ServerKeyResponse option"
  parseXMatrix :: "string \<Rightarrow> string \<times> string"
  queryKeys :: "string \<Rightarrow> string \<Rightarrow> string \<Rightarrow> int \<Rightarrow> (string, ServerKeyResponse option list) result"
  authenticate :: "fedRequest \<Rightarrow> 'm \<Rightarrow> (RespError, string) result \<times> 'm"

section \<open>The layered cache\<close>

text \<open>The loop over the rows of Synapse's cache: the first response that decodes, names the server and
  carries its signature is kept in memory and returned.\<close>

fun fromRows :: "'m mautrix \<Rightarrow> string \<Rightarrow> raw list \<Rightarrow> 'm \<Rightarrow> ServerKeyResponse option \<times> 'm" where
  "fromRows mx serverName [] mem = (None, mem)"
| "fromRows mx serverName (row # rows) mem =
     (case decodeKeys mx row of
        None \<Rightarrow> fromRows mx serverName rows mem
      | Some resp \<Rightarrow>
          if krServerName resp \<noteq> serverName then fromRows mx serverName rows mem
          else if \<not> krSelfSigned resp then fromRows mx serverName rows mem
          else (Some resp, memStore mx resp mem))"

definition LoadKeys :: "'m mautrix \<Rightarrow> database option \<Rightarrow> int \<Rightarrow> string \<Rightarrow> 'm \<Rightarrow> ServerKeyResponse option \<times> 'm" where
  "LoadKeys mx db now serverName mem =
     (case memLoad mx mem serverName of
        Inr (Some res) \<Rightarrow> (Some res, mem)
      | _ \<Rightarrow>
          (case db of
             None \<Rightarrow> (None, mem)
           | Some d \<Rightarrow>
               (case GetServerKeys d serverName now of
                  Inl e \<Rightarrow> (None, mem)
                | Inr rows \<Rightarrow> fromRows mx serverName (map KeyJSON rows) mem)))"

section \<open>Notaries\<close>

text \<open>The responses of one notary: whether one of them has the key, and the cache with the good ones.\<close>

fun takeKeys :: "'m mautrix \<Rightarrow> string \<Rightarrow> string \<Rightarrow> ServerKeyResponse option list \<Rightarrow> 'm \<Rightarrow> bool \<times> 'm" where
  "takeKeys mx serverName keyID [] mem = (False, mem)"
| "takeKeys mx serverName keyID (k # ks) mem =
     (case k of
        None \<Rightarrow> takeKeys mx serverName keyID ks mem
      | Some keys \<Rightarrow>
          if krServerName keys \<noteq> serverName then takeKeys mx serverName keyID ks mem
          else if \<not> krSelfSigned keys then takeKeys mx serverName keyID ks mem
          else if krHasKey keys keyID then (True, memStore mx keys mem)
          else takeKeys mx serverName keyID ks (memStore mx keys mem))"

fun queryNotaries :: "'m mautrix \<Rightarrow> int \<Rightarrow> string list \<Rightarrow> string \<Rightarrow> string \<Rightarrow> 'm \<Rightarrow> bool \<times> 'm" where
  "queryNotaries mx now [] serverName keyID mem = (False, mem)"
| "queryNotaries mx now (notary # notaries) serverName keyID mem =
     (if notary = serverName then queryNotaries mx now notaries serverName keyID mem
      else (case queryKeys mx notary serverName keyID now of
              Inl e \<Rightarrow> queryNotaries mx now notaries serverName keyID mem
            | Inr ks \<Rightarrow>
                (case takeKeys mx serverName keyID ks mem of
                   (True, mem) \<Rightarrow> (True, mem)
                 | (False, mem) \<Rightarrow> queryNotaries mx now notaries serverName keyID mem)))"

text \<open>\<open>HasKey\<close> of no response at all is false.\<close>

definition warmCache :: "'m mautrix \<Rightarrow> database option \<Rightarrow> int \<Rightarrow> string list \<Rightarrow> string \<Rightarrow> 'm \<Rightarrow> 'm" where
  "warmCache mx db now notaries authHeader mem =
     (if notaries = [] then mem
      else
        let (origin, keyID) = parseXMatrix mx authHeader in
        if origin = '''' \<or> keyID = '''' then mem
        else
          (case LoadKeys mx db now origin mem of
             (res, mem) \<Rightarrow>
               if (case res of None \<Rightarrow> False | Some r \<Rightarrow> krHasKey r keyID) then mem
               else snd (queryNotaries mx now notaries origin keyID mem)))"

section \<open>Verification\<close>

definition expiredKey :: "string \<Rightarrow> string \<Rightarrow> RespError" where
  "expiredKey keyID origin =
     \<lparr>reStatusCode = 401, reErrCode = ''M_UNAUTHORIZED'',
      reErr = ''No currently valid key to satisfy '' @ keyID @ '' for '' @ origin @ '': the published key is past its valid_until_ts''\<rparr>"

definition requireCurrentlyValidKey :: "'m mautrix \<Rightarrow> database option \<Rightarrow> int \<Rightarrow> string \<Rightarrow> 'm \<Rightarrow> RespError option \<times> 'm" where
  "requireCurrentlyValidKey mx db now authHeader mem =
     (let (origin, keyID) = parseXMatrix mx authHeader in
      if origin = '''' \<or> keyID = '''' then (None, mem)
      else
        (case LoadKeys mx db now origin mem of
           (Some res, mem) \<Rightarrow> (if krValidUntil res - now > 0 then None else Some (expiredKey keyID origin), mem)
         | (None, mem) \<Rightarrow> (Some (expiredKey keyID origin), mem)))"

definition withBody :: "fedRequest \<Rightarrow> fedRequest" where
  "withBody r = (if fBody r = None then r\<lparr>fBody := Some ''''\<rparr> else r)"

text \<open>The time is read three times; \<open>now\<close> is when the cache is warmed, \<open>later\<close> when the key is checked.\<close>

definition Verify :: "'m mautrix \<Rightarrow> database option \<Rightarrow> string list \<Rightarrow> int \<Rightarrow> int \<Rightarrow> fedRequest \<Rightarrow> 'm \<Rightarrow> (RespError, string) result \<times> 'm" where
  "Verify mx db notaries now later r mem =
     (let r = withBody r; mem = warmCache mx db now notaries (fAuthorization r) mem in
      case authenticate mx r mem of
        (Inl e, mem) \<Rightarrow> (Inl e, mem)
      | (Inr origin, mem) \<Rightarrow>
          (case requireCurrentlyValidKey mx db later (fAuthorization r) mem of
             (Some e, mem) \<Rightarrow> (Inl e, mem)
           | (None, mem) \<Rightarrow> (Inr origin, mem)))"

text \<open>The verifier and its options, durations in nanoseconds; of the client and the cache inside it the settings
  are kept.\<close>

record VerifierOptions =
  KeyRefetchDelay :: int
  FetchTimeout :: int
  Notaries :: "string list"
  HasDB :: bool

record Verifier =
  vrServerName :: string
  vrNotaries :: "string list"
  vrMinKeyRefetchDelay :: int
  vrGlobalTimeout :: int
  vrLayered :: bool
  vrMaxBodySize :: int

definition NewVerifier :: "string \<Rightarrow> VerifierOptions \<Rightarrow> Verifier" where
  "NewVerifier serverName vo =
     (let delay = (if KeyRefetchDelay vo \<le> 0 then 3600 * 10 ^ 9 else KeyRefetchDelay vo);
          timeout = (if FetchTimeout vo \<le> 0 then 30 * 10 ^ 9 else FetchTimeout vo) in
      \<lparr>vrServerName = serverName, vrNotaries = Notaries vo, vrMinKeyRefetchDelay = delay, vrGlobalTimeout = timeout, vrLayered = HasDB vo,
       vrMaxBodySize = 64 * 1024\<rparr>)"

definition resultStatus :: "(RespError, string) result \<Rightarrow> int" where
  "resultStatus res = (case res of Inr _ \<Rightarrow> 200 | Inl e \<Rightarrow> if reStatusCode e \<noteq> 0 then reStatusCode e else 401)"

section \<open>Lemmas\<close>

text \<open>What the in-memory cache of mautrix does on a store: a name gives what it gave before, or the response
  that was stored under the server's own name, or nothing.\<close>

definition storesByName :: "'m mautrix \<Rightarrow> bool" where
  "storesByName mx \<longleftrightarrow> (\<forall>r mem s x. memLoad mx (memStore mx r mem) s = Inr (Some x) \<longrightarrow>
     memLoad mx mem s = Inr (Some x) \<or> x = r \<and> s = krServerName r)"

text \<open>The cache gains nothing but responses that name the server and carry its signature.\<close>

definition gainsOnly :: "'m mautrix \<Rightarrow> string \<Rightarrow> 'm \<Rightarrow> 'm \<Rightarrow> bool" where
  "gainsOnly mx server mem mem' \<longleftrightarrow> (\<forall>s x. memLoad mx mem' s = Inr (Some x) \<longrightarrow>
     memLoad mx mem s = Inr (Some x) \<or> s = server \<and> krServerName x = server \<and> krSelfSigned x)"

lemma gains_refl [simp]: "gainsOnly mx server mem mem"
  by (simp add: gainsOnly_def)

lemma gains_trans: "gainsOnly mx server a b \<Longrightarrow> gainsOnly mx server b c \<Longrightarrow> gainsOnly mx server a c"
  unfolding gainsOnly_def by blast

lemma gains_store:
  "storesByName mx \<Longrightarrow> krServerName r = server \<Longrightarrow> krSelfSigned r \<Longrightarrow> gainsOnly mx server mem (memStore mx r mem)"
  unfolding storesByName_def gainsOnly_def by blast

lemma fromRows_gains:
  assumes "storesByName mx"
  shows "gainsOnly mx server mem (snd (fromRows mx server rows mem)) \<and>
    (\<forall>r. fst (fromRows mx server rows mem) = Some r \<longrightarrow> krServerName r = server \<and> krSelfSigned r)"
  by (induction rows) (auto simp: gains_store [OF assms] split: option.split)

lemma LoadKeys_gains: "storesByName mx \<Longrightarrow> gainsOnly mx server mem (snd (LoadKeys mx db now server mem))"
  by (auto simp: LoadKeys_def fromRows_gains split: sum.split option.split)

lemma takeKeys_gains: "storesByName mx \<Longrightarrow> gainsOnly mx server mem (snd (takeKeys mx server keyID ks mem))"
proof (induction ks arbitrary: mem)
  case (Cons k ks)
  show ?case
  proof (cases k)
    case (Some keys)
    with Cons gains_trans [OF gains_store [OF Cons.prems]] show ?thesis by (simp add: gains_store)
  qed (use Cons in simp)
qed simp

lemma queryNotaries_gains: "storesByName mx \<Longrightarrow> gainsOnly mx server mem (snd (queryNotaries mx now notaries server keyID mem))"
proof (induction notaries arbitrary: mem)
  case (Cons notary notaries)
  show ?case
  proof (cases "notary = server")
    case False
    show ?thesis
    proof (cases "queryKeys mx notary server keyID now")
      case (Inr ks)
      obtain ok mem' where t: "takeKeys mx server keyID ks mem = (ok, mem')" by fastforce
      with takeKeys_gains [OF Cons.prems, of server mem keyID ks] have "gainsOnly mx server mem mem'" by simp
      with Cons False Inr t show ?thesis by (cases ok) (auto intro: gains_trans)
    qed (use Cons False in simp)
  qed (use Cons in simp)
qed simp

lemma warmCache_gains:
  assumes "storesByName mx"
  shows "gainsOnly mx (fst (parseXMatrix mx h)) mem (warmCache mx db now notaries h mem)"
proof -
  obtain origin keyID where p: "parseXMatrix mx h = (origin, keyID)" by fastforce
  obtain res mem1 where l: "LoadKeys mx db now origin mem = (res, mem1)" by fastforce
  with LoadKeys_gains [OF assms, of origin mem db now] have "gainsOnly mx origin mem mem1" by simp
  with gains_trans [OF this queryNotaries_gains [OF assms]] show ?thesis
    by (auto simp: warmCache_def p l)
qed

section \<open>Properties\<close>

text \<open>C25. Only an authenticated request of a server with a currently valid key is accepted: when
  verification accepts, mautrix authenticated the request as coming from that origin, on a cache that
  this worker has given nothing but key responses that name the claimed server and carry its own
  signature; and for a header that names a server and a key, a response for that server is at hand
  whose validity has not run out.\<close>

theorem verified_with_current_keys:
  assumes "storesByName mx" and "Verify mx db notaries now later r mem = (Inr origin, mem')"
  shows "\<exists>warm mem1. gainsOnly mx (fst (parseXMatrix mx (fAuthorization r))) mem warm \<and>
    authenticate mx (withBody r) warm = (Inr origin, mem1) \<and>
    (fst (parseXMatrix mx (fAuthorization r)) \<noteq> '''' \<and> snd (parseXMatrix mx (fAuthorization r)) \<noteq> '''' \<longrightarrow>
       (\<exists>res. LoadKeys mx db later (fst (parseXMatrix mx (fAuthorization r))) mem1 = (Some res, mem') \<and> later < krValidUntil res))"
proof -
  let ?warm = "warmCache mx db now notaries (fAuthorization r) mem"
  have h: "fAuthorization (withBody r) = fAuthorization r" by (simp add: withBody_def)
  obtain res mem1 where a: "authenticate mx (withBody r) ?warm = (res, mem1)" by fastforce
  with assms(2) have ok: "res = Inr origin" "requireCurrentlyValidKey mx db later (fAuthorization r) mem1 = (None, mem')"
    by (auto simp: Verify_def h Let_def split: sum.splits prod.splits option.splits)
  from ok(2) have "fst (parseXMatrix mx (fAuthorization r)) \<noteq> '''' \<and> snd (parseXMatrix mx (fAuthorization r)) \<noteq> '''' \<longrightarrow>
      (\<exists>res. LoadKeys mx db later (fst (parseXMatrix mx (fAuthorization r))) mem1 = (Some res, mem') \<and> later < krValidUntil res)"
    by (auto simp: requireCurrentlyValidKey_def split: prod.splits option.splits if_splits)
  with a ok(1) warmCache_gains [OF assms(1)] show ?thesis by blast
qed

text \<open>Which key signed the request does not enter the last check: a response that is still valid but does not
  have the key satisfies it.\<close>

lemma validity_ignores_the_key:
  assumes "parseXMatrix mx h = (origin, keyID)" and "memLoad mx mem origin = Inr (Some res)" and "now < krValidUntil res"
    and "\<not> krHasKey res keyID"
  shows "fst (requireCurrentlyValidKey mx db now h mem) = None"
  using assms by (simp add: requireCurrentlyValidKey_def LoadKeys_def)

subsection \<open>A small cache\<close>

text \<open>An in-memory cache as an association list, to evaluate the definitions.\<close>

definition listMautrix :: "(string, ServerKeyResponse) gomap mautrix" where
  "listMautrix = \<lparr>memLoad = \<lambda>m s. Inr (gget m s), memStore = \<lambda>r m. gset (krServerName r) r m, decodeKeys = \<lambda>b. None,
     parseXMatrix = \<lambda>h. (''b'', ''ed25519:1''),
     queryKeys = \<lambda>n s k t. Inr [Some \<lparr>krServerName = s, krValidUntil = 9, krHasKey = \<lambda>k'. k' = k, krSelfSigned = True\<rparr>],
     authenticate = \<lambda>r m. (case gget m ''b'' of None \<Rightarrow> (Inl \<lparr>reStatusCode = 0, reErrCode = ''M_UNAUTHORIZED'', reErr = ''''\<rparr>, m) | Some _ \<Rightarrow> (Inr ''b'', m))\<rparr>"

lemma listMautrix_stores: "storesByName listMautrix"
  by (auto simp: storesByName_def listMautrix_def split: if_splits)

definition signedRequest :: fedRequest where
  "signedRequest = \<lparr>fMethod = ''GET'', fURI = ''/'', fBody = None, fAuthorization = ''X-Matrix''\<rparr>"

theorem verified_with_current_keys_witness:
  "\<exists>mem' res. Verify listMautrix None [''n''] 3 4 signedRequest [] = (Inr ''b'', mem') \<and>
     fst (LoadKeys listMautrix None 4 ''b'' mem') = Some res \<and> 4 < krValidUntil res"
proof -
  obtain mem' where v: "Verify listMautrix None [''n''] 3 4 signedRequest [] = (Inr ''b'', mem')"
    by (simp add: Verify_def listMautrix_def signedRequest_def withBody_def warmCache_def LoadKeys_def requireCurrentlyValidKey_def gset_def)
  have p: "parseXMatrix listMautrix h = (''b'', ''ed25519:1'')" for h by (simp add: listMautrix_def)
  from verified_with_current_keys [OF listMautrix_stores v] obtain mem1 res where
    l: "LoadKeys listMautrix None 4 ''b'' mem1 = (Some res, mem')" and u: "4 < krValidUntil res" by (auto simp: p)
  from l have "mem' = mem1" by (auto simp: LoadKeys_def listMautrix_def split: option.splits)
  with l u v show ?thesis by auto
qed

end

