(* ===== verification/Proxy.thy ===== *)
theory Proxy
  imports Config
begin

text \<open>
  \<open>internal/proxy\<close>: forwarding a request to one of the upstreams, and the recorder through which the
  answer passes.  \<open>httputil.ReverseProxy\<close> is the calls it makes on the recorder: headers, writes, of which
  the client's connection may accept a part, and flushes.  Dialling and timeouts are I/O.
\<close>

section \<open>Upstreams\<close>

record backend =
  bname :: string
  bhost :: string

record proxy =
  backends :: "backend list"
  pnext :: "64 word"

definition unixHost :: string where
  "unixHost = ''unix''"

definition upstreamTimeout :: "Upstream \<Rightarrow> int" where
  "upstreamTimeout cfg = (if UpstreamTimeoutSeconds cfg = 0 then 60 else UpstreamTimeoutSeconds cfg) * 10 ^ 9"

definition upstreamIdle :: "Upstream \<Rightarrow> int" where
  "upstreamIdle cfg = (if MaxIdleConns cfg = 0 then 32 else MaxIdleConns cfg)"

definition newProxy :: "Upstream \<Rightarrow> (string, proxy) result" where
  "newProxy cfg =
     (let bs = map (\<lambda>s. \<lparr>bname = s, bhost = unixHost\<rparr>) (Sockets cfg) @ map (\<lambda>a. \<lparr>bname = a, bhost = a\<rparr>) (Addrs cfg) in
      if bs = [] then Inl ''proxy: no upstreams configured'' else Inr \<lparr>backends = bs, pnext = 0\<rparr>)"

definition pick :: "proxy \<Rightarrow> backend \<times> proxy" where
  "pick p =
     (if length (backends p) = 1 then (backends p ! 0, p)
      else let n = pnext p + 1; i = n - 1 in
        (backends p ! (unat i mod length (backends p)), p\<lparr>pnext := n\<rparr>))"

definition Backends :: "proxy \<Rightarrow> string list" where
  "Backends p = map bname (backends p)"

section \<open>The outbound request\<close>

record url =
  uScheme :: string
  uHost :: string
  uPath :: string
  uRawPath :: string
  uRawQuery :: string

record outbound =
  oURL :: url
  oHost :: string

definition rewrite :: "outbound \<Rightarrow> string \<Rightarrow> outbound \<Rightarrow> outbound" where
  "rewrite inbound hostName out =
     out\<lparr>oURL := (oURL out)\<lparr>uScheme := ''http'', uHost := hostName, uPath := uPath (oURL inbound), uRawPath := uRawPath (oURL inbound),
           uRawQuery := uRawQuery (oURL inbound)\<rparr>,
         oHost := oHost inbound\<rparr>"

section \<open>The recorder\<close>

datatype clientCall = ClientHeader int | ClientBytes string | ClientFlush

record recorder =
  rcStatus :: int
  rcWritten :: int
  rcLimit :: int
  rcBuf :: string
  rcTruncated :: bool
  rcHasSink :: bool
  rcSinkErr :: "string option"
  rcSunk :: string
  rcClient :: "clientCall list"

definition newRecorder :: "int \<Rightarrow> bool \<Rightarrow> recorder" where
  "newRecorder limit sink = \<lparr>rcStatus = 0, rcWritten = 0, rcLimit = limit, rcBuf = '''', rcTruncated = False, rcHasSink = sink,
     rcSinkErr = None, rcSunk = '''', rcClient = []\<rparr>"

definition recWriteHeader :: "int \<Rightarrow> recorder \<Rightarrow> recorder" where
  "recWriteHeader status r =
     (if rcStatus r = 0 then r\<lparr>rcStatus := status, rcClient := rcClient r @ [ClientHeader status]\<rparr> else r)"

text \<open>A write of which the client takes the bytes \<open>q\<close>: sending, the comparison sink, which may fail, and the
  captured copy.\<close>

definition recSend :: "string \<Rightarrow> recorder \<Rightarrow> recorder" where
  "recSend q r =
     r\<lparr>rcStatus := if rcStatus r = 0 then 200 else rcStatus r, rcClient := rcClient r @ [ClientBytes q],
       rcWritten := rcWritten r + int (length q)\<rparr>"

definition recTee :: "string \<Rightarrow> string option \<Rightarrow> recorder \<Rightarrow> recorder" where
  "recTee q sinkFails r =
     (if rcHasSink r \<and> rcSinkErr r = None then
        (case sinkFails of None \<Rightarrow> r\<lparr>rcSunk := rcSunk r @ q\<rparr> | Some e \<Rightarrow> r\<lparr>rcSinkErr := Some e\<rparr>)
      else r)"

definition recCapture :: "string \<Rightarrow> recorder \<Rightarrow> recorder" where
  "recCapture q r =
     (if rcLimit r > 0 then
        let remaining = rcLimit r - int (length (rcBuf r)) in
        if remaining \<le> 0 then r\<lparr>rcTruncated := True\<rparr>
        else if int (length q) > remaining then r\<lparr>rcBuf := rcBuf r @ take (nat remaining) q, rcTruncated := True\<rparr>
        else r\<lparr>rcBuf := rcBuf r @ q\<rparr>
      else r)"

definition recWrite :: "string \<Rightarrow> nat \<Rightarrow> string option \<Rightarrow> recorder \<Rightarrow> recorder" where
  "recWrite p n sinkFails r = recCapture (take n p) (recTee (take n p) sinkFails (recSend (take n p) r))"

datatype proxyCall = CallHeader int | CallWrite string nat "string option" | CallFlush

fun recCall :: "proxyCall \<Rightarrow> recorder \<Rightarrow> recorder" where
  "recCall (CallHeader status) r = recWriteHeader status r"
| "recCall (CallWrite p n sinkFails) r = recWrite p n sinkFails r"
| "recCall CallFlush r = r\<lparr>rcClient := rcClient r @ [ClientFlush]\<rparr>"

text \<open>The error handler: nothing when the client has gone, a bare 502 otherwise.\<close>

definition errorHandler :: "bool \<Rightarrow> proxyCall list" where
  "errorHandler canceled = (if canceled then [] else [CallHeader 502])"

section \<open>Forwarding\<close>

record Result =
  rsBackend :: string
  rsStatus :: int
  rsBytes :: int
  rsBody :: "string option"
  rsTruncated :: bool
  rsCanceled :: bool
  rsErr :: bool
  rsSinkErr :: "string option"

text \<open>\<open>calls\<close> is what the reverse proxy of the picked upstream does; \<open>ctxDone\<close> is whether the request's context has
  ended by the time it returns.\<close>

definition forward :: "int \<Rightarrow> bool \<Rightarrow> (backend \<Rightarrow> proxyCall list) \<Rightarrow> bool \<Rightarrow> proxy \<Rightarrow> Result \<times> recorder \<times> proxy" where
  "forward captureLimit sink calls ctxDone p =
     (let (b, p) = pick p; rec = fold recCall (calls b) (newRecorder captureLimit sink);
          canceled = (rcStatus rec = 0 \<and> ctxDone) in
      (\<lparr>rsBackend = bname b, rsStatus = rcStatus rec, rsBytes = rcWritten rec, rsBody = (if captureLimit > 0 then Some (rcBuf rec) else None),
        rsTruncated = rcTruncated rec, rsCanceled = canceled,
        rsErr = (\<not> canceled \<and> rcStatus rec = 502 \<and> rcWritten rec = 0), rsSinkErr = rcSinkErr rec\<rparr>, rec, p))"

definition Forward :: "int \<Rightarrow> (backend \<Rightarrow> proxyCall list) \<Rightarrow> bool \<Rightarrow> proxy \<Rightarrow> Result \<times> recorder \<times> proxy" where
  "Forward captureLimit calls ctxDone p = forward captureLimit False calls ctxDone p"

definition ForwardStreaming :: "(backend \<Rightarrow> proxyCall list) \<Rightarrow> bool \<Rightarrow> proxy \<Rightarrow> Result \<times> recorder \<times> proxy" where
  "ForwardStreaming calls ctxDone p = forward 0 True calls ctxDone p"

text \<open>A forward with no client: the discarding writer takes every byte.\<close>

definition Fetch :: "int \<Rightarrow> (backend \<Rightarrow> proxyCall list) \<Rightarrow> bool \<Rightarrow> proxy \<Rightarrow> Result \<times> recorder \<times> proxy" where
  "Fetch captureLimit calls ctxDone p =
     Forward (if captureLimit \<le> 0 then 1 else captureLimit)
       (\<lambda>b. map (\<lambda>c. case c of CallWrite q _ s \<Rightarrow> CallWrite q (length q) s | c \<Rightarrow> c) (calls b)) ctxDone p"

section \<open>Lemmas\<close>

text \<open>The body a sequence of calls sends.\<close>

fun sentBy :: "proxyCall \<Rightarrow> string" where
  "sentBy (CallWrite p n _) = take n p"
| "sentBy _ = ''''"

definition bodyOfCalls :: "proxyCall list \<Rightarrow> string" where
  "bodyOfCalls calls = concat (map sentBy calls)"

definition clientBody :: "clientCall list \<Rightarrow> string" where
  "clientBody cs = concat (map (\<lambda>c. case c of ClientBytes s \<Rightarrow> s | _ \<Rightarrow> '''') cs)"

definition captured :: "int \<Rightarrow> string \<Rightarrow> recorder \<Rightarrow> bool" where
  "captured limit body r \<longleftrightarrow> rcLimit r = limit \<and>
     (limit > 0 \<longrightarrow> rcBuf r = take (nat limit) body \<and> (int (length body) > limit \<longrightarrow> rcTruncated r))"

definition teed :: "bool \<Rightarrow> string \<Rightarrow> recorder \<Rightarrow> bool" where
  "teed sink body r \<longleftrightarrow> rcHasSink r = sink \<and> (sink \<longrightarrow> prefix (rcSunk r) body \<and> (rcSinkErr r = None \<longrightarrow> rcSunk r = body))"

definition faithful :: "int \<Rightarrow> bool \<Rightarrow> string \<Rightarrow> recorder \<Rightarrow> bool" where
  "faithful limit sink body r \<longleftrightarrow> clientBody (rcClient r) = body \<and> rcWritten r = int (length body) \<and> captured limit body r \<and> teed sink body r"

lemma clientBody_snoc [simp]:
  "clientBody (cs @ [ClientBytes s]) = clientBody cs @ s" "clientBody (cs @ [ClientHeader n]) = clientBody cs"
  "clientBody (cs @ [ClientFlush]) = clientBody cs" "clientBody [] = ''''"
  by (simp_all add: clientBody_def)

lemma captured_write:
  assumes "captured limit body r" and "rcLimit r' = rcLimit r" and "rcBuf r' = rcBuf r" and "rcTruncated r' = rcTruncated r"
  shows "captured limit (body @ q) (recCapture q r')"
proof (cases "limit > 0")
  case True
  with assms have r: "rcLimit r' = limit" "rcBuf r' = take (nat limit) body" by (simp_all add: captured_def)
  show ?thesis
  proof (cases "nat limit \<le> length body")
    case True': True
    with True r show ?thesis by (simp add: captured_def recCapture_def Let_def)
  next
    case False
    then have "limit - int (length body) > 0" "nat (limit - int (length body)) = nat limit - length body" by linarith+
    with True False r show ?thesis by (simp add: captured_def recCapture_def Let_def)
  qed
qed (use assms in \<open>simp add: captured_def recCapture_def\<close>)

lemma teed_write: "teed sink body r \<Longrightarrow> teed sink (body @ q) (recTee q sinkFails r)"
  by (auto simp: teed_def recTee_def prefix_def split: option.split)

lemma rec_sel [simp]:
  "rcLimit (recTee q sf r) = rcLimit r" "rcBuf (recTee q sf r) = rcBuf r" "rcTruncated (recTee q sf r) = rcTruncated r"
  "rcClient (recTee q sf r) = rcClient r" "rcWritten (recTee q sf r) = rcWritten r" "rcStatus (recTee q sf r) = rcStatus r"
  "rcClient (recCapture q r) = rcClient r" "rcWritten (recCapture q r) = rcWritten r" "rcStatus (recCapture q r) = rcStatus r"
  "rcHasSink (recCapture q r) = rcHasSink r" "rcSunk (recCapture q r) = rcSunk r" "rcSinkErr (recCapture q r) = rcSinkErr r"
  by (simp_all add: recTee_def recCapture_def Let_def split: option.split)

lemma faithful_write:
  assumes "faithful limit sink body r"
  shows "faithful limit sink (body @ take n p) (recWrite p n sinkFails r)"
proof -
  have "captured limit (body @ take n p) (recWrite p n sinkFails r)"
    unfolding recWrite_def by (rule captured_write [of _ _ r]) (use assms in \<open>simp_all add: faithful_def recSend_def\<close>)
  moreover have "teed sink (body @ take n p) (recTee (take n p) sinkFails (recSend (take n p) r))"
    by (rule teed_write) (use assms in \<open>simp add: faithful_def teed_def recSend_def\<close>)
  then have "teed sink (body @ take n p) (recWrite p n sinkFails r)" by (simp add: teed_def recWrite_def)
  ultimately show ?thesis using assms by (simp add: faithful_def recWrite_def recSend_def)
qed

lemma faithful_call: "faithful limit sink body r \<Longrightarrow> faithful limit sink (body @ sentBy c) (recCall c r)"
  by (cases c) (simp_all add: faithful_write, auto simp: faithful_def captured_def teed_def recWriteHeader_def)

lemma faithful_calls: "faithful limit sink body r \<Longrightarrow> faithful limit sink (body @ bodyOfCalls cs) (fold recCall cs r)"
proof (induction cs arbitrary: body r)
  case (Cons c cs)
  from Cons.IH [OF faithful_call [OF Cons.prems, of c]] show ?case by (simp add: bodyOfCalls_def)
qed (simp add: bodyOfCalls_def)

lemma faithful_new: "faithful limit sink '''' (newRecorder limit sink)"
  by (simp add: faithful_def captured_def teed_def newRecorder_def)

lemma forward_faithful:
  assumes "forward captureLimit sink calls ctxDone p = (res, rec, p')"
  shows "faithful captureLimit sink (bodyOfCalls (calls (fst (pick p)))) rec" and "rsStatus res = rcStatus rec" and "rsBytes res = rcWritten rec"
    and "rsBody res = (if captureLimit > 0 then Some (rcBuf rec) else None)" and "rsTruncated res = rcTruncated rec"
    and "rsSinkErr res = rcSinkErr rec" and "rec = fold recCall (calls (fst (pick p))) (newRecorder captureLimit sink)"
proof -
  obtain b q where b: "pick p = (b, q)" by fastforce
  show rec: "rec = fold recCall (calls (fst (pick p))) (newRecorder captureLimit sink)"
    and "rsStatus res = rcStatus rec" "rsBytes res = rcWritten rec" "rsBody res = (if captureLimit > 0 then Some (rcBuf rec) else None)"
      "rsTruncated res = rcTruncated rec" "rsSinkErr res = rcSinkErr rec"
    using assms by (auto simp: forward_def b Let_def)
  show "faithful captureLimit sink (bodyOfCalls (calls (fst (pick p)))) rec"
    using faithful_calls [OF faithful_new, of captureLimit sink "calls b"] by (simp add: rec b)
qed

lemma captured_whole: "faithful limit sink body r \<Longrightarrow> limit > 0 \<Longrightarrow> \<not> rcTruncated r \<Longrightarrow> rcBuf r = body"
  by (auto simp: faithful_def captured_def)

text \<open>The status of an answer is that of the first status line; what comes later is dropped, also after an
  informational one.\<close>

fun answerStatus :: "proxyCall list \<Rightarrow> int" where
  "answerStatus [] = 0"
| "answerStatus (CallHeader st # cs) = (if st = 0 then answerStatus cs else st)"
| "answerStatus (CallWrite p n s # cs) = 200"
| "answerStatus (CallFlush # cs) = answerStatus cs"

lemma status_of_calls: "rcStatus (fold recCall cs r) = (if rcStatus r = 0 then answerStatus cs else rcStatus r)"
proof (induction cs arbitrary: r)
  case (Cons c cs)
  then show ?case by (cases c) (simp_all add: recWriteHeader_def recWrite_def recSend_def)
qed simp

section \<open>Properties\<close>

text \<open>C26. The recorder only observes: whatever the upstream sends and however much of each write the client
  takes, the client is sent exactly those bytes; with a capture limit the captured body is the
  beginning of them, cut at the limit, and a body that is not marked as truncated is the whole of
  them; and a comparison sink that has not failed has received all of them, one that has failed a
  beginning of them.\<close>

theorem recorder_only_observes:
  assumes "forward captureLimit sink calls ctxDone p = (res, rec, p')"
  shows "clientBody (rcClient rec) = bodyOfCalls (calls (fst (pick p))) \<and>
    rsBytes res = int (length (bodyOfCalls (calls (fst (pick p))))) \<and>
    (captureLimit > 0 \<longrightarrow> rsBody res = Some (take (nat captureLimit) (bodyOfCalls (calls (fst (pick p))))) \<and>
       (\<not> rsTruncated res \<longrightarrow> rsBody res = Some (bodyOfCalls (calls (fst (pick p)))))) \<and>
    (sink \<longrightarrow> prefix (rcSunk rec) (bodyOfCalls (calls (fst (pick p)))) \<and>
       (rsSinkErr res = None \<longrightarrow> rcSunk rec = bodyOfCalls (calls (fst (pick p)))))"
proof -
  note f = forward_faithful [OF assms]
  show ?thesis
    using f(1) captured_whole [OF f(1)] by (simp add: faithful_def captured_def teed_def f(3-6))
qed

definition twoWrites :: "backend \<Rightarrow> proxyCall list" where
  "twoWrites b = [CallHeader 200, CallWrite ''abc'' 3 None, CallFlush, CallWrite ''de'' 1 None]"

definition oneUpstream :: proxy where
  "oneUpstream = \<lparr>backends = [\<lparr>bname = ''s'', bhost = ''unix''\<rparr>], pnext = 0\<rparr>"

theorem recorder_only_observes_witness:
  "rsBody (fst (forward 2 True twoWrites False oneUpstream)) = Some ''ab'' \<and>
   clientBody (rcClient (fst (snd (forward 2 True twoWrites False oneUpstream)))) = ''abcd''"
proof -
  obtain res rec p' where f: "forward 2 True twoWrites False oneUpstream = (res, rec, p')" by (metis surj_pair)
  have "bodyOfCalls (twoWrites (fst (pick oneUpstream))) = ''abcd''" by (simp add: bodyOfCalls_def twoWrites_def)
  with recorder_only_observes [OF f] show ?thesis by (simp add: f)
qed

text \<open>Consecutive requests go to consecutive upstreams, until the counter wraps.\<close>

lemma pick_round_robin:
  assumes "length (backends p) > 1"
  shows "fst (pick p) = backends p ! (unat (pnext p) mod length (backends p)) \<and> backends (snd (pick p)) = backends p \<and>
    pnext (snd (pick p)) = pnext p + 1"
  using assms by (simp add: pick_def Let_def)

text \<open>The outbound request has the path and query of the inbound one, byte for byte.\<close>

lemma rewrite_keeps_uri:
  "uPath (oURL (rewrite inbound h out)) = uPath (oURL inbound)" "uRawPath (oURL (rewrite inbound h out)) = uRawPath (oURL inbound)"
  "uRawQuery (oURL (rewrite inbound h out)) = uRawQuery (oURL inbound)" "oHost (rewrite inbound h out) = oHost inbound"
  by (simp_all add: rewrite_def)

text \<open>An informational status that the reverse proxy passes on is taken for the answer's: the final status
  never reaches the client.\<close>

lemma informational_status_sticks:
  "rcStatus (fold recCall [CallHeader 103, CallHeader 404, CallWrite ''no'' 2 None] (newRecorder 0 False)) = 103 \<and>
   rcClient (fold recCall [CallHeader 103, CallHeader 404, CallWrite ''no'' 2 None] (newRecorder 0 False)) = [ClientHeader 103, ClientBytes ''no'']"
  by (simp add: newRecorder_def recWriteHeader_def recWrite_def recSend_def recTee_def recCapture_def)

end
