(* ===== verification/Canary.thy ===== *)
theory Canary
  imports Handler Runner Proxy
begin

text \<open>
  The comparisons around an answer: \<open>compareServed\<close> and \<open>compareStateServed\<close> of \<open>internal/fedapi/canary.go\<close>, which ask
  Synapse again after this worker has answered, and the part of \<open>handler.go\<close> that forwards a request and
  has the comparison started; with \<open>StateSink\<close> of \<open>internal/shadow/state.go\<close>.  Here the handler, the proxy and the
  runner meet.

  The reverse proxy is a parameter: the calls it makes on its response writer, whether it ends by
  panicking with \<open>http.ErrAbortHandler\<close>, as \<open>httputil\<close> does when copying a body fails, and whether the
  request's context has ended by then.  It may depend on the time allowed, on the upstream picked and
  on the request.  Parsing an \<open>X-Matrix\<close> header is mautrix's.
\<close>

section \<open>Requests\<close>

record inbound = httpRequest +
  ibMethod :: string
  ibAuth :: string
  ibForceQuery :: bool
  ibBody :: string
  ibLength :: int

text \<open>\<open>URL.RequestURI\<close>.\<close>

definition requestURI :: "inbound \<Rightarrow> string" where
  "requestURI r =
     (if escapedPath r = '''' then ''/'' else escapedPath r) @
     (if ibForceQuery r \<or> rawQuery r \<noteq> '''' then ''?'' @ rawQuery r else '''')"

definition restoreBody :: "string option \<Rightarrow> inbound \<Rightarrow> inbound" where
  "restoreBody body r = (case body of None \<Rightarrow> r | Some b \<Rightarrow> r\<lparr>ibBody := b, ibLength := int (length b)\<rparr>)"

text \<open>The clone that is sent to Synapse again.\<close>

definition replayOf :: "string \<Rightarrow> inbound \<Rightarrow> inbound" where
  "replayOf content r =
     (let replay = r\<lparr>ibBody := ''''\<rparr> in
      if length content > 0 then replay\<lparr>ibBody := content, ibLength := int (length content)\<rparr> else replay)"

definition originFromAuth :: "(string \<Rightarrow> string) \<Rightarrow> string \<Rightarrow> string" where
  "originFromAuth parseXMatrix header = (if hasPrefix header ''X-Matrix '' then parseXMatrix header else '''')"

definition shadowRequest :: "inbound \<Rightarrow> string \<Rightarrow> string \<Rightarrow> string \<Rightarrow> string \<Rightarrow> string \<Rightarrow> Request" where
  "shadowRequest r endpoint origin roomID eventID content =
     \<lparr>rqEndpoint = endpoint, rqOrigin = origin, rqRoomID = roomID, rqEventID = eventID, rqURI = requestURI r, rqMethod = ibMethod r,
      rqAuthHeader = ibAuth r, rqBody = content\<rparr>"

section \<open>The digesting sink\<close>

text \<open>What the goroutine of a sink has been given; it ends when its pipe is closed, and until then takes
  everything, so that writing to it never fails.\<close>

record stateSink =
  skRead :: string
  skClosed :: bool

definition NewStateSink :: stateSink where
  "NewStateSink = \<lparr>skRead = '''', skClosed = False\<rparr>"

definition sinkTakes :: "string \<Rightarrow> stateSink \<Rightarrow> stateSink" where
  "sinkTakes p s = s\<lparr>skRead := skRead s @ p\<rparr>"

definition sinkWait :: "(json \<Rightarrow> int) \<Rightarrow> (string \<Rightarrow> raw) \<Rightarrow> stateSink \<Rightarrow> (string, StateResult) result \<times> stateSink" where
  "sinkWait sha parse s = (DigestStateResponse sha (parse (skRead s)), s\<lparr>skClosed := True\<rparr>)"

section \<open>State\<close>

record upstreamRun =
  urCalls :: "proxyCall list"
  urAborts :: bool
  urDone :: bool

text \<open>\<open>ctUpstream\<close> takes the time allowed, if a timeout was set; \<open>ctPanics\<close> is whether comparing a request panics.\<close>

record canaryTools =
  ctTools :: runnerTools
  ctParseXMatrix :: "string \<Rightarrow> string"
  ctSha :: "json \<Rightarrow> int"
  ctUpstream :: "int option \<Rightarrow> inbound \<Rightarrow> backend \<Rightarrow> upstreamRun"
  ctPanics :: "Request \<Rightarrow> bool"

datatype task = RunTask Request ProxyResult | StateTask Request ProxyResult "(string, StateResult) result"

text \<open>The proxy, the runner if there is one, every sink ever made, the goroutines the runner has started, and
  the endpoints of comparisons that were only logged as panicked.\<close>

record canary =
  cnProxy :: proxy
  cnRunner :: "runner option"
  cnSinks :: "stateSink list"
  cnTasks :: "task list"
  cnPanicked :: "string list"

definition newCanary :: "proxy \<Rightarrow> runner option \<Rightarrow> canary" where
  "newCanary p rn = \<lparr>cnProxy = p, cnRunner = rn, cnSinks = [], cnTasks = [], cnPanicked = []\<rparr>"

definition addSink :: "stateSink \<Rightarrow> canary \<Rightarrow> canary" where
  "addSink s w = w\<lparr>cnSinks := cnSinks w @ [s]\<rparr>"

definition notePanic :: "string \<Rightarrow> canary \<Rightarrow> canary" where
  "notePanic endpoint w = w\<lparr>cnPanicked := cnPanicked w @ [endpoint]\<rparr>"

text \<open>A writer without a client takes every byte, and a sink's pipe never fails.\<close>

definition discarding :: "proxyCall list \<Rightarrow> proxyCall list" where
  "discarding cs = map (\<lambda>c. case c of CallWrite q _ _ \<Rightarrow> CallWrite q (length q) None | c \<Rightarrow> c) cs"

definition piped :: "proxyCall list \<Rightarrow> proxyCall list" where
  "piped cs = map (\<lambda>c. case c of CallWrite q n _ \<Rightarrow> CallWrite q n None | c \<Rightarrow> c) cs"

section \<open>Checking a served answer\<close>

definition capturedBody :: "Result \<Rightarrow> string" where
  "capturedBody res = (case rsBody res of None \<Rightarrow> '''' | Some b \<Rightarrow> b)"

definition compareServed :: "canaryTools \<Rightarrow> int \<Rightarrow> int \<Rightarrow> inbound \<Rightarrow> string \<Rightarrow> string \<Rightarrow> string \<Rightarrow> string \<Rightarrow> nativeAnswer
    \<Rightarrow> canary \<Rightarrow> canary" where
  "compareServed ct captureLimit verifyTimeout r endpoint roomID eventID content a w =
     (case cnRunner w of
        None \<Rightarrow> w
      | Some rn \<Rightarrow>
          let replay = replayOf content r; up = ctUpstream ct (Some verifyTimeout) replay; b = fst (pick (cnProxy w));
              (res, rec, p) = Fetch captureLimit (\<lambda>b. urCalls (up b)) (urDone (up b)) (cnProxy w);
              w = w\<lparr>cnProxy := p\<rparr> in
          if urAborts (up b) then notePanic endpoint w
          else
            let req = shadowRequest r endpoint (originFromAuth (ctParseXMatrix ct) (ibAuth r)) roomID eventID content in
            w\<lparr>cnRunner := Some (Runner.CompareServed (ctTools ct) (ctPanics ct req) req
              \<lparr>prStatus = rsStatus res, prBody = capturedBody res, prTruncated = rsTruncated res\<rparr>
              (aBody a) (aStatus a) (aTruncated a) rn)\<rparr>)"

definition replayBudget :: int where
  "replayBudget = 180 * 10 ^ 9"

text \<open>What \<open>sink.Wait\<close> returned, unless writing to the sink failed.\<close>

definition sinkOutcome :: "Result \<Rightarrow> (string, StateResult) result \<Rightarrow> (string, StateResult) result" where
  "sinkOutcome res upstream = (case rsSinkErr res of None \<Rightarrow> upstream | Some e \<Rightarrow> Inl e)"

definition compareStateServed :: "canaryTools \<Rightarrow> int \<Rightarrow> inbound \<Rightarrow> string \<Rightarrow> string \<Rightarrow> string \<Rightarrow> StateResult \<Rightarrow> canary \<Rightarrow> canary" where
  "compareStateServed ct verifyTimeout r endpoint roomID eventID ours w =
     (case cnRunner w of
        None \<Rightarrow> w
      | Some rn \<Rightarrow>
          let budget = (if verifyTimeout > replayBudget then verifyTimeout else replayBudget);
              replay = r\<lparr>ibBody := ''''\<rparr>; up = ctUpstream ct (Some budget) replay; b = fst (pick (cnProxy w));
              (res, rec, p) = Proxy.ForwardStreaming (\<lambda>b. discarding (urCalls (up b))) (urDone (up b)) (cnProxy w);
              sink = sinkTakes (rcSunk rec) NewStateSink;
              w = w\<lparr>cnProxy := p\<rparr> in
          if urAborts (up b) then notePanic endpoint (addSink sink w)
          else
            let (upstream, sink) = sinkWait (ctSha ct) (tParse (ctTools ct)) sink;
                req = shadowRequest r endpoint (originFromAuth (ctParseXMatrix ct) (ibAuth r)) roomID eventID '''' in
            (addSink sink w)\<lparr>cnRunner := Some (Runner.CompareStateServed (ctTools ct) (ctPanics ct req) req
              \<lparr>prStatus = rsStatus res, prBody = '''', prTruncated = False\<rparr> (sinkOutcome res upstream) ours rn)\<rparr>)"

text \<open>The jobs of an exchange that follow a served answer.\<close>

definition checkServed :: "canaryTools \<Rightarrow> int \<Rightarrow> int \<Rightarrow> inbound \<Rightarrow> Route \<Rightarrow> string \<Rightarrow> job \<Rightarrow> canary \<Rightarrow> canary" where
  "checkServed ct captureLimit verifyTimeout r route content j w =
     (let endpoint = endpointName (routeEndpoint route); roomID = roomIDFor route; eventID = eventIDFor route (rawQuery r) in
      case j of
        job.CompareServed a \<Rightarrow> compareServed ct captureLimit verifyTimeout r endpoint roomID eventID content a w
      | job.CompareStateServed ours \<Rightarrow> compareStateServed ct verifyTimeout r endpoint roomID eventID ours w
      | _ \<Rightarrow> w)"

section \<open>Forwarding under comparison\<close>

text \<open>\<open>Go\<close> and \<open>GoState\<close>: a slot is taken and a goroutine started, or the comparison is dropped.\<close>

definition startTask :: "Request \<Rightarrow> task \<Rightarrow> canary \<Rightarrow> canary" where
  "startTask req tk w =
     (case cnRunner w of
        None \<Rightarrow> w
      | Some rn \<Rightarrow>
          (case schedule req rn of
             (True, rn) \<Rightarrow> w\<lparr>cnRunner := Some rn, cnTasks := cnTasks w @ [tk]\<rparr>
           | (False, rn) \<Rightarrow> w\<lparr>cnRunner := Some rn\<rparr>))"

text \<open>From the choice of what to record to the start of the comparison.  Without a result the reverse
  proxy has panicked and the connection is cut.\<close>

definition shadowed :: "Mode \<Rightarrow> canary \<Rightarrow> bool" where
  "shadowed mode w \<longleftrightarrow> (Kind mode = ModeShadow \<or> Kind mode = ModeCanary) \<and> cnRunner w \<noteq> None"

definition forwardShadowed :: "canaryTools \<Rightarrow> int \<Rightarrow> Mode \<Rightarrow> inbound \<Rightarrow> Route \<Rightarrow> string option \<Rightarrow> canary \<Rightarrow> Result option \<times> canary" where
  "forwardShadowed ct captureLimit mode r route content w =
     (let e = routeEndpoint route; shadowing = shadowed mode w; streaming = (shadowing \<and> e = EndpointState);
          capture = (if shadowing \<and> \<not> streaming then captureLimit else 0);
          r = restoreBody content r; up = ctUpstream ct None r; b = fst (pick (cnProxy w));
          (res, rec, p) =
            (if streaming then Proxy.ForwardStreaming (\<lambda>b. piped (urCalls (up b))) (urDone (up b)) (cnProxy w)
             else Proxy.Forward capture (\<lambda>b. urCalls (up b)) (urDone (up b)) (cnProxy w));
          sink = sinkTakes (rcSunk rec) NewStateSink;
          w = w\<lparr>cnProxy := p\<rparr> in
      if urAborts (up b) then (None, if streaming then addSink sink w else w)
      else
        let (upstream, sink) = sinkWait (ctSha ct) (tParse (ctTools ct)) sink;
            w = (if streaming then addSink sink w else w);
            req = shadowRequest r (endpointName e) (originFromAuth (ctParseXMatrix ct) (ibAuth r)) (roomIDFor route)
              (eventIDFor route (rawQuery r)) (case content of None \<Rightarrow> '''' | Some body \<Rightarrow> body) in
        (Some res,
         if shadowing \<and> \<not> rsCanceled res \<and> \<not> rsErr res then
           startTask req
             (if streaming then StateTask req \<lparr>prStatus = rsStatus res, prBody = '''', prTruncated = False\<rparr> (sinkOutcome res upstream)
              else RunTask req \<lparr>prStatus = rsStatus res, prBody = capturedBody res, prTruncated = rsTruncated res\<rparr>) w
         else w))"

section \<open>A request and its comparison\<close>

definition handlerResult :: "Result \<Rightarrow> proxyResult" where
  "handlerResult res = \<lparr>pStatus = rsStatus res, pCanceled = rsCanceled res, pErr = rsErr res\<rparr>"

text \<open>The body that was read for endpoints that have one.\<close>

definition readBody :: "inbound \<Rightarrow> Route \<Rightarrow> string option" where
  "readBody q route = (if HasRequestBody (routeEndpoint route) then bodyRead q else None)"

text \<open>A routed request through the handler, with the forward it may end in and the comparisons it starts.
  The outcome of the forward is what the handler sees of the upstream.\<close>

definition serveCompared :: "canaryTools \<Rightarrow> handler \<Rightarrow> env \<Rightarrow> int \<Rightarrow> inbound \<Rightarrow> Route \<Rightarrow> resolver \<Rightarrow> canary
    \<Rightarrow> exchange \<times> canary \<times> handler \<times> resolver" where
  "serveCompared ct h env verifyTimeout q route s w =
     (let content = readBody q route;
          (res, wf) = forwardShadowed ct (hCaptureLimit h) (modeFor (hModes h) (routeEndpoint route)) q route content w;
          env = (case res of None \<Rightarrow> env | Some res \<Rightarrow> env\<lparr>eUpstream := handlerResult res\<rparr>);
          (x, h', s') = ServeHTTP h env (httpRequest.truncate q) s in
      (x, if xforward x \<noteq> None then wf
          else fold (checkServed ct (hCaptureLimit h) verifyTimeout q route (case content of None \<Rightarrow> '''' | Some b \<Rightarrow> b)) (xjobs x) w,
       h', s'))"

section \<open>Lemmas\<close>

text \<open>Everything the upstream sent, whoever took it.\<close>

definition wholeBody :: "proxyCall list \<Rightarrow> string" where
  "wholeBody cs = concat (map (\<lambda>c. case c of CallWrite q _ _ \<Rightarrow> q | _ \<Rightarrow> '''') cs)"

lemma discarding_sends [simp]:
  "bodyOfCalls (discarding cs) = wholeBody cs" "answerStatus (discarding cs) = answerStatus cs" "answerStatus (piped cs) = answerStatus cs"
  "bodyOfCalls (piped cs) = bodyOfCalls cs"
proof -
  show "bodyOfCalls (discarding cs) = wholeBody cs" "bodyOfCalls (piped cs) = bodyOfCalls cs"
    unfolding bodyOfCalls_def discarding_def wholeBody_def piped_def by (induction cs) (auto split: proxyCall.split)
  show "answerStatus (discarding cs) = answerStatus cs" "answerStatus (piped cs) = answerStatus cs"
    unfolding discarding_def piped_def by (induction cs rule: answerStatus.induct) simp_all
qed

lemma fetched_sends:
  "bodyOfCalls (map (\<lambda>c. case c of CallWrite q _ s \<Rightarrow> CallWrite q (length q) s | c \<Rightarrow> c) cs) = wholeBody cs"
  "answerStatus (map (\<lambda>c. case c of CallWrite q _ s \<Rightarrow> CallWrite q (length q) s | c \<Rightarrow> c) cs) = answerStatus cs"
proof -
  show "bodyOfCalls (map (\<lambda>c. case c of CallWrite q _ s \<Rightarrow> CallWrite q (length q) s | c \<Rightarrow> c) cs) = wholeBody cs"
    unfolding bodyOfCalls_def wholeBody_def by (induction cs) (auto split: proxyCall.split)
  show "answerStatus (map (\<lambda>c. case c of CallWrite q _ s \<Rightarrow> CallWrite q (length q) s | c \<Rightarrow> c) cs) = answerStatus cs"
    by (induction cs rule: answerStatus.induct) simp_all
qed

lemma forward_status: "forward captureLimit sink calls ctxDone p = (res, rec, p') \<Longrightarrow> rsStatus res = answerStatus (calls (fst (pick p)))"
  using forward_faithful(2,7) [of captureLimit sink calls ctxDone p res rec p'] by (simp add: status_of_calls newRecorder_def)

text \<open>A fetched answer has the status the upstream sent, and the whole of its body unless it says otherwise.\<close>

lemma Fetch_whole:
  assumes "Fetch captureLimit calls ctxDone p = (res, rec, p')"
  shows "rsStatus res = answerStatus (calls (fst (pick p)))"
    and "\<not> rsTruncated res \<Longrightarrow> capturedBody res = wholeBody (calls (fst (pick p)))"
proof -
  note f = assms [unfolded Fetch_def Proxy.Forward_def]
  show "rsStatus res = answerStatus (calls (fst (pick p)))" using forward_status [OF f] by (simp only: fetched_sends)
  show "capturedBody res = wholeBody (calls (fst (pick p)))" if "\<not> rsTruncated res"
    using captured_whole [OF forward_faithful(1) [OF f]] forward_faithful(4,5) [OF f] that by (simp add: capturedBody_def fetched_sends)
qed

text \<open>A sink that reads from a pipe gets everything that is sent.\<close>

lemma piped_sink:
  assumes "Proxy.ForwardStreaming calls ctxDone p = (res, rec, p')" and "\<forall>c \<in> set (calls (fst (pick p))). \<forall>q n e. c \<noteq> CallWrite q n (Some e)"
  shows "rsStatus res = answerStatus (calls (fst (pick p)))" and "rcSunk rec = bodyOfCalls (calls (fst (pick p)))" and "rsSinkErr res = None"
proof -
  note f = assms(1) [unfolded Proxy.ForwardStreaming_def]
  show "rsStatus res = answerStatus (calls (fst (pick p)))" by (rule forward_status [OF f])
  have "rcSinkErr (fold recCall cs r) = rcSinkErr r" if "\<forall>c \<in> set cs. \<forall>q n e. c \<noteq> CallWrite q n (Some e)" for cs r
    using that
  proof (induction cs arbitrary: r)
    case (Cons c cs)
    then show ?case by (cases c) (auto simp: recWriteHeader_def recWrite_def recTee_def recSend_def split: option.split)
  qed simp
  with assms(2) show "rsSinkErr res = None" by (simp add: forward_faithful(6,7) [OF f] newRecorder_def)
  with forward_faithful(1,6) [OF f] show "rcSunk rec = bodyOfCalls (calls (fst (pick p)))" by (simp add: faithful_def teed_def)
qed

lemma never_fails: "\<forall>c \<in> set (discarding cs). \<forall>q n e. c \<noteq> CallWrite q n (Some e)" "\<forall>c \<in> set (piped cs). \<forall>q n e. c \<noteq> CallWrite q n (Some e)"
  by (auto simp: discarding_def piped_def split: proxyCall.splits)

text \<open>When a check of a served answer counts as a match.\<close>

lemma CompareServed_match:
  assumes "rResults (Runner.CompareServed t panics req proxy nb ns tr rn) = rResults rn @ [(rqEndpoint req, ''match'')]"
  shows "prStatus proxy = ns \<and> (ns \<noteq> 200 \<or> \<not> prTruncated proxy \<and> answersAgree (rqEndpoint req) (tParse t (prBody proxy)) (nativeRaw nb))"
proof -
  have "rResults (finish t req proxy nb ns tr (canaryCount req r)) = rResults (canaryCount req r) @ [(rqEndpoint req, ''match'')]"
    if "rResults rn = rResults r" "rResults (finish t req proxy nb ns tr (canaryCount req r)) = rResults rn @ [(rqEndpoint req, ''match'')]" for r
    using that by (simp add: canaryCount_def)
  with assms show ?thesis
    unfolding match_means_agreement [symmetric, where t = t and req = req and proxy = proxy and nativeBody = nb and nativeStatus = ns
        and walkTruncated = tr and r = "canaryCount req (rn\<lparr>rBusy := rBusy rn + 1\<rparr>)"]
    by (auto simp: Runner.CompareServed_def acquireForVerification_def guardedRun_def Let_def split: if_splits)
qed

lemma CompareStateServed_match:
  assumes "rResults (Runner.CompareStateServed t panics req proxy upstream ours rn) = rResults rn @ [(rqEndpoint req, ''match'')]"
  shows "prStatus proxy = 200 \<and> (\<exists>up. upstream = Inr up \<and> Agrees ours up)"
  using assms
  by (auto simp: Runner.CompareStateServed_def acquireForVerification_def guardedRun_def Let_def stateMismatch_def blankRecord_def diagnose_def
      canaryCount_def kindText_def split: if_splits sum.splits)

text \<open>What a natively answered exchange that is checked has sent.\<close>

lemma serveNative_sends:
  assumes "serveNative h env e roomID eventID body s = (Completed res effs, s')" and "Served res"
  shows "\<not> Streams e \<Longrightarrow> \<exists>a. ServedAnswer res = Some a \<and> effs = [jsonType, WriteHeader (aStatus a), WriteJSON (aBody a)]"
    and "Streams e \<Longrightarrow> ServedState res = Some ours \<Longrightarrow> \<exists>toks. effs = streamEffects toks"
  using assms
  by (auto simp: serveNative_def serveStreamed_def declined_def servedAs_def
      split: option.splits prod.splits sum.splits completion.splits if_splits resolverError.splits)

lemma forward_keeps [simp]:
  "xnative (forwardUpstream h env mode e sl) = False" "xforward (local_answer l effs) = None" "xnative (local_answer l effs) = False"
  by (simp_all add: forwardUpstream_def local_answer_def Let_def)

lemma serveRoute_jobs:
  assumes "xnative (fst (serveRoute h env q route body s))" and "j \<in> set (xjobs (fst (serveRoute h env q route body s)))"
  shows "Kind (modeFor (hModes h) (routeEndpoint route)) = ModeCanary \<and> xjobs (fst (serveRoute h env q route body s)) = [j] \<and>
    xforward (fst (serveRoute h env q route body s)) = None \<and>
    ((\<exists>a. j = job.CompareServed a \<and>
        xeffects (fst (serveRoute h env q route body s)) = [jsonType, WriteHeader (aStatus a), WriteJSON (aBody a)]) \<or>
     (\<exists>ours toks. j = job.CompareStateServed ours \<and> xeffects (fst (serveRoute h env q route body s)) = streamEffects toks))"
proof -
  let ?x = "fst (serveRoute h env q route body s)" and ?e = "routeEndpoint route"
  obtain res effs s' where n: "serveNative h env ?e (roomIDFor route) (eventIDFor route (rawQuery q)) body s = (Completed res effs, s')"
    and served: "Served res" and x: "xeffects ?x = effs" "xforward ?x = None" "xjobs ?x = canaryJobs h (modeFor (hModes h) ?e) ?e res"
    using assms by (auto simp: serveRoute_def Let_def split: if_splits acquired.splits prod.splits completion.splits)
  show ?thesis
  proof (cases "Streams ?e")
    case True
    with assms(2) x(3) obtain ours where "ServedState res = Some ours" "j = job.CompareStateServed ours"
      by (auto simp: canaryJobs_def split: if_splits option.splits)
    moreover from serveNative_sends(2) [OF n served True this(1)] obtain toks where "effs = streamEffects toks" by blast
    ultimately show ?thesis using True x assms(2) by (auto simp: canaryJobs_def split: if_splits)
  next
    case False
    with serveNative_sends(1) [OF n served] obtain a where "ServedAnswer res = Some a" "effs = [jsonType, WriteHeader (aStatus a), WriteJSON (aBody a)]"
      by blast
    then show ?thesis using False x assms(2) by (auto simp: canaryJobs_def split: if_splits)
  qed
qed

lemma ServeHTTP_native:
  assumes "xnative (fst (ServeHTTP h env q s))" and "Match (escapedPath q) = Some route"
  shows "ServeHTTP h env q s = serveRoute h env q route (if HasRequestBody (routeEndpoint route) then the (bodyRead q) else '''') s"
  using assms by (auto simp: ServeHTTP_def split: if_splits option.splits)

section \<open>Properties\<close>

lemma replay_same [simp]:
  "ibBody (replayOf content q) = content" "ibMethod (replayOf content q) = ibMethod q" "ibAuth (replayOf content q) = ibAuth q"
  "requestURI (replayOf content q) = requestURI q"
  by (simp_all add: replayOf_def requestURI_def Let_def)

lemma compareServed_agrees:
  assumes "cnRunner w = Some rn" and "cnRunner (compareServed ct captureLimit verifyTimeout q endpoint roomID eventID content a w) = Some rn'"
    and "rResults rn' = rResults rn @ [(endpoint, ''match'')]"
  defines "up \<equiv> ctUpstream ct (Some verifyTimeout) (replayOf content q) (fst (pick (cnProxy w)))"
  shows "\<not> urAborts up \<and> answerStatus (urCalls up) = aStatus a \<and>
    (aStatus a = 200 \<longrightarrow> answersAgree endpoint (tParse (ctTools ct) (wholeBody (urCalls up))) (nativeRaw (aBody a)))"
proof -
  let ?calls = "\<lambda>b. urCalls (ctUpstream ct (Some verifyTimeout) (replayOf content q) b)"
  obtain res rec p' where f: "Fetch captureLimit ?calls (urDone up) (cnProxy w) = (res, rec, p')" by (metis prod_cases3)
  note whole = Fetch_whole [OF f, folded up_def]
  let ?req = "shadowRequest q endpoint (originFromAuth (ctParseXMatrix ct) (ibAuth q)) roomID eventID content"
  let ?proxy = "\<lparr>prStatus = rsStatus res, prBody = capturedBody res, prTruncated = rsTruncated res\<rparr>"
  have ep: "rqEndpoint ?req = endpoint" by (simp add: shadowRequest_def)
  have na: "\<not> urAborts up" and
    rn': "rn' = Runner.CompareServed (ctTools ct) (ctPanics ct ?req) ?req ?proxy (aBody a) (aStatus a) (aTruncated a) rn"
    using assms(1-3) f by (auto simp: compareServed_def Let_def up_def notePanic_def split: if_splits)
  have "rResults rn' = rResults rn @ [(rqEndpoint ?req, ''match'')]" by (simp only: ep assms(3))
  from CompareServed_match [OF this [unfolded rn']] na whole show ?thesis by (auto simp: ep)
qed

lemma compareStateServed_agrees:
  assumes "cnRunner w = Some rn" and "cnRunner (compareStateServed ct verifyTimeout q endpoint roomID eventID ours w) = Some rn'"
    and "rResults rn' = rResults rn @ [(endpoint, ''match'')]"
  defines "up \<equiv> ctUpstream ct (Some (max replayBudget verifyTimeout)) (q\<lparr>ibBody := ''''\<rparr>) (fst (pick (cnProxy w)))"
  shows "\<not> urAborts up \<and> answerStatus (urCalls up) = 200 \<and>
    (\<exists>theirs. DigestStateResponse (ctSha ct) (tParse (ctTools ct) (wholeBody (urCalls up))) = Inr theirs \<and> Agrees ours theirs)"
proof -
  let ?calls = "\<lambda>b. discarding (urCalls (ctUpstream ct (Some (max replayBudget verifyTimeout)) (q\<lparr>ibBody := ''''\<rparr>) b))"
  obtain res rec p' where f: "Proxy.ForwardStreaming ?calls (urDone up) (cnProxy w) = (res, rec, p')" by (metis prod_cases3)
  note sunk = piped_sink [OF f never_fails(1), folded up_def, simplified]
  let ?req = "shadowRequest q endpoint (originFromAuth (ctParseXMatrix ct) (ibAuth q)) roomID eventID ''''"
  let ?up = "DigestStateResponse (ctSha ct) (tParse (ctTools ct) (wholeBody (urCalls up)))"
  have ep: "rqEndpoint ?req = endpoint" by (simp add: shadowRequest_def)
  have b: "(if verifyTimeout > replayBudget then verifyTimeout else replayBudget) = max replayBudget verifyTimeout" by simp
  have na: "\<not> urAborts up" and
    rn': "rn' = Runner.CompareStateServed (ctTools ct) (ctPanics ct ?req) ?req \<lparr>prStatus = rsStatus res, prBody = '''', prTruncated = False\<rparr> ?up ours rn"
    using assms(1-3) f sunk
    by (auto simp: compareStateServed_def b Let_def up_def [symmetric] notePanic_def addSink_def sinkWait_def sinkTakes_def NewStateSink_def sinkOutcome_def
        split: if_splits)
  have "rResults rn' = rResults rn @ [(rqEndpoint ?req, ''match'')]" by (simp only: ep assms(3))
  from CompareStateServed_match [OF this [unfolded rn']] na sunk show ?thesis by auto
qed

lemma serveRoute_native_stays: "xnative (fst (serveRoute h env q route body s)) \<Longrightarrow> xforward (fst (serveRoute h env q route body s)) = None"
  by (auto simp: serveRoute_def Let_def split: if_splits acquired.splits prod.splits completion.splits)

lemma serveCompared_native:
  assumes "serveCompared ct h env verifyTimeout q route s w = (x, w', h', s')" and "Match (escapedPath q) = Some route" and "xnative x"
  obtains env' body where "x = fst (serveRoute h env' (httpRequest.truncate q) route body s)"
    and "w' = fold (checkServed ct (hCaptureLimit h) verifyTimeout q route (case readBody q route of None \<Rightarrow> '''' | Some b \<Rightarrow> b)) (xjobs x) w"
proof -
  obtain res wf where f: "forwardShadowed ct (hCaptureLimit h) (modeFor (hModes h) (routeEndpoint route)) q route (readBody q route) w = (res, wf)"
    by fastforce
  let ?env = "case res of None \<Rightarrow> env | Some res \<Rightarrow> env\<lparr>eUpstream := handlerResult res\<rparr>"
  have h: "ServeHTTP h ?env (httpRequest.truncate q) s = (x, h', s')" and
    w': "w' = (if xforward x \<noteq> None then wf
      else fold (checkServed ct (hCaptureLimit h) verifyTimeout q route (case readBody q route of None \<Rightarrow> '''' | Some b \<Rightarrow> b)) (xjobs x) w)"
    using assms(1) by (auto simp: serveCompared_def Let_def f split: prod.splits)
  have m: "Match (escapedPath (httpRequest.truncate q)) = Some route" using assms(2) by (simp add: httpRequest.truncate_def)
  from ServeHTTP_native [OF _ m] assms(3) h obtain body where x: "x = fst (serveRoute h ?env (httpRequest.truncate q) route body s)"
    by (metis fst_conv)
  from serveRoute_native_stays [of h ?env "httpRequest.truncate q" route body s] assms(3) x have "xforward x = None" by simp
  with w' x that show thesis by simp
qed


subsection \<open>Witness\<close>

definition canaryHandler :: handler where
  "canaryHandler = (nativeHandler nativeEvents)\<lparr>hModes := [(''event'', \<lparr>Kind = ''canary'', CanaryPercent = 100\<rparr>)], hShadow := True, hCaptureLimit := 9\<rparr>"

definition eventInbound :: inbound where
  "eventInbound = httpRequest.extend eventRequest \<lparr>ibMethod = ''GET'', ibAuth = '''', ibForceQuery = False, ibBody = '''', ibLength = 0\<rparr>"

text \<open>An upstream that sends one document, and tools that read it as \<open>j\<close>.\<close>

definition echoing :: "json \<Rightarrow> canaryTools" where
  "echoing j = \<lparr>ctTools = missingTools\<lparr>tParse := \<lambda>b. Doc j\<rparr>, ctParseXMatrix = \<lambda>s. s, ctSha = \<lambda>_. 1,
     ctUpstream = \<lambda>budget q b. \<lparr>urCalls = [CallHeader 200, CallWrite ''doc'' 3 None], urAborts = False, urDone = False\<rparr>, ctPanics = \<lambda>_. False\<rparr>"

abbreviation idleCanary :: canary where
  "idleCanary \<equiv> newCanary oneUpstream (Some (NewRunner None 1))"

abbreviation eventRoute :: Route where
  "eventRoute \<equiv> \<lparr>routeEndpoint = EndpointEvent, Param = ''%24msg''\<rparr>"

lemma canary_event_answered:
  obtains j s' where "decodeTransaction (Doc j) \<noteq> None" and
    "\<And>env. ServeHTTP canaryHandler ((verifiedEnv (\<lambda>_. None))\<lparr>eUpstream := env\<rparr>) eventRequest freshResolver =
      ((local_answer ''native'' [jsonType, WriteHeader 200, WriteJSON (Some j)])
         \<lparr>xslot := Released, xjobs := [job.CompareServed (answered (Some j) 200 False)], xnative := True\<rparr>, canaryHandler, s')"
proof -
  have "fst (resolveEvent refLib (visDb ''join'') 9 ''srv'' ''me'' ''$msg'' freshResolver) =
      eventAnswer refLib (visDb ''join'') 9 ''srv'' ''me'' ''$msg''"
    by (rule meets_result [OF resolveEvent_meets [OF visDb_ok], where P1 = "\<lambda>_. True"])
      (simp_all add: containsAny_def freshResolver_honest)
  then obtain s' where ev: "resolveEvent refLib (visDb ''join'') 9 ''srv'' ''me'' ''$msg'' freshResolver =
      (Inr \<lparr>Origin = ''me'', OriginServerTS = 9, PDUs = [visMsg [(''body'', JStr ''secret'')]]\<rparr>, s')"
    unfolding visDb_answer by (cases "resolveEvent refLib (visDb ''join'') 9 ''srv'' ''me'' ''$msg'' freshResolver") simp
  obtain j where j: "marshalTransaction \<lparr>Origin = ''me'', OriginServerTS = 9, PDUs = [visMsg [(''body'', JStr ''secret'')]]\<rparr> = Some j"
    by (simp add: marshalTransaction_def visJson_def)
  have http: "ServeHTTP canaryHandler env eventRequest freshResolver = serveRoute canaryHandler env eventRequest eventRoute '''' freshResolver" for env
    unfolding ServeHTTP_def eventRequest_route by (simp add: HasRequestBody_def eventRequest_def)
  show thesis
  proof (rule that)
    show "decodeTransaction (Doc j) \<noteq> None" by (rule decode_marshal_transaction [OF _ _ j]) simp_all
    show "ServeHTTP canaryHandler ((verifiedEnv (\<lambda>_. None))\<lparr>eUpstream := env\<rparr>) eventRequest freshResolver =
      ((local_answer ''native'' [jsonType, WriteHeader 200, WriteJSON (Some j)])
         \<lparr>xslot := Released, xjobs := [job.CompareServed (answered (Some j) 200 False)], xnative := True\<rparr>, canaryHandler, s')" for env
      unfolding http using ev j
      by (simp add: serveRoute_def serveNative_def Streams_def answer_def Answer_def dbResolver_def verifiedEnv_def canaryHandler_def
          nativeHandler_def nativeEvents_def eventIDFor_def eventRequest_id answered_def servedAs_def canaryJobs_def modeFor_def sampled_def mode_names)
  qed
qed


section \<open>Digesters\<close>

text \<open>The goroutines of sinks that have not ended: nothing closes their pipes any more.\<close>

definition digesting :: "canary \<Rightarrow> nat" where
  "digesting w = length (filter (\<lambda>s. \<not> skClosed s) (cnSinks w))"

text \<open>The histories of forwards and checks, with the number of streamed ones the reverse proxy has aborted.
  The runner's own steps, and the goroutines it starts, touch no sink.\<close>

inductive canaryHistory :: "canaryTools \<Rightarrow> nat \<Rightarrow> canary \<Rightarrow> bool" for ct where
  started: "canaryHistory ct 0 (newCanary p rn)"
| proxied: "canaryHistory ct n w \<Longrightarrow> forwardShadowed ct captureLimit mode r route content w = (res, w') \<Longrightarrow>
    canaryHistory ct (if res = None \<and> shadowed mode w \<and> routeEndpoint route = EndpointState then n + 1 else n) w'"
| served: "canaryHistory ct n w \<Longrightarrow> canaryHistory ct n (compareServed ct captureLimit verifyTimeout r endpoint roomID eventID content a w)"
| served_state: "canaryHistory ct n w \<Longrightarrow>
    canaryHistory ct (if cnRunner w \<noteq> None \<and> urAborts (ctUpstream ct (Some (max replayBudget verifyTimeout)) (r\<lparr>ibBody := ''''\<rparr>) (fst (pick (cnProxy w))))
      then n + 1 else n) (compareStateServed ct verifyTimeout r endpoint roomID eventID ours w)"
| compared: "canaryHistory ct n w \<Longrightarrow> canaryHistory ct n (w\<lparr>cnRunner := rn, cnTasks := ts\<rparr>)"

lemma digesting_sel [simp]:
  "digesting (newCanary p rn) = 0" "digesting (addSink s w) = (if skClosed s then digesting w else digesting w + 1)"
  "digesting (w\<lparr>cnProxy := p\<rparr>) = digesting w" "digesting (w\<lparr>cnRunner := r\<rparr>) = digesting w" "digesting (w\<lparr>cnTasks := ts\<rparr>) = digesting w"
  "digesting (notePanic endpoint w) = digesting w" "digesting (startTask req tk w) = digesting w"
  by (simp_all add: digesting_def newCanary_def addSink_def notePanic_def startTask_def split: option.split prod.split bool.split)

lemma sink_states [simp]:
  "skClosed (sinkTakes p NewStateSink) = False" "skClosed (snd (sinkWait sha parse s)) = True" "cnRunner (addSink s w) = cnRunner w"
  by (simp_all add: sinkTakes_def NewStateSink_def sinkWait_def addSink_def)

lemma wait_closes: "sinkWait sha parse s = (u, s') \<Longrightarrow> skClosed s'"
  by (auto simp: sinkWait_def)

lemma forwardShadowed_digests:
  assumes "forwardShadowed ct captureLimit mode r route content w = (res, w')"
  shows "digesting w' = (if res = None \<and> shadowed mode w \<and> routeEndpoint route = EndpointState then digesting w + 1 else digesting w)"
  using assms by (auto simp: forwardShadowed_def Let_def dest: wait_closes split: prod.splits if_splits)

lemma compareServed_digests: "digesting (compareServed ct captureLimit verifyTimeout r endpoint roomID eventID content a w) = digesting w"
  by (simp add: compareServed_def Let_def split: option.split prod.split)

lemma compareStateServed_digests:
  "digesting (compareStateServed ct verifyTimeout r endpoint roomID eventID ours w) =
     (if cnRunner w \<noteq> None \<and> urAborts (ctUpstream ct (Some (max replayBudget verifyTimeout)) (r\<lparr>ibBody := ''''\<rparr>) (fst (pick (cnProxy w))))
      then digesting w + 1 else digesting w)"
proof -
  have b: "(if verifyTimeout > replayBudget then verifyTimeout else replayBudget) = max replayBudget verifyTimeout" by simp
  show ?thesis by (auto simp: compareStateServed_def b Let_def sinkWait_def split: option.split prod.split)
qed

section \<open>Aborted streams\<close>

text \<open>C28. An aborted stream leaves its digester behind: over every history of forwards and checks, the goroutines
  that still wait to read from a sink's pipe are exactly one for each streamed forward or replay that the
  reverse proxy aborted, because the client went away while it was sent, or the upstream or the time
  allowed ended in the middle.  A stream that was not aborted leaves none, whatever else happened to its
  comparison.\<close>

theorem aborted_streams_leave_digesters:
  assumes "canaryHistory ct aborted w"
  shows "digesting w = aborted"
  using assms
proof (induction rule: canaryHistory.induct)
  case (proxied n w captureLimit mode r route content res w')
  with forwardShadowed_digests [OF proxied.hyps(2)] show ?case by auto
qed (simp_all add: compareServed_digests compareStateServed_digests)

definition hangingUp :: canaryTools where
  "hangingUp = (echoing (JStr ''''))\<lparr>ctUpstream :=
     \<lambda>budget q b. \<lparr>urCalls = [CallHeader 200, CallWrite ''{'' 0 None], urAborts = True, urDone = True\<rparr>\<rparr>"

theorem aborted_streams_leave_digesters_witness:
  "digesting (snd (forwardShadowed hangingUp 9 \<lparr>Kind = ''shadow'', CanaryPercent = 0\<rparr> eventInbound
     \<lparr>routeEndpoint = EndpointState, Param = ''r''\<rparr> None idleCanary)) = 1"
proof -
  let ?f = "forwardShadowed hangingUp 9 \<lparr>Kind = ''shadow'', CanaryPercent = 0\<rparr> eventInbound \<lparr>routeEndpoint = EndpointState, Param = ''r''\<rparr> None idleCanary"
  have f: "?f = (None, snd ?f)"
    by (simp add: forwardShadowed_def shadowed_def mode_names newCanary_def hangingUp_def Let_def split: prod.split)
  have "shadowed \<lparr>Kind = ''shadow'', CanaryPercent = 0\<rparr> idleCanary" by (simp add: shadowed_def mode_names newCanary_def)
  with canaryHistory.proxied [OF canaryHistory.started f] have "canaryHistory hangingUp 1 (snd ?f)" by simp
  from aborted_streams_leave_digesters [OF this] show ?thesis .
qed

section \<open>The handler's plan\<close>

text \<open>What is forwarded and compared here is what the handler decided: the same recording of the upstream's
  answer, and a comparison exactly when the handler asks for one.\<close>

definition comparesAs :: "job \<Rightarrow> task \<Rightarrow> bool" where
  "comparesAs j tk = (case (j, tk) of (ShadowGo, RunTask _ _) \<Rightarrow> True | (ShadowGoState, StateTask _ _ _) \<Rightarrow> True | _ \<Rightarrow> False)"

lemma forward_follows_plan:
  assumes "forwardShadowed ct (hCaptureLimit h) mode q route content w = (Some res, w')" and "cnRunner w = Some rn" and "hShadow h"
    and "eUpstream env = handlerResult res" and "\<not> eGone env"
    and "x = forwardUpstream h env mode (routeEndpoint route) sl"
  shows "xlabel x = statusLabel (handlerResult res)"
    and "xforward x = Some (Handler.Forward n) \<Longrightarrow> (rsBody res \<noteq> None \<longleftrightarrow> n > 0)"
    and "xforward x = Some Handler.ForwardStreaming \<Longrightarrow> length (cnSinks w') = length (cnSinks w) + 1"
    and "xjobs x = [] \<Longrightarrow> cnTasks w' = cnTasks w \<and> cnRunner w' = Some rn"
    and "xjobs x = [j] \<Longrightarrow> rBusy rn < rCapacity rn \<Longrightarrow> \<exists>tk. cnTasks w' = cnTasks w @ [tk] \<and> comparesAs j tk"
proof -
  have sh: "shadowed mode w \<longleftrightarrow> Kind mode = ModeShadow \<or> Kind mode = ModeCanary" by (simp add: shadowed_def assms(2))
  note x = assms(6) [unfolded forwardUpstream_def Let_def, simplified assms(3-5), simplified handlerResult_def, simplified]
  note f = assms(1) [unfolded forwardShadowed_def Let_def, unfolded sh]
  show "xlabel x = statusLabel (handlerResult res)" using x by (simp add: handlerResult_def)
  show "xforward x = Some (Handler.Forward n) \<Longrightarrow> (rsBody res \<noteq> None \<longleftrightarrow> n > 0)"
    using x f by (auto simp: Proxy.Forward_def forward_def Let_def split: prod.splits if_splits)
  show "xforward x = Some Handler.ForwardStreaming \<Longrightarrow> length (cnSinks w') = length (cnSinks w) + 1"
    using x f by (auto simp: addSink_def startTask_def split: prod.splits if_splits option.splits bool.splits)
  show "xjobs x = [] \<Longrightarrow> cnTasks w' = cnTasks w \<and> cnRunner w' = Some rn"
    using x f assms(2) by (auto simp: addSink_def split: prod.splits if_splits)
  show "xjobs x = [j] \<Longrightarrow> rBusy rn < rCapacity rn \<Longrightarrow> \<exists>tk. cnTasks w' = cnTasks w @ [tk] \<and> comparesAs j tk"
    using x f assms(2) by (auto simp: addSink_def startTask_def schedule_def comparesAs_def split: prod.splits if_splits)
qed

end
