(* ===== verification/Sweeps.thy ===== *)
theory Sweeps
  imports Routing
begin

text \<open>
  The three programs under \<open>cmd\<close> that generate traffic for a soak: \<open>eventsweep\<close>, \<open>statesweep\<close> and
  \<open>gmesweep\<close>.  Each samples questions from the database, leaves out what its progress file already
  records, asks them one by one and records every question that was answered.  Signing, the HTTP
  client and the clock are parameters; printing is left out.
\<close>

section \<open>Escaping\<close>

text \<open>\<open>net/url\<close>: \<open>PathEscape\<close> and \<open>QueryEscape\<close>, told apart by \<open>query\<close>.\<close>

definition unreserved :: string where
  "unreserved = ''ABCDEFGHIJKLMNOPQRSTUVWXYZabcdefghijklmnopqrstuvwxyz0123456789-_.~''"

definition shouldEscape :: "bool \<Rightarrow> char \<Rightarrow> bool" where
  "shouldEscape query c \<longleftrightarrow> \<not> (c \<in> set unreserved \<or> \<not> query \<and> c \<in> set ''$&+:=@'')"

definition upperhex :: "nat \<Rightarrow> char" where
  "upperhex n = ''0123456789ABCDEF'' ! n"

definition escapeChar :: "bool \<Rightarrow> char \<Rightarrow> string" where
  "escapeChar query c =
     (if query \<and> c = CHR '' '' then ''+''
      else if shouldEscape query c then [CHR ''%'', upperhex (of_char c div 16), upperhex (of_char c mod 16)]
      else [c])"

definition escape :: "bool \<Rightarrow> string \<Rightarrow> string" where
  "escape query s = concat (map (escapeChar query) s)"

definition eventURI :: "string \<Rightarrow> string" where
  "eventURI eventID = ''/_matrix/federation/v1/event/'' @ escape False eventID"

definition stateURI :: "string \<Rightarrow> string \<Rightarrow> string" where
  "stateURI roomID eventID = ''/_matrix/federation/v1/state/'' @ escape False roomID @ ''?event_id='' @ escape True eventID"

definition missingURI :: "string \<Rightarrow> string" where
  "missingURI roomID = ''/_matrix/federation/v1/get_missing_events/'' @ escape False roomID"

text \<open>How a server reads a request line: the path up to the first question mark, and the query.\<close>

definition splitURI :: "string \<Rightarrow> string \<times> string" where
  "splitURI uri = (case cut (CHR ''?'') uri of (p, None) \<Rightarrow> (p, '''') | (p, Some q) \<Rightarrow> (p, q))"

section \<open>Escaping and routing\<close>

lemma hexDigit_upperhex:
  assumes "n < 16"
  shows "hexDigit (upperhex n) = Some n \<and> upperhex n \<in> set unreserved"
proof -
  have "\<forall>n \<in> set [0..<16]. hexDigit (upperhex n) = Some n \<and> upperhex n \<in> set unreserved" by code_simp
  with assms show ?thesis by simp
qed

lemma plain_chars:
  "\<not> shouldEscape query c \<Longrightarrow> c \<noteq> CHR ''%''" "\<not> shouldEscape True c \<Longrightarrow> c \<noteq> CHR ''+''"
  by (auto simp: shouldEscape_def unreserved_def)

lemma unescape_escapeChar: "unescape query (escapeChar query c @ s) = map_option (Cons c) (unescape query s)"
proof (cases "query \<and> c = CHR '' '' \<or> \<not> shouldEscape query c")
  case True
  then show ?thesis using plain_chars by (cases query) (auto simp: escapeChar_def)
next
  case False
  have "(of_char c :: nat) < 256" by simp
  then have "of_char c div 16 < (16::nat)" "of_char c mod 16 < (16::nat)" by (simp_all add: less_mult_imp_div_less)
  moreover have "(char_of (16 * (of_char c div 16) + of_char c mod 16 :: nat) :: char) = c" by simp
  ultimately show ?thesis using False by (simp add: escapeChar_def hexDigit_upperhex)
qed

lemma unescape_escape: "unescape query (escape query s) = Some s"
  by (induction s) (auto simp: escape_def unescape_escapeChar)

lemma escapeChar_set: "set (escapeChar query c) \<subseteq> set unreserved \<union> {CHR ''%''} \<union> (if query then {CHR ''+''} else set ''$&+:=@'')"
proof -
  have "upperhex (of_char c div 16) \<in> set unreserved" "upperhex (of_char c mod 16) \<in> set unreserved"
    using hexDigit_upperhex [of "of_char c div 16"] hexDigit_upperhex [of "of_char c mod 16"] by (simp_all add: less_mult_imp_div_less)
  then show ?thesis by (auto simp: escapeChar_def shouldEscape_def)
qed

lemma escape_set: "set (escape query s) \<subseteq> set unreserved \<union> {CHR ''%''} \<union> (if query then {CHR ''+''} else set ''$&+:=@'')"
  using escapeChar_set [of query] unfolding escape_def set_concat set_map by blast

lemma escape_path_clean: "CHR ''/'' \<notin> set (escape False s)" "CHR ''?'' \<notin> set (escape False s)"
proof -
  have "CHR ''/'' \<notin> set unreserved \<union> {CHR ''%''} \<union> set ''$&+:=@''" "CHR ''?'' \<notin> set unreserved \<union> {CHR ''%''} \<union> set ''$&+:=@''"
    by (simp_all add: unreserved_def)
  with escape_set [of False s] show "CHR ''/'' \<notin> set (escape False s)" "CHR ''?'' \<notin> set (escape False s)" by auto
qed

lemma escape_query_clean: "CHR ''&'' \<notin> set (escape True s)" "CHR '';'' \<notin> set (escape True s)"
proof -
  have "CHR ''&'' \<notin> set unreserved \<union> {CHR ''%''} \<union> {CHR ''+''}" "CHR '';'' \<notin> set unreserved \<union> {CHR ''%''} \<union> {CHR ''+''}"
    by (simp_all add: unreserved_def)
  with escape_set [of True s] show "CHR ''&'' \<notin> set (escape True s)" "CHR '';'' \<notin> set (escape True s)" by auto
qed

lemma escape_eq_Nil [simp]: "escape query s = '''' \<longleftrightarrow> s = ''''"
  by (cases s) (auto simp: escape_def escapeChar_def)

lemma cut_absent: "c \<notin> set s \<Longrightarrow> cut c s = (s, None)"
  by (induction s) auto

lemma splitAll_absent: "c \<notin> set s \<Longrightarrow> splitAll c s = [s]"
  by (subst splitAll.simps) (simp add: cut_absent)

lemma route_of:
  "e \<noteq> EndpointUnknown \<Longrightarrow> s \<noteq> '''' \<Longrightarrow> Match (prefixOf e @ escape False s) = Some \<lparr>routeEndpoint = e, Param = escape False s\<rparr>"
  by (simp add: route_match_exact escape_path_clean)

lemma DecodeParam_escape: "DecodeParam (escape False s) = s"
  by (simp add: DecodeParam_def unescape_escape)

lemma queryGet_event: "queryGet (''event_id='' @ escape True e) ''event_id'' = e"
proof -
  let ?q = "''event_id='' @ escape True e"
  have clean: "CHR ''&'' \<notin> set ?q" "CHR '';'' \<notin> set ?q" using escape_query_clean [of e] by auto
  have "cut (CHR ''='') ?q = (''event_id'', Some (escape True e))"
    using cut_append [of "CHR ''=''" "''event_id''"] by simp
  moreover have "unescape True ''event_id'' = Some ''event_id''" by code_simp
  moreover have "?q \<noteq> ''''" by simp
  ultimately have "queryPair ?q = Some (''event_id'', e)"
    using clean(2) unfolding queryPair_def by (simp only: unescape_escape simp_thms if_False prod.case option.case)
  then show ?thesis unfolding queryGet_def splitAll_absent [OF clean(1)] by (simp add: List.map_filter_def)
qed

text \<open>C39. A sweep asks for what it means: the worker reads back from the request line of each sweep the
  endpoint, the room and the event it was built from, whatever characters their identifiers hold.\<close>

theorem sweep_uri_roundtrip:
  assumes "roomID \<noteq> ''''" and "eventID \<noteq> ''''"
  shows "(\<exists>r. Match (fst (splitURI (eventURI eventID))) = Some r \<and> routeEndpoint r = EndpointEvent \<and>
      eventIDFor r (snd (splitURI (eventURI eventID))) = eventID) \<and>
    (\<exists>r. Match (fst (splitURI (stateURI roomID eventID))) = Some r \<and> routeEndpoint r = EndpointState \<and>
      roomIDFor r = roomID \<and> eventIDFor r (snd (splitURI (stateURI roomID eventID))) = eventID) \<and>
    (\<exists>r. Match (fst (splitURI (missingURI roomID))) = Some r \<and> routeEndpoint r = EndpointGetMissingEvents \<and> roomIDFor r = roomID)"
proof (intro conjI)
  have clean: "CHR ''?'' \<notin> set (prefixOf e @ escape False s)" for e s
    using escape_path_clean(2) by (cases e) (auto simp: prefixOf_def)
  have plain: "splitURI (prefixOf e @ escape False s) = (prefixOf e @ escape False s, '''')" for e s
    using cut_absent [OF clean, of e s] by (simp add: splitURI_def)
  have query: "splitURI (prefixOf e @ escape False s @ ''?'' @ q) = (prefixOf e @ escape False s, q)" for e s q
    using cut_append [OF clean, of e s q] by (simp add: splitURI_def)
  have event: "splitURI (eventURI eventID) = (prefixOf EndpointEvent @ escape False eventID, '''')"
    using plain [of EndpointEvent eventID] by (simp add: eventURI_def prefixOf_def)
  have missing: "splitURI (missingURI roomID) = (prefixOf EndpointGetMissingEvents @ escape False roomID, '''')"
    using plain [of EndpointGetMissingEvents roomID] by (simp add: missingURI_def prefixOf_def)
  have state: "splitURI (stateURI roomID eventID) = (prefixOf EndpointState @ escape False roomID, ''event_id='' @ escape True eventID)"
    using query [of EndpointState roomID "''event_id='' @ escape True eventID"] by (simp add: stateURI_def prefixOf_def)
  show "\<exists>r. Match (fst (splitURI (eventURI eventID))) = Some r \<and> routeEndpoint r = EndpointEvent \<and>
      eventIDFor r (snd (splitURI (eventURI eventID))) = eventID"
    unfolding event using assms(2) by (simp add: route_of eventIDFor_def DecodeParam_escape)
  show "\<exists>r. Match (fst (splitURI (missingURI roomID))) = Some r \<and> routeEndpoint r = EndpointGetMissingEvents \<and> roomIDFor r = roomID"
    unfolding missing using assms(1) by (simp add: route_of roomIDFor_def DecodeParam_escape)
  show "\<exists>r. Match (fst (splitURI (stateURI roomID eventID))) = Some r \<and> routeEndpoint r = EndpointState \<and>
      roomIDFor r = roomID \<and> eventIDFor r (snd (splitURI (stateURI roomID eventID))) = eventID"
    unfolding state fst_conv snd_conv
    using assms(1) by (simp add: route_of roomIDFor_def eventIDFor_def DecodeParam_escape queryGet_event del: append_Cons)
qed

theorem sweep_uri_roundtrip_witness:
  "stateURI ''!a/b:c'' ''$x y+z'' = ''/_matrix/federation/v1/state/%21a%2Fb:c?event_id=%24x+y%2Bz'' \<and>
   (\<exists>r. Match (fst (splitURI (stateURI ''!a/b:c'' ''$x y+z''))) = Some r \<and> roomIDFor r = ''!a/b:c'' \<and>
      eventIDFor r (snd (splitURI (stateURI ''!a/b:c'' ''$x y+z''))) = ''$x y+z'')"
proof
  show "stateURI ''!a/b:c'' ''$x y+z'' = ''/_matrix/federation/v1/state/%21a%2Fb:c?event_id=%24x+y%2Bz''" by code_simp
  show "\<exists>r. Match (fst (splitURI (stateURI ''!a/b:c'' ''$x y+z''))) = Some r \<and> roomIDFor r = ''!a/b:c'' \<and>
      eventIDFor r (snd (splitURI (stateURI ''!a/b:c'' ''$x y+z''))) = ''$x y+z''"
    using sweep_uri_roundtrip [of "''!a/b:c''" "''$x y+z''"] by blast
qed

section \<open>Files\<close>

abbreviation newline :: char where
  "newline \<equiv> CHR 0x0A"

definition nonblank :: "char \<Rightarrow> string \<Rightarrow> string list" where
  "nonblank sep raw = filter (\<lambda>l. l \<noteq> '''') (map trimSpace (splitAll sep raw))"

text \<open>The first line that is not blank is the active key.  \<open>raw\<close> is what reading the file gave.\<close>

definition loadSigningKey :: "(string \<Rightarrow> (string, 'k) result) \<Rightarrow> string \<Rightarrow> (string, string) result \<Rightarrow> (string, 'k) result" where
  "loadSigningKey parseKey path raw =
     rbind raw (\<lambda>s. case nonblank newline s of [] \<Rightarrow> Inl (''no key in '' @ path) | line # _ \<Rightarrow> parseKey line)"

text \<open>The progress file: \<open>None\<close> when no path was given, its contents otherwise (empty when it does not exist yet).\<close>

definition loadProgress :: "string option \<Rightarrow> string set" where
  "loadProgress file = (case file of None \<Rightarrow> {} | Some raw \<Rightarrow> set (nonblank newline raw))"

definition recordProgress :: "string \<Rightarrow> string option \<Rightarrow> string option" where
  "recordProgress i file = map_option (\<lambda>raw. raw @ i @ [newline]) file"

section \<open>Asking\<close>

record signableRequest =
  sgMethod :: string
  sgURI :: string
  sgOrigin :: string
  sgDestination :: string
  sgContent :: "string option"

record sweepRequest =
  swMethod :: string
  swURL :: string
  swAuth :: string
  swJSON :: bool
  swHost :: string
  swBody :: "string option"

text \<open>What a sweep is given: signing with the key, the X-Matrix header, whether a URL parses, sending a request
  and draining its body, and the JSON encoder.\<close>

record sweepTools =
  tSign :: "signableRequest \<Rightarrow> (string, string) result"
  tHeader :: "string \<Rightarrow> string \<Rightarrow> string \<Rightarrow> string"
  tURL :: "string \<Rightarrow> bool"
  tSend :: "sweepRequest \<Rightarrow> (string, int \<times> int) result"
  tMarshal :: "string \<Rightarrow> string \<Rightarrow> int \<Rightarrow> string"

definition askSigned :: "sweepTools \<Rightarrow> string \<Rightarrow> string \<Rightarrow> signableRequest \<Rightarrow> (string, int \<times> int) result" where
  "askSigned t serverName base sg =
     rbind (tSign t sg) (\<lambda>sig.
     if \<not> tURL t (base @ sgURI sg) then Inl ''parse''
     else tSend t \<lparr>swMethod = sgMethod sg, swURL = base @ sgURI sg, swAuth = tHeader t serverName serverName sig,
            swJSON = (sgContent sg \<noteq> None), swHost = serverName, swBody = sgContent sg\<rparr>)"

definition askEvent :: "sweepTools \<Rightarrow> string \<Rightarrow> string \<Rightarrow> string \<Rightarrow> (string, int \<times> int) result" where
  "askEvent t serverName base eventID =
     askSigned t serverName base \<lparr>sgMethod = ''GET'', sgURI = eventURI eventID, sgOrigin = serverName, sgDestination = serverName, sgContent = None\<rparr>"

definition askState :: "sweepTools \<Rightarrow> string \<Rightarrow> string \<Rightarrow> string \<Rightarrow> string \<Rightarrow> (string, int \<times> int) result" where
  "askState t serverName base roomID eventID =
     askSigned t serverName base
       \<lparr>sgMethod = ''GET'', sgURI = stateURI roomID eventID, sgOrigin = serverName, sgDestination = serverName, sgContent = None\<rparr>"

record target =
  Room :: string
  Latest :: string
  Earliest :: string

definition ask :: "sweepTools \<Rightarrow> string \<Rightarrow> target \<Rightarrow> int \<Rightarrow> (string, int \<times> int) result" where
  "ask t serverName tg limit =
     askSigned t serverName ''http://gopro-worker''
       \<lparr>sgMethod = ''POST'', sgURI = missingURI (Room tg), sgOrigin = serverName, sgDestination = serverName,
        sgContent = Some (tMarshal t (Earliest tg) (Latest tg) limit)\<rparr>"

definition urlBase :: "string \<Rightarrow> string" where
  "urlBase base = (if base \<noteq> '''' then trimSuffix base ''/'' else ''http://gopro-worker'')"

section \<open>What is asked\<close>

record sweepDB =
  dbState :: "string list"
  dbTips :: "(string \<times> string) list"
  dbRooms :: "string list"
  dbEdges :: "(string \<times> string \<times> bool) list"
  dbFails :: bool

record room =
  RoomID :: string
  EventID :: string
  StateEvents :: nat

text \<open>The rows of \<open>loadRooms\<close>: each state event of a room beside each of its forward extremities, grouped by room.\<close>

definition roomRows :: "sweepDB \<Rightarrow> (string \<times> string) list" where
  "roomRows db = concat (map (\<lambda>c. concat (map (\<lambda>f. map (\<lambda>q. (c, snd f)) (filter (\<lambda>q. q = c) (dbRooms db)))
     (filter (\<lambda>f. fst f = c) (dbTips db)))) (dbState db))"

definition roomOf :: "(string \<times> string) list \<Rightarrow> string \<Rightarrow> room" where
  "roomOf rows r = (let es = map snd (filter (\<lambda>x. fst x = r) rows) in \<lparr>RoomID = r, EventID = Min (set es), StateEvents = length es\<rparr>)"

definition loadRooms :: "sweepDB \<Rightarrow> int \<Rightarrow> int \<Rightarrow> (string, room list) result" where
  "loadRooms db minState maxState =
     (if dbFails db then Inl ''query''
      else Inr (sort_key StateEvents
        (filter (\<lambda>r. int (StateEvents r) \<ge> minState \<and> (maxState = 0 \<or> int (StateEvents r) \<le> maxState))
          (map (roomOf (roomRows db)) (remdups (map fst (roomRows db)))))))"

text \<open>The recursive query of \<open>loadTargets\<close>: from the first forward extremity of each room, \<open>depth\<close> steps back
  along the edges that are not state edges.\<close>

definition tips :: "sweepDB \<Rightarrow> (string \<times> string) list" where
  "tips db = map (\<lambda>r. (r, Min (set (map snd (filter (\<lambda>x. fst x = r) (dbTips db)))))) (remdups (map fst (dbTips db)))"

definition backStep :: "sweepDB \<Rightarrow> (string \<times> string \<times> string) list \<Rightarrow> (string \<times> string \<times> string) list" where
  "backStep db rows = concat (map (\<lambda>(r, t, c). map (\<lambda>e. (r, t, fst (snd e))) (filter (\<lambda>e. fst e = c \<and> \<not> snd (snd e)) (dbEdges db))) rows)"

fun walkBack :: "sweepDB \<Rightarrow> nat \<Rightarrow> (string \<times> string \<times> string) list" where
  "walkBack db 0 = map (\<lambda>(r, t). (r, t, t)) (tips db)"
| "walkBack db (Suc n) = backStep db (walkBack db n)"

definition targetsAt :: "(string \<times> string \<times> string) list \<Rightarrow> target list" where
  "targetsAt rows =
     map (\<lambda>(r, t). \<lparr>Room = r, Latest = t, Earliest = Min (set (map (\<lambda>x. snd (snd x)) (filter (\<lambda>x. fst x = r \<and> fst (snd x) = t) rows)))\<rparr>)
       (remdups (map (\<lambda>x. (fst x, fst (snd x))) rows))"

definition loadTargets :: "sweepDB \<Rightarrow> int \<Rightarrow> (string, target list) result" where
  "loadTargets db depth =
     (if dbFails db then Inl ''query'' else if depth < 0 then Inr [] else Inr (targetsAt (walkBack db (nat depth))))"

record eventTarget =
  Stratum :: string
  TargetID :: string

definition strata :: "string list" where
  "strata = [''invisible'', ''redacted'', ''ban_redacted'', ''rejected'', ''outlier'', ''erased'', ''rare_room_version'', ''create_events'',
     ''state_events'', ''random'']"

text \<open>An event belongs to the first stratum that claims it; one that is done, or was claimed, is left out.\<close>

fun claimEvents :: "string \<Rightarrow> string list \<Rightarrow> string set \<Rightarrow> eventTarget list \<times> string set \<Rightarrow> eventTarget list \<times> string set" where
  "claimEvents st [] dn (todo, seen) = (todo, seen)"
| "claimEvents st (i # is) dn (todo, seen) =
     (if i \<in> seen \<or> i \<in> dn then claimEvents st is dn (todo, seen)
      else claimEvents st is dn (todo @ [\<lparr>Stratum = st, TargetID = i\<rparr>], insert i seen))"

text \<open>\<open>only\<close> is the list of strata asked for, \<open>sample\<close> the rows of the query of each: a query that fails is skipped.\<close>

record eventWorld =
  only :: string
  sample :: "string \<Rightarrow> (string, string list) result"

definition selectedStrata :: "string \<Rightarrow> string list" where
  "selectedStrata names = (let sel = nonblank (CHR '','') names in filter (\<lambda>st. sel = [] \<or> st \<in> set sel) strata)"

definition planEvents :: "eventWorld \<Rightarrow> string set \<Rightarrow> eventTarget list" where
  "planEvents w dn =
     fst (fold (\<lambda>st acc. case sample w st of Inl e \<Rightarrow> acc | Inr is \<Rightarrow> claimEvents st is dn acc) (selectedStrata (only w)) ([], {}))"

definition takeLimit :: "int \<Rightarrow> 'a list \<Rightarrow> 'a list" where
  "takeLimit limit todo = (if limit > 0 \<and> int (length todo) > limit then take (nat limit) todo else todo)"

record roomWorld =
  roomDB :: sweepDB
  minState :: int
  maxState :: int
  roomLimit :: int

definition planRooms :: "roomWorld \<Rightarrow> string set \<Rightarrow> room list" where
  "planRooms w dn =
     (case loadRooms (roomDB w) (minState w) (maxState w) of
        Inl e \<Rightarrow> []
      | Inr rooms \<Rightarrow> takeLimit (roomLimit w) (filter (\<lambda>r. RoomID r \<notin> dn) rooms))"

record targetWorld =
  targetDB :: sweepDB
  depth :: int
  maxRooms :: int

definition planTargets :: "targetWorld \<Rightarrow> string set \<Rightarrow> target list" where
  "planTargets w dn =
     (case loadTargets (targetDB w) (depth w) of
        Inl e \<Rightarrow> []
      | Inr ts \<Rightarrow> takeLimit (maxRooms w) (filter (\<lambda>t. Room t \<notin> dn) ts))"

section \<open>The loop\<close>

record 's sweeping =
  swFile :: "string option"
  swAsked :: "string list"
  swAnswered :: "string list"
  swTally :: 's

text \<open>One question after the other until there is none or the context ends: \<open>stop i\<close> is whether it has before
  question \<open>i\<close>.  A question that was answered, whatever the status, is recorded; one that failed is not.\<close>

fun sweepLoop :: "(nat \<Rightarrow> bool) \<Rightarrow> (nat \<Rightarrow> 't \<Rightarrow> (string, int \<times> int) result) \<Rightarrow> ('t \<Rightarrow> string) \<Rightarrow>
    ('t \<Rightarrow> (string, int \<times> int) result \<Rightarrow> 's \<Rightarrow> 's) \<Rightarrow> nat \<Rightarrow> 't list \<Rightarrow> 's sweeping \<Rightarrow> 's sweeping" where
  "sweepLoop stop question key tally i [] s = s"
| "sweepLoop stop question key tally i (t # ts) s =
     (if stop i then s
      else
        let res = question i t; s = s\<lparr>swAsked := swAsked s @ [key t], swTally := tally t res (swTally s)\<rparr> in
        sweepLoop stop question key tally (i + 1) ts
          (case res of Inl e \<Rightarrow> s | Inr _ \<Rightarrow> s\<lparr>swFile := recordProgress (key t) (swFile s), swAnswered := swAnswered s @ [key t]\<rparr>))"

record ('w, 't) sweepEnv =
  envWorld :: 'w
  envOrder :: "'t list \<Rightarrow> 't list"
  envDry :: bool
  envStop :: "nat \<Rightarrow> bool"
  envAsk :: "nat \<Rightarrow> 't \<Rightarrow> (string, int \<times> int) result"

definition sweepRun :: "('w \<Rightarrow> string set \<Rightarrow> 't list) \<Rightarrow> ('t \<Rightarrow> string) \<Rightarrow> ('t \<Rightarrow> (string, int \<times> int) result \<Rightarrow> 's \<Rightarrow> 's) \<Rightarrow> 's \<Rightarrow>
    ('w, 't) sweepEnv \<Rightarrow> string option \<Rightarrow> 's sweeping" where
  "sweepRun plan key tally zero env file =
     (let todo = plan (envWorld env) (loadProgress file); s = \<lparr>swFile = file, swAsked = [], swAnswered = [], swTally = zero\<rparr> in
      if envDry env \<or> todo = [] then s else sweepLoop (envStop env) (envAsk env) key tally 0 (envOrder env todo) s)"

text \<open>The counters: answers by stratum and status, by status alone, and the rooms answered and failed.\<close>

definition tallyEvent :: "eventTarget \<Rightarrow> (string, int \<times> int) result \<Rightarrow> (string \<times> int, nat) gomap \<Rightarrow> (string \<times> int, nat) gomap" where
  "tallyEvent t res cs =
     (case res of Inl e \<Rightarrow> cs
      | Inr (status, n) \<Rightarrow> gset (Stratum t, status) (Suc (case gget cs (Stratum t, status) of None \<Rightarrow> 0 | Some k \<Rightarrow> k)) cs)"

definition tallyTarget :: "target \<Rightarrow> (string, int \<times> int) result \<Rightarrow> (int, nat) gomap \<Rightarrow> (int, nat) gomap" where
  "tallyTarget t res cs =
     (case res of Inl e \<Rightarrow> cs | Inr (status, n) \<Rightarrow> gset status (Suc (case gget cs status of None \<Rightarrow> 0 | Some k \<Rightarrow> k)) cs)"

definition tallyRoom :: "room \<Rightarrow> (string, int \<times> int) result \<Rightarrow> nat \<times> nat \<Rightarrow> nat \<times> nat" where
  "tallyRoom r res c =
     (case c of (ok, failed) \<Rightarrow>
        (case res of Inl e \<Rightarrow> (ok, failed + 1) | Inr (status, n) \<Rightarrow> if status \<noteq> 200 then (ok, failed + 1) else (ok + 1, failed)))"

definition eventSweep :: "(eventWorld, eventTarget) sweepEnv \<Rightarrow> string option \<Rightarrow> (string \<times> int, nat) gomap sweeping" where
  "eventSweep = sweepRun planEvents TargetID tallyEvent []"

definition stateSweep :: "(roomWorld, room) sweepEnv \<Rightarrow> string option \<Rightarrow> (nat \<times> nat) sweeping" where
  "stateSweep = sweepRun planRooms RoomID tallyRoom (0, 0)"

definition missingSweep :: "(targetWorld, target) sweepEnv \<Rightarrow> string option \<Rightarrow> (int, nat) gomap sweeping" where
  "missingSweep = sweepRun planTargets Room tallyTarget []"

text \<open>Sweeps one after the other over the same progress file.\<close>

fun sweepRuns :: "('e \<Rightarrow> string option \<Rightarrow> 's sweeping) \<Rightarrow> 'e list \<Rightarrow> string option \<Rightarrow> string option \<times> string list" where
  "sweepRuns sweep [] file = (file, [])"
| "sweepRuns sweep (e # es) file =
     (case sweepRuns sweep es (swFile (sweep e file)) of (f, as) \<Rightarrow> (f, swAnswered (sweep e file) @ as))"

section \<open>Resuming a sweep\<close>

lemma splitAll_append: "splitAll c (a @ c # b) = splitAll c a @ splitAll c b"
proof (induction c a rule: splitAll.induct)
  case (1 c s)
  show ?case
  proof (cases "c \<in> set s")
    case True
    then obtain x y where s: "cut c s = (x, Some y)" using cut_None [of c s] by (cases "cut c s") auto
    then have "s @ c # b = x @ c # (y @ c # b)" and x: "c \<notin> set x" using cut_Some [OF s] by auto
    then have "cut c (s @ c # b) = (x, Some (y @ c # b))" by (simp add: cut_append)
    then show ?thesis using 1 [OF s [symmetric] refl] s by (subst (1 2) splitAll.simps) simp
  next
    case False
    then show ?thesis by (subst splitAll.simps) (simp add: cut_append splitAll_absent)
  qed
qed

text \<open>A file of whole lines, and an identifier that is one.\<close>

definition wholeLines :: "string \<Rightarrow> bool" where
  "wholeLines raw \<longleftrightarrow> raw = '''' \<or> (\<exists>g. raw = g @ [newline])"

definition cleanID :: "string \<Rightarrow> bool" where
  "cleanID i \<longleftrightarrow> i \<noteq> '''' \<and> newline \<notin> set i \<and> trimSpace i = i"

lemma nonblank_append: "nonblank c (a @ c # b) = nonblank c a @ nonblank c b"
  by (simp add: nonblank_def splitAll_append)

lemma nonblank_empty [simp]: "nonblank c '''' = []"
  by (simp add: nonblank_def splitAll_absent trimSpace_def)

lemma nonblank_clean: "cleanID i \<Longrightarrow> nonblank newline i = [i]"
  by (simp add: nonblank_def cleanID_def splitAll_absent)

lemma recorded_is_done:
  assumes "wholeLines raw" and "cleanID i"
  shows "loadProgress (recordProgress i (Some raw)) = insert i (loadProgress (Some raw)) \<and> wholeLines (raw @ i @ [newline])"
proof -
  have line: "nonblank newline (i @ [newline]) = [i]" using nonblank_append [of newline i "''''"] nonblank_clean [OF assms(2)] by simp
  from assms(1) have "nonblank newline (raw @ i @ [newline]) = nonblank newline raw @ [i]"
    unfolding wholeLines_def using nonblank_append [of newline _ "i @ [newline]"] nonblank_append [of newline _ "''''"] line by auto
  then show ?thesis by (auto simp: loadProgress_def recordProgress_def wholeLines_def)
qed

text \<open>One pass over the questions: what it asks is an initial part of them, all of them when it is not stopped;
  what it answers is recorded, and is part of what it asked.\<close>

definition swept :: "string list \<Rightarrow> 's sweeping \<Rightarrow> 's sweeping \<Rightarrow> bool" where
  "swept ids s s' \<longleftrightarrow> (\<exists>asked answered raw raw'. swFile s = Some raw \<and> swFile s' = Some raw' \<and> wholeLines raw' \<and>
     swAsked s' = swAsked s @ asked \<and> prefix asked ids \<and> swAnswered s' = swAnswered s @ answered \<and> subseq answered asked \<and>
     loadProgress (Some raw') = loadProgress (Some raw) \<union> set answered)"

lemma sweepLoop_swept:
  assumes "swFile s = Some raw" and "wholeLines raw" and "\<forall>t \<in> set ts. cleanID (key t)"
  shows "swept (map key ts) s (sweepLoop stop question key tally i ts s)"
  using assms
proof (induction ts arbitrary: i s raw)
  case Nil
  then show ?case by (auto simp: swept_def intro: exI [of _ "[]"])
next
  case (Cons t ts)
  show ?case
  proof (cases "stop i")
    case True
    with Cons.prems show ?thesis by (auto simp: swept_def intro: exI [of _ "[]"])
  next
    case False
    let ?s = "s\<lparr>swAsked := swAsked s @ [key t], swTally := tally t (question i t) (swTally s)\<rparr>"
    let ?r = "?s\<lparr>swFile := recordProgress (key t) (swFile s), swAnswered := swAnswered s @ [key t]\<rparr>"
    have rec: "loadProgress (Some (raw @ key t @ [newline])) = insert (key t) (loadProgress (Some raw))" "wholeLines (raw @ key t @ [newline])"
      using recorded_is_done [OF Cons.prems(2), of "key t"] Cons.prems(3) by (auto simp: recordProgress_def)
    have "swept (map key ts) ?s (sweepLoop stop question key tally (i + 1) ts ?s)" using Cons.prems by (intro Cons.IH) auto
    moreover have "swept (map key ts) ?r (sweepLoop stop question key tally (i + 1) ts ?r)"
      using Cons.prems rec by (intro Cons.IH [of _ "raw @ key t @ [newline]"]) (auto simp: recordProgress_def)
    ultimately show ?thesis
    proof (cases "question i t")
      case (Inl e)
      with \<open>swept (map key ts) ?s _\<close> False show ?thesis unfolding swept_def
        by (auto simp: Let_def)
    next
      case (Inr x)
      with \<open>swept (map key ts) ?r _\<close> False Cons.prems(1) rec show ?thesis unfolding swept_def
        by (auto simp: Let_def recordProgress_def)
    qed
  qed
qed

lemma sweepLoop_all:
  assumes "\<forall>n. \<not> stop n"
  shows "swAsked (sweepLoop stop question key tally i ts s) = swAsked s @ map key ts"
  using assms by (induction ts arbitrary: i s) (auto simp: Let_def split: sum.split)

lemma distinct_subseq: "subseq xs ys \<Longrightarrow> distinct ys \<Longrightarrow> distinct xs"
  by (auto simp: subseq_conv_nths intro: distinct_nthsI)

lemma subseq_set: "subseq xs ys \<Longrightarrow> x \<in> set xs \<Longrightarrow> x \<in> set ys"
  by (auto simp: subseq_conv_nths dest: in_set_nthsD)

text \<open>What the three sweeps have in common: a plan asks no question twice and none that is done.\<close>

locale sweeper =
  fixes plan :: "'w \<Rightarrow> string set \<Rightarrow> 't list" and key :: "'t \<Rightarrow> string"
  assumes plan_distinct: "distinct (map key (plan w dn))"
    and plan_new: "key ` set (plan w dn) \<inter> dn = {}"
begin

lemma run_once:
  assumes "wholeLines raw" and "mset (envOrder env (plan (envWorld env) (loadProgress (Some raw)))) = mset (plan (envWorld env) (loadProgress (Some raw)))"
    and "\<forall>t \<in> set (plan (envWorld env) (loadProgress (Some raw))). cleanID (key t)"
  shows "\<exists>raw'. swFile (sweepRun plan key tally zero env (Some raw)) = Some raw' \<and> wholeLines raw' \<and>
    distinct (swAnswered (sweepRun plan key tally zero env (Some raw))) \<and>
    set (swAnswered (sweepRun plan key tally zero env (Some raw))) \<inter> loadProgress (Some raw) = {} \<and>
    loadProgress (Some raw') = loadProgress (Some raw) \<union> set (swAnswered (sweepRun plan key tally zero env (Some raw)))"
proof (cases "envDry env \<or> plan (envWorld env) (loadProgress (Some raw)) = []")
  case True
  with assms(1) show ?thesis by (auto simp: sweepRun_def Let_def)
next
  case False
  let ?todo = "plan (envWorld env) (loadProgress (Some raw))"
  let ?s = "\<lparr>swFile = Some raw, swAsked = [], swAnswered = [], swTally = zero\<rparr>"
  let ?s' = "sweepLoop (envStop env) (envAsk env) key tally 0 (envOrder env ?todo) ?s"
  have same: "set (envOrder env ?todo) = set ?todo" using assms(2) by (metis set_mset_mset)
  have "mset (map key (envOrder env ?todo)) = mset (map key ?todo)" using assms(2) by (metis mset_map)
  then have d: "distinct (map key (envOrder env ?todo))" using plan_distinct mset_eq_imp_distinct_iff by blast
  have "swept (map key (envOrder env ?todo)) ?s ?s'" using assms(1,3) same by (intro sweepLoop_swept [of _ raw]) auto
  then obtain asked answered raw' where r: "swFile ?s' = Some raw'" "wholeLines raw'" "prefix asked (map key (envOrder env ?todo))"
    "swAnswered ?s' = answered" "subseq answered asked" "loadProgress (Some raw') = loadProgress (Some raw) \<union> set answered"
    unfolding swept_def by auto
  have "subseq answered (map key (envOrder env ?todo))" using r(3,5) by (metis prefix_imp_subseq subseq_order.trans)
  then have "distinct answered" "set answered \<subseteq> key ` set ?todo" using d same by (auto dest: distinct_subseq subseq_set)
  with r plan_new [of "envWorld env" "loadProgress (Some raw)"] False show ?thesis by (auto simp: sweepRun_def Let_def)
qed

lemma runs:
  assumes "wholeLines raw"
    and "\<And>env xs. env \<in> set envs \<Longrightarrow> mset (envOrder env xs) = mset xs"
    and "\<And>env dn t. env \<in> set envs \<Longrightarrow> t \<in> set (plan (envWorld env) dn) \<Longrightarrow> cleanID (key t)"
    and "sweepRuns (sweepRun plan key tally zero) envs (Some raw) = (f, ans)"
  shows "\<exists>raw'. f = Some raw' \<and> wholeLines raw' \<and> distinct ans \<and> set ans \<inter> loadProgress (Some raw) = {} \<and>
    loadProgress (Some raw') = loadProgress (Some raw) \<union> set ans"
  using assms
proof (induction envs arbitrary: raw f ans)
  case (Cons env envs)
  obtain raw1 where 1: "swFile (sweepRun plan key tally zero env (Some raw)) = Some raw1" "wholeLines raw1"
    "distinct (swAnswered (sweepRun plan key tally zero env (Some raw)))"
    "set (swAnswered (sweepRun plan key tally zero env (Some raw))) \<inter> loadProgress (Some raw) = {}"
    "loadProgress (Some raw1) = loadProgress (Some raw) \<union> set (swAnswered (sweepRun plan key tally zero env (Some raw)))"
    using run_once [OF Cons.prems(1), of env tally zero] Cons.prems(2,3) by (metis list.set_intros(1))
  obtain rest where rest: "sweepRuns (sweepRun plan key tally zero) envs (Some raw1) = (f, rest)"
    and a: "ans = swAnswered (sweepRun plan key tally zero env (Some raw)) @ rest"
    using Cons.prems(4) by (auto simp: 1(1) split: prod.splits)
  have "\<exists>raw'. f = Some raw' \<and> wholeLines raw' \<and> distinct rest \<and> set rest \<inter> loadProgress (Some raw1) = {} \<and>
      loadProgress (Some raw') = loadProgress (Some raw1) \<union> set rest"
    by (rule Cons.IH [OF 1(2) _ _ rest]) (use Cons.prems(2,3) in \<open>meson list.set_intros(2)\<close>)+
  with 1 a show ?case by auto
qed (auto simp: loadProgress_def)

end

subsection \<open>The three plans\<close>

definition claimInv :: "string set \<Rightarrow> string set \<Rightarrow> eventTarget list \<times> string set \<Rightarrow> bool" where
  "claimInv dn ids acc \<longleftrightarrow> distinct (map TargetID (fst acc)) \<and> TargetID ` set (fst acc) = snd acc \<and> snd acc = ids - dn"

lemma claimEvents_inv: "claimInv dn ids acc \<Longrightarrow> claimInv dn (ids \<union> set is) (claimEvents st is dn acc)"
proof (induction st "is" dn acc arbitrary: ids rule: claimEvents.induct)
  case (2 st i js dn todo seen)
  have u: "ids \<union> set (i # js) = insert i ids \<union> set js" by auto
  show ?case
  proof (cases "i \<in> seen \<or> i \<in> dn")
    case True
    with 2(3) have "claimInv dn (insert i ids) (todo, seen)" by (auto simp: claimInv_def)
    from 2(1) [OF True this] True show ?thesis unfolding u by simp
  next
    case False
    with 2(3) have "claimInv dn (insert i ids) (todo @ [\<lparr>Stratum = st, TargetID = i\<rparr>], insert i seen)" by (auto simp: claimInv_def)
    from 2(2) [OF False this] False show ?thesis unfolding u by simp
  qed
qed simp

definition sampledIDs :: "eventWorld \<Rightarrow> string set" where
  "sampledIDs w = (\<Union>st \<in> set (selectedStrata (only w)). case sample w st of Inl e \<Rightarrow> {} | Inr ids \<Rightarrow> set ids)"

lemma planEvents_inv:
  "distinct (map TargetID (planEvents w dn)) \<and> TargetID ` set (planEvents w dn) = sampledIDs w - dn"
proof -
  let ?f = "\<lambda>st acc. case sample w st of Inl e \<Rightarrow> acc | Inr js \<Rightarrow> claimEvents st js dn acc"
  have "claimInv dn (ids \<union> (\<Union>st \<in> set sts. case sample w st of Inl e \<Rightarrow> {} | Inr ids \<Rightarrow> set ids)) (fold ?f sts acc)"
    if "claimInv dn ids acc" for sts ids acc
    using that
  proof (induction sts arbitrary: ids acc)
    case (Cons st sts)
    let ?x = "case sample w st of Inl e \<Rightarrow> {} | Inr ids \<Rightarrow> set ids"
    have "claimInv dn (ids \<union> ?x) (?f st acc)" using claimEvents_inv [OF Cons.prems] Cons.prems by (simp split: sum.split)
    from Cons.IH [OF this] show ?case by (simp add: Un_assoc)
  qed simp
  from this [of "{}" "([], {})" "selectedStrata (only w)"] show ?thesis
    by (simp add: claimInv_def planEvents_def sampledIDs_def)
qed

lemma takeLimit_prefix: "prefix (takeLimit n xs) xs"
  by (simp add: takeLimit_def take_is_prefix)

lemma takeLimit_plan:
  assumes "distinct (map f xs)" and "f ` set xs \<inter> dn = {}"
  shows "distinct (map f (takeLimit n xs)) \<and> f ` set (takeLimit n xs) \<inter> dn = {}"
proof -
  obtain ys where xs: "xs = takeLimit n xs @ ys" using takeLimit_prefix [of n xs] by (auto elim: prefixE)
  from assms(1) have "distinct (map f (takeLimit n xs))" by (subst (asm) xs) simp
  moreover from assms(2) have "f ` set (takeLimit n xs) \<inter> dn = {}" by (subst (asm) xs) (auto simp: image_Un)
  ultimately show ?thesis ..
qed

lemma loadRooms_distinct:
  assumes "loadRooms db mn mx = Inr rooms"
  shows "distinct (map RoomID rooms)"
proof -
  have ids: "map RoomID (map (roomOf rows) rs) = rs" for rows rs by (induction rs) (simp_all add: roomOf_def Let_def)
  have plain: "distinct (map RoomID (filter P (map (roomOf rows) (remdups rs))))" for P rows rs
    by (rule distinct_map_filter) (simp only: ids distinct_remdups)
  have "distinct (map RoomID (sort_key f xs)) \<longleftrightarrow> distinct (map RoomID xs)" for f :: "room \<Rightarrow> nat" and xs
    by (rule mset_eq_imp_distinct_iff) simp
  with plain assms show ?thesis by (simp add: loadRooms_def split: if_splits) blast
qed

lemma walkBack_tips: "(r, t, c) \<in> set (walkBack db n) \<Longrightarrow> (r, t) \<in> set (tips db)"
  by (induction n arbitrary: c) (auto simp: backStep_def)

lemma tips_functional: "(r, t) \<in> set (tips db) \<Longrightarrow> (r, t') \<in> set (tips db) \<Longrightarrow> t = t'"
  by (auto simp: tips_def)

lemma loadTargets_distinct:
  assumes "loadTargets db d = Inr ts"
  shows "distinct (map Room ts)"
proof -
  let ?rows = "walkBack db (nat d)"
  let ?pairs = "remdups (map (\<lambda>x. (fst x, fst (snd x))) ?rows)"
  have "set ?pairs \<subseteq> set (tips db)" using walkBack_tips by fastforce
  moreover have "inj_on fst (set (tips db))" by (rule inj_onI) (auto dest: tips_functional)
  ultimately have "inj_on fst (set ?pairs)" by (rule inj_on_subset [rotated])
  then have "distinct (map fst ?pairs)" unfolding distinct_map by simp
  moreover have "map Room (targetsAt ?rows) = map fst ?pairs" by (simp add: targetsAt_def case_prod_beta comp_def)
  ultimately have "distinct (map Room (targetsAt ?rows))" by (simp only:)
  with assms show ?thesis by (auto simp: loadTargets_def split: if_splits)
qed

interpretation events: sweeper planEvents TargetID
  by unfold_locales (use planEvents_inv in auto)

interpretation rooms: sweeper planRooms RoomID
proof
  fix w dn
  have "distinct (map RoomID (planRooms w dn)) \<and> RoomID ` set (planRooms w dn) \<inter> dn = {}"
    using loadRooms_distinct [of "roomDB w" "minState w" "maxState w"]
    by (cases "loadRooms (roomDB w) (minState w) (maxState w)") (auto simp: planRooms_def distinct_map_filter intro!: takeLimit_plan)
  then show "distinct (map RoomID (planRooms w dn))" "RoomID ` set (planRooms w dn) \<inter> dn = {}" by auto
qed

interpretation targets: sweeper planTargets Room
proof
  fix w dn
  have "distinct (map Room (planTargets w dn)) \<and> Room ` set (planTargets w dn) \<inter> dn = {}"
    using loadTargets_distinct [of "targetDB w" "depth w"]
    by (cases "loadTargets (targetDB w) (depth w)") (auto simp: planTargets_def distinct_map_filter intro!: takeLimit_plan)
  then show "distinct (map Room (planTargets w dn))" "Room ` set (planTargets w dn) \<inter> dn = {}" by auto
qed

text \<open>A sweep can be cut and resumed: over any number of runs on one progress file, stopped anywhere and with
  any questions failing, no event is answered twice and none that was done before the first run, and the
  file records exactly the events answered; a run that is not stopped asks for every sampled event that
  is not recorded.\<close>

theorem sweeps_resume:
  assumes "wholeLines raw"
    and envs: "\<forall>env \<in> set envs. (\<forall>xs. mset (envOrder env xs) = mset xs) \<and> (\<forall>i \<in> sampledIDs (envWorld env). cleanID i)"
    and runs: "sweepRuns eventSweep envs (Some raw) = (file, answers)"
  shows "distinct answers \<and> set answers \<inter> loadProgress (Some raw) = {} \<and> loadProgress file = loadProgress (Some raw) \<union> set answers \<and>
    (\<forall>env \<in> set envs. \<not> envDry env \<and> (\<forall>i. \<not> envStop env i) \<longrightarrow>
       set (swAsked (eventSweep env f)) = sampledIDs (envWorld env) - loadProgress f)"
proof -
  have "cleanID (TargetID t)" if "env \<in> set envs" "t \<in> set (planEvents (envWorld env) dn)" for env dn t
    using that envs planEvents_inv [of "envWorld env" dn] by blast
  then have "\<exists>raw'. file = Some raw' \<and> wholeLines raw' \<and> distinct answers \<and> set answers \<inter> loadProgress (Some raw) = {} \<and>
      loadProgress (Some raw') = loadProgress (Some raw) \<union> set answers"
    using assms(1) envs runs unfolding eventSweep_def by (intro events.runs [where envs = envs]) auto
  moreover have "set (swAsked (eventSweep env f)) = sampledIDs (envWorld env) - loadProgress f"
    if "env \<in> set envs" "\<not> envDry env" "\<forall>i. \<not> envStop env i" for env
  proof -
    let ?todo = "planEvents (envWorld env) (loadProgress f)"
    have "set (envOrder env ?todo) = set ?todo" using envs that(1) by (metis set_mset_mset)
    with that planEvents_inv [of "envWorld env" "loadProgress f"] show ?thesis
      by (auto simp: eventSweep_def sweepRun_def Let_def sweepLoop_all)
  qed
  ultimately show ?thesis by blast
qed

definition twoEvents :: "(nat \<Rightarrow> eventTarget \<Rightarrow> (string, int \<times> int) result) \<Rightarrow> (eventWorld, eventTarget) sweepEnv" where
  "twoEvents answers = \<lparr>envWorld = \<lparr>only = ''redacted, random'', sample = \<lambda>st. if st = ''random'' then Inr [''$b'', ''$a''] else Inr [''$a'']\<rparr>,
     envOrder = rev, envDry = False, envStop = \<lambda>i. False, envAsk = answers\<rparr>"

theorem sweeps_resume_witness:
  "sweepRuns eventSweep [twoEvents (\<lambda>i t. if i = 0 then Inl ''timeout'' else Inr (200, 9)), twoEvents (\<lambda>i t. Inr (403, 2))] (Some '''') =
     (Some (''$a'' @ [newline] @ ''$b'' @ [newline]), [''$a'', ''$b'']) \<and>
   loadProgress (Some (''$a'' @ [newline] @ ''$b'' @ [newline])) = {''$a'', ''$b''}"
proof -
  let ?e1 = "twoEvents (\<lambda>i t. if i = 0 then Inl ''timeout'' else Inr (200, 9))"
  let ?e2 = "twoEvents (\<lambda>i t. Inr (403, 2))"
  have run: "sweepRuns eventSweep [?e1, ?e2] (Some '''') = (Some (''$a'' @ [newline] @ ''$b'' @ [newline]), [''$a'', ''$b''])" by code_simp
  have "cleanID ''$a''" "cleanID ''$b''" by code_simp+
  moreover have "sampledIDs (envWorld (twoEvents x)) \<subseteq> {''$a'', ''$b''}" for x by (auto simp: sampledIDs_def twoEvents_def split: if_splits)
  ultimately have "\<forall>env \<in> set [?e1, ?e2]. (\<forall>xs. mset (envOrder env xs) = mset xs) \<and> (\<forall>i \<in> sampledIDs (envWorld env). cleanID i)"
    by (auto simp: twoEvents_def)
  from sweeps_resume [OF _ this run] run show ?thesis by (auto simp: wholeLines_def loadProgress_def)
qed

subsection \<open>The targets of the other sweeps\<close>

text \<open>The two queries: an ancestor named to \<open>/get_missing_events\<close> lies exactly \<open>depth\<close> steps behind the named
  extremity, and a room is named whenever there is one.\<close>

definition prevOf :: "sweepDB \<Rightarrow> (string \<times> string) set" where
  "prevOf db = {(e, p). (e, p, False) \<in> set (dbEdges db)}"

lemma walkBack_exact: "(r, t, c) \<in> set (walkBack db n) \<longleftrightarrow> (r, t) \<in> set (tips db) \<and> (t, c) \<in> prevOf db ^^ n"
proof (induction n arbitrary: c)
  case (Suc n)
  have step: "(r, t, c) \<in> set (backStep db rows) \<longleftrightarrow> (\<exists>b. (r, t, b) \<in> set rows \<and> (b, c) \<in> prevOf db)" for rows
    by (auto simp: backStep_def prevOf_def image_iff Bex_def)
  have "(r, t, c) \<in> set (walkBack db (Suc n)) \<longleftrightarrow> (\<exists>b. (r, t, b) \<in> set (walkBack db n) \<and> (b, c) \<in> prevOf db)"
    by (simp only: walkBack.simps step)
  with Suc show ?case by (auto simp: relcomp_unfold)
qed auto

theorem targets_are_ancestors:
  assumes "loadTargets db d = Inr ts" and "0 \<le> d"
  shows "(t \<in> set ts \<longrightarrow> (Room t, Latest t) \<in> set (tips db) \<and> (Latest t, Earliest t) \<in> prevOf db ^^ nat d) \<and>
    ((r, l) \<in> set (tips db) \<and> (l, c) \<in> prevOf db ^^ nat d \<longrightarrow> (\<exists>t \<in> set ts. Room t = r \<and> Latest t = l \<and> Earliest t \<le> c))"
proof -
  let ?rows = "walkBack db (nat d)"
  let ?cs = "\<lambda>r l. set (map (\<lambda>x. snd (snd x)) (filter (\<lambda>x. fst x = r \<and> fst (snd x) = l) ?rows))"
  have ts: "ts = targetsAt ?rows" using assms by (auto simp: loadTargets_def split: if_splits)
  have cs: "c \<in> ?cs r l \<longleftrightarrow> (r, l, c) \<in> set ?rows" for r l c by force
  have mem: "t \<in> set ts \<longleftrightarrow> (\<exists>c. (Room t, Latest t, c) \<in> set ?rows) \<and> Earliest t = Min (?cs (Room t) (Latest t))" for t :: target
    unfolding ts targetsAt_def by (cases t) force
  show ?thesis
  proof (intro conjI impI)
    assume "t \<in> set ts"
    then have e: "Earliest t = Min (?cs (Room t) (Latest t))" and "\<exists>c. (Room t, Latest t, c) \<in> set ?rows" using mem by blast+
    then have ne: "?cs (Room t) (Latest t) \<noteq> {}" unfolding cs [symmetric] by (metis empty_iff)
    have "Earliest t \<in> ?cs (Room t) (Latest t)" unfolding e by (rule Min_in) (use ne in auto)
    then show "(Room t, Latest t) \<in> set (tips db)" "(Latest t, Earliest t) \<in> prevOf db ^^ nat d"
      unfolding cs walkBack_exact by auto
  next
    assume "(r, l) \<in> set (tips db) \<and> (l, c) \<in> prevOf db ^^ nat d"
    then have c: "(r, l, c) \<in> set ?rows" unfolding walkBack_exact .
    then have "Min (?cs r l) \<le> c" by (intro Min_le) (simp, simp only: cs)
    moreover have "\<lparr>Room = r, Latest = l, Earliest = Min (?cs r l)\<rparr> \<in> set ts"
      unfolding mem target.select_convs using c by blast
    ultimately show "\<exists>t \<in> set ts. Room t = r \<and> Latest t = l \<and> Earliest t \<le> c" by (intro bexI [of _ "\<lparr>Room = r, Latest = l, Earliest = Min (?cs r l)\<rparr>"]) (simp_all only: target.select_convs simp_thms)
  qed
qed

text \<open>The size of a room in \<open>loadRooms\<close> is not the number of its state events but that number times the number
  of its forward extremities, so the bounds on the size count a room with two extremities twice.\<close>

lemma room_size_is_a_product:
  assumes "r \<in> set (map fst (roomRows db))"
  shows "StateEvents (roomOf (roomRows db) r) =
    count_list (dbState db) r * length (filter (\<lambda>f. fst f = r) (dbTips db)) * count_list (dbRooms db) r"
proof -
  have inner: "(\<Sum>f \<leftarrow> fs. length (filter (\<lambda>x. fst x = r) (map (\<lambda>q. (c, snd f)) (filter (\<lambda>q. q = c) rs)))) =
      (if c = r then length fs * count_list rs r else 0)" for c rs and fs :: "(string \<times> string) list"
  proof (induction fs)
    case (Cons f fs)
    have "length (filter (\<lambda>q. q = c) rs) = count_list rs c" by (induction rs) auto
    with Cons show ?case by (auto simp: comp_def)
  qed auto
  have sums: "(\<Sum>c \<leftarrow> cs. if c = r then n c * m else 0) = count_list cs r * (n r * m)" for cs n and m :: nat
    by (induction cs) auto
  have "length (filter (\<lambda>x. fst x = r) (roomRows db)) =
      (\<Sum>c \<leftarrow> dbState db. if c = r then length (filter (\<lambda>f. fst f = c) (dbTips db)) * count_list (dbRooms db) r else 0)"
    unfolding roomRows_def filter_concat length_concat map_map comp_def inner ..
  also have "\<dots> = count_list (dbState db) r * (length (filter (\<lambda>f. fst f = r) (dbTips db)) * count_list (dbRooms db) r)"
    by (rule sums)
  finally show ?thesis by (simp add: roomOf_def Let_def mult.assoc)
qed

end
