(* ===== verification/Strata.thy ===== *)
theory Strata
  imports Sweeps Answers
begin

text \<open>
  The strata of \<open>eventsweep\<close>: the ten statements that sample events by what may go wrong with them,
  and how they meet the worker that is asked for these events.  Text functions and wildcards are
  those of PostgreSQL.  What the statements leave open is a parameter: the order of the rows, which
  is random or the server's choice, and the part of a table that \<open>TABLESAMPLE\<close> looks at.
\<close>

section \<open>Text\<close>

text \<open>The text before the first delimiter, and what follows it.\<close>

fun breakAt :: "string \<Rightarrow> string \<Rightarrow> string \<times> string option" where
  "breakAt dl [] = ([], None)"
| "breakAt dl (x # xs) =
     (if hasPrefix (x # xs) dl then ([], Some (drop (length dl) (x # xs)))
      else (case breakAt dl xs of (a, b) \<Rightarrow> (x # a, b)))"

text \<open>\<open>split_part\<close>, which counts its fields from one and has empty fields behind the last.\<close>

fun split_part :: "string \<Rightarrow> string \<Rightarrow> nat \<Rightarrow> string" where
  "split_part s dl 0 = []"
| "split_part s dl (Suc 0) = fst (breakAt dl s)"
| "split_part s dl (Suc (Suc n)) = (case snd (breakAt dl s) of None \<Rightarrow> [] | Some rest \<Rightarrow> split_part rest dl (Suc n))"

definition dquote :: char where
  "dquote = CHR 0x22"

definition visibilityProbe :: "string \<Rightarrow> string" where
  "visibilityProbe js =
     split_part (split_part js ([dquote] @ ''history_visibility'' @ [dquote, CHR '':'', dquote]) 2) [dquote] 1"

text \<open>\<open>LIKE\<close>: \<open>%\<close> stands for any text, \<open>_\<close> for any character, a backslash for the character behind it.\<close>

fun like :: "string \<Rightarrow> string \<Rightarrow> bool" where
  "like [] s \<longleftrightarrow> s = []"
| "like (p # ps) [] \<longleftrightarrow> p = CHR ''%'' \<and> like ps []"
| "like (p # ps) (c # s) \<longleftrightarrow>
     (if p = CHR ''%'' then like ps (c # s) \<or> like (p # ps) s
      else if p = CHR ''_'' then like ps s
      else if p = CHR 0x5C then (case ps of [] \<Rightarrow> False | q # qs \<Rightarrow> c = q \<and> like qs s)
      else c = p \<and> like ps s)"

definition plainName :: "string \<Rightarrow> bool" where
  "plainName s \<longleftrightarrow> \<not> containsAny s (''%_'' @ [CHR 0x5C])"

lemma like_plain: "plainName p \<Longrightarrow> like p s \<longleftrightarrow> s = p"
proof (induction p arbitrary: s)
  case (Cons x p)
  then show ?case by (cases s) (auto simp: plainName_def containsAny_def)
qed simp

lemma like_any: "like (CHR ''%'' # ps) s \<longleftrightarrow> (\<exists>n. like ps (drop n s))"
proof (induction s)
  case (Cons c s)
  have "(\<exists>n. like ps (drop n (c # s))) \<longleftrightarrow> like ps (c # s) \<or> (\<exists>n. like ps (drop n s))"
    by (metis drop0 drop_Suc_Cons not0_implies_Suc)
  with Cons show ?case by simp
qed simp

text \<open>So a user is matched when its name ends in the server's, for a server name without wildcards.\<close>

lemma like_server: "plainName server \<Longrightarrow> like (''%:'' @ server) u \<longleftrightarrow> hasSuffix u (CHR '':'' # server)"
proof -
  assume "plainName server"
  then have "plainName (CHR '':'' # server)" by (simp add: plainName_def containsAny_def)
  from like_plain [OF this] have "like (''%:'' @ server) u \<longleftrightarrow> (\<exists>n. drop n u = CHR '':'' # server)"
    by (simp add: like_any)
  also have "\<dots> \<longleftrightarrow> hasSuffix u (CHR '':'' # server)" unfolding hasSuffix_iff
    by (metis append_eq_conv_conj append_take_drop_id)
  finally show ?thesis .
qed

section \<open>The statements\<close>

text \<open>The tables the sweep reads beside those of the store: the text of \<open>event_json\<close> and
  \<open>room_memberships\<close> (event, user and membership).\<close>

record sweepTables =
  swDb :: database
  swJson :: "(string \<times> string) list"
  swMembers :: "(string \<times> string \<times> string) list"

definition hvRows :: "sweepTables \<Rightarrow> (string \<times> string) list" where
  "hvRows t =
     concat (map (\<lambda>e. map (\<lambda>j. (ev_room e, visibilityProbe (snd j))) (filter (\<lambda>j. fst j = ev_id e) (swJson t)))
       (filter (\<lambda>e. ev_type e = ''m.room.history_visibility'') (t_events (swDb t))))"

definition publicSettings :: "string list" where
  "publicSettings = [''shared'', ''world_readable'']"

definition restrictiveRooms :: "sweepTables \<Rightarrow> string list" where
  "restrictiveRooms t =
     filter (\<lambda>room. \<not> list_ex (\<lambda>(r, v). r = room \<and> v \<in> set publicSettings) (hvRows t)) (remdups (map fst (hvRows t)))"

definition joinStreams :: "string \<Rightarrow> sweepTables \<Rightarrow> string \<Rightarrow> int list" where
  "joinStreams server t room =
     concat (map (\<lambda>e. map (\<lambda>m. ev_stream e)
         (filter (\<lambda>(i, u, ms). i = ev_id e \<and> like (''%:'' @ server) u \<and> ms = ''join'') (swMembers t)))
       (filter (\<lambda>e. ev_room e = room) (t_events (swDb t))))"

definition firstJoin :: "string \<Rightarrow> sweepTables \<Rightarrow> (string \<times> int) list" where
  "firstJoin server t =
     concat (map (\<lambda>room. case joinStreams server t room of [] \<Rightarrow> [] | so # sos \<Rightarrow> [(room, fold min sos so)]) (restrictiveRooms t))"

text \<open>\<open>row_number\<close> over the rows of a partition, the greatest first; stream orderings are unique.\<close>

definition rowNumber :: "('r \<Rightarrow> string) \<Rightarrow> ('r \<Rightarrow> int) \<Rightarrow> 'r list \<Rightarrow> 'r \<Rightarrow> nat" where
  "rowNumber part ord rows x = Suc (length (filter (\<lambda>y. part y = part x \<and> ord x < ord y) rows))"

definition invisibleQuery :: "string \<Rightarrow> sweepTables \<Rightarrow> string list" where
  "invisibleQuery server t =
     (let fj = firstJoin server t;
          rows = filter (\<lambda>e. ev_room e \<in> set (restrictiveRooms t) \<and> list_ex (\<lambda>(r, so). r = ev_room e \<and> ev_stream e < so) fj)
            (t_events (swDb t)) in
      map ev_id (filter (\<lambda>e. rowNumber ev_room ev_stream rows e \<le> 10) rows))"

definition redactedQuery :: "sweepTables \<Rightarrow> string list" where
  "redactedQuery t = concat (map (\<lambda>r. case rd_redacts r of None \<Rightarrow> [] | Some i \<Rightarrow> [i]) (t_redactions (swDb t)))"

definition banRedactedQuery :: "sweepTables \<Rightarrow> string list" where
  "banRedactedQuery t =
     concat (map (\<lambda>b. map ev_id (filter (\<lambda>e. ev_room e = bn_room b \<and> ev_sender e = bn_user b \<and> ev_type e \<noteq> ''m.room.create'')
       (t_events (swDb t)))) (t_bans (swDb t)))"

definition erasedQuery :: "sweepTables \<Rightarrow> string list" where
  "erasedQuery t = concat (map (\<lambda>u. map ev_id (filter (\<lambda>e. ev_sender e = u) (t_events (swDb t)))) (t_erased (swDb t)))"

definition rareVersions :: "string list" where
  "rareVersions = [''1'', ''2'', ''3'', ''4'', ''7'', ''12'']"

definition rareVersionQuery :: "sweepTables \<Rightarrow> string list" where
  "rareVersionQuery t =
     (let rows = concat (map (\<lambda>e. concat (map (\<lambda>(r, v, _). case v of
              None \<Rightarrow> [] | Some ver \<Rightarrow> if r = ev_room e \<and> ver \<in> set rareVersions then [(ver, e)] else []) (t_rooms (swDb t))))
            (t_events (swDb t))) in
      map (\<lambda>p. ev_id (snd p)) (filter (\<lambda>p. rowNumber fst (\<lambda>p. ev_stream (snd p)) rows p \<le> 60) rows))"

text \<open>The order of the rows by stratum, and the rows of \<open>events\<close> that \<open>TABLESAMPLE\<close> looks at.\<close>

record sampling =
  arrange :: "string \<Rightarrow> string list \<Rightarrow> string list"
  scanned :: "string \<Rightarrow> eventsRow list \<Rightarrow> eventsRow list"

definition stratumQuery :: "sampling \<Rightarrow> string \<Rightarrow> sweepTables \<Rightarrow> string \<Rightarrow> string list" where
  "stratumQuery c server t st =
     (let evs = t_events (swDb t) in
      if st = ''invisible'' then invisibleQuery server t
      else if st = ''redacted'' then redactedQuery t
      else if st = ''ban_redacted'' then banRedactedQuery t
      else if st = ''rejected'' then map fst (t_rejections (swDb t))
      else if st = ''outlier'' then map ev_id (filter ev_outlier (scanned c st evs))
      else if st = ''erased'' then erasedQuery t
      else if st = ''rare_room_version'' then rareVersionQuery t
      else if st = ''create_events'' then map ev_id (filter (\<lambda>e. ev_type e = ''m.room.create'') evs)
      else if st = ''state_events'' then map ev_id (filter (\<lambda>e. ev_state_key e \<noteq> None) (scanned c st evs))
      else map ev_id (scanned c st evs))"

text \<open>\<open>sample\<close>: the rows within the limit, which must not be negative; an error anywhere loses the stratum.\<close>

definition sampleStratum :: "sampling \<Rightarrow> sweepTables \<Rightarrow> int \<Rightarrow> string \<Rightarrow> string \<Rightarrow> (string, string list) result" where
  "sampleStratum c t n server st =
     (if n < 0 then Inl ''LIMIT must not be negative''
      else (case queryRows (swDb t) st (take (nat n) (arrange c st (stratumQuery c server t st))) of
              Inl (QueryError q e) \<Rightarrow> Inl e
            | Inl e \<Rightarrow> Inl ''''
            | Inr ids \<Rightarrow> Inr ids))"

definition sweepWorld :: "sampling \<Rightarrow> sweepTables \<Rightarrow> int \<Rightarrow> string \<Rightarrow> string \<Rightarrow> eventWorld" where
  "sweepWorld c t n server names = \<lparr>only = names, sample = sampleStratum c t n server\<rparr>"

text \<open>The statements only choose among the rows there are.\<close>

definition samples :: "sampling \<Rightarrow> bool" where
  "samples c \<longleftrightarrow> (\<forall>st ids. mset (arrange c st ids) = mset ids) \<and> (\<forall>st rows. mset (scanned c st rows) \<subseteq># mset rows)"

section \<open>What a stratum holds\<close>

definition neverPublic :: "sweepTables \<Rightarrow> string \<Rightarrow> bool" where
  "neverPublic t room \<longleftrightarrow> (\<exists>v. (room, v) \<in> set (hvRows t)) \<and> (\<forall>v. (room, v) \<in> set (hvRows t) \<longrightarrow> v \<notin> set publicSettings)"

text \<open>A local user has joined, and none had when the event arrived.\<close>

definition joinsOf :: "string \<Rightarrow> sweepTables \<Rightarrow> string \<Rightarrow> int set" where
  "joinsOf server t room =
     {ev_stream e | e u. e \<in> set (t_events (swDb t)) \<and> ev_room e = room \<and> (ev_id e, u, ''join'') \<in> set (swMembers t) \<and>
        like (''%:'' @ server) u}"

definition beforeUs :: "string \<Rightarrow> sweepTables \<Rightarrow> eventsRow \<Rightarrow> bool" where
  "beforeUs server t e \<longleftrightarrow> joinsOf server t (ev_room e) \<noteq> {} \<and> (\<forall>so \<in> joinsOf server t (ev_room e). ev_stream e < so)"

text \<open>The events a stratum is about, before any cap or sample.\<close>

definition inStratum :: "string \<Rightarrow> sweepTables \<Rightarrow> string \<Rightarrow> eventsRow \<Rightarrow> bool" where
  "inStratum server t st e \<longleftrightarrow>
     (if st = ''invisible'' then neverPublic t (ev_room e) \<and> beforeUs server t e
      else if st = ''ban_redacted'' then
        ev_type e \<noteq> ''m.room.create'' \<and> (\<exists>b \<in> set (t_bans (swDb t)). bn_room b = ev_room e \<and> bn_user b = ev_sender e)
      else if st = ''outlier'' then ev_outlier e
      else if st = ''erased'' then ev_sender e \<in> set (t_erased (swDb t))
      else if st = ''rare_room_version'' then \<exists>v p. (ev_room e, Some v, p) \<in> set (t_rooms (swDb t)) \<and> v \<in> set rareVersions
      else if st = ''create_events'' then ev_type e = ''m.room.create''
      else if st = ''state_events'' then ev_state_key e \<noteq> None
      else st = ''random'')"

definition belongs :: "string \<Rightarrow> sweepTables \<Rightarrow> string \<Rightarrow> string \<Rightarrow> bool" where
  "belongs server t st i \<longleftrightarrow>
     (if st = ''redacted'' then \<exists>r \<in> set (t_redactions (swDb t)). rd_redacts r = Some i
      else if st = ''rejected'' then i \<in> fst ` set (t_rejections (swDb t))
      else \<exists>e \<in> set (t_events (swDb t)). ev_id e = i \<and> inStratum server t st e)"

lemma restrictive_iff: "room \<in> set (restrictiveRooms t) \<longleftrightarrow> neverPublic t room"
  by (force simp: restrictiveRooms_def neverPublic_def list_ex_iff)

lemma joinStreams_set: "set (joinStreams server t room) = joinsOf server t room"
  by (force simp: joinStreams_def joinsOf_def)

lemma fold_min: "fold min xs (x :: int) = Min (insert x (set xs))"
proof (induction xs arbitrary: x)
  case (Cons y xs)
  have "Min (insert (min y x) (set xs)) = Min (insert x (insert y (set xs)))"
    by (cases "xs = []") (simp_all add: min.assoc min.left_commute min.commute)
  with Cons show ?case by simp
qed simp

lemma firstJoin_iff: "(room, so) \<in> set (firstJoin server t) \<longleftrightarrow>
    neverPublic t room \<and> joinsOf server t room \<noteq> {} \<and> so = Min (joinsOf server t room)"
proof (cases "joinStreams server t room")
  case Nil
  then have "joinsOf server t room = {}" using joinStreams_set [of server t room] by simp
  then show ?thesis using Nil by (auto simp: firstJoin_def restrictive_iff split: list.splits)
next
  case (Cons x xs)
  then have j: "joinsOf server t room = insert x (set xs)" using joinStreams_set [of server t room] by simp
  have "(room, so) \<in> set (firstJoin server t) \<longleftrightarrow> room \<in> set (restrictiveRooms t) \<and>
      (room, so) \<in> set (case joinStreams server t room of [] \<Rightarrow> [] | so # sos \<Rightarrow> [(room, fold min sos so)])"
    by (auto simp: firstJoin_def split: list.splits)
  then show ?thesis by (simp add: Cons restrictive_iff fold_min j)
qed

lemma firstJoin_before: "list_ex (\<lambda>(r, so). r = ev_room e \<and> ev_stream e < so) (firstJoin server t) \<longleftrightarrow>
    neverPublic t (ev_room e) \<and> beforeUs server t e"
proof -
  have "finite (joinsOf server t (ev_room e))" by (metis joinStreams_set List.finite_set)
  then have "(\<exists>so. (ev_room e, so) \<in> set (firstJoin server t) \<and> ev_stream e < so) \<longleftrightarrow> neverPublic t (ev_room e) \<and> beforeUs server t e"
    by (cases "joinsOf server t (ev_room e) = {}") (simp_all add: firstJoin_iff beforeUs_def)
  moreover have "list_ex (\<lambda>(r, so). r = ev_room e \<and> ev_stream e < so) (firstJoin server t) \<longleftrightarrow>
      (\<exists>so. (ev_room e, so) \<in> set (firstJoin server t) \<and> ev_stream e < so)" by (auto simp: list_ex_iff)
  ultimately show ?thesis by simp
qed

text \<open>The rows of the \<open>invisible\<close> stratum before its cap.\<close>

lemma invisibleQuery_rows:
  "invisibleQuery server t =
     (let rows = filter (inStratum server t ''invisible'') (t_events (swDb t)) in
      map ev_id (filter (\<lambda>e. rowNumber ev_room ev_stream rows e \<le> 10) rows))"
proof -
  have "(\<lambda>e. ev_room e \<in> set (restrictiveRooms t) \<and> list_ex (\<lambda>(r, so). r = ev_room e \<and> ev_stream e < so) (firstJoin server t)) =
      inStratum server t ''invisible''"
    by (intro ext) (auto simp: inStratum_def firstJoin_before restrictive_iff)
  then show ?thesis unfolding invisibleQuery_def Let_def by (simp only:)
qed

lemma rareVersion_belongs: "set (rareVersionQuery t) \<subseteq> {i. belongs server t ''rare_room_version'' i}"
proof -
  have "inStratum server t ''rare_room_version'' e" if "(r, v, p) \<in> set (t_rooms (swDb t))"
    "(ver, e) \<in> set (case v of None \<Rightarrow> [] | Some ver \<Rightarrow> if r = ev_room x \<and> ver \<in> set rareVersions then [(ver, x)] else [])" for x r v p ver e
    using that by (auto simp: inStratum_def split: option.splits if_splits)
  moreover have "e = x" if "(ver, e) \<in> set (case v of None \<Rightarrow> [] | Some ver \<Rightarrow> if r = ev_room x \<and> ver \<in> set rareVersions then [(ver, x)] else [])" for x r v ver e
    using that by (auto split: option.splits if_splits)
  ultimately show ?thesis unfolding rareVersionQuery_def Let_def belongs_def by (clarsimp; blast)
qed

lemma scanned_subset: "samples c \<Longrightarrow> set (scanned c st rows) \<subseteq> set rows"
  unfolding samples_def by (metis set_mset_mset set_mset_mono)

lemma stratumQuery_belongs:
  assumes "samples c" and "st \<in> set strata"
  shows "set (stratumQuery c server t st) \<subseteq> {i. belongs server t st i}"
proof -
  note sub = scanned_subset [OF assms(1), of st "t_events (swDb t)"]
  have "st = ''invisible'' \<or> st = ''redacted'' \<or> st = ''ban_redacted'' \<or> st = ''rejected'' \<or> st = ''outlier'' \<or> st = ''erased'' \<or>
      st = ''rare_room_version'' \<or> st = ''create_events'' \<or> st = ''state_events'' \<or> st = ''random''"
    using assms(2) by (simp add: strata_def)
  then show ?thesis
  proof (elim disjE)
    assume "st = ''invisible''"
    then show ?thesis by (auto simp: stratumQuery_def invisibleQuery_rows belongs_def Let_def)
  next
    assume "st = ''rare_room_version''"
    then show ?thesis using rareVersion_belongs by (simp add: stratumQuery_def Let_def)
  next
    assume "st = ''redacted''"
    then show ?thesis by (auto simp: stratumQuery_def redactedQuery_def belongs_def split: option.splits)
  next
    assume "st = ''ban_redacted''"
    then show ?thesis by (fastforce simp: stratumQuery_def banRedactedQuery_def belongs_def inStratum_def)
  qed (use sub in \<open>auto simp: stratumQuery_def erasedQuery_def belongs_def inStratum_def\<close>)
qed

text \<open>The statements that scan a whole table and have no cap hold all of their stratum.\<close>

definition uncapped :: "string list" where
  "uncapped = [''redacted'', ''ban_redacted'', ''rejected'', ''erased'', ''create_events'']"

lemma uncapped_all:
  assumes "st \<in> set uncapped"
  shows "set (stratumQuery c server t st) = {i. belongs server t st i}"
proof -
  have "st = ''redacted'' \<or> st = ''ban_redacted'' \<or> st = ''rejected'' \<or> st = ''erased'' \<or> st = ''create_events''"
    using assms by (simp add: uncapped_def)
  then show ?thesis
  proof (elim disjE)
    assume "st = ''redacted''"
    then show ?thesis by (force simp: stratumQuery_def redactedQuery_def belongs_def split: option.splits)
  next
    assume "st = ''ban_redacted''"
    then show ?thesis by (force simp: stratumQuery_def banRedactedQuery_def belongs_def inStratum_def)
  qed (force simp: stratumQuery_def erasedQuery_def belongs_def inStratum_def)+
qed

text \<open>The cap of the \<open>invisible\<close> stratum leaves a room without an event only when the room has none in it.\<close>

lemma newest_row:
  assumes "x \<in> set rows"
  shows "\<exists>y \<in> set rows. part y = part x \<and> rowNumber part ord rows y = 1"
proof -
  let ?p = "filter (\<lambda>y. part y = part x) rows"
  let ?m = "Max (ord ` set ?p)"
  have fin: "finite (ord ` set ?p)" "ord ` set ?p \<noteq> {}" using assms by auto
  from Max_in [OF fin] obtain y where y: "y \<in> set ?p" "ord y = ?m" by auto
  have "ord z \<le> ord y" if "z \<in> set ?p" for z unfolding y(2) using that fin by (intro Max_ge) auto
  with y(1) have "filter (\<lambda>z. part z = part y \<and> ord y < ord z) rows = []" by (force simp: filter_empty_conv)
  with y show ?thesis by (intro bexI [of _ y]) (auto simp: rowNumber_def)
qed

lemma invisible_every_room:
  assumes "e \<in> set (t_events (swDb t))" and "inStratum server t ''invisible'' e"
  shows "\<exists>e' \<in> set (t_events (swDb t)). ev_room e' = ev_room e \<and> ev_id e' \<in> set (invisibleQuery server t)"
proof -
  let ?rows = "filter (inStratum server t ''invisible'') (t_events (swDb t))"
  from assms newest_row [of e ?rows ev_room ev_stream] obtain y where
    "y \<in> set ?rows" "ev_room y = ev_room e" "rowNumber ev_room ev_stream ?rows y = 1" by auto
  then show ?thesis unfolding invisibleQuery_rows Let_def by (intro bexI [of _ y]) auto
qed

section \<open>The plan\<close>

lemma sampleStratum_Inr:
  assumes "sampleStratum c t n server st = Inr ids"
  shows "ids = take (nat n) (arrange c st (stratumQuery c server t st)) \<and> 0 \<le> n"
  using assms by (auto simp: sampleStratum_def dest!: queryRows_Inr split: if_splits sum.splits storeError.splits)

lemma sampled_belongs:
  assumes "samples c" and "st \<in> set strata" and "sampleStratum c t n server st = Inr ids"
  shows "length ids \<le> nat n \<and> (\<forall>i \<in> set ids. belongs server t st i)"
proof -
  from sampleStratum_Inr [OF assms(3)] have ids: "ids = take (nat n) (arrange c st (stratumQuery c server t st))" by simp
  have "set (arrange c st (stratumQuery c server t st)) = set (stratumQuery c server t st)"
    using assms(1) unfolding samples_def by (metis set_mset_mset)
  with stratumQuery_belongs [OF assms(1,2), of server t] ids show ?thesis by (auto dest: in_set_takeD)
qed

lemma sampled_all:
  assumes "samples c" and "st \<in> set uncapped" and "sampleStratum c t n server st = Inr ids"
    and "length (stratumQuery c server t st) \<le> nat n"
  shows "set ids = {i. belongs server t st i}"
proof -
  have m: "mset (arrange c st (stratumQuery c server t st)) = mset (stratumQuery c server t st)" using assms(1) by (simp add: samples_def)
  then have "length (arrange c st (stratumQuery c server t st)) \<le> nat n" using assms(4) by (metis size_mset)
  with sampleStratum_Inr [OF assms(3)] m uncapped_all [OF assms(2)] show ?thesis by (metis set_mset_mset take_all)
qed

text \<open>A target was sampled by the stratum it is filed under.\<close>

definition filed :: "eventWorld \<Rightarrow> eventTarget \<Rightarrow> bool" where
  "filed w tg \<longleftrightarrow> Stratum tg \<in> set (selectedStrata (only w)) \<and> (\<exists>ids. sample w (Stratum tg) = Inr ids \<and> TargetID tg \<in> set ids)"

lemma claimEvents_filed:
  "\<forall>tg \<in> set (fst acc). P tg \<Longrightarrow> (\<And>i. i \<in> set is \<Longrightarrow> P \<lparr>Stratum = st, TargetID = i\<rparr>) \<Longrightarrow>
    \<forall>tg \<in> set (fst (claimEvents st is dn acc)). P tg"
  by (induction st "is" dn acc rule: claimEvents.induct) auto

lemma planEvents_filed: "tg \<in> set (planEvents w dn) \<Longrightarrow> filed w tg"
proof -
  let ?f = "\<lambda>st acc. case sample w st of Inl e \<Rightarrow> acc | Inr js \<Rightarrow> claimEvents st js dn acc"
  have "\<forall>tg \<in> set (fst (fold ?f sts acc)). filed w tg"
    if "\<forall>tg \<in> set (fst acc). filed w tg" "set sts \<subseteq> set (selectedStrata (only w))" for sts acc
    using that
  proof (induction sts arbitrary: acc)
    case (Cons st sts)
    have "\<forall>tg \<in> set (fst (?f st acc)). filed w tg"
    proof (cases "sample w st")
      case (Inr ids)
      with Cons.prems show ?thesis by simp (rule claimEvents_filed, auto simp: filed_def)
    qed (use Cons.prems in simp)
    with Cons.IH [of "?f st acc"] Cons.prems show ?case by simp
  qed simp
  from this [of "([], {})" "selectedStrata (only w)"] show "tg \<in> set (planEvents w dn) \<Longrightarrow> filed w tg" by (simp add: planEvents_def)
qed

lemma selected_strata: "set (selectedStrata names) \<subseteq> set strata"
  by (auto simp: selectedStrata_def Let_def)

lemma planned_per_stratum:
  assumes "samples c"
  shows "length (filter (\<lambda>tg. Stratum tg = st) (planEvents (sweepWorld c t n server names) dn)) \<le> nat n"
proof (cases "filter (\<lambda>tg. Stratum tg = st) (planEvents (sweepWorld c t n server names) dn)")
  case (Cons tg0 rest)
  let ?plan = "planEvents (sweepWorld c t n server names) dn"
  let ?mine = "filter (\<lambda>tg. Stratum tg = st) ?plan"
  have f: "filed (sweepWorld c t n server names) tg" "Stratum tg = st" if "tg \<in> set ?mine" for tg
    using that planEvents_filed by auto
  have "tg0 \<in> set ?mine" unfolding Cons by simp
  from f [OF this] obtain ids where ids: "sampleStratum c t n server st = Inr ids" "st \<in> set (selectedStrata names)"
    by (auto simp: filed_def sweepWorld_def)
  have "TargetID tg \<in> set ids" if "tg \<in> set ?mine" for tg
    using f [OF that] ids(1) by (auto simp: filed_def sweepWorld_def)
  then have "TargetID ` set ?mine \<subseteq> set ids" by blast
  moreover have "distinct (map TargetID ?mine)" using planEvents_inv [of "sweepWorld c t n server names" dn] by (simp add: distinct_map_filter)
  then have "length ?mine = card (TargetID ` set ?mine)" by (metis distinct_card length_map list.set_map)
  moreover have "length ids \<le> nat n" using sampled_belongs [OF assms _ ids(1)] ids(2) selected_strata by blast
  ultimately show ?thesis by (metis List.finite_set card_length card_mono le_trans)
qed simp

text \<open>The plan of an event sweep follows its strata: every event it asks for was not asked for before,
  is asked for once, is filed under a stratum that was selected and belongs to it, and no stratum has
  more than its share; a statement that scans a whole table and finds no more than the share leaves
  nothing of its stratum out.\<close>

theorem plan_follows_the_strata:
  assumes "samples c"
  shows "(\<forall>tg \<in> set (planEvents (sweepWorld c t n server names) dn).
      Stratum tg \<in> set (selectedStrata names) \<and> TargetID tg \<notin> dn \<and> belongs server t (Stratum tg) (TargetID tg)) \<and>
    distinct (map TargetID (planEvents (sweepWorld c t n server names) dn)) \<and>
    length (filter (\<lambda>tg. Stratum tg = st) (planEvents (sweepWorld c t n server names) dn)) \<le> nat n \<and>
    (st \<in> set (selectedStrata names) \<and> st \<in> set uncapped \<and> faults (swDb t) st = None \<and> 0 \<le> n \<and>
      length (stratumQuery c server t st) \<le> nat n \<longrightarrow>
      {i. belongs server t st i} - dn \<subseteq> TargetID ` set (planEvents (sweepWorld c t n server names) dn))"
proof (intro conjI impI ballI)
  let ?w = "sweepWorld c t n server names"
  note inv = planEvents_inv [of ?w dn]
  show "distinct (map TargetID (planEvents ?w dn))" using inv by simp
  show "length (filter (\<lambda>tg. Stratum tg = st) (planEvents ?w dn)) \<le> nat n" by (rule planned_per_stratum [OF assms])
  fix tg assume tg: "tg \<in> set (planEvents ?w dn)"
  from planEvents_filed [OF tg] obtain ids where
    "Stratum tg \<in> set (selectedStrata names)" "sampleStratum c t n server (Stratum tg) = Inr ids" "TargetID tg \<in> set ids"
    by (auto simp: filed_def sweepWorld_def)
  with sampled_belongs [OF assms] selected_strata tg inv
  show "Stratum tg \<in> set (selectedStrata names)" and "TargetID tg \<notin> dn" and "belongs server t (Stratum tg) (TargetID tg)" by blast+
next
  let ?w = "sweepWorld c t n server names"
  assume st: "st \<in> set (selectedStrata names) \<and> st \<in> set uncapped \<and> faults (swDb t) st = None \<and> 0 \<le> n \<and>
      length (stratumQuery c server t st) \<le> nat n"
  then obtain ids where ids: "sampleStratum c t n server st = Inr ids"
    by (auto simp: sampleStratum_def queryRows_def deliver_def)
  from st sampled_all [OF assms _ ids] have "set ids = {i. belongs server t st i}" by blast
  moreover have "set ids \<subseteq> sampledIDs ?w" using st ids by (auto simp: sampledIDs_def sweepWorld_def intro!: bexI [of _ st])
  ultimately have "{i. belongs server t st i} \<subseteq> sampledIDs ?w" by simp
  with planEvents_inv [of ?w dn] show "{i. belongs server t st i} - dn \<subseteq> TargetID ` set (planEvents ?w dn)" by blast
qed

section \<open>Invisible events\<close>

text \<open>What ties the tables of the sweep to the events: the probe reads what the JSON says, which is one of
  the settings there are, and a membership event has its row.\<close>

definition settings :: "string list" where
  "settings = publicSettings @ [HistoryVisibilityInvited, HistoryVisibilityJoined]"

definition recorded :: "sweepTables \<Rightarrow> bool" where
  "recorded t \<longleftrightarrow> (\<forall>row \<in> set (t_events (swDb t)). \<forall>e. eventTruth (swDb t) (ev_id row) = Some e \<longrightarrow>
     (ev_type row = historyVisibilityType \<longrightarrow> historyVisibilityOf (EJSON e) \<in> set settings \<and>
        (\<exists>js. (ev_id row, js) \<in> set (swJson t) \<and> visibilityProbe js = historyVisibilityOf (EJSON e))) \<and>
     (\<forall>u. ev_type row = ''m.room.member'' \<and> ev_state_key row = Some u \<longrightarrow> (ev_id row, u, membershipOf (EJSON e)) \<in> set (swMembers t)))"

text \<open>The state at an event is made of events of its room that had arrived before it.\<close>

definition inOrder :: "database \<Rightarrow> Event \<Rightarrow> bool" where
  "inOrder d e \<longleftrightarrow> (\<forall>key sid. stateAt d e key = Some sid \<longrightarrow>
     (\<exists>row \<in> set (t_events d). ev_id row = sid \<and> ev_room row = Event.RoomID e \<and> ev_type row = Type key \<and>
        ev_state_key row = Some (StateKey key) \<and> ev_stream row \<le> StreamOrdering e))"

lemma stored_row:
  assumes "db_keys d" and "eventTruth d i = Some e" and "row \<in> set (t_events d)" and "ev_id row = i"
  shows "Event.RoomID e = ev_room row \<and> StreamOrdering e = ev_stream row"
proof -
  from assms(2) obtain r where r: "joinedRow d r" "ev_id (q_event r) = i" "e = mkEvent r" by (rule eventTruth_Some)
  then have "q_event r \<in> set (t_events d)" by (simp add: joinedRow_def)
  with assms r(2) have "q_event r = row" by (auto simp: db_keys_def distinct_map dest: inj_onD)
  with r(3) show ?thesis by (simp add: mkEvent_def)
qed

lemma settled_setting:
  assumes "recorded t" and "inOrder (swDb t) e" and "neverPublic t (Event.RoomID e)"
    and "stateAt (swDb t) e visKey = Some vid" and "eventTruth (swDb t) vid = Some v"
  shows "visSetting (swDb t) e \<in> {HistoryVisibilityInvited, HistoryVisibilityJoined}"
proof -
  let ?s = "historyVisibilityOf (EJSON v)"
  from assms(2,4) obtain row where row: "row \<in> set (t_events (swDb t))" "ev_id row = vid" "ev_room row = Event.RoomID e"
    "ev_type row = historyVisibilityType" unfolding inOrder_def visKey_def by (metis StateKey.select_convs(1))
  with assms(1,5) obtain js where js: "?s \<in> set settings" "(vid, js) \<in> set (swJson t)" "visibilityProbe js = ?s"
    unfolding recorded_def by blast
  with row have "(Event.RoomID e, ?s) \<in> set (hvRows t)" by (force simp: hvRows_def historyVisibilityType_def)
  with assms(3) have "?s \<notin> set publicSettings" by (auto simp: neverPublic_def)
  with js(1) have "?s \<in> {HistoryVisibilityInvited, HistoryVisibilityJoined}" by (auto simp: settings_def)
  moreover then have "visSetting (swDb t) e = ?s"
    by (auto simp: visSetting_def assms(4,5) HistoryVisibilityInvited_def HistoryVisibilityJoined_def)
  ultimately show ?thesis by simp
qed

lemma no_member_before_us:
  assumes "recorded t" and "inOrder (swDb t) e" and "plainName server" and "server \<noteq> ''''"
    and "row \<in> set (t_events (swDb t))" and "ev_room row = Event.RoomID e" and "ev_stream row = StreamOrdering e" and "beforeUs server t row"
  shows "\<not> hadMember (swDb t) e server ''join''"
proof
  assume "hadMember (swDb t) e server ''join''"
  then obtain key sid m where m: "stateAt (swDb t) e key = Some sid" "Type key = ''m.room.member''" "serverOf (StateKey key) = server"
    "eventTruth (swDb t) sid = Some m" "membershipOf (EJSON m) = ''join''" by (auto simp: hadMember_def)
  from assms(2) m(1,2) obtain r where r: "r \<in> set (t_events (swDb t))" "ev_id r = sid" "ev_room r = Event.RoomID e"
    "ev_type r = ''m.room.member''" "ev_state_key r = Some (StateKey key)" "ev_stream r \<le> StreamOrdering e" unfolding inOrder_def by metis
  with assms(1) m(4,5) have "(sid, StateKey key, ''join'') \<in> set (swMembers t)" unfolding recorded_def by metis
  moreover have "like (''%:'' @ server) (StateKey key)" using serverOf_suffix [OF m(3) assms(4)] like_server [OF assms(3)] by simp
  ultimately have "ev_stream r \<in> joinsOf server t (ev_room row)" using r(1-3) assms(6) unfolding joinsOf_def
    by (auto intro!: exI [of _ r] exI [of _ "StateKey key"])
  with assms(7,8) r(6) show False by (auto simp: beforeUs_def)
qed


subsection \<open>A room\<close>

text \<open>The room of the answers' example, with the order in which its events arrived, the later join of its
  user, and the text of the setting.  The message may be an outlier, and may be older than the setting.\<close>

definition sweptDb :: "string \<Rightarrow> string \<Rightarrow> bool \<Rightarrow> bool \<Rightarrow> database" where
  "sweptDb setting mem outl early = (visDb mem)\<lparr>
     t_events := [(visRow ''$msg'' ''m.room.message'' None)\<lparr>ev_stream := 3, ev_outlier := outl\<rparr>,
       visRow ''$hv'' ''m.room.history_visibility'' (Some ''''), visRow ''$mem'' ''m.room.member'' (Some ''@s:srv''),
       (visRow ''$now'' ''m.room.member'' (Some ''@s:srv''))\<lparr>ev_stream := 5\<rparr>],
     t_event_json := [visJson ''$msg'' [(''body'', JStr ''secret'')], visJson ''$hv'' [(''history_visibility'', JStr setting)],
       visJson ''$mem'' [(''membership'', JStr mem)], visJson ''$now'' [(''membership'', JStr ''join'')]],
     t_group_state := (if early then id else Cons \<lparr>sr_group = 1, sr_type = ''m.room.history_visibility'', sr_key = '''', sr_event = ''$hv''\<rparr>)
       [\<lparr>sr_group = 1, sr_type = ''m.room.member'', sr_key = ''@s:srv'', sr_event = ''$mem''\<rparr>]\<rparr>"

definition settingText :: "string \<Rightarrow> string" where
  "settingText v = [CHR 0x7B, dquote] @ ''content'' @ [dquote, CHR '':'', CHR 0x7B, dquote] @ ''history_visibility'' @
     [dquote, CHR '':'', dquote] @ v @ [dquote, CHR 0x7D, CHR 0x7D]"

definition sweptTables :: "string \<Rightarrow> string \<Rightarrow> bool \<Rightarrow> bool \<Rightarrow> sweepTables" where
  "sweptTables setting mem outl early = \<lparr>swDb = sweptDb setting mem outl early, swJson = [(''$hv'', settingText setting)],
     swMembers = [(''$mem'', ''@s:srv'', mem), (''$now'', ''@s:srv'', ''join'')]\<rparr>"

definition inTableOrder :: sampling where
  "inTableOrder = \<lparr>arrange = \<lambda>_ ids. ids, scanned = \<lambda>_ rows. rows\<rparr>"

lemma inTableOrder_samples: "samples inTableOrder"
  by (simp add: samples_def inTableOrder_def)

definition sweptPlan :: "string \<Rightarrow> string \<Rightarrow> bool \<Rightarrow> bool \<Rightarrow> string list" where
  "sweptPlan setting mem outl early =
     map TargetID (planEvents (sweepWorld inTableOrder (sweptTables setting mem outl early) 9 ''srv'' ''invisible'') {})"

lemma swept_plan:
  "sweptPlan ''joined'' ''leave'' False False = [''$msg'', ''$hv'', ''$mem'']"
  "sweptPlan ''joined'' ''leave'' True False = [''$msg'', ''$hv'', ''$mem'']"
  "sweptPlan ''joined'' ''leave'' False True = [''$msg'', ''$hv'', ''$mem'']"
  "sweptPlan ''invited'' ''invite'' False False = [''$msg'', ''$hv'', ''$mem'']"
  by code_simp+

lemma swept_ok: "db_keys (sweptDb s m b f)" "noFaults (sweptDb s m b f)" "edges_ok (sweptDb s m b f)"
  by (simp_all add: sweptDb_def visDb_def visRow_def visJson_def db_keys_def sampleDb_def noFaults_def edges_ok_def)

lemmas sweptDb_tables = sweptDb_def visDb_def visRow_def visJson_def leftJoin_def sampleDb_def

definition sweptEvent :: "string \<Rightarrow> string \<Rightarrow> string option \<Rightarrow> (string \<times> json) list \<Rightarrow> int \<Rightarrow> bool \<Rightarrow> Event" where
  "sweptEvent i typ key content so outl =
     \<lparr>Event.EventID = i, Event.RoomID = ''!r'', EType = typ, EStateKey = key, RoomVersion = ''10'', EJSON = ej_json (visJson i content),
      InternalMetadata = Doc (JObj []), StreamOrdering = so, Outlier = outl, FormatVersion = 3, RejectedReason = '''', RedactedBy = ''''\<rparr>"

lemma swept_events:
  "eventTruth (sweptDb s m b f) ''$msg'' = Some (sweptEvent ''$msg'' ''m.room.message'' None [(''body'', JStr ''secret'')] 3 b)"
  "eventTruth (sweptDb s m b f) ''$hv'' = Some (sweptEvent ''$hv'' ''m.room.history_visibility'' (Some '''') [(''history_visibility'', JStr s)] 1 False)"
  "eventTruth (sweptDb s m b f) ''$mem'' = Some (sweptEvent ''$mem'' ''m.room.member'' (Some ''@s:srv'') [(''membership'', JStr m)] 1 False)"
  "eventTruth (sweptDb s m b f) ''$now'' = Some (sweptEvent ''$now'' ''m.room.member'' (Some ''@s:srv'') [(''membership'', JStr ''join'')] 5 False)"
  by (simp_all add: eventTruth_def eventQuery_def sweptDb_tables mkEvent_def sweptEvent_def)

abbreviation sweptMsg :: "bool \<Rightarrow> Event" where
  "sweptMsg b \<equiv> sweptEvent ''$msg'' ''m.room.message'' None [(''body'', JStr ''secret'')] 3 b"

lemma swept_stateAt:
  "stateAt (sweptDb s m b f) (sweptMsg b) key =
    (if b then None else if key = visKey \<and> \<not> f then Some ''$hv''
     else if key = \<lparr>Type = ''m.room.member'', StateKey = ''@s:srv''\<rparr> then Some ''$mem'' else None)"
proof -
  have "stateGroupQuery (sweptDb s m b f) 1 =
      Some ((if f then id else Cons (visKey, ''$hv'')) [(\<lparr>Type = ''m.room.member'', StateKey = ''@s:srv''\<rparr>, ''$mem'')])" for b f
    by (simp add: stateGroupQuery_def sgs_def sweptDb_def visDb_def prevGroups_def groupRows_def distinctOn_def keyOf_def newest_def
        visKey_def historyVisibilityType_def)
  moreover have "groupTruth (sweptDb s m b f) ''$msg'' = Some 1" for b f by (simp add: groupTruth_def sweptDb_def visDb_def)
  ultimately show ?thesis by (simp add: stateAt_def sweptEvent_def)
qed

lemma swept_fields:
  "membershipOf (EJSON (sweptEvent i typ key [(''membership'', JStr m)] so b)) = m"
  "historyVisibilityOf (EJSON (sweptEvent i typ key [(''history_visibility'', JStr m)] so b)) = m"
  "serverOf ''@s:srv'' = ''srv''"
  by code_simp+

lemma swept_visible:
  "visSetting (sweptDb s m b f) (sweptMsg b) = (if b \<or> f \<or> s = '''' then ''shared'' else s)"
  "hadMember (sweptDb s m b f) (sweptMsg b) ''srv'' x \<longleftrightarrow> \<not> b \<and> x = m"
  by (simp_all add: visSetting_def hadMember_def swept_stateAt swept_events swept_fields HistoryVisibilityShared_def)
    (auto simp: swept_events swept_fields visKey_def historyVisibilityType_def)

lemma swept_unredacted: "servedEvent (sweptDb s m b f) (sweptMsg b) = sweptMsg b"
proof -
  have "redactionRows (sweptDb s m b f) i = []" "banOf (sweptDb s m b f) r u = None" for i r u
    by (simp_all add: redactionRows_def banOf_def sweptDb_def visDb_def)
  then show ?thesis by (simp add: servedEvent_def redactionOf_def)
qed

lemma swept_answer:
  "eventAnswer refLib (sweptDb s m b f) 9 ''srv'' ''me'' ''$msg'' = Inr \<lparr>Origin = ''me'', OriginServerTS = 9,
     PDUs = [visMsg (if visibleTo (sweptDb s m b f) (sweptMsg b) ''srv'' ''me'' False ''@u:a'' then [(''body'', JStr ''secret'')] else [])]\<rparr>"
proof -
  let ?b = "ej_json (visJson ''$msg'' [(''body'', JStr ''secret'')])"
  have "joinedQuery (sweptDb s m b f) ''!r'' ''srv'' = [''@s:srv'']"
    by (simp add: joinedQuery_def sweptDb_def visDb_def hasSuffix_def hasPrefix_def)
  then have h: "IsHostInRoom (sweptDb s m b f) ''!r'' ''srv'' = Inr True"
    by (simp add: IsHostInRoom_def containsAny_def swept_ok domainFromID_def)
  have p: "t_partial (sweptDb s m b f) = []" by (simp add: sweptDb_def visDb_def)
  have j: "Event.RoomID (sweptMsg b) = ''!r''" "EJSON (sweptMsg b) = ?b" "\<not> IsRedacted (sweptMsg b)"
    by (simp_all add: sweptEvent_def IsRedacted_def)
  have "redactEvent refLib (sweptMsg False) = Inr (visMsg [])" "redactEvent refLib (sweptMsg True) = Inr (visMsg [])" by code_simp+
  then have red: "redactEvent refLib (sweptMsg b) = Inr (visMsg [])" by (cases b) simp_all
  have snd: "senderOf ?b = Inr ''@u:a''" by code_simp
  show ?thesis by (simp add: eventAnswer_def swept_events swept_unredacted h p j red snd visMsg_wire)
qed

text \<open>The worker's answers about this room.\<close>

lemma swept_served:
  "fst (resolveEvent refLib (sweptDb s m b f) 9 ''srv'' ''me'' ''$msg'' freshResolver) = Inr \<lparr>Origin = ''me'', OriginServerTS = 9,
     PDUs = [visMsg (if visibleTo (sweptDb s m b f) (sweptMsg b) ''srv'' ''me'' False ''@u:a'' then [(''body'', JStr ''secret'')] else [])]\<rparr>"
  using meets_result [OF resolveEvent_meets [OF swept_ok] freshResolver_honest [of "\<lambda>_. True"], of "''srv''"] swept_answer
  by (simp add: containsAny_def)

lemma swept_visibleTo:
  "visibleTo (sweptDb s m b f) (sweptMsg b) ''srv'' ''me'' False ''@u:a'' \<longleftrightarrow>
     b \<or> f \<or> s \<notin> {''invited'', ''joined''} \<or> m = ''join'' \<or> s = ''invited'' \<and> m = ''invite''"
proof -
  have "t_erased (sweptDb s m b f) = []" by (simp add: sweptDb_def visDb_def)
  then show ?thesis by (auto simp: visibleTo_def swept_visible HistoryVisibilityInvited_def HistoryVisibilityJoined_def)
qed

lemma swept_rows: "t_events (sweptDb s m b f) =
    [(visRow ''$msg'' ''m.room.message'' None)\<lparr>ev_stream := 3, ev_outlier := b\<rparr>,
     visRow ''$hv'' ''m.room.history_visibility'' (Some ''''), visRow ''$mem'' ''m.room.member'' (Some ''@s:srv''),
     (visRow ''$now'' ''m.room.member'' (Some ''@s:srv''))\<lparr>ev_stream := 5\<rparr>]"
  by (simp add: sweptDb_def)

lemma swept_recorded: "recorded (sweptTables ''joined'' ''leave'' False False)"
proof -
  have "visibilityProbe (settingText ''joined'') = ''joined''" by code_simp
  moreover have "''joined'' \<in> set settings" by code_simp
  ultimately show ?thesis
    by (simp add: recorded_def sweptTables_def swept_rows visRow_def swept_events swept_fields historyVisibilityType_def)
qed

lemma swept_inOrder: "inOrder (sweptDb ''joined'' ''leave'' False False) (sweptMsg False)"
  unfolding inOrder_def swept_stateAt
  by (auto simp: sweptEvent_def swept_rows visRow_def visKey_def historyVisibilityType_def split: if_splits)


text \<open>Not all of the stratum is hidden, though its description says that Synapse must redact these events
  for us.  In rooms that were never public, among the events that arrived before any user of the server
  had joined, there are some that are served in full: an outlier, an event older than the setting of
  the room, and an event sent after a user of the server had been invited, where the invited may read.\<close>

theorem invisible_stratum_serves_in_full:
  "\<forall>(s, m, b, f) \<in> {(''joined'', ''leave'', True, False), (''joined'', ''leave'', False, True), (''invited'', ''invite'', False, False)}.
     neverPublic (sweptTables s m b f) ''!r'' \<and> ''$msg'' \<in> set (sweptPlan s m b f) \<and>
     fst (resolveEvent refLib (sweptDb s m b f) 9 ''srv'' ''me'' ''$msg'' freshResolver) =
       Inr \<lparr>Origin = ''me'', OriginServerTS = 9, PDUs = [visMsg [(''body'', JStr ''secret'')]]\<rparr>"
proof -
  have "''!r'' \<in> set (restrictiveRooms (sweptTables ''joined'' ''leave'' True False))"
    "''!r'' \<in> set (restrictiveRooms (sweptTables ''joined'' ''leave'' False True))"
    "''!r'' \<in> set (restrictiveRooms (sweptTables ''invited'' ''invite'' False False))" by code_simp+
  then show ?thesis by (simp add: restrictive_iff swept_plan swept_served swept_visibleTo)
qed

text \<open>An example of the plan: one event of the two that were redacted has been asked for already.\<close>

definition redactedTables :: sweepTables where
  "redactedTables = (sweptTables ''joined'' ''leave'' False False)\<lparr>swDb := (sweptDb ''joined'' ''leave'' False False)\<lparr>
     t_redactions := [\<lparr>rd_id = ''$r1'', rd_redacts = Some ''$msg'', rd_recheck = None\<rparr>, \<lparr>rd_id = ''$r2'', rd_redacts = Some ''$mem'', rd_recheck = None\<rparr>,
       \<lparr>rd_id = ''$r3'', rd_redacts = None, rd_recheck = None\<rparr>]\<rparr>\<rparr>"

theorem plan_follows_the_strata_witness:
  "planEvents (sweepWorld inTableOrder redactedTables 2 ''srv'' ''redacted,random'') {''$msg''} =
     [\<lparr>Stratum = ''redacted'', TargetID = ''$mem''\<rparr>, \<lparr>Stratum = ''random'', TargetID = ''$hv''\<rparr>] \<and>
   belongs ''srv'' redactedTables ''redacted'' ''$mem'' \<and> {i. belongs ''srv'' redactedTables ''redacted'' i} - {''$msg''} \<subseteq> {''$mem'', ''$hv''}"
proof -
  have plan: "planEvents (sweepWorld inTableOrder redactedTables 2 ''srv'' ''redacted,random'') {''$msg''} =
     [\<lparr>Stratum = ''redacted'', TargetID = ''$mem''\<rparr>, \<lparr>Stratum = ''random'', TargetID = ''$hv''\<rparr>]" by code_simp
  have q: "length (stratumQuery inTableOrder ''srv'' redactedTables ''redacted'') \<le> nat 2" by code_simp
  have st: "''redacted'' \<in> set (selectedStrata ''redacted,random'')" "''redacted'' \<in> set uncapped" by code_simp+
  have f: "faults (swDb redactedTables) ''redacted'' = None" using swept_ok(2) [of "''joined''" "''leave''" False False]
    by (simp add: redactedTables_def noFaults_def)
  from plan_follows_the_strata [OF inTableOrder_samples, of redactedTables 2 "''srv''" "''redacted,random''" "{''$msg''}" "''redacted''"]
  show ?thesis using q st f by (simp add: plan)
qed

end
