(* ===== verification/Worker.thy ===== *)
theory Worker
  imports Handler Runner Proxy FedAuth
begin

text \<open>
  \<open>cmd/gopro-worker\<close>: how the worker is put together from its configuration, and its own health check.
  What the operating system and the database answer is one record; how the worker ends is in
  \<open>Lifecycle\<close>, and log lines are left out.
\<close>

section \<open>The health check\<close>

definition splitLast :: "char \<Rightarrow> string \<Rightarrow> (string \<times> string) option" where
  "splitLast c s = (case cut c (rev s) of (p, None) \<Rightarrow> None | (p, Some h) \<Rightarrow> Some (rev h, rev p))"

text \<open>\<open>net.SplitHostPort\<close>, with an error as \<open>None\<close>.\<close>

definition SplitHostPort :: "string \<Rightarrow> (string \<times> string) option" where
  "SplitHostPort hostport =
     (case hostport of
        [] \<Rightarrow> None
      | first # rest \<Rightarrow>
          if first = CHR ''['' then
            (case cut (CHR '']'') rest of
               (hst, Some (c # port)) \<Rightarrow>
                 if c = CHR '':'' \<and> CHR '':'' \<notin> set port \<and> CHR ''['' \<notin> set rest \<and> CHR '']'' \<notin> set port then Some (hst, port) else None
             | _ \<Rightarrow> None)
          else
            (case splitLast (CHR '':'') hostport of
               None \<Rightarrow> None
             | Some (hst, port) \<Rightarrow>
                 if CHR '':'' \<in> set hst \<or> CHR ''['' \<in> set hostport \<or> CHR '']'' \<in> set hostport then None else Some (hst, port)))"

definition JoinHostPort :: "string \<Rightarrow> string \<Rightarrow> string" where
  "JoinHostPort hst port = (if CHR '':'' \<in> set hst then ''['' @ hst @ '']:'' @ port else hst @ '':'' @ port)"

definition localAddr :: "string \<Rightarrow> string" where
  "localAddr addr =
     (case SplitHostPort addr of
        None \<Rightarrow> addr
      | Some (hst, port) \<Rightarrow> if hst = '''' \<or> hst = ''0.0.0.0'' \<or> hst = ''::'' then JoinHostPort ''127.0.0.1'' port else addr)"

text \<open>\<open>get\<close> asks a URL, over a unix socket when one is given, and gives the status.\<close>

definition healthcheck :: "(string option \<Rightarrow> string \<Rightarrow> (string, int) result) \<Rightarrow> Listen \<Rightarrow> string option" where
  "healthcheck get l =
     (case (if Socket l \<noteq> '''' then get (Some (Socket l)) ''http://localhost/health''
            else get None (''http://'' @ localAddr (Addr l) @ ''/health'')) of
        Inl e \<Rightarrow> Some e
      | Inr status \<Rightarrow> if status \<noteq> 200 then Some (''health returned '' @ itoa status) else None)"

section \<open>Starting\<close>

datatype removal = Removed | NotThere | RemoveFailed string

text \<open>What the machine answers.  An operation gives \<open>None\<close> when it succeeds and its error otherwise.\<close>

record machine =
  mLevel :: "string \<Rightarrow> string option"
  mLineLen :: "LogRecord \<Rightarrow> nat"
  mDisk :: failures
  mNow :: int
  mDirectory :: directory
  mRegister :: "string option"
  mParseDSN :: "string \<Rightarrow> string option"
  mConnect :: "string option"
  mPing :: "string option"
  mReadOnly :: "(string, string) result"
  mRemove :: "string \<Rightarrow> removal"
  mListen :: "string \<Rightarrow> string option"
  mChmod :: "string \<Rightarrow> int \<Rightarrow> string option"
  mRawLen :: "raw \<Rightarrow> nat"
  mReLen :: "piece list \<Rightarrow> nat"

definition unlessErr :: "string \<Rightarrow> string option \<Rightarrow> (string, 'a) result \<Rightarrow> (string, 'a) result" where
  "unlessErr what e k = (case e of Some msg \<Rightarrow> Inl (what @ msg) | None \<Rightarrow> k)"

definition newLogger :: "machine \<Rightarrow> Config \<Rightarrow> (string, unit) result" where
  "newLogger m cfg = unlessErr ''log: '' (mLevel m (LogLevel cfg)) (Inr ())"

datatype listener = TCPListener string | UnixListener string int

definition listen :: "machine \<Rightarrow> Listen \<Rightarrow> (string, listener) result" where
  "listen m l =
     (if Addr l \<noteq> '''' then unlessErr '''' (mListen m (Addr l)) (Inr (TCPListener (Addr l)))
      else
        (case mRemove m (Socket l) of
           RemoveFailed e \<Rightarrow> Inl (''remove stale socket '' @ Socket l @ '': '' @ e)
         | _ \<Rightarrow>
             unlessErr '''' (mListen m (Socket l))
               (case ParsedSocketMode l of
                  None \<Rightarrow> Inl ''listen: invalid socket_mode''
                | Some mode \<Rightarrow> unlessErr ''chmod socket: '' (mChmod m (Socket l) mode) (Inr (UnixListener (Socket l) mode)))))"

text \<open>\<open>store.Open\<close> and \<open>Store.IsReadOnly\<close>.\<close>

definition Open :: "machine \<Rightarrow> DatabaseCfg \<Rightarrow> (string, store) result" where
  "Open m d =
     unlessErr ''store: parse dsn: '' (mParseDSN m (DSN d))
     (unlessErr ''store: connect: '' (mConnect m)
     (unlessErr ''store: ping: '' (mPing m) (Inr (newCaches (mRawLen m) (CacheCfg d)))))"

definition IsReadOnly :: "machine \<Rightarrow> (string, bool) result" where
  "IsReadOnly m =
     (case mReadOnly m of Inl e \<Rightarrow> Inl (''store: check read-only: '' @ e) | Inr setting \<Rightarrow> Inr (setting = ''on''))"

text \<open>The store, and the subscriber whose goroutine is about to run on it.\<close>

definition startReplication :: "Config \<Rightarrow> store \<Rightarrow> store \<times> subscriber option" where
  "startReplication cfg db =
     (if \<not> replEnabled (ReplicationCfg cfg) then (db, None)
      else
        (case newSubscriber (ReplicationCfg cfg) db of
           Inl e \<Rightarrow> (SetCachesArmed False db, None)
         | Inr sb \<Rightarrow> (caches sb, Some sb)))"

definition openDatabase :: "machine \<Rightarrow> Config \<Rightarrow> (string, (store \<times> subscriber option) option) result" where
  "openDatabase m cfg =
     (if \<not> DatabaseEnabled (Config.DatabaseCfg cfg) then
        (if NeedsDatabase cfg then Inl ''database.dsn is required for the configured endpoint modes'' else Inr None)
      else
        rbind (Open m (Config.DatabaseCfg cfg)) (\<lambda>db.
        let dbs = startReplication cfg db in
        (case IsReadOnly m of
           Inl e \<Rightarrow> Inl (''verify read-only access: '' @ e)
         | Inr readOnly \<Rightarrow> Inr (Some dbs))))"

section \<open>Timeouts\<close>

text \<open>In nanoseconds: the defaults of \<open>fedapi.New\<close>, and its options.\<close>

record timeouts =
  nativeTimeout :: int
  streamTimeout :: int
  streamIdleTimeout :: int
  verifyTimeout :: int

definition defaultTimeouts :: timeouts where
  "defaultTimeouts = \<lparr>nativeTimeout = 5 * second, streamTimeout = 900 * second, streamIdleTimeout = 60 * second, verifyTimeout = 30 * second\<rparr>"

definition WithStreamTimeout :: "int \<Rightarrow> timeouts \<Rightarrow> timeouts" where
  "WithStreamTimeout d t = (if d > 0 then t\<lparr>streamTimeout := d\<rparr> else t)"

definition WithStreamIdleTimeout :: "int \<Rightarrow> timeouts \<Rightarrow> timeouts" where
  "WithStreamIdleTimeout d t = (if d > 0 then t\<lparr>streamIdleTimeout := d\<rparr> else t)"

definition withNativeTimeouts :: "int \<Rightarrow> int \<Rightarrow> timeouts \<Rightarrow> timeouts" where
  "withNativeTimeouts d v t =
     (let t = (if d > 0 then t\<lparr>nativeTimeout := d\<rparr> else t) in if v > 0 then t\<lparr>verifyTimeout := v\<rparr> else t)"

definition nativeOptions :: "Config \<Rightarrow> timeouts \<Rightarrow> timeouts" where
  "nativeOptions cfg t =
     (let n = NativeTimeoutSeconds cfg * second; n = (if n \<le> 0 then 5 * second else n);
          v = ShadowTimeoutSeconds (ShadowCfg cfg) * second; v = (if v \<le> 0 then 30 * second else v) in
      WithStreamIdleTimeout (StreamIdleTimeoutSeconds cfg * second) (WithStreamTimeout (StreamTimeoutSeconds cfg * second) (withNativeTimeouts n v t)))"

section \<open>The worker\<close>

record worker =
  wkProxy :: proxy
  wkDiffs :: "(DiffWriter \<times> directory) option"
  wkStore :: "store option"
  wkSubscriber :: "subscriber option"
  wkListener :: listener
  wkResolver :: "resolver option"
  wkVerifier :: "Verifier option"
  wkRunner :: "runner option"
  wkHandler :: handler
  wkTimeouts :: timeouts
  wkLimited :: "string list"

text \<open>The replay of Synapse's \<open>/state\<close> for a diagnosis: only a 200 that reached the sink is an answer.\<close>

definition replayUpstream :: "Result \<Rightarrow> string option" where
  "replayUpstream res =
     (case rsSinkErr res of
        Some e \<Rightarrow> Some e
      | None \<Rightarrow>
          if rsErr res then Some ''upstream unreachable''
          else if rsStatus res \<noteq> 200 then Some (''upstream answered '' @ itoa (rsStatus res)) else None)"

definition limitedEndpoints :: "Endpoints \<Rightarrow> string list" where
  "limitedEndpoints e = sort (map fst (filter (\<lambda>(name, m). ServesNatively m) (ByName e)))"

text \<open>The options of the verifier; a number of minutes or seconds that is too large wraps.\<close>

definition verifierOptions :: "Config \<Rightarrow> VerifierOptions" where
  "verifierOptions cfg =
     \<lparr>KeyRefetchDelay = wrap64 (KeyRefetchMinutes (AuthCfg cfg) * (60 * 10 ^ 9)), FetchTimeout = wrap64 (AuthTimeoutSeconds (AuthCfg cfg) * 10 ^ 9),
      Notaries = TrustedKeyServers (AuthCfg cfg), HasDB = True\<rparr>"

text \<open>What the parts are built from: the resolver and the runner only with a database and something to compare.\<close>

definition assemble :: "machine \<Rightarrow> natives \<Rightarrow> Config \<Rightarrow> proxy \<Rightarrow> (DiffWriter \<times> directory) option \<Rightarrow> (store \<times> subscriber option) option \<Rightarrow> listener \<Rightarrow> worker" where
  "assemble m nv cfg p diffs db l =
     (let native = (db \<noteq> None \<and> NeedsDatabase cfg);
          runner = (if native then Some (NewRunner (map_option fst diffs) (ShadowConcurrency (ShadowCfg cfg))) else None);
          h = newHandler cfg (runner \<noteq> None) in
      \<lparr>wkProxy = p, wkDiffs = diffs, wkStore = map_option fst db, wkSubscriber = Option.bind db snd, wkListener = l,
       wkResolver = (if native then map_option (\<lambda>d. NewResolver (mReLen m) (fst d)) db else None),
       wkVerifier = (if native then Some (NewVerifier (ServerName cfg) (verifierOptions cfg)) else None),
       wkRunner = map_option (SetStateReplayers True True) runner,
       wkHandler = (if native then WithNative nv h else h),
       wkTimeouts = (if native then nativeOptions cfg defaultTimeouts else defaultTimeouts),
       wkLimited = limitedEndpoints (EndpointsCfg cfg)\<rparr>)"

definition startWorker :: "machine \<Rightarrow> natives \<Rightarrow> Config \<Rightarrow> (string, worker) result" where
  "startWorker m nv cfg =
     rbind (newLogger m cfg) (\<lambda>_.
     rbind (newProxy (UpstreamCfg cfg)) (\<lambda>p.
     rbind (OpenFromConfig (mLineLen m) (mDisk m) (mNow m) (DiffLogCfg cfg) (mDirectory m)) (\<lambda>diffs.
     unlessErr ''register diff log metrics: '' (mRegister m) (
     rbind (openDatabase m cfg) (\<lambda>db.
     rbind (listen m (ListenCfg cfg)) (\<lambda>l. Inr (assemble m nv cfg p diffs db l)))))))"

record cmdFlags =
  flagDiffStats :: string
  flagVersion :: bool
  flagHealthcheck :: bool

datatype runOutcome = Reported string | VersionPrinted | Probed "string option" | Refused string | Started worker

definition runWorker :: "cmdFlags \<Rightarrow> (string option \<Rightarrow> string \<Rightarrow> (string, int) result) \<Rightarrow> machine \<Rightarrow> natives \<Rightarrow>
    (string, Config) result \<Rightarrow> runOutcome" where
  "runWorker fl get m nv loaded =
     (if flagDiffStats fl \<noteq> '''' then Reported (flagDiffStats fl)
      else if flagVersion fl then VersionPrinted
      else
        (case loaded of
           Inl e \<Rightarrow> Refused e
         | Inr cfg \<Rightarrow>
             if flagHealthcheck fl then Probed (healthcheck get (ListenCfg cfg))
             else (case startWorker m nv cfg of Inl e \<Rightarrow> Refused e | Inr w \<Rightarrow> Started w)))"

section \<open>What a started worker can do\<close>

lemma unlessErr_Inr: "unlessErr what e k = Inr x \<longleftrightarrow> e = None \<and> k = Inr x"
  by (cases e) (simp_all add: unlessErr_def)

lemma startWorker_Inr:
  "startWorker m nv cfg = Inr w \<longleftrightarrow>
     (\<exists>p diffs db l. mLevel m (LogLevel cfg) = None \<and> newProxy (UpstreamCfg cfg) = Inr p \<and>
        OpenFromConfig (mLineLen m) (mDisk m) (mNow m) (DiffLogCfg cfg) (mDirectory m) = Inr diffs \<and> mRegister m = None \<and>
        openDatabase m cfg = Inr db \<and> listen m (ListenCfg cfg) = Inr l \<and> w = assemble m nv cfg p diffs db l)"
  by (auto simp: startWorker_def newLogger_def unlessErr_Inr rbind_eq_Inr)

text \<open>The stages of the start.\<close>

lemma newProxy_backends: "newProxy cfg = Inr p \<Longrightarrow> backends p \<noteq> [] \<and> Backends p = Sockets cfg @ Addrs cfg"
  by (auto simp: newProxy_def Backends_def Let_def comp_def split: if_splits)

lemma OpenFromConfig_enabled: "OpenFromConfig ll fails now c d = Inr diffs \<Longrightarrow> diffs \<noteq> None \<longleftrightarrow> DiffLogEnabled c"
  by (auto simp: OpenFromConfig_def rbind_eq_Inr split: if_splits)

lemma openDatabase_enabled: "openDatabase m cfg = Inr db \<Longrightarrow> db \<noteq> None \<longleftrightarrow> DatabaseEnabled (Config.DatabaseCfg cfg)"
  by (cases "IsReadOnly m") (auto simp: openDatabase_def rbind_eq_Inr Let_def split: if_splits)

lemma openDatabase_store:
  "openDatabase m cfg = Inr (Some (s, sb)) \<Longrightarrow> (s, sb) = startReplication cfg (newCaches (mRawLen m) (CacheCfg (Config.DatabaseCfg cfg)))"
  by (auto simp: openDatabase_def Open_def rbind_eq_Inr unlessErr_Inr Let_def split: if_splits sum.splits)

lemma listen_where:
  "listen m l = Inr x \<Longrightarrow> x = (if Addr l \<noteq> '''' then TCPListener (Addr l) else UnixListener (Socket l) (the (ParsedSocketMode l)))"
  by (auto simp: listen_def unlessErr_Inr split: if_splits removal.splits option.splits)

lemma startRun_disarmed: "\<not> CachesArmed (caches (sub (startRun sb))) \<and> emptied (caches (sub (startRun sb)))"
  using emptied_arm(2) [of "''startup''" sb]
  by (simp add: startRun_def CachesArmed_def disarm_def SetCachesArmed_def SetArmed_def countFlush_def Let_def Purge_def)

lemma startReplication_enabled:
  assumes "replEnabled (ReplicationCfg cfg)" and "replValidate (ReplicationCfg cfg) = None"
  shows "\<exists>sb. startReplication cfg db = (db, Some sb) \<and> caches sb = db"
  using assms by (simp add: startReplication_def newSubscriber_def)

lemma mode_of_name: "gget (ByName e) name = Some md \<Longrightarrow> (name, md) \<in> set (ByName e)"
  by (simp add: map_of_SomeD)

lemma needs_database: "gget (ByName (EndpointsCfg cfg)) name = Some md \<Longrightarrow> Kind md \<noteq> ModeProxy \<Longrightarrow> NeedsDatabase cfg"
  using mode_of_name [of "EndpointsCfg cfg" name md] by (auto simp: NeedsDatabase_def list_ex_iff)

lemma proxy_never_sampled: "\<not> NeedsDatabase cfg \<Longrightarrow> \<not> sampled (modeFor (ByName (EndpointsCfg cfg)) e) key"
  using needs_database [of cfg "endpointName e"]
  by (auto simp: modeFor_def sampled_def proxyMode_def mode_names split: option.split)

lemma assemble_native:
  assumes "db \<noteq> None" and "NeedsDatabase cfg"
  shows "hResolver (wkHandler (assemble m nv cfg p diffs db l)) = Some nv \<and> hShadow (wkHandler (assemble m nv cfg p diffs db l)) \<and>
    wkResolver (assemble m nv cfg p diffs db l) \<noteq> None \<and>
    (\<exists>r. wkRunner (assemble m nv cfg p diffs db l) = Some r \<and> rReplayers r \<and> 0 < rCapacity r \<and> rDiffs r = map_option fst diffs)"
  using assms by (auto simp: assemble_def Let_def WithNative_def newHandler_def SetStateReplayers_def NewRunner_def)

text \<open>Whatever the configuration says, a key is fetched within a positive time and not asked for again at once.\<close>

lemma assemble_verifier:
  assumes "db \<noteq> None" and "NeedsDatabase cfg"
  shows "\<exists>v. wkVerifier (assemble m nv cfg p diffs db l) = Some v \<and> vrServerName v = ServerName cfg \<and>
    vrNotaries v = TrustedKeyServers (AuthCfg cfg) \<and> 0 < vrMinKeyRefetchDelay v \<and> 0 < vrGlobalTimeout v"
  using assms by (simp add: assemble_def NewVerifier_def verifierOptions_def Let_def)

lemma parsed_runnable: "parseConfig decode = Inr cfg \<Longrightarrow> runnable cfg"
  by (auto simp: parseConfig_def split: sum.splits intro: configValidate_runnable)

lemma runnable_mode:
  assumes "runnable cfg" and "gget (ByName (EndpointsCfg cfg)) name = Some md"
  shows "(Kind md \<noteq> ModeProxy \<longrightarrow> DatabaseEnabled (Config.DatabaseCfg cfg)) \<and>
    (Kind md = ModeShadow \<or> Kind md = ModeCanary \<longrightarrow> DiffLogEnabled (DiffLogCfg cfg))"
  using assms mode_of_name [OF assms(2)] by (auto simp: runnable_def validateModes_None)

lemma needs_enabled: "runnable cfg \<Longrightarrow> NeedsDatabase cfg \<Longrightarrow> DatabaseEnabled (Config.DatabaseCfg cfg)"
  by (auto simp: runnable_def validateModes_None NeedsDatabase_def list_ex_iff)

text \<open>A machine on which every operation of the start succeeds.\<close>

definition cooperates :: "machine \<Rightarrow> Config \<Rightarrow> bool" where
  "cooperates m cfg \<longleftrightarrow> mLevel m (LogLevel cfg) = None \<and> (\<forall>op. \<not> mDisk m op) \<and> savedStats (mDirectory m) \<noteq> Unreadable \<and> mRegister m = None \<and>
     mParseDSN m (DSN (Config.DatabaseCfg cfg)) = None \<and> mConnect m = None \<and> mPing m = None \<and> (\<exists>setting. mReadOnly m = Inr setting) \<and>
     (\<forall>p e. mRemove m p \<noteq> RemoveFailed e) \<and> (\<forall>a. mListen m a = None) \<and> (\<forall>p x. mChmod m p x = None)"

lemma cooperates_starts:
  assumes "runnable cfg" and "cooperates m cfg"
  shows "\<exists>w. startWorker m nv cfg = Inr w"
proof -
  have "\<exists>p. newProxy (UpstreamCfg cfg) = Inr p" using assms(1) by (auto simp: runnable_def newProxy_def Let_def)
  moreover have "\<exists>s. loadStats (savedStats (mDirectory m)) = Inr s"
    using assms(2) by (cases "savedStats (mDirectory m)") (auto simp: cooperates_def loadStats_def)
  then have "\<exists>diffs. OpenFromConfig (mLineLen m) (mDisk m) (mNow m) (DiffLogCfg cfg) (mDirectory m) = Inr diffs"
    using assms(2) by (auto simp: cooperates_def OpenFromConfig_def openWriter_def openActiveLocked_def FromConfig_def DiffLogEnabled_def Let_def)
  moreover have "\<exists>db. openDatabase m cfg = Inr db"
    using assms needs_enabled [OF assms(1)] by (auto simp: cooperates_def openDatabase_def Open_def unlessErr_def IsReadOnly_def Let_def)
  moreover have "\<exists>l. listen m (ListenCfg cfg) = Inr l"
    using assms by (auto simp: cooperates_def runnable_def listen_def unlessErr_def split: removal.split)
  ultimately show ?thesis using assms(2) unfolding startWorker_Inr cooperates_def by blast
qed


definition quietMachine :: machine where
  "quietMachine = \<lparr>mLevel = \<lambda>_. None, mLineLen = \<lambda>_. 1, mDisk = \<lambda>_. False, mNow = 1, mDirectory = emptyDir, mRegister = None, mParseDSN = \<lambda>_. None,
     mConnect = None, mPing = None, mReadOnly = Inr ''on'', mRemove = \<lambda>_. NotThere, mListen = \<lambda>_. None, mChmod = \<lambda>_ _. None,
     mRawLen = \<lambda>_. 0, mReLen = \<lambda>_. 0\<rparr>"


text \<open>The health check asks the listener of the same configuration: over its socket, or at its port on an
  address that can be dialled.\<close>

lemma splitLast_Some: "splitLast c s = Some (a, b) \<Longrightarrow> s = a @ c # b \<and> c \<notin> set b"
  by (auto simp: splitLast_def split: prod.splits option.splits dest!: cut_Some) (metis rev.simps(2) rev_append rev_rev_ident append_assoc append_Cons append_Nil)

lemma SplitHostPort_Some:
  "SplitHostPort s = Some (h, p) \<Longrightarrow> CHR '':'' \<notin> set p \<and> (s = h @ '':'' @ p \<or> s = ''['' @ h @ '']:'' @ p)"
  by (auto simp: SplitHostPort_def split: list.splits if_splits prod.splits option.splits dest!: cut_Some splitLast_Some)

lemma healthcheck_reaches_listener:
  assumes "listen m l = Inr x" and "(Socket l = '''') \<noteq> (Addr l = '''')"
  shows "case x of
      UnixListener path md \<Rightarrow> healthcheck get l = healthcheck (\<lambda>s u. get (Some path) ''http://localhost/health'') l
    | TCPListener a \<Rightarrow> healthcheck get l = healthcheck (\<lambda>s u. get None (''http://'' @ localAddr a @ ''/health'')) l"
  using listen_where [OF assms(1)] assms(2) by (auto simp: healthcheck_def)

lemma localAddr_same_port:
  assumes "SplitHostPort a = Some (h, p)"
  shows "\<exists>h'. SplitHostPort (localAddr a) = Some (h', p) \<and> h' \<notin> {'''', ''0.0.0.0'', ''::''}"
proof (cases "h \<in> {'''', ''0.0.0.0'', ''::''}")
  case True
  have p: "CHR '':'' \<notin> set p" "CHR ''['' \<notin> set p" "CHR '']'' \<notin> set p"
    using assms SplitHostPort_Some [OF assms]
    by (auto simp: SplitHostPort_def split: list.splits if_splits prod.splits option.splits dest!: cut_Some splitLast_Some)
  have "splitLast (CHR '':'') (''127.0.0.1'' @ '':'' @ p) = Some (''127.0.0.1'', p)"
    using p(1) cut_append [of "CHR '':''" "rev p" "rev ''127.0.0.1''"] by (simp add: splitLast_def)
  then show ?thesis using True assms p by (auto simp: localAddr_def JoinHostPort_def SplitHostPort_def)
next
  case False
  then show ?thesis using assms by (auto simp: localAddr_def)
qed

section \<open>Who is answered\<close>

text \<open>What the handler relies on: a verifier names an origin only for a request that origin authenticated.\<close>

locale verifier =
  fixes verify :: "'q \<Rightarrow> 'm \<Rightarrow> string option \<times> 'm" and authentic :: "'q \<Rightarrow> string \<Rightarrow> bool"
  assumes accepted: "fst (verify q m) = Some origin \<Longrightarrow> authentic q origin"
begin

lemma native_is_authentic:
  assumes "xnative (fst (ServeHTTP h (env\<lparr>eVerified := fst (verify q m)\<rparr>) hq r))"
  shows "\<exists>origin. fst (verify q m) = Some origin \<and> authentic q origin"
proof -
  have "\<exists>route body. ServeHTTP h (env\<lparr>eVerified := fst (verify q m)\<rparr>) hq r = serveRoute h (env\<lparr>eVerified := fst (verify q m)\<rparr>) hq route body r"
    using assms by (auto simp: ServeHTTP_def local_answer_def Let_def split: if_splits option.splits)
  with assms obtain origin where "fst (verify q m) = Some origin" using serveRoute_native by fastforce
  with accepted show ?thesis by blast
qed

end

text \<open>The verifier of the program, as the handler asks it: \<open>Result.OK\<close> and \<open>Result.Origin\<close>.\<close>

definition verifiedOrigin :: "'m mautrix \<Rightarrow> database option \<Rightarrow> string list \<Rightarrow> int \<Rightarrow> int \<Rightarrow> fedRequest \<Rightarrow> 'm \<Rightarrow> string option \<times> 'm" where
  "verifiedOrigin mx db notaries now later q mem =
     (case Verify mx db notaries now later q mem of (Inr origin, mem) \<Rightarrow> (Some origin, mem) | (Inl e, mem) \<Rightarrow> (None, mem))"

definition signedBy :: "'m mautrix \<Rightarrow> fedRequest \<Rightarrow> string \<Rightarrow> bool" where
  "signedBy mx q origin \<longleftrightarrow> (\<exists>mem mem'. authenticate mx (withBody q) mem = (Inr origin, mem'))"

interpretation fed: verifier "verifiedOrigin mx db notaries now later" "signedBy mx" for mx db notaries now later
  by (unfold_locales, auto simp: verifiedOrigin_def signedBy_def Verify_def withBody_def Let_def split: prod.splits sum.splits option.splits; blast)

text \<open>Whatever is answered natively was signed: when the handler asks the program's verifier, a request is
  served from the database only if the signature check accepted it, and only under the origin that check named.\<close>

theorem native_answers_are_signed:
  assumes "xnative (fst (ServeHTTP h (env\<lparr>eVerified := fst (verifiedOrigin mx db notaries now later q mem)\<rparr>) hq r))"
  shows "\<exists>origin. fst (verifiedOrigin mx db notaries now later q mem) = Some origin \<and> signedBy mx q origin"
  using assms by (rule fed.native_is_authentic)

end
