(* ===== verification/Checkpoint.thy ===== *)
theory Checkpoint
  imports Difflog Complex_Main
begin

text \<open>
  The counters of the difference log across restarts (\<open>difflog/stats.go\<close>, \<open>difflog/collector.go\<close>): the
  calls by which \<open>saveStats\<close> replaces the file, what a crash between or during them leaves behind, lives
  of the worker one after the other, and the export of the counters to Prometheus.  Of the bytes of
  the file only whether they decode, and to which counters, is kept.
\<close>

section \<open>Saving\<close>

text \<open>A file by name: what its bytes decode to, and whether they have reached the disk.\<close>

type_synonym disk = "string \<Rightarrow> (statsFile \<times> bool) option"

datatype saveOp = CreateTemp | WriteTemp | SyncTemp | CloseTemp | ChmodTemp | RenameTemp | RemoveTemp

text \<open>The calls that are made, with the outcome of each: \<open>True\<close> is a failure.  The temporary file is closed
  on every path and removed at the end, which finds nothing to remove after the rename.\<close>

definition saveCalls :: "(saveOp \<Rightarrow> bool) \<Rightarrow> (saveOp \<times> bool) list" where
  "saveCalls fails =
     (if fails CreateTemp then [(CreateTemp, True)]
      else [(CreateTemp, False)] @
        (if fails WriteTemp then [(WriteTemp, True), (CloseTemp, fails CloseTemp)]
         else (WriteTemp, False) #
           (if fails SyncTemp then [(SyncTemp, True), (CloseTemp, fails CloseTemp)]
            else (SyncTemp, False) #
              (if fails CloseTemp then [(CloseTemp, True)]
               else (CloseTemp, False) #
                 (if fails ChmodTemp then [(ChmodTemp, True)]
                  else [(ChmodTemp, False), (RenameTemp, fails RenameTemp)])))) @
        [(RemoveTemp, fails RemoveTemp)])"

text \<open>What a call does to the disk.  A new file is empty, which does not decode; a write that fails may have
  written a part.\<close>

fun saveEffect :: "LogStats \<Rightarrow> string \<Rightarrow> string \<Rightarrow> saveOp \<times> bool \<Rightarrow> disk \<Rightarrow> disk" where
  "saveEffect s tmp path (CreateTemp, failed) fs = (if failed then fs else fs(tmp \<mapsto> (Garbled, False)))"
| "saveEffect s tmp path (WriteTemp, failed) fs = fs(tmp \<mapsto> (if failed then Garbled else Saved s, False))"
| "saveEffect s tmp path (SyncTemp, failed) fs = (if failed then fs else fs(tmp := map_option (\<lambda>(c, _). (c, True)) (fs tmp)))"
| "saveEffect s tmp path (CloseTemp, failed) fs = fs"
| "saveEffect s tmp path (ChmodTemp, failed) fs = fs"
| "saveEffect s tmp path (RenameTemp, failed) fs = (if failed then fs else (fs(path := fs tmp))(tmp := None))"
| "saveEffect s tmp path (RemoveTemp, failed) fs = (if failed then fs else fs(tmp := None))"

definition runCalls :: "LogStats \<Rightarrow> string \<Rightarrow> string \<Rightarrow> (saveOp \<times> bool) list \<Rightarrow> disk \<Rightarrow> disk" where
  "runCalls s tmp path cs fs = fold (saveEffect s tmp path) cs fs"

definition saveOk :: "(saveOp \<Rightarrow> bool) \<Rightarrow> bool" where
  "saveOk fails \<longleftrightarrow> \<not> fails CreateTemp \<and> \<not> fails WriteTemp \<and> \<not> fails SyncTemp \<and> \<not> fails CloseTemp \<and> \<not> fails ChmodTemp \<and> \<not> fails RenameTemp"

definition saveStats :: "(saveOp \<Rightarrow> bool) \<Rightarrow> string \<Rightarrow> string \<Rightarrow> LogStats \<Rightarrow> disk \<Rightarrow> bool \<times> disk" where
  "saveStats fails tmp path s fs = (saveOk fails, runCalls s tmp path (saveCalls fails) fs)"

definition contentAt :: "string \<Rightarrow> disk \<Rightarrow> statsFile" where
  "contentAt path fs = (case fs path of None \<Rightarrow> NoFile | Some (c, _) \<Rightarrow> c)"

definition durable :: "string \<Rightarrow> disk \<Rightarrow> bool" where
  "durable path fs \<longleftrightarrow> (case fs path of None \<Rightarrow> True | Some (c, safe) \<Rightarrow> safe)"

text \<open>What may be found at \<open>path\<close> after a crash: bytes that had not reached the disk may be anything, and a
  rename that had not may not have happened.\<close>

definition afterCrash :: "string \<Rightarrow> disk \<Rightarrow> disk \<Rightarrow> statsFile \<Rightarrow> bool" where
  "afterCrash path before now f \<longleftrightarrow> f = contentAt path before \<or> durable path now \<and> f = contentAt path now \<or> \<not> durable path now"

lemma save_prefix:
  assumes "tmp \<noteq> path" and "durable path fs"
  shows "(let now = runCalls s tmp path (take k (saveCalls fails)) fs in
     durable path now \<and> (now path = fs path \<or> now path = Some (Saved s, True)))"
proof (cases "k > 7")
  case True
  have "length (saveCalls fails) \<le> 7" by (simp add: saveCalls_def)
  with True assms show ?thesis by (simp add: runCalls_def saveCalls_def durable_def Let_def)
next
  case False
  then have "k = 0 \<or> k = 1 \<or> k = 2 \<or> k = 3 \<or> k = 4 \<or> k = 5 \<or> k = 6 \<or> k = 7" by arith
  then show ?thesis using assms
    by (elim disjE) (auto simp: runCalls_def saveCalls_def durable_def Let_def numeral_eq_Suc split: option.splits)
qed

lemma save_whole:
  assumes "tmp \<noteq> path"
  shows "contentAt path (snd (saveStats fails tmp path s fs)) = (if fst (saveStats fails tmp path s fs) then Saved s else contentAt path fs)"
  using assms by (simp add: saveStats_def saveOk_def runCalls_def saveCalls_def contentAt_def)

lemma save_crash:
  assumes "tmp \<noteq> path" and "durable path fs" and "afterCrash path fs (runCalls s tmp path (take k (saveCalls fails)) fs) f"
  shows "f = contentAt path fs \<or> f = Saved s"
  using save_prefix [OF assms(1,2), of s k fails] assms(3) by (auto simp: Let_def afterCrash_def contentAt_def)

section \<open>Lives of the worker\<close>

definition checkpointOf :: "DiffWriter \<Rightarrow> int \<Rightarrow> LogStats" where
  "checkpointOf w now = (wstats w)\<lparr>Dropped := wdropped w, WriteErrors := werrs w, Updated := now\<rparr>"

text \<open>The step of \<open>flushStats\<close> that saves is this sequence of calls.\<close>

lemma flushStats_saves:
  assumes "tmp \<noteq> path" and "contentAt path fs = savedStats d" and "fails SaveStats \<longleftrightarrow> \<not> saveOk sfails"
  shows "savedStats (snd (flushStats fails now (w, d))) = contentAt path (snd (saveStats sfails tmp path (checkpointOf w now) fs))"
  using save_whole [OF assms(1), of sfails "checkpointOf w now" fs] assms(2,3)
  by (simp add: flushStats_def Let_def checkpointOf_def saveStats_def)

text \<open>The turn that saves the counters, if it does.\<close>

fun checkpointAt :: "turn \<Rightarrow> DiffWriter \<Rightarrow> int option" where
  "checkpointAt (Tick fails now) w = (if wdone w \<or> fails SaveStats then None else Some now)"
| "checkpointAt (Ending fails now) w = (if wdone w \<or> \<not> wclosed w \<or> queue w \<noteq> [] \<or> fails SaveStats then None else Some now)"
| "checkpointAt _ w = None"

text \<open>The agreements (\<open>m\<close>) or disagreements of an endpoint that a turn counts, and that counters hold.\<close>

fun counts :: "string \<Rightarrow> bool \<Rightarrow> turn \<Rightarrow> nat" where
  "counts n m (Count now endpoint matched) = (if endpoint = n \<and> matched = m then 1 else 0)"
| "counts n m _ = 0"

definition counted :: "string \<Rightarrow> bool \<Rightarrow> turn list \<Rightarrow> nat" where
  "counted n m ts = sum_list (map (counts n m) ts)"

definition totalOf :: "string \<Rightarrow> bool \<Rightarrow> LogStats \<Rightarrow> nat" where
  "totalOf n m s = (if m then epMatched (endpointOf s n) else epMismatched (endpointOf s n))"

definition savedTotal :: "string \<Rightarrow> bool \<Rightarrow> statsFile \<Rightarrow> nat" where
  "savedTotal n m f = (case loadStats f of Inl e \<Rightarrow> 0 | Inr s \<Rightarrow> totalOf n m s)"

text \<open>Those counted since the counters were last saved.\<close>

fun unsaved :: "(raw \<Rightarrow> string) \<Rightarrow> (LogRecord \<Rightarrow> nat) \<Rightarrow> string \<Rightarrow> bool \<Rightarrow> turn list \<Rightarrow> DiffWriter \<times> directory \<Rightarrow> nat \<Rightarrow> nat" where
  "unsaved btext llen n m [] wd k = k"
| "unsaved btext llen n m (t # ts) wd k =
     unsaved btext llen n m ts (turnOf btext llen t wd) (if checkpointAt t (fst wd) = None then k + counts n m t else 0)"

text \<open>
  The lives of the worker over one directory, with what was counted in all of them and what is lost.
  A life that opens the log may end after any of its turns, or in the middle of saving the counters,
  after any number of the calls.
\<close>

inductive endured :: "(raw \<Rightarrow> string) \<Rightarrow> (LogRecord \<Rightarrow> nat) \<Rightarrow> string \<Rightarrow> bool \<Rightarrow> directory \<Rightarrow> nat \<Rightarrow> nat \<Rightarrow> directory \<Rightarrow> bool"
  for btext llen n m d0 where
  unopened: "endured btext llen n m d0 0 0 d0"
| ended: "endured btext llen n m d0 c k d \<Longrightarrow> openWriter llen fails now options d = Inr wd \<Longrightarrow> turns btext llen ts wd = (w, d') \<Longrightarrow>
    endured btext llen n m d0 (c + counted n m ts) (k + unsaved btext llen n m ts wd 0) d'"
| crashed: "endured btext llen n m d0 c k d \<Longrightarrow> openWriter llen fails now options d = Inr wd \<Longrightarrow> turns btext llen ts wd = (w, d') \<Longrightarrow>
    tmp \<noteq> path \<Longrightarrow> durable path fs \<Longrightarrow> contentAt path fs = savedStats d' \<Longrightarrow>
    afterCrash path fs (runCalls (checkpointOf w t) tmp path (take i (saveCalls sfails)) fs) f \<Longrightarrow>
    endured btext llen n m d0 (c + counted n m ts) (k + (if f = Saved (checkpointOf w t) then 0 else unsaved btext llen n m ts wd 0))
      (d'\<lparr>savedStats := f\<rparr>)"

lemma openActiveLocked_saved: "openActiveLocked llen fails wd = (ok, w', d') \<Longrightarrow> savedStats d' = savedStats (snd wd)"
  by (auto simp: openActiveLocked_def Let_def split: prod.splits if_splits)

lemma archive_saved: "archive fails c cs d = (ok, d') \<Longrightarrow> savedStats d' = savedStats d"
  by (auto simp: archive_def Let_def split: if_splits)

lemma rotateLocked_saved: "rotateLocked llen fails wd = (ok, w', d') \<Longrightarrow> savedStats d' = savedStats (snd wd)"
  by (auto simp: rotateLocked_def Let_def dest!: archive_saved openActiveLocked_saved split: prod.splits if_splits bool.splits option.splits)

lemma writeRecord_saved: "savedStats (snd (writeRecord llen fails torn r wd)) = savedStats (snd wd)"
  unfolding writeRecord_def appendLine_def appendActive_def Let_def
  by (auto dest!: rotateLocked_saved split: prod.splits bool.splits option.splits)

lemma turn_saved:
  "savedStats (snd (turnOf btext llen t wd)) =
     (case checkpointAt t (fst wd) of None \<Rightarrow> savedStats (snd wd) | Some now \<Rightarrow> Saved (checkpointOf (fst wd) now))"
  by (cases t) (auto simp: loopRecord_def writeRecord_saved flushStats_def loopEnd_def checkpointOf_def Let_def split: prod.split list.split)

lemma turn_total: "totalOf n m (wstats (fst (turnOf btext llen t wd))) = totalOf n m (wstats (fst wd)) + counts n m t"
  by (cases t) (auto simp: totalOf_def turn_endpoint tallyEndpoint_def Let_def simp del: turnOf.simps)

lemma checkpoint_total [simp]: "totalOf n m (checkpointOf w now) = totalOf n m (wstats w)"
  by (simp add: totalOf_def checkpointOf_def endpointOf_def)

lemma turns_total:
  assumes "totalOf n m (wstats (fst wd)) = savedTotal n m (savedStats (snd wd)) + k" and "turns btext llen ts wd = (w, d)"
  shows "totalOf n m (wstats w) = savedTotal n m (savedStats d) + unsaved btext llen n m ts wd k"
  using assms
proof (induction ts arbitrary: wd k)
  case (Cons t ts)
  let ?k = "if checkpointAt t (fst wd) = None then k + counts n m t else 0"
  have "totalOf n m (wstats (fst (turnOf btext llen t wd))) = savedTotal n m (savedStats (snd (turnOf btext llen t wd))) + ?k"
  proof (cases "checkpointAt t (fst wd)")
    case (Some now)
    then have "counts n m t = 0" by (cases t) auto
    with Some show ?thesis by (simp add: turn_total turn_saved savedTotal_def loadStats_def)
  qed (use Cons.prems(1) in \<open>simp add: turn_total turn_saved\<close>)
  from Cons.IH [OF this] Cons.prems(2) show ?case by (simp add: turns_def)
qed (simp add: turns_def)

lemma turns_counted:
  "turns btext llen ts wd = (w, d) \<Longrightarrow> totalOf n m (wstats w) = totalOf n m (wstats (fst wd)) + counted n m ts"
proof (induction ts arbitrary: wd)
  case (Cons t ts)
  from Cons.IH [of "turnOf btext llen t wd"] Cons.prems show ?case by (simp add: turns_def counted_def turn_total)
qed (simp add: turns_def counted_def)

lemma turns_readable:
  "savedStats (snd wd) \<notin> {Garbled, Unreadable} \<Longrightarrow> turns btext llen ts wd = (w, d) \<Longrightarrow> savedStats d \<notin> {Garbled, Unreadable}"
proof (induction ts arbitrary: wd)
  case (Cons t ts)
  have "savedStats (snd (turnOf btext llen t wd)) \<notin> {Garbled, Unreadable}" using Cons.prems(1) by (simp add: turn_saved split: option.split)
  from Cons.IH [OF this] Cons.prems(2) show ?case by (simp add: turns_def)
qed (simp add: turns_def)

lemma opened_saved:
  assumes "openWriter llen fails now options d = Inr wd"
  shows "savedStats (snd wd) = savedStats d"
proof -
  from assms obtain w0 where "openActiveLocked llen fails (w0, d) = (True, wd)"
    by (auto simp: openWriter_def rbind_eq_Inr Let_def split: if_splits prod.splits bool.splits)
  then show ?thesis by (cases wd) (simp add: openActiveLocked_saved)
qed

lemma opened_total:
  assumes "openWriter llen fails now options d = Inr wd"
  shows "totalOf n m (wstats (fst wd)) = savedTotal n m (savedStats d)"
proof -
  obtain w d1 where wd: "wd = (w, d1)" by fastforce
  with assms show ?thesis by (auto elim!: openWriter_InrE simp: totalOf_def endpointOf_def savedTotal_def)
qed

lemma life_total:
  assumes "openWriter llen fails now options d = Inr wd" and "turns btext llen ts wd = (w, d')"
  shows "savedTotal n m (savedStats d') + unsaved btext llen n m ts wd 0 = savedTotal n m (savedStats d) + counted n m ts"
    and "totalOf n m (wstats w) = savedTotal n m (savedStats d) + counted n m ts"
  using turns_total [OF _ assms(2), of n m 0] turns_counted [OF assms(2), of n m] opened_total [OF assms(1), of n m] opened_saved [OF assms(1)]
  by simp_all

section \<open>Properties\<close>

text \<open>C33. The counters survive crashes.  Whatever number of lives the worker has had, each ended anywhere,
  in the middle of replacing the counters' file included, the file is never one that cannot be read, and
  for every endpoint the agreements and the disagreements it holds are those counted in all lives less
  those counted after the last checkpoint of a life; the next life starts from them.\<close>

theorem counters_survive_crashes:
  assumes "endured btext llen n m d0 c k d" and "savedStats d0 \<notin> {Garbled, Unreadable}"
  shows "savedStats d \<notin> {Garbled, Unreadable} \<and> savedTotal n m (savedStats d) + k = savedTotal n m (savedStats d0) + c \<and>
    (openWriter llen fails now options d = Inr wd \<longrightarrow> totalOf n m (wstats (fst wd)) + k = savedTotal n m (savedStats d0) + c)"
proof -
  have "savedStats d \<notin> {Garbled, Unreadable} \<and> savedTotal n m (savedStats d) + k = savedTotal n m (savedStats d0) + c"
    using assms
  proof (induction rule: endured.induct)
    case (ended c k d fails now options wd ts w d')
    from ended opened_saved [OF ended.hyps(2)] turns_readable [OF _ ended.hyps(3)] have "savedStats d' \<notin> {Garbled, Unreadable}" by auto
    with ended life_total [OF ended.hyps(2,3), of n m] show ?case by auto
  next
    case (crashed c k d fails now options wd ts w d' tmp path fs t i sfails f)
    from crashed opened_saved [OF crashed.hyps(2)] turns_readable [OF _ crashed.hyps(3)] have ok: "savedStats d' \<notin> {Garbled, Unreadable}" by auto
    from save_crash [OF crashed.hyps(4,5,7)] crashed.hyps(6) have "f = Saved (checkpointOf w t) \<or> f = savedStats d'" by auto
    with ok crashed life_total [OF crashed.hyps(2,3), of n m] show ?case by (auto simp: savedTotal_def loadStats_def)
  qed simp
  with opened_total show ?thesis by metis
qed

text \<open>An example: one disagreement before the only checkpoint, one after it, and a crash that comes after the
  temporary file was written.\<close>

definition noFailures :: failures where
  "noFailures = (\<lambda>_. False)"

definition shortLife :: "turn list" where
  "shortLife = [Count 1 ''event'' False, Tick noFailures 2, Count 3 ''event'' False]"

definition shortEnd :: "DiffWriter \<times> directory" where
  "shortEnd = turns (\<lambda>_. []) (\<lambda>_. 5) shortLife (smallWriter, emptyDir\<lparr>activeFile := Some []\<rparr>)"

lemma short_endured:
  "endured (\<lambda>_. []) (\<lambda>_. 5) ''event'' False emptyDir 2 1 (snd shortEnd)" and "savedTotal ''event'' False (savedStats (snd shortEnd)) = 1"
proof -
  let ?d = "snd shortEnd" and ?w = "fst shortEnd"
  let ?fs = "\<lambda>p. if p = ''stats.json'' then Some (savedStats ?d, True) else None"
  have k: "counted ''event'' False shortLife = 2"
    "unsaved (\<lambda>_. []) (\<lambda>_. 5) ''event'' False shortLife (smallWriter, emptyDir\<lparr>activeFile := Some []\<rparr>) 0 = 1"
    by (simp_all add: counted_def shortLife_def smallWriter_def noFailures_def Observe_def)
  have saved: "savedStats ?d = Saved (checkpointOf (Observe 1 ''event'' False smallWriter) 2)"
    by (simp add: shortEnd_def shortLife_def turns_def flushStats_def noFailures_def checkpointOf_def Observe_def smallWriter_def Let_def)
  have "totalOf ''event'' False (checkpointOf (Observe 1 ''event'' False smallWriter) 2) = 1"
    unfolding checkpoint_total
    by (simp add: totalOf_def Observe_def smallWriter_def endpointOf_def observe_sel tallyEndpoint_def noEndpoint_def noStats_def Let_def)
  then show t: "savedTotal ''event'' False (savedStats ?d) = 1" unfolding saved by (simp add: savedTotal_def loadStats_def)
  have "totalOf ''event'' False (wstats ?w) = 2"
    by (simp add: shortEnd_def shortLife_def turns_def flushStats_def noFailures_def totalOf_def Observe_def smallWriter_def endpointOf_def observe_sel
        tallyEndpoint_def noEndpoint_def noStats_def Let_def)
  with t have ne: "savedStats ?d \<noteq> Saved (checkpointOf ?w 4)" by (auto simp: savedTotal_def loadStats_def)
  have "endured (\<lambda>_. []) (\<lambda>_. 5) ''event'' False emptyDir (0 + counted ''event'' False shortLife)
     (0 + (if savedStats ?d = Saved (checkpointOf ?w 4) then 0
           else unsaved (\<lambda>_. []) (\<lambda>_. 5) ''event'' False shortLife (smallWriter, emptyDir\<lparr>activeFile := Some []\<rparr>) 0))
     (?d\<lparr>savedStats := savedStats ?d\<rparr>)"
    by (rule endured.crashed [OF endured.unopened smallWriter_open, where tmp = "''.stats-1.tmp''" and path = "''stats.json''" and fs = ?fs and i = 2])
      (simp_all add: shortEnd_def [symmetric] durable_def contentAt_def afterCrash_def)
  then show "endured (\<lambda>_. []) (\<lambda>_. 5) ''event'' False emptyDir 2 1 ?d" using ne k by (simp add: numeral_2_eq_2)
qed

theorem counters_survive_crashes_witness:
  "endured (\<lambda>_. []) (\<lambda>_. 5) ''event'' False emptyDir 2 1 (snd shortEnd) \<and> savedTotal ''event'' False (savedStats (snd shortEnd)) + 1 = 2"
  using counters_survive_crashes [OF short_endured(1)] short_endured(1) by (simp add: emptyDir_def savedTotal_def loadStats_def totalOf_def endpointOf_def noStats_def noEndpoint_def)

text \<open>Not all counters do: the records dropped and the failed writes are counted from zero in every life, and
  its first checkpoint writes these over what the file said.  The warning that the log is incomplete is
  gone after a restart.\<close>

theorem restart_forgets_drops:
  assumes "openWriter llen fails now options d = Inr wd" and "\<not> fails' SaveStats"
  shows "\<exists>s. savedStats (snd (turnOf btext llen (Tick fails' now') wd)) = Saved s \<and> Dropped s = 0 \<and> WriteErrors s = 0 \<and>
    EndpointTotals s = EndpointTotals (wstats (fst wd))"
proof -
  obtain w d1 where wd: "wd = (w, d1)" by fastforce
  with assms have "\<not> wdone w" "wdropped w = 0" "werrs w = 0" by (auto elim!: openWriter_InrE)
  with assms(2) wd show ?thesis by (simp add: flushStats_def Let_def)
qed

section \<open>Export\<close>

text \<open>What a scrape delivers.  Values are exact, which the floating point numbers of the code are up to
  \<open>2^53\<close>; seconds are whole.\<close>

datatype ValueType = CounterValue | GaugeValue

record metric =
  mName :: string
  mType :: ValueType
  mLabels :: "string list"
  mValue :: rat

definition MatchRate :: "EndpointStats option \<Rightarrow> rat" where
  "MatchRate eo = (case eo of None \<Rightarrow> 1 | Some e \<Rightarrow> if epCompared e = 0 then 1 else of_nat (epMatched e) / of_nat (epCompared e))"

definition overallRate :: "LogStats \<Rightarrow> rat" where
  "overallRate s = (if Compared s = 0 then 1 else of_nat (Matched s) / of_nat (Compared s))"

definition unixSeconds :: "int \<Rightarrow> int" where
  "unixSeconds t = t div 10 ^ 9"

definition counter :: "string \<Rightarrow> nat \<Rightarrow> string list \<Rightarrow> metric" where
  "counter d v labels = \<lparr>mName = d, mType = CounterValue, mLabels = labels, mValue = of_nat v\<rparr>"

definition gauge :: "string \<Rightarrow> rat \<Rightarrow> string list \<Rightarrow> metric" where
  "gauge d v labels = \<lparr>mName = d, mType = GaugeValue, mLabels = labels, mValue = v\<rparr>"

definition endpointMetrics :: "string \<Rightarrow> EndpointStats \<Rightarrow> metric list" where
  "endpointMetrics endpoint e =
     [counter ''gopro_shadow_compared_total'' (epCompared e) [endpoint], counter ''gopro_shadow_matched_total'' (epMatched e) [endpoint],
      counter ''gopro_shadow_mismatched_total'' (epMismatched e) [endpoint], gauge ''gopro_shadow_match_rate'' (MatchRate (Some e)) [endpoint]] @
     (case LastMismatch e of None \<Rightarrow> []
      | Some t \<Rightarrow> [gauge ''gopro_shadow_last_mismatch_timestamp_seconds'' (of_int (unixSeconds t)) [endpoint]])"

definition logMetrics :: "LogStats \<Rightarrow> metric list" where
  "logMetrics s =
     [counter ''gopro_difflog_logged_total'' (Logged s) [], counter ''gopro_difflog_dropped_total'' (Dropped s) [],
      counter ''gopro_difflog_write_errors_total'' (WriteErrors s) [], counter ''gopro_difflog_rotations_total'' (Rotations s) [],
      counter ''gopro_shadow_restarts_total'' (Restarts s) []] @
     (if Since s = 0 then [] else [gauge ''gopro_shadow_since_timestamp_seconds'' (of_int (unixSeconds (Since s))) []])"

definition Collect :: "DiffWriter \<Rightarrow> metric list" where
  "Collect w =
     (let s = Snapshot (Some w) in concat (map (\<lambda>(endpoint, e). endpointMetrics endpoint e) (EndpointTotals s)) @ logMetrics s)"

text \<open>The descriptions, each with its variable labels: a metric whose labels are not as many panics.  Without a
  writer there is no collector, and nothing is registered; \<open>reg\<close> is the registry's answer.\<close>

record Collector =
  cWriter :: DiffWriter
  cDescs :: "(string \<times> string list) list"

definition NewCollector :: "DiffWriter option \<Rightarrow> Collector option" where
  "NewCollector wo =
     map_option (\<lambda>w. \<lparr>cWriter = w, cDescs =
       (let ep = [''endpoint''] in
        [(''gopro_shadow_compared_total'', ep), (''gopro_shadow_matched_total'', ep), (''gopro_shadow_mismatched_total'', ep),
         (''gopro_shadow_match_rate'', ep), (''gopro_shadow_last_mismatch_timestamp_seconds'', ep),
         (''gopro_difflog_logged_total'', []), (''gopro_difflog_dropped_total'', []), (''gopro_difflog_write_errors_total'', []),
         (''gopro_difflog_rotations_total'', []), (''gopro_shadow_since_timestamp_seconds'', []), (''gopro_shadow_restarts_total'', [])])\<rparr>) wo"

definition Register :: "(Collector \<Rightarrow> string option) \<Rightarrow> DiffWriter option \<Rightarrow> string option" where
  "Register reg w = (case NewCollector w of None \<Rightarrow> None | Some c \<Rightarrow> reg c)"

definition Describe :: "Collector \<Rightarrow> (string \<times> string list) list" where
  "Describe c = cDescs c"

definition described :: "Collector \<Rightarrow> metric \<Rightarrow> bool" where
  "described c x \<longleftrightarrow> list_ex (\<lambda>(name, labels). name = mName x \<and> length labels = length (mLabels x)) (Describe c)"

lemma metrics_described:
  assumes "NewCollector wo = Some c"
  shows "list_all (described c) (endpointMetrics n e)" and "list_all (described c) (logMetrics s)"
proof -
  have "Describe c = Describe (the (NewCollector (Some (cWriter c))))" using assms by (auto simp: NewCollector_def Describe_def)
  then have d: "described c x = described (the (NewCollector (Some (cWriter c)))) x" for x by (simp add: described_def)
  show "list_all (described c) (endpointMetrics n e)" "list_all (described c) (logMetrics s)"
    by (simp_all add: d endpointMetrics_def logMetrics_def counter_def gauge_def split: option.split)
      (simp_all add: described_def Describe_def NewCollector_def Let_def)
qed

lemma MatchRate_range:
  assumes "epTallied e"
  shows "0 \<le> MatchRate (Some e) \<and> MatchRate (Some e) \<le> 1 \<and> (MatchRate (Some e) = 1 \<longleftrightarrow> epMismatched e = 0)"
  using assms by (auto simp: MatchRate_def epTallied_def divide_simps)

lemma metric_labels:
  "mLabels ` set (endpointMetrics n e) = {[n]}" "mLabels ` set (logMetrics s) = {[]}"
  by (auto simp: endpointMetrics_def logMetrics_def counter_def gauge_def split: option.split)

text \<open>The name and the labels tell a metric apart from every other, as the registry demands.\<close>

lemma Collect_distinct:
  assumes "gomap (EndpointTotals (wstats w))"
  shows "distinct (map (\<lambda>x. (mLabels x, mName x)) (Collect w))"
proof -
  let ?id = "\<lambda>x. (mLabels x, mName x)"
  have e: "distinct (map ?id (endpointMetrics n e))" for n e
    by (simp add: endpointMetrics_def counter_def gauge_def split: option.split)
  have "distinct (map ?id (concat (map (\<lambda>(n, e). endpointMetrics n e) es))) \<and>
      mLabels ` set (concat (map (\<lambda>(n, e). endpointMetrics n e) es)) = (\<lambda>n. [n]) ` set (map fst es)"
    if "gomap es" for es
    using that
  proof (induction es)
    case (Cons p es)
    obtain n x where p: "p = (n, x)" by fastforce
    from Cons p have d: "distinct (map ?id (concat (map (\<lambda>(n, e). endpointMetrics n e) es)))" "n \<notin> set (map fst es)"
      and l: "mLabels ` set (concat (map (\<lambda>(n, e). endpointMetrics n e) es)) = (\<lambda>n. [n]) ` set (map fst es)" by (auto simp: gomap_def)
    have "?id ` set (endpointMetrics n x) \<inter> ?id ` set (concat (map (\<lambda>(n, e). endpointMetrics n e) es)) = {}"
    proof (rule ccontr)
      assume "\<not> ?thesis"
      then have "mLabels ` set (endpointMetrics n x) \<inter> mLabels ` set (concat (map (\<lambda>(n, e). endpointMetrics n e) es)) \<noteq> {}" by fastforce
      with d(2) show False unfolding l metric_labels(1) by auto
    qed
    with d(1) e [of n x] l metric_labels(1) [of n x] show ?case by (simp add: p image_Un)
  qed simp
  from this [OF assms] have "distinct (map ?id (concat (map (\<lambda>(n, e). endpointMetrics n e) (EndpointTotals (wstats w)))))"
    and l: "[] \<notin> mLabels ` set (concat (map (\<lambda>(n, e). endpointMetrics n e) (EndpointTotals (wstats w))))" by auto
  moreover have "distinct (map ?id (logMetrics (Snapshot (Some w))))" by (simp add: logMetrics_def counter_def gauge_def)
  moreover have "?id ` set (concat (map (\<lambda>(n, e). endpointMetrics n e) (EndpointTotals (wstats w)))) \<inter> ?id ` set (logMetrics (Snapshot (Some w))) = {}"
    (is "?id ` ?A \<inter> ?id ` ?B = {}")
  proof (rule ccontr)
    assume "\<not> ?thesis"
    then obtain x y where "x \<in> ?A" "y \<in> ?B" "mLabels x = mLabels y" by blast
    with l metric_labels(2) [of "Snapshot (Some w)"] show False by (metis image_eqI singletonD)
  qed
  ultimately show ?thesis by (simp add: Collect_def Let_def Snapshot_def)
qed

text \<open>What counters would be exported as.\<close>

definition exportOf :: "LogStats \<Rightarrow> metric list" where
  "exportOf s = concat (map (\<lambda>(endpoint, e). endpointMetrics endpoint e) (EndpointTotals s)) @ logMetrics s"

lemma export_at_checkpoint: "checkpointAt t w = Some now \<Longrightarrow> exportOf (checkpointOf w now) = Collect w"
  by (simp add: exportOf_def Collect_def checkpointOf_def Snapshot_def logMetrics_def Let_def)

text \<open>Right after a checkpoint the export is that of the file, described and told apart; the rate of an endpoint
  is one exactly when it has no disagreement.\<close>

theorem export_is_the_file_at_checkpoints:
  assumes "checkpointAt t w = Some now" and "tallied (wstats w)" and "NewCollector (Some w) = Some c"
  shows "\<exists>s. savedStats (snd (turnOf btext llen t (w, d))) = Saved s \<and> exportOf s = Collect w \<and>
    distinct (map (\<lambda>x. (mLabels x, mName x)) (Collect w)) \<and> list_all (described c) (Collect w) \<and>
    (\<forall>(n, e) \<in> set (EndpointTotals s). MatchRate (Some e) \<le> 1 \<and> (MatchRate (Some e) = 1 \<longleftrightarrow> epMismatched e = 0))"
proof (intro exI [of _ "checkpointOf w now"] conjI)
  show "list_all (described c) (Collect w)"
    using metrics_described [OF assms(3)] by (auto simp: Collect_def Let_def list_all_iff)
  show "distinct (map (\<lambda>x. (mLabels x, mName x)) (Collect w))" using Collect_distinct assms(2) by (simp add: tallied_def)
  show "\<forall>(n, e) \<in> set (EndpointTotals (checkpointOf w now)). MatchRate (Some e) \<le> 1 \<and> (MatchRate (Some e) = 1 \<longleftrightarrow> epMismatched e = 0)"
    using assms(2) MatchRate_range by (fastforce simp: tallied_def checkpointOf_def)
qed (use assms(1) in \<open>simp_all add: turn_saved export_at_checkpoint\<close>)

text \<open>Between checkpoints the two disagree, although the collector reads the writer so that they never do: the
  example's second disagreement is exported and not in the file.\<close>

theorem export_runs_ahead_of_the_file:
  "\<exists>s. savedStats (snd shortEnd) = Saved s \<and> totalOf ''event'' False s = 1 \<and>
     counter ''gopro_shadow_mismatched_total'' 2 [''event''] \<in> set (Collect (fst shortEnd))"
proof -
  have "wstats (fst shortEnd) = observe 3 ''event'' False (observe 1 ''event'' False (wstats smallWriter))"
    "savedStats (snd shortEnd) = Saved (checkpointOf (Observe 1 ''event'' False smallWriter) 2)"
    by (simp_all add: shortEnd_def shortLife_def turns_def flushStats_def noFailures_def Observe_def smallWriter_def checkpointOf_def Let_def)
  then show ?thesis
    by (auto simp: Collect_def Snapshot_def Let_def totalOf_def endpointOf_def observe_sel tallyEndpoint_def noEndpoint_def noStats_def smallWriter_def
        Observe_def endpointMetrics_def checkpointOf_def numeral_2_eq_2 gset_def)
qed

end
