(* ===== verification/Lifecycle.thy ===== *)
theory Lifecycle
  imports Worker Checkpoint
begin

text \<open>
  The end of \<open>run\<close> in \<open>cmd/gopro-worker\<close>: the servers until one of them fails or a signal comes, the
  cleanup of the limiter meanwhile, the shutdown, and the deferred closing of the database and of the
  difference log, in that order.  Comparisons run in goroutines of their own that nothing waits for, so
  they go on while the parts they use are closed.
\<close>

section \<open>The servers\<close>

text \<open>What may happen while the worker serves, in the order in which it is noticed: a server ends, with an
  error unless it was closed; the context ends; the ticker fires.\<close>

datatype happening = ServeEnds "string option" | MetricsEnds "string option" | ContextDone | CleanupTick int

datatype stopCause = ListenerFailed string | MetricsFailed string | Signalled

definition hour :: int where
  "hour = 3600 * 10 ^ 9"

fun serveUntil :: "happening list \<Rightarrow> Limiter \<Rightarrow> stopCause option \<times> Limiter" where
  "serveUntil [] l = (None, l)"
| "serveUntil (ServeEnds e # hs) l = (case e of Some err \<Rightarrow> (Some (ListenerFailed err), l) | None \<Rightarrow> serveUntil hs l)"
| "serveUntil (MetricsEnds e # hs) l = (case e of Some err \<Rightarrow> (Some (MetricsFailed err), l) | None \<Rightarrow> serveUntil hs l)"
| "serveUntil (ContextDone # hs) l = (Some Signalled, l)"
| "serveUntil (CleanupTick now # hs) l = serveUntil hs (snd (Cleanup hour now l))"

text \<open>What is done then, the deferred calls last and in reverse order, and what \<open>run\<close> returns: \<open>drained\<close> is the
  outcome of waiting for the requests in progress.\<close>

datatype stopStep = ShutMetrics | ShutServer | CloseDatabase | CloseLog | StopContext

definition stopSteps :: "stopCause \<Rightarrow> stopStep list" where
  "stopSteps cause = (case cause of Signalled \<Rightarrow> [ShutMetrics, ShutServer] | _ \<Rightarrow> []) @ [CloseDatabase, CloseLog, StopContext]"

definition runError :: "stopCause \<Rightarrow> string option \<Rightarrow> string option" where
  "runError cause drained =
     (case cause of ListenerFailed e \<Rightarrow> Some (''federation listener: '' @ e) | MetricsFailed e \<Rightarrow> Some (''metrics listener: '' @ e)
      | Signalled \<Rightarrow> drained)"

lemma serves_until_stopped:
  assumes "serveUntil hs l = (cause, l')" and "\<forall>h \<in> set hs. case h of ServeEnds e \<Rightarrow> e = None | MetricsEnds e \<Rightarrow> e = None | _ \<Rightarrow> True"
  shows "cause = (if ContextDone \<in> set hs then Some Signalled else None)"
  using assms by (induction hs l rule: serveUntil.induct) auto

section \<open>Closing under comparisons\<close>

text \<open>A pool that was closed fails every statement.\<close>

definition closedDb :: "database \<Rightarrow> database" where
  "closedDb d = d\<lparr>faults := \<lambda>_. Some (QueryFault ''closed pool'')\<rparr>"

record ending =
  enDb :: database
  enResolver :: resolver
  enRunner :: runner
  enDir :: directory

datatype endEvent = Compares Request ProxyResult | ClosesDb | LogTurn turn

text \<open>What \<open>run\<close> compares with.\<close>

record comparing =
  cpTools :: runnerTools
  cpLib :: lib
  cpSha :: "string \<Rightarrow> string"
  cpServer :: string
  cpLineLen :: "LogRecord \<Rightarrow> nat"

fun endStep :: "comparing \<Rightarrow> endEvent \<Rightarrow> ending \<Rightarrow> ending" where
  "endStep c (Compares req proxy) s =
     (case Runner.run (cpTools c) (dbResolver (cpLib c) (cpSha c) (enDb s) (tNow (cpTools c))) (cpServer c) req proxy (enRunner s) (enResolver s) of
        (r, rs) \<Rightarrow> s\<lparr>enRunner := r, enResolver := rs\<rparr>)"
| "endStep c ClosesDb s = s\<lparr>enDb := closedDb (enDb s)\<rparr>"
| "endStep c (LogTurn t) s =
     (case rDiffs (enRunner s) of
        None \<Rightarrow> s
      | Some w \<Rightarrow>
          (case turnOf (tText (cpTools c)) (cpLineLen c) t (w, enDir s) of
             (w, d) \<Rightarrow> s\<lparr>enRunner := (enRunner s)\<lparr>rDiffs := Some w\<rparr>, enDir := d\<rparr>))"

definition endSteps :: "comparing \<Rightarrow> endEvent list \<Rightarrow> ending \<Rightarrow> ending" where
  "endSteps c es s = fold (endStep c) es s"

lemma closed_queries:
  "queryRows (closedDb d) q rows = Inl (QueryError q ''closed pool'')" "queryRow (closedDb d) q rows = Inl (QueryError q ''closed pool'')"
  "deliver (closedDb d) q rows = ([], Some (QueryError q ''closed pool''))"
  by (simp_all add: closedDb_def queryRows_def queryRow_def deliver_def)

lemma closed_event: "\<exists>q s'. GetEvent (closedDb d) eid s = (Inl (QueryError q ''closed pool''), s')"
proof -
  have "\<exists>q s'. GetEvents (closedDb d) [eid] s = (Inl (QueryError q ''closed pool''), s')"
  proof (cases "Enabled (events s) \<and> fst (Get eid (events s)) \<noteq> None")
    case True
    then obtain ev c where "Get eid (events s) = (Some ev, c)" by (metis not_None_eq prod.collapse)
    with True show ?thesis
      by (simp add: GetEvents_def getEventsRaw_def getEventsRawOpt_def bnd_def applyRedactions_def getRedactions_def lift_def rbind_def closed_queries
          gset_def Let_def)
  next
    case False
    then have "Enabled (events s) \<Longrightarrow> \<exists>c. Get eid (events s) = (None, c)" by (metis prod.collapse)
    then show ?thesis
      by (cases "Enabled (events s)") (auto simp: GetEvents_def getEventsRaw_def getEventsRawOpt_def bnd_def closed_queries Let_def)
  qed
  then show ?thesis by (auto simp: GetEvent_def bnd_def)
qed

text \<open>Whatever is cached, neither endpoint has an answer without the database.\<close>

lemma closed_answer:
  assumes "endpoint \<in> {''event'', ''state_ids''}"
  shows "\<exists>e s'. Answer parse (dbResolver lb sha (closedDb d) now) server
    \<lparr>reqEndpoint = endpoint, reqOrigin = origin, reqRoomID = room, reqEventID = eid, reqBody = body\<rparr> s = (Inl e, s')"
proof (cases "endpoint = ''event''")
  case True
  from closed_event [of d eid "rstore s"] obtain q s1 where "GetEvent (closedDb d) eid (rstore s) = (Inl (QueryError q ''closed pool''), s1)" by blast
  with True show ?thesis by (simp add: Answer_def dbResolver_def resolveEvent_def attempt_def bnd_def failwith_def matrixError_def)
next
  case False
  with assms have "endpoint = ''state_ids''" by simp
  then show ?thesis
    by (simp add: Answer_def dbResolver_def StateIDs_def checkAccess_def asks_def bnd_def IsPartialStateRoom_def rbind_def closed_queries matrixError_def)
qed

lemma recordReq_total:
  assumes "rDiffs r = Some w"
  shows "\<exists>w'. rDiffs (recordReq t req proxy rec r) = Some w' \<and> totalOf n m (wstats w') =
    totalOf n m (wstats w) + (if n = rqEndpoint req \<and> \<not> m then 1 else 0)"
proof -
  let ?w = "Observe (tNow t) (rqEndpoint req) False w"
  have "totalOf n m (wstats ?w) = totalOf n m (wstats w) + (if n = rqEndpoint req \<and> \<not> m then 1 else 0)"
    using turn_total [of n m "\<lambda>_. []" "\<lambda>_. 0" "Count (tNow t) (rqEndpoint req) False" "(w, undefined)"] by auto
  moreover have "wstats (snd (Log btext now rec' ?w)) = wstats ?w" for btext now rec' by (simp add: Log_def Let_def)
  ultimately show ?thesis using assms by (simp add: recordReq_def logRecord_def observed_def Let_def)
qed

lemma LogTurns:
  "rDiffs (enRunner s) = Some w \<Longrightarrow> turns (tText (cpTools c)) (cpLineLen c) ts (w, enDir s) = (w', d') \<Longrightarrow>
    rDiffs (enRunner (endSteps c (map LogTurn ts) s)) = Some w' \<and> enDir (endSteps c (map LogTurn ts) s) = d'"
proof (induction ts arbitrary: s w)
  case (Cons t ts)
  obtain w1 d1 where t: "turnOf (tText (cpTools c)) (cpLineLen c) t (w, enDir s) = (w1, d1)" by fastforce
  with Cons show ?case by (simp add: endSteps_def turns_def)
qed (simp add: endSteps_def turns_def)

text \<open>A comparison that comes to its turn between the closing of the database and that of the difference log
  is counted as a disagreement, whatever the two answers are, and the last checkpoint saves it: the
  quiet window of the endpoint starts again.\<close>

theorem shutdown_counts_a_disagreement:
  assumes "rDiffs (enRunner s) = Some w" and "tVerify (cpTools c) = None" and "rqEndpoint req \<in> {''event'', ''state_ids''}"
    and late: "rDiffs (enRunner (endSteps c [ClosesDb, Compares req proxy] s)) = Some w1"
    and drained: "turns (tText (cpTools c)) (cpLineLen c) (Shut # takes) (w1, enDir s) = (w2, d2)" "counted (rqEndpoint req) False takes = 0"
    and checkpoint: "checkpointAt (Ending fails now) w2 \<noteq> None"
  shows "savedTotal (rqEndpoint req) False
      (savedStats (enDir (endSteps c ([ClosesDb, Compares req proxy] @ map LogTurn (Shut # takes @ [Ending fails now])) s))) =
    totalOf (rqEndpoint req) False (wstats w) + 1"
proof -
  let ?n = "rqEndpoint req" and ?s = "endSteps c [ClosesDb, Compares req proxy] s"
  obtain e s' where "Answer (tParse (cpTools c)) (dbResolver (cpLib c) (cpSha c) (closedDb (enDb s)) (tNow (cpTools c))) (cpServer c)
      \<lparr>reqEndpoint = ?n, reqOrigin = rqOrigin req, reqRoomID = rqRoomID req, reqEventID = rqEventID req, reqBody = rqBody req\<rparr> (enResolver s) = (Inl e, s')"
    using closed_answer [OF assms(3)] by blast
  let ?rec = "(blankRecord (internalKind (cpTools c) e))\<lparr>recNativeError := tErrText (cpTools c) e\<rparr>"
  from \<open>Answer _ _ _ _ _ = _\<close> have "enRunner ?s = recordReq (cpTools c) req proxy ?rec (enRunner s)" and dir: "enDir ?s = enDir s"
    by (simp_all add: endSteps_def Runner.run_def verifyOrigin_def assms(2))
  with recordReq_total [OF assms(1), of "cpTools c" req proxy ?rec ?n False] late have w1: "totalOf ?n False (wstats w1) = totalOf ?n False (wstats w) + 1"
    by auto
  have "counted ?n False (Shut # takes) = 0" using drained(2) by (simp add: counted_def)
  with turns_counted [OF drained(1), of ?n False] have w2: "totalOf ?n False (wstats w2) = totalOf ?n False (wstats w1)" by simp
  let ?wd = "turnOf (tText (cpTools c)) (cpLineLen c) (Ending fails now) (w2, d2)"
  have "turns (tText (cpTools c)) (cpLineLen c) (Shut # takes @ [Ending fails now]) (w1, enDir ?s) = ?wd"
    using drained(1) by (simp add: turns_def dir)
  with LogTurns [OF late] have dir2: "enDir (endSteps c (map LogTurn (Shut # takes @ [Ending fails now])) ?s) = snd ?wd" by (metis prod.collapse)
  have split: "endSteps c ([ClosesDb, Compares req proxy] @ es) s = endSteps c es ?s" for es by (simp add: endSteps_def)
  from checkpoint obtain tm where "checkpointAt (Ending fails now) w2 = Some tm" by blast
  then have saved: "savedStats (snd ?wd) = Saved (checkpointOf w2 tm)" unfolding turn_saved by simp
  show ?thesis unfolding split dir2 saved by (simp add: savedTotal_def loadStats_def w1 w2)
qed

text \<open>A worker that has counted nothing ends with one disagreement in the file.\<close>

definition lateTools :: comparing where
  "lateTools = \<lparr>cpTools = missingTools, cpLib = refLib, cpSha = \<lambda>x. x, cpServer = ''me'', cpLineLen = \<lambda>r. 5\<rparr>"

definition lateStart :: ending where
  "lateStart = \<lparr>enDb = visDb ''join'', enResolver = freshResolver, enRunner = NewRunner (Some smallWriter) 1, enDir = emptyDir\<lparr>activeFile := Some []\<rparr>\<rparr>"

lemma late_writer:
  "\<exists>w r. rDiffs (enRunner (endSteps lateTools [ClosesDb, Compares idsReq okProxy] lateStart)) = Some w \<and>
     \<not> wdone w \<and> \<not> wclosed w \<and> queue w = [r]"
proof -
  let ?a = "Answer missingParse (dbResolver refLib (\<lambda>x. x) (closedDb (visDb ''join'')) 9) ''me''
      \<lparr>reqEndpoint = ''state_ids'', reqOrigin = ''srv'', reqRoomID = ''!r'', reqEventID = '''', reqBody = ''req''\<rparr> freshResolver"
  obtain e s' where "?a = (Inl e, s')" using closed_answer [of "''state_ids''"] by blast
  then show ?thesis
    by (simp add: endSteps_def lateTools_def lateStart_def Runner.run_def verifyOrigin_def missingTools_def idsReq_def missingReq_def recordReq_def
        logRecord_def observed_def NewRunner_def smallWriter_def Observe_def Log_def applyDefaults_def smallOptions_def Let_def)
qed

theorem shutdown_counts_a_disagreement_witness:
  "savedTotal ''state_ids'' False (savedStats (enDir (endSteps lateTools ([ClosesDb, Compares idsReq okProxy] @
       map LogTurn (Shut # [TakeOne noFailures 0] @ [Ending noFailures 7])) lateStart))) = 1"
proof -
  obtain w r where w: "rDiffs (enRunner (endSteps lateTools [ClosesDb, Compares idsReq okProxy] lateStart)) = Some w"
    "\<not> wdone w" "\<not> wclosed w" "queue w = [r]" using late_writer by blast
  let ?d = "enDir lateStart"
  obtain w2 d2 where t: "turns (tText (cpTools lateTools)) (cpLineLen lateTools) (Shut # [TakeOne noFailures 0]) (w, ?d) = (w2, d2)" by fastforce
  have "sameQueue (w\<lparr>wclosed := True, queue := []\<rparr>) w2"
    using t w writeRecord_accounted [of "w\<lparr>wclosed := True, queue := []\<rparr>" "cpLineLen lateTools" noFailures 0 r ?d]
    by (simp add: turns_def closeQueue_def loopRecord_def accounted_def)
  then have "checkpointAt (Ending noFailures 7) w2 \<noteq> None" using w by (simp add: sameQueue_def noFailures_def)
  with shutdown_counts_a_disagreement [OF _ _ _ w(1) t, of smallWriter noFailures 7] show ?thesis
    by (simp add: lateStart_def lateTools_def missingTools_def idsReq_def NewRunner_def counted_def totalOf_def endpointOf_def smallWriter_def noStats_def
        noEndpoint_def)
qed

end
