(* ===== verification/Spec2Isabelle.thy ===== *)
theory Spec2Isabelle
  imports Coalesce Races Handler Runner Diagnose FedAuth Proxy Canary Strata Lifecycle
begin

text \<open>
  \<^bold>\<open>A verification development of synapse-gopro-worker\<close>, a worker that answers four read-only federation
  endpoints of a Matrix homeserver, \<open>/event\<close>, \<open>/state\<close>, \<open>/state_ids\<close> and \<open>/get_missing_events\<close>, from the
  database of Synapse.  Each endpoint is in one of four modes: proxied to Synapse, proxied and compared
  in the shadow, answered here for a share of the requests and compared afterwards, or answered here.

  \<^bold>\<open>The program and its parts.\<close>  A request enters \<open>internal/fedapi\<close>, which routes it, decides by its mode
  and a hash of the question whether to answer it, takes a slot of the rate limiter
  (\<open>internal/ratelimit\<close>), has its signature verified (\<open>internal/fedauth\<close>) and asks \<open>internal/native\<close>, which
  dispatches to the resolvers of \<open>internal/matrixstate\<close>.  These read the database through
  \<open>internal/store\<close>, whose caches (\<open>internal/cache\<close>) are kept right by the subscriber of
  \<open>internal/replication\<close>.  What is not answered goes through \<open>internal/proxy\<close>.  The runner of
  \<open>internal/shadow\<close> compares answers with Synapse's, event by event with \<open>internal/pducmp\<close>, and records
  disagreements with \<open>internal/difflog\<close>.  \<open>internal/config\<close> says what runs, \<open>cmd/gopro-worker\<close> puts it
  together, and the programs \<open>cmd/eventsweep\<close>, \<open>cmd/statesweep\<close> and \<open>cmd/gmesweep\<close> generate traffic.

  \<^bold>\<open>Which theory models what\<close>, with the Go names kept wherever Isabelle allows them.

  \<^item> \<open>Prelude\<close>: errors as sums (\<open>result\<close>), operations on a state that may fail (\<open>comp\<close>, \<open>bnd\<close>), Go maps as
    association lists with distinct keys (\<open>gomap\<close>), and what the program uses of \<open>strings\<close> and \<open>strconv\<close>.
    \<open>GoJson\<close>: JSON documents and the decoding rules of \<open>encoding/json\<close> (names without regard to case, the last
    one wins), and the record \<open>lib\<close> of the third-party editors.
  \<^item> \<open>Lru\<close> (\<open>cache/lru.go\<close>): the linked list and hash map of the cache, its byte bound, arming; it refines a
    list in order of use.  \<open>CacheStores\<close> (\<open>stores.go\<close>, \<open>trace.go\<close>): settings, key of an auth chain, request trace.
  \<^item> \<open>RateLimit\<close> (\<open>ratelimit\<close>): the locked regions of \<open>Acquire\<close> as functions and the goroutines as a step
    relation, with release, abandonment and cleanup.
  \<^item> \<open>Database\<close>: the tables and the SQL statements as functions of them, each of which may fail.  \<open>StoreCaches\<close>,
    \<open>StoreEvents\<close>, \<open>StoreState\<close>, \<open>AuthChain\<close>, \<open>MissingEvents\<close> (\<open>store\<close>): event loading with redactions, state
    groups, auth chains by the cover index and by the walk, the walk over missing events, room reads.
  \<^item> \<open>Acl\<close>, \<open>PduJson\<close>, \<open>Resolver\<close>, \<open>Answers\<close>, \<open>StateStream\<close>, \<open>Coalesce\<close> (\<open>matrixstate\<close>): server ACLs, redacted
    and wire forms, access gates and visibility, the answers, the streamed \<open>/state\<close> with its digests and the scan
    that reads them back, and the sharing of \<open>/state_ids\<close> runs.  \<open>Pducmp\<close>: comparison and canonical form of events.
  \<^item> \<open>Replication\<close>, \<open>Freshness\<close>, \<open>Races\<close> (\<open>replication\<close>): the subscriber as a step function, and the world of
    requests, database changes, rows and outages as a step relation; in \<open>Races\<close> requests overlap, each load being a
    lookup, a read and a fill at different times.
  \<^item> \<open>Config\<close>, \<open>Routing\<close>, \<open>Native\<close>, \<open>Handler\<close> (\<open>config\<close>, \<open>native\<close>, \<open>fedapi\<close>): modes and validation, routes and
    sampling, dispatch, and one request from its arrival to its answer.
  \<^item> \<open>Canary\<close> (\<open>fedapi\<close>, \<open>shadow/state.go\<close>): the replay and check of served answers, the forward under comparison and
    the digesting sink, where handler, proxy and runner meet.
  \<^item> \<open>FedAuth\<close>, \<open>Proxy\<close>: key caches, notaries and verification; backends, rewriting and the recorder.
  \<^item> \<open>Difflog\<close>, \<open>Checkpoint\<close>, \<open>Compare\<close>, \<open>Runner\<close>, \<open>Diagnose\<close> (\<open>difflog\<close>, \<open>shadow\<close>): the log with its queue, rotation
    and report, the saving of its counters over crashes and their export, the comparators, scheduling and counting of comparisons, and the diagnosis of a \<open>/state\<close> mismatch.
  \<^item> \<open>Worker\<close>, \<open>Lifecycle\<close>, \<open>Sweeps\<close>, \<open>Strata\<close> (\<open>cmd\<close>): assembly of the worker and its health check; what ends it and
    how it is taken apart while comparisons go on; the sweeps; the statements by which \<open>eventsweep\<close> samples events, and the worker's answers about what they sample.

  \<^bold>\<open>What the theorems show.\<close>  The first group is about answers: \<open>/event\<close>, \<open>/state_ids\<close>, \<open>/state\<close> and
  \<open>/get_missing_events\<close> are exact functions of the database, guarded by membership, ACL and history visibility,
  and leak nothing even when statements fail; event loading, state groups, auth chains and the missing events
  walk are exact and end.  The second is about time: caches are bounded, are armed only under a confirmed
  subscription, are emptied by every row that is not understood, and never make an answer other than that of the
  current database, except after a load that stored what it had read once the row that took it back was applied, and
  what such a load can do is shown as well; the limiter loses no slot and no wakeup; coalesced callers get their
  own answer.  The third is about the request: one answer each, natively only for a verified server that is in the
  room, the recorder only observes.  The fourth is about the evidence: a match of a served answer means that
  Synapse, asked again, agrees with the whole of what the client was sent, and identical answers match; every
  comparison is counted once, the diagnosis is the multiset difference, every record submitted to the log is
  accounted for over every failing disk, its counters survive crashes, and ready means a quiet window; the events
  swept as invisible are, under conditions that are spelt out, hidden; a comparison that meets a closed database
  while the worker ends is shown to count against us.  The last is about the whole: an accepted configuration
  starts a complete worker, and what a sweep asks is what the worker reads.

  Interfaces are locales, interpreted on the model: \<open>lossy_cache\<close>, what the stores rely on of the cache (a hit is what
  was stored, the rest may vanish), on the LRU; \<open>comparator\<close>, what the runner relies on, on the three comparators;
  \<open>verifier\<close>, what the handler relies on, on the verification of \<open>FedAuth\<close>; \<open>sweeper\<close>, what resuming relies on, on the
  plans of the three sweeps.

  \<^bold>\<open>Bounds.\<close>  Loops are functions with a termination proof, except the recursive SQL statement over state groups:
  it is followed for one round more than there are edges, and \<open>StoreState\<close> shows that this is enough exactly
  when the edges do not lead into a cycle, where the real statement runs into its deadline.  Hashes, offsets and
  sizes that may wrap are words or carry their width; identifiers and counters are unbounded.

  \<^bold>\<open>Parameters.\<close>  Third-party code is an argument: gjson, sjson and the redaction of mautrix (\<open>lib\<close>), the key
  cache, header parsing and signature check of mautrix (\<open>mautrix\<close>), the calls and aborts of the reverse proxy, SHA-256, the YAML decoder, and the answers of
  the database, of the disk and of the operating system.  Where a theorem relies on them, a named hypothesis says
  what their documentation promises (\<open>redacts_to_objects\<close>, \<open>sets_members\<close>, \<open>separates\<close>, \<open>storesByName\<close>), and a witness
  instantiates it.

  \<^bold>\<open>Not modelled.\<close>  Prometheus collectors other than that of the difference log, and log lines, since nothing reads them back; durations, apart from
  deadlines and windows; the text of the report; sockets, TLS, connection pools and the servers' own loops,
  which are the runtime's; the scheduling of pipes, of which the bytes and the closing are kept.
\<close>

end
